(* ===== verification/Prelude.thy ===== *)
theory Prelude
  imports Main "HOL-Library.Word" "HOL-Library.List_Lexorder" "HOL-Library.AList"
begin

section \<open>Shared vocabulary of the development\<close>

text \<open>
  Bytes, results and machine arithmetic, as every component of the program uses them.
  A Rust \<open>Result<T, E>\<close> that may also panic is a sum: \<open>Inr x\<close> is \<open>Ok(x)\<close>,
  \<open>Inl (Err e)\<close> is \<open>Err(e)\<close> and \<open>Inl Panic\<close> is a panic of the running thread.
  The \<open>?\<close> operator is \<open>and_then\<close> for pure code and \<open>try_op\<close> for code that also
  threads a state. Machine integers are \<open>int\<close> and \<open>nat\<close> with the range, the wrap-around
  and the panic of an overflow written out; which of the two an overflow does depends on
  how the crate was built, a field of \<open>build\<close>.
\<close>

type_synonym byte = "8 word"
type_synonym bytes = "byte list"

datatype 'e fault = Err 'e | Panic

type_synonym ('e, 'a) result = "'e fault + 'a"

named_theorems res_simps \<open>unfolding of result plumbing\<close>
named_theorems inv_intros \<open>introduction rules of the component invariants\<close>

subsection \<open>The question-mark operator\<close>

fun and_then :: "('e, 'a) result \<Rightarrow> ('a \<Rightarrow> ('e, 'b) result) \<Rightarrow> ('e, 'b) result" where
  "and_then (Inl e) k = Inl e"
| "and_then (Inr x) k = k x"

fun try_op :: "('e, 'a) result \<times> 's \<Rightarrow> ('a \<Rightarrow> 's \<Rightarrow> ('e, 'b) result \<times> 's) \<Rightarrow> ('e, 'b) result \<times> 's" where
  "try_op (Inl e, s) k = (Inl e, s)"
| "try_op (Inr x, s) k = k x s"

text \<open>\<open>map_err\<close> is the conversion of the error type that \<open>?\<close> inserts (\<open>From\<close>).\<close>

fun map_err :: "('e \<Rightarrow> 'f) \<Rightarrow> ('e, 'a) result \<Rightarrow> ('f, 'a) result" where
  "map_err f (Inl (Err e)) = Inl (Err (f e))"
| "map_err f (Inl Panic) = Inl Panic"
| "map_err f (Inr x) = Inr x"

text \<open>Evaluation of concrete runs goes through \<open>case\<close>, which leaves the branches not taken alone.\<close>

lemma and_then_case [code_unfold]: "and_then m k = (case m of Inl e \<Rightarrow> Inl e | Inr x \<Rightarrow> k x)"
  by (cases m) auto

lemma try_op_case [code_unfold]:
  "try_op m k = (case m of (r, s) \<Rightarrow> (case r of Inl e \<Rightarrow> (Inl e, s) | Inr x \<Rightarrow> k x s))"
  by (cases "(m, k)" rule: try_op.cases) auto

lemma and_then_cong [fundef_cong]:
  assumes "m = m'" and "\<And>x. m' = Inr x \<Longrightarrow> k x = k' x"
  shows "and_then m k = and_then m' k'"
  using assms by (cases m') auto

lemma and_then_InrE:
  assumes "and_then m k = Inr y"
  obtains x where "m = Inr x" and "k x = Inr y"
  using assms by (cases m) auto

lemma and_then_Inr_iff [res_simps]: "and_then m k = Inr y \<longleftrightarrow> (\<exists>x. m = Inr x \<and> k x = Inr y)"
  by (cases m) auto

lemma and_then_Inl_iff [res_simps]:
  "and_then m k = Inl e \<longleftrightarrow> m = Inl e \<or> (\<exists>x. m = Inr x \<and> k x = Inl e)"
  by (cases m) auto

lemma map_err_Inr_iff [simp]: "map_err f m = Inr x \<longleftrightarrow> m = Inr x"
  by (induction f m rule: map_err.induct) auto

lemma map_err_Panic_iff [simp]: "map_err f m = Inl Panic \<longleftrightarrow> m = Inl Panic"
  by (induction f m rule: map_err.induct) auto

lemma map_err_Err_iff: "map_err f m = Inl (Err e) \<longleftrightarrow> (\<exists>e'. m = Inl (Err e') \<and> e = f e')"
  by (induction f m rule: map_err.induct) auto

subsection \<open>I/O errors\<close>

text \<open>The kinds of \<open>std::io::Error\<close> the program makes or meets by name, and all others.\<close>

datatype io_error = NotFound | AlreadyExists | ConnectionReset | WriteZero | OtherIo string

subsection \<open>Machine integers\<close>

text \<open>
  How the crate was built. \<open>overflow_checks\<close> is on in Cargo's dev profile (an overflow
  panics) and off in its release profile (it wraps). \<open>max_vec_frames\<close> is the largest
  capacity \<open>Vec::<Frame>::with_capacity\<close> accepts: more than \<open>isize::MAX\<close> bytes panics.
\<close>

record build =
  overflow_checks :: bool
  max_vec_frames :: nat

definition in_i64 :: "int \<Rightarrow> bool" where
  "in_i64 x \<longleftrightarrow> - (2 ^ 63) \<le> x \<and> x < 2 ^ 63"

definition wrap_i64 :: "int \<Rightarrow> int" where
  "wrap_i64 x = (x + 2 ^ 63) mod 2 ^ 64 - 2 ^ 63"

text \<open>The value of an \<open>i64\<close> operator whose exact result is \<open>x\<close>.\<close>

definition i64_arith :: "build \<Rightarrow> int \<Rightarrow> ('e, int) result" where
  "i64_arith B x =
     (if in_i64 x then Inr x else if overflow_checks B then Inl Panic else Inr (wrap_i64 x))"

definition checked_i64 :: "int \<Rightarrow> int option" where
  "checked_i64 x = (if in_i64 x then Some x else None)"

text \<open>The value of an addition and of a subtraction of \<open>u64\<close> operands.\<close>

definition in_u64 :: "int \<Rightarrow> bool" where
  "in_u64 x \<longleftrightarrow> 0 \<le> x \<and> x < 2 ^ 64"

definition u64_add :: "build \<Rightarrow> nat \<Rightarrow> nat \<Rightarrow> ('e, nat) result" where
  "u64_add B x y =
     (if in_u64 (int x + int y) then Inr (x + y)
      else if overflow_checks B then Inl Panic else Inr (nat ((int x + int y) mod 2 ^ 64)))"

definition u64_sub :: "build \<Rightarrow> nat \<Rightarrow> nat \<Rightarrow> ('e, nat) result" where
  "u64_sub B x y =
     (if y \<le> x then Inr (x - y)
      else if overflow_checks B then Inl Panic else Inr (nat ((int x - int y) mod 2 ^ 64)))"

lemma wrap_i64_in_range [simp]: "in_i64 (wrap_i64 x)"
  by (simp add: in_i64_def wrap_i64_def)

lemma wrap_i64_id: "in_i64 x \<Longrightarrow> wrap_i64 x = x"
  by (simp add: in_i64_def wrap_i64_def)

lemma wrap_i64_cong: "wrap_i64 x = wrap_i64 y \<longleftrightarrow> x mod 2 ^ 64 = y mod 2 ^ 64"
proof -
  have "wrap_i64 x = wrap_i64 y \<longleftrightarrow> (x + 2 ^ 63) mod 2 ^ 64 = (y + 2 ^ 63) mod 2 ^ 64"
    by (simp add: wrap_i64_def)
  also have "\<dots> \<longleftrightarrow> x mod 2 ^ 64 = y mod 2 ^ 64"
    by (simp add: mod_eq_dvd_iff)
  finally show ?thesis .
qed

lemma wrap_i64_mod: "wrap_i64 x mod 2 ^ 64 = x mod 2 ^ 64"
  using wrap_i64_cong wrap_i64_id wrap_i64_in_range by blast

lemma i64_arith_in_range: "i64_arith B x = Inr y \<Longrightarrow> in_i64 y"
  by (auto simp: i64_arith_def split: if_splits)

lemma i64_arith_exact [simp]: "in_i64 x \<Longrightarrow> i64_arith B x = Inr x"
  by (simp add: i64_arith_def)

lemma i64_arith_not_Err [simp]: "i64_arith B x \<noteq> Inl (Err e)"
  by (simp add: i64_arith_def)

lemma u64_add_exact [simp]: "x + y < 2 ^ 64 \<Longrightarrow> u64_add B x y = Inr (x + y)"
  by (simp add: u64_add_def in_u64_def)

lemma u64_sub_exact [simp]: "y \<le> x \<Longrightarrow> u64_sub B x y = Inr (x - y)"
  by (simp add: u64_sub_def)

subsection \<open>Bytes and slices\<close>

text \<open>ASCII literals (\<open>b"..."\<close>) and \<open>&b[i..j]\<close> for a range inside the slice.\<close>

definition ascii :: "string \<Rightarrow> bytes" where
  "ascii s = map of_char s"

definition sub_slice :: "bytes \<Rightarrow> nat \<Rightarrow> nat \<Rightarrow> bytes" where
  "sub_slice b i j = take (j - i) (drop i b)"

abbreviation CR :: byte where "CR \<equiv> 13"
abbreviation LF :: byte where "LF \<equiv> 10"

abbreviation crlf :: bytes where "crlf \<equiv> [CR, LF]"

lemma length_ascii [simp]: "length (ascii s) = length s"
  by (simp add: ascii_def)

lemma ascii_Nil [simp]: "ascii [] = []"
  by (simp add: ascii_def)

lemma ascii_Cons: "ascii (c # s) = of_char c # ascii s"
  by (simp add: ascii_def)

lemma ascii_append: "ascii (s @ t) = ascii s @ ascii t"
  by (simp add: ascii_def)

lemma length_sub_slice [simp]: "j \<le> length b \<Longrightarrow> length (sub_slice b i j) = j - i"
  by (simp add: sub_slice_def)

lemma sub_slice_append1: "j \<le> length b \<Longrightarrow> sub_slice (b @ c) i j = sub_slice b i j"
  by (simp add: sub_slice_def)

lemma sub_slice_middle: "sub_slice (a @ m @ c) (length a) (length a + length m) = m"
  by (simp add: sub_slice_def)

lemma set_sub_slice: "set (sub_slice b i j) \<subseteq> set b"
  unfolding sub_slice_def by (meson in_set_dropD in_set_takeD subsetI)

lemma sub_slice_nth: "i \<le> k \<Longrightarrow> k < j \<Longrightarrow> j \<le> length b \<Longrightarrow> b ! k = sub_slice b i j ! (k - i)"
  by (simp add: sub_slice_def)

lemma in_set_sub_slice:
  assumes "x \<in> set (sub_slice b i j)" and "j \<le> length b"
  shows "\<exists>k. i \<le> k \<and> k < j \<and> b ! k = x"
proof -
  from assms obtain n where "n < length (sub_slice b i j)" and x: "sub_slice b i j ! n = x"
    by (auto simp: in_set_conv_nth)
  with assms(2) have n: "n < j - i" by simp
  with assms(2) x have "b ! (i + n) = x" by (simp add: sub_slice_def)
  with n show ?thesis by (intro exI[of _ "i + n"]) auto
qed

end
