(* ===== verification/FileSystem.thy ===== *)
theory FileSystem
  imports Prelude
begin

section \<open>The data directory\<close>

text \<open>
  What the storage engine uses of \<open>std::fs\<close>: one directory of files. A name leads to an
  inode, which keeps its bytes as long as a handle or a mapping of it may be used, after the
  name is gone too. \<open>faults\<close> is the fate of the coming system calls: \<open>None\<close> lets a call do
  its work, \<open>Some (e, n)\<close> makes it fail with \<open>e\<close>, a write after \<open>n\<close> of its bytes. Calls
  behind the end of the list succeed.
\<close>

record fs =
  dir :: "(bytes \<times> nat) list"
  idata :: "nat \<Rightarrow> bytes"
  inext :: nat
  faults :: "(io_error \<times> nat) option list"

definition empty_fs :: fs where
  "empty_fs = \<lparr>dir = [], idata = (\<lambda>_. []), inext = 0, faults = []\<rparr>"

definition next_fault :: "fs \<Rightarrow> (io_error \<times> nat) option \<times> fs" where
  "next_fault fs = (case faults fs of [] \<Rightarrow> (None, fs) | f # fl \<Rightarrow> (f, fs\<lparr>faults := fl\<rparr>))"

text \<open>A call that fails as the next fault says, or does its work.\<close>

definition sys_call :: "fs \<Rightarrow> (fs \<Rightarrow> (io_error, 'a) result \<times> fs) \<Rightarrow> (io_error, 'a) result \<times> fs" where
  "sys_call fs act =
     (case next_fault fs of
        (Some (e, n), fs') \<Rightarrow> (Inl (Err e), fs')
      | (None, fs') \<Rightarrow> act fs')"

text \<open>
  \<open>OpenOptions::new().append(true).create_new(true).open(path)\<close>. Inodes are given out once; a
  file system has fewer than \<open>2 ^ 63\<close>.
\<close>

definition create_new :: "bytes \<Rightarrow> fs \<Rightarrow> (io_error, nat) result \<times> fs" where
  "create_new name fs = sys_call fs (\<lambda>fs.
     if map_of (dir fs) name \<noteq> None then (Inl (Err AlreadyExists), fs)
     else if \<not> in_i64 (int (inext fs)) then (Inl (Err (OtherIo ''ENOSPC'')), fs)
     else (Inr (inext fs),
           fs\<lparr>dir := (name, inext fs) # dir fs, idata := (idata fs)(inext fs := []), inext := inext fs + 1\<rparr>))"

text \<open>\<open>OpenOptions::new().read(true).open(path)\<close>.\<close>

definition open_read :: "bytes \<Rightarrow> fs \<Rightarrow> (io_error, nat) result \<times> fs" where
  "open_read name fs = sys_call fs (\<lambda>fs.
     case map_of (dir fs) name of None \<Rightarrow> (Inl (Err NotFound), fs) | Some i \<Rightarrow> (Inr i, fs))"

definition remove_file :: "bytes \<Rightarrow> fs \<Rightarrow> (io_error, unit) result \<times> fs" where
  "remove_file name fs = sys_call fs (\<lambda>fs.
     if map_of (dir fs) name = None then (Inl (Err NotFound), fs)
     else (Inr (), fs\<lparr>dir := AList.delete name (dir fs)\<rparr>))"

text \<open>\<open>fs::metadata(path)?.len()\<close>.\<close>

definition metadata_len :: "bytes \<Rightarrow> fs \<Rightarrow> (io_error, nat) result \<times> fs" where
  "metadata_len name fs = sys_call fs (\<lambda>fs.
     case map_of (dir fs) name of
       None \<Rightarrow> (Inl (Err NotFound), fs)
     | Some i \<Rightarrow> (Inr (length (idata fs i)), fs))"

definition read_dir :: "fs \<Rightarrow> (io_error, bytes list) result \<times> fs" where
  "read_dir fs = sys_call fs (\<lambda>fs. (Inr (map fst (dir fs)), fs))"

definition sync_all :: "nat \<Rightarrow> fs \<Rightarrow> (io_error, unit) result \<times> fs" where
  "sync_all i fs = sys_call fs (\<lambda>fs. (Inr (), fs))"

definition stream_len :: "nat \<Rightarrow> fs \<Rightarrow> (io_error, nat) result \<times> fs" where
  "stream_len i fs = sys_call fs (\<lambda>fs. (Inr (length (idata fs i)), fs))"

definition append_bytes :: "nat \<Rightarrow> bytes \<Rightarrow> fs \<Rightarrow> fs" where
  "append_bytes i d fs = fs\<lparr>idata := (idata fs)(i := idata fs i @ d)\<rparr>"

text \<open>
  Writing all of \<open>d\<close> at the end of a file. The number is how much of \<open>d\<close> was written. No file
  grows beyond the largest offset, \<open>2 ^ 63 - 1\<close>.
\<close>

definition write_file :: "nat \<Rightarrow> bytes \<Rightarrow> fs \<Rightarrow> (io_error, unit) result \<times> nat \<times> fs" where
  "write_file i d fs =
     (if d = [] then (Inr (), 0, fs)
      else case next_fault fs of
        (Some (e, n), fs') \<Rightarrow> (Inl (Err e), min n (length d), append_bytes i (take n d) fs')
      | (None, fs') \<Rightarrow>
          if in_i64 (int (length (idata fs i)) + int (length d))
          then (Inr (), length d, append_bytes i d fs') else (Inl (Err (OtherIo ''EFBIG'')), 0, fs'))"

subsection \<open>Facts\<close>

lemma next_fault_none [simp]: "faults fs = [] \<Longrightarrow> next_fault fs = (None, fs)"
  by (simp add: next_fault_def)

lemma next_fault_keeps:
  assumes "next_fault fs = (f, fs')"
  shows "dir fs' = dir fs" and "idata fs' = idata fs" and "inext fs' = inext fs"
    and "faults fs = [] \<longleftrightarrow> faults fs' = [] \<and> faults fs = []"
  using assms by (auto simp: next_fault_def split: list.splits)

lemma sys_call_none [simp]: "faults fs = [] \<Longrightarrow> sys_call fs act = act fs"
  by (simp add: sys_call_def)

lemma sys_call_Inr:
  assumes "sys_call fs act = (Inr x, fs')"
  obtains fs1 where "dir fs1 = dir fs" and "idata fs1 = idata fs" and "inext fs1 = inext fs"
    and "act fs1 = (Inr x, fs')"
  using assms next_fault_keeps[of fs]
  by (auto simp: sys_call_def split: option.splits prod.splits)

text \<open>\<open>same_files\<close>: nothing but the coming faults differs, and none appeared.\<close>

definition same_files :: "fs \<Rightarrow> fs \<Rightarrow> bool" where
  "same_files fs fs' \<longleftrightarrow> dir fs' = dir fs \<and> idata fs' = idata fs \<and> inext fs' = inext fs \<and>
     (faults fs = [] \<longrightarrow> faults fs' = [])"

lemma same_files_refl [simp]: "same_files fs fs"
  by (simp add: same_files_def)

lemma same_files_trans: "same_files a b \<Longrightarrow> same_files b c \<Longrightarrow> same_files a c"
  by (simp add: same_files_def)

lemma next_fault_same: "next_fault fs = (f, fs') \<Longrightarrow> same_files fs fs'"
  by (auto simp: same_files_def next_fault_def split: list.splits)

lemma sys_call_same:
  assumes "sys_call fs act = (r, fs')" and "\<And>fs1. same_files fs1 (snd (act fs1))"
  shows "same_files fs fs'"
  using assms next_fault_same[of fs]
  by (auto simp: sys_call_def split: option.splits prod.splits) (metis same_files_trans snd_conv)

lemma open_read_same: "open_read name fs = (r, fs') \<Longrightarrow> same_files fs fs'"
  unfolding open_read_def by (erule sys_call_same) (auto split: option.split)

lemma metadata_len_same: "metadata_len name fs = (r, fs') \<Longrightarrow> same_files fs fs'"
  unfolding metadata_len_def by (erule sys_call_same) (auto split: option.split)

lemma read_dir_same: "read_dir fs = (r, fs') \<Longrightarrow> same_files fs fs'"
  unfolding read_dir_def by (erule sys_call_same) auto

lemma sync_all_same: "sync_all i fs = (r, fs') \<Longrightarrow> same_files fs fs'"
  unfolding sync_all_def by (erule sys_call_same) auto

lemma stream_len_same: "stream_len i fs = (r, fs') \<Longrightarrow> same_files fs fs'"
  unfolding stream_len_def by (erule sys_call_same) auto

lemma open_read_Inr: "open_read name fs = (Inr i, fs') \<Longrightarrow> map_of (dir fs) name = Some i"
  unfolding open_read_def by (erule sys_call_Inr) (auto split: option.splits)

lemma stream_len_Inr: "stream_len i fs = (Inr n, fs') \<Longrightarrow> n = length (idata fs i)"
  unfolding stream_len_def by (erule sys_call_Inr) auto

lemma create_new_Inr:
  assumes "create_new name fs = (Inr i, fs')"
  shows "map_of (dir fs) name = None" and "i = inext fs" and "dir fs' = (name, inext fs) # dir fs"
    and "idata fs' = (idata fs)(inext fs := [])" and "inext fs' = Suc (inext fs)" and "inext fs < 2 ^ 63"
  using assms unfolding create_new_def by (auto simp: in_i64_def elim!: sys_call_Inr split: if_splits)

lemma create_new_Inl: "create_new name fs = (Inl e, fs') \<Longrightarrow> same_files fs fs'"
  unfolding create_new_def sys_call_def
  using next_fault_same[of fs] by (auto split: option.splits prod.splits if_splits)

lemma write_file_cases:
  assumes "write_file i d fs = (r, n, fs')"
  shows "dir fs' = dir fs \<and> inext fs' = inext fs \<and> n \<le> length d \<and>
     idata fs' = (idata fs)(i := idata fs i @ take n d) \<and>
     (\<forall>u. r = Inr u \<longrightarrow> n = length d \<and> (d \<noteq> [] \<longrightarrow> length (idata fs i) + length d < 2 ^ 63))"
proof (cases "d = []")
  case True
  with assms show ?thesis by (auto simp: write_file_def)
next
  case False
  obtain f fs1 where f: "next_fault fs = (f, fs1)" by fastforce
  note same = next_fault_keeps[OF f]
  show ?thesis
  proof (cases f)
    case None
    show ?thesis
    proof (cases "in_i64 (int (length (idata fs i)) + int (length d))")
      case True
      with assms False f None have "r = Inr ()" "n = length d" "fs' = append_bytes i d fs1"
        by (simp_all add: write_file_def)
      with same True show ?thesis by (auto simp: append_bytes_def in_i64_def)
    next
      case big: False
      with assms False f None have "r = Inl (Err (OtherIo ''EFBIG''))" "n = 0" "fs' = fs1"
        by (simp_all add: write_file_def)
      with same show ?thesis by simp
    qed
  next
    case (Some x)
    obtain e k where "x = (e, k)" by fastforce
    with assms False f Some have "r = Inl (Err e)" "n = min k (length d)"
      "fs' = append_bytes i (take k d) fs1" by (simp_all add: write_file_def)
    moreover have "take k d = take (min k (length d)) d" by (simp add: min_def)
    ultimately show ?thesis using same by (simp add: append_bytes_def)
  qed
qed

text \<open>\<open>fs_ok\<close>: names are distinct and lead to inodes that were given out.\<close>

definition fs_ok :: "fs \<Rightarrow> bool" where
  "fs_ok fs \<longleftrightarrow> distinct (map fst (dir fs)) \<and> (\<forall>(name, i) \<in> set (dir fs). i < inext fs)
     \<and> distinct (map snd (dir fs))"

lemma fs_ok_empty [simp]: "fs_ok empty_fs"
  by (simp add: fs_ok_def empty_fs_def)

lemma fs_ok_same: "same_files fs fs' \<Longrightarrow> fs_ok fs' = fs_ok fs"
  by (simp add: fs_ok_def same_files_def)

end
