(* ===== verification/Deps.thy ===== *)
theory Deps
  imports FileSystem
begin

section \<open>Log entries and the crates the engine rests on\<close>

text \<open>
  The two kinds of log entries of src/storage/bitcask.rs, and what the engine uses of the
  crates \<open>bincode\<close> (serialization) and \<open>lru\<close> (the cache of readers). The crates are not part
  of the repository: they are the record \<open>deps\<close> of functions, a parameter of every definition
  that uses them, with their documented laws in the locale \<open>deps_laws\<close>.
\<close>

record data_entry =
  d_tstamp :: int
  d_key :: bytes
  d_value :: "bytes option"

record hint_entry =
  h_tstamp :: int
  h_len :: nat
  h_pos :: nat
  h_key :: bytes

text \<open>
  How \<open>bincode\<close> fails: the input ends inside a value, another I/O error of the reader below
  it, or bytes that are no value. \<open>Oversized\<close> is a length in the input that no buffer can have.
  Reading from a stream, \<open>bincode\<close> resizes its buffer to the length before it reads, which panics;
  reading from a slice it compares the length with the slice and reports the end of the input.
\<close>

datatype codec_error = UnexpectedEof | CodecIo io_error | Malformed | Oversized

text \<open>A \<open>LogReader\<close> of src/storage/bitcask/log.rs: an open file and how much of it is mapped.\<close>

record log_reader =
  rd_file :: nat
  mmap_len :: nat

text \<open>
  A decoder gets the rest of the input and returns the value and how many bytes it took.
  \<open>lru_get\<close> looks a reader up; \<open>lru_store\<close> writes through the reference of \<open>get_mut\<close>, which
  also marks the entry as used; \<open>lru_put\<close> adds an entry and may drop another.
\<close>

record 'l deps =
  enc_data :: "data_entry \<Rightarrow> bytes"
  dec_data :: "bytes \<Rightarrow> codec_error + data_entry \<times> nat"
  enc_hint :: "hint_entry \<Rightarrow> bytes"
  dec_hint :: "bytes \<Rightarrow> codec_error + hint_entry \<times> nat"
  lru_new :: "nat \<Rightarrow> 'l"
  lru_get :: "nat \<Rightarrow> 'l \<Rightarrow> log_reader option"
  lru_store :: "nat \<Rightarrow> log_reader \<Rightarrow> 'l \<Rightarrow> 'l"
  lru_put :: "nat \<Rightarrow> log_reader \<Rightarrow> 'l \<Rightarrow> 'l"

definition entry_ok :: "data_entry \<Rightarrow> bool" where
  "entry_ok e \<longleftrightarrow> in_i64 (d_tstamp e) \<and> in_i64 (int (length (d_key e))) \<and>
     (case d_value e of None \<Rightarrow> True | Some v \<Rightarrow> in_i64 (int (length v)))"

definition hint_ok :: "hint_entry \<Rightarrow> bool" where
  "hint_ok h \<longleftrightarrow> in_i64 (h_tstamp h) \<and> in_u64 (int (h_len h)) \<and> in_u64 (int (h_pos h)) \<and>
     in_i64 (int (length (h_key h)))"

text \<open>
  \<open>bincode\<close> decodes what it encoded, from the front of any input, and reports a value that is
  cut off as the end of the input. The cache keeps what it holds until it drops it.
\<close>

locale deps_laws =
  fixes D :: "'l deps"
  assumes dec_enc_data: "entry_ok e \<Longrightarrow> dec_data D (enc_data D e @ rest) = Inr (e, length (enc_data D e))"
    and dec_data_cut: "entry_ok e \<Longrightarrow> b @ c = enc_data D e \<Longrightarrow> c \<noteq> [] \<Longrightarrow> dec_data D b = Inl UnexpectedEof"
    and dec_enc_hint: "hint_ok h \<Longrightarrow> dec_hint D (enc_hint D h @ rest) = Inr (h, length (enc_hint D h))"
    and dec_hint_cut: "hint_ok h \<Longrightarrow> b @ c = enc_hint D h \<Longrightarrow> c \<noteq> [] \<Longrightarrow> dec_hint D b = Inl UnexpectedEof"
    and enc_data_length: "length (d_key e) + (case d_value e of None \<Rightarrow> 0 | Some v \<Rightarrow> length v) \<le> length (enc_data D e)"
    and lru_get_new: "lru_get D k (lru_new D n) = None"
    and lru_get_store: "lru_get D k l \<noteq> None \<Longrightarrow>
        lru_get D k' (lru_store D k r l) = (if k' = k then Some r else lru_get D k' l)"
    and lru_get_put: "lru_get D k (lru_put D k r l) = Some r"
    and lru_put_other: "k' \<noteq> k \<Longrightarrow> lru_get D k' (lru_put D k r l) = None \<or>
        lru_get D k' (lru_put D k r l) = lru_get D k' l"
begin

lemma enc_data_nonempty:
  assumes "entry_ok e"
  shows "enc_data D e \<noteq> []"
proof
  assume n: "enc_data D e = []"
  define f where "f = e\<lparr>d_tstamp := if d_tstamp e = 0 then 1 else 0\<rparr>"
  have f: "entry_ok f" using assms by (simp add: entry_ok_def in_i64_def f_def)
  from dec_enc_data[OF assms, of "enc_data D f"] n dec_enc_data[OF f, of "[]"] have "e = f" by simp
  then have "d_tstamp e = d_tstamp f" by simp
  then show False by (simp add: f_def split: if_splits)
qed

lemma dec_data_empty: "dec_data D [] = Inl UnexpectedEof"
proof -
  let ?e = "\<lparr>d_tstamp = 0, d_key = [], d_value = None\<rparr>"
  have e: "entry_ok ?e" by (simp add: entry_ok_def in_i64_def)
  show ?thesis by (rule dec_data_cut[OF e, of _ "enc_data D ?e"]) (simp_all add: enc_data_nonempty[OF e])
qed

end

end
