(* ===== verification/Decimal.thy ===== *)
theory Decimal
  imports Prelude
begin

section \<open>Decimal text of integers\<close>

text \<open>
  What the program uses of Rust's integer formatting and parsing: \<open>Display\<close> of \<open>u64\<close> and
  \<open>i64\<close> (\<open>write!(buf, "{value}")\<close> in \<open>src/net/connection.rs\<close>, \<open>format!("{fileid}...")\<close> in
  \<open>src/storage/bitcask/utils.rs\<close>) and \<open>str::parse::<u64>\<close>. The lemmas give the value of the
  text back, its length, and that two numbers with one text are equal.
\<close>

fun dec_nat :: "nat \<Rightarrow> bytes" where
  "dec_nat n = (if n < 10 then [48 + of_nat n] else dec_nat (n div 10) @ [48 + of_nat (n mod 10)])"

declare dec_nat.simps [simp del]

definition dec_int :: "int \<Rightarrow> bytes" where
  "dec_int i = (if i < 0 then 45 # dec_nat (nat (- i)) else dec_nat (nat i))"

definition is_digit :: "byte \<Rightarrow> bool" where
  "is_digit b \<longleftrightarrow> 48 \<le> b \<and> b \<le> 57"

definition digit_val :: "byte \<Rightarrow> nat" where
  "digit_val b = unat b - 48"

definition digits_val :: "bytes \<Rightarrow> nat" where
  "digits_val ds = foldl (\<lambda>acc d. 10 * acc + digit_val d) 0 ds"

text \<open>\<open>str::parse::<u64>\<close>: an optional plus sign, at least one digit, no overflow.\<close>

definition parse_u64 :: "bytes \<Rightarrow> nat option" where
  "parse_u64 s =
     (let ds = (case s of c # rest \<Rightarrow> if c = 43 then rest else s | [] \<Rightarrow> s)
      in if ds \<noteq> [] \<and> list_all is_digit ds \<and> in_u64 (int (digits_val ds))
         then Some (digits_val ds) else None)"

subsection \<open>Digits\<close>

lemma is_digit_unat: "is_digit b \<longleftrightarrow> 48 \<le> unat b \<and> unat b \<le> 57"
  by (simp add: is_digit_def word_le_nat_alt)

lemma digit_val_le: "is_digit b \<Longrightarrow> digit_val b \<le> 9"
  unfolding is_digit_unat digit_val_def by linarith

lemma unat_digit: "n < 10 \<Longrightarrow> unat (48 + of_nat n :: byte) = 48 + n"
  by (simp add: unat_word_ariths unat_of_nat)

lemma is_digit_of_nat [simp]: "n < 10 \<Longrightarrow> is_digit (48 + of_nat n)"
  by (simp add: is_digit_unat unat_digit)

lemma digit_val_of_nat [simp]: "n < 10 \<Longrightarrow> digit_val (48 + of_nat n) = n"
  by (simp add: digit_val_def unat_digit)

lemma is_digit_simps [simp]: "\<not> is_digit CR" "\<not> is_digit LF" "\<not> is_digit 43" "\<not> is_digit 45" "\<not> is_digit 46"
  by (simp_all add: is_digit_def)

lemma is_digit_neq:
  assumes "is_digit b"
  shows "b \<noteq> CR" "b \<noteq> LF" "b \<noteq> 43" "b \<noteq> 45" "b \<noteq> 46"
  using assms by auto

lemma digits_val_Nil [simp]: "digits_val [] = 0"
  by (simp add: digits_val_def)

lemma digits_val_snoc [simp]: "digits_val (ds @ [d]) = 10 * digits_val ds + digit_val d"
  by (simp add: digits_val_def)

lemma digits_val_bound: "list_all is_digit ds \<Longrightarrow> digits_val ds < 10 ^ length ds"
proof (induction ds rule: rev_induct)
  case (snoc d ds)
  then have "digit_val d \<le> 9" and "digits_val ds < 10 ^ length ds"
    by (simp_all add: digit_val_le)
  then show ?case by simp
qed simp

lemma digits_val_append: "digits_val (xs @ ys) = digits_val xs * 10 ^ length ys + digits_val ys"
  by (induction ys rule: rev_induct) (simp_all flip: append_assoc)

subsection \<open>The text of a natural number\<close>

lemma digits_dec_nat [simp]: "list_all is_digit (dec_nat n)"
proof (induction n rule: dec_nat.induct)
  case (1 n)
  then show ?case by (cases "n < 10") (simp_all add: dec_nat.simps[of n])
qed

lemma digits_val_dec_nat [simp]: "digits_val (dec_nat n) = n"
proof (induction n rule: dec_nat.induct)
  case (1 n)
  show ?case
  proof (cases "n < 10")
    case True
    then show ?thesis by (simp add: dec_nat.simps[of n] digits_val_def)
  next
    case False
    with 1 show ?thesis by (simp add: dec_nat.simps[of n])
  qed
qed

lemma dec_nat_nonempty [simp]: "dec_nat n \<noteq> []"
  by (simp add: dec_nat.simps[of n])

lemma dec_nat_inject [simp]: "dec_nat m = dec_nat n \<longleftrightarrow> m = n"
  by (metis digits_val_dec_nat)

lemma length_dec_nat_le: "n < 10 ^ k \<Longrightarrow> 0 < k \<Longrightarrow> length (dec_nat n) \<le> k"
proof (induction n arbitrary: k rule: dec_nat.induct)
  case (1 n k)
  show ?case
  proof (cases "n < 10")
    case True
    with 1(3) show ?thesis by (simp add: dec_nat.simps[of n])
  next
    case False
    with 1(2,3) obtain j where k: "k = Suc (Suc j)"
      by (cases k; cases "k - 1") auto
    with 1(2) have "n div 10 < 10 ^ Suc j" by (simp add: less_mult_imp_div_less)
    with 1(1)[OF False, of "Suc j"] k False show ?thesis
      by (simp add: dec_nat.simps[of n])
  qed
qed

lemma set_dec_nat: "b \<in> set (dec_nat n) \<Longrightarrow> is_digit b"
  using digits_dec_nat by (metis list_all_iff)

lemma set_dec_int: "b \<in> set (dec_int i) \<Longrightarrow> is_digit b \<or> b = 45"
  by (auto simp: dec_int_def dest: set_dec_nat split: if_splits)

lemma hd_dec_nat [simp]: "is_digit (hd (dec_nat n))"
  by (rule set_dec_nat[of _ n]) simp

text \<open>An \<open>i64\<close> takes at most 20 bytes.\<close>

lemma length_dec_int_i64:
  assumes "in_i64 i"
  shows "length (dec_int i) \<le> 20"
proof -
  have "nat (- i) < 10 ^ 19" and "nat i < 10 ^ 19"
    using assms by (auto simp: in_i64_def)
  then have "length (dec_nat (nat (- i))) \<le> 19" and "length (dec_nat (nat i)) \<le> 19"
    by (simp_all add: length_dec_nat_le)
  then show ?thesis by (simp add: dec_int_def)
qed

subsection \<open>Parsing\<close>

lemma parse_u64_dec_nat [simp]: "n < 2 ^ 64 \<Longrightarrow> parse_u64 (dec_nat n) = Some n"
proof -
  assume n: "n < 2 ^ 64"
  obtain c rest where ds: "dec_nat n = c # rest"
    by (cases "dec_nat n") auto
  then have "c \<noteq> 43"
    using set_dec_nat[of c n] by auto
  with n ds digits_dec_nat[of n] digits_val_dec_nat[of n] show ?thesis
    by (simp add: parse_u64_def in_u64_def)
qed

lemma parse_u64_bound: "parse_u64 s = Some n \<Longrightarrow> n < 2 ^ 64"
  by (auto simp: parse_u64_def in_u64_def Let_def split: if_splits)

end
