(* ===== verification/Utf8.thy ===== *)
theory Utf8
  imports Prelude
begin

section \<open>UTF-8 text\<close>

text \<open>
  What the program uses of Rust's string library: \<open>String::from_utf8\<close> and
  \<open>std::str::from_utf8\<close> (validation, with the position and the length of the first
  invalid sequence) and \<open>String::from_utf8_lossy\<close> (each maximal invalid sequence replaced
  by U+FFFD). A Rust \<open>String\<close> is the list of its bytes.
\<close>

datatype utf8_class =
    End                       \<comment> \<open>no bytes left\<close>
  | Char nat                  \<comment> \<open>a well-formed scalar value of that many bytes\<close>
  | Invalid "nat option"      \<comment> \<open>ill-formed; the length, or None when the input just ends\<close>

definition is_cont :: "byte \<Rightarrow> bool" where
  "is_cont b \<longleftrightarrow> 0x80 \<le> b \<and> b \<le> 0xBF"

definition second3 :: "byte \<Rightarrow> byte \<Rightarrow> bool" where
  "second3 a b \<longleftrightarrow>
     (a = 0xE0 \<and> 0xA0 \<le> b \<and> b \<le> 0xBF) \<or> (0xE1 \<le> a \<and> a \<le> 0xEC \<and> is_cont b) \<or>
     (a = 0xED \<and> 0x80 \<le> b \<and> b \<le> 0x9F) \<or> (0xEE \<le> a \<and> a \<le> 0xEF \<and> is_cont b)"

definition second4 :: "byte \<Rightarrow> byte \<Rightarrow> bool" where
  "second4 a b \<longleftrightarrow>
     (a = 0xF0 \<and> 0x90 \<le> b \<and> b \<le> 0xBF) \<or> (0xF1 \<le> a \<and> a \<le> 0xF3 \<and> is_cont b) \<or>
     (a = 0xF4 \<and> 0x80 \<le> b \<and> b \<le> 0x8F)"

definition cont_at :: "(byte \<Rightarrow> bool) \<Rightarrow> nat \<Rightarrow> bytes \<Rightarrow> utf8_class \<Rightarrow> utf8_class" where
  "cont_at ok k bs next_head =
     (if k < length bs then (if ok (bs ! k) then next_head else Invalid (Some k)) else Invalid None)"

fun utf8_head :: "bytes \<Rightarrow> utf8_class" where
  "utf8_head [] = End"
| "utf8_head (a # bs) =
     (if a < 0x80 then Char 1
      else if 0xC2 \<le> a \<and> a \<le> 0xDF then cont_at is_cont 1 (a # bs) (Char 2)
      else if 0xE0 \<le> a \<and> a \<le> 0xEF
        then cont_at (second3 a) 1 (a # bs) (cont_at is_cont 2 (a # bs) (Char 3))
      else if 0xF0 \<le> a \<and> a \<le> 0xF4
        then cont_at (second4 a) 1 (a # bs)
               (cont_at is_cont 2 (a # bs) (cont_at is_cont 3 (a # bs) (Char 4)))
      else Invalid (Some 1))"

text \<open>\<open>std::str::Utf8Error\<close>\<close>

record utf8_error =
  valid_up_to :: nat
  error_len :: "nat option"

lemma utf8_head_Char_pos: "utf8_head bs = Char n \<Longrightarrow> 0 < n \<and> n \<le> length bs"
  by (cases bs) (auto simp: cont_at_def Suc_le_eq split: if_splits)

lemma utf8_head_Char_nonempty: "utf8_head bs = Char n \<Longrightarrow> bs \<noteq> []"
  by auto

lemma utf8_head_Invalid_pos: "utf8_head bs = Invalid (Some n) \<Longrightarrow> 0 < n \<and> n \<le> length bs"
  by (cases bs) (auto simp: cont_at_def split: if_splits)

text \<open>\<open>from_utf8\<close>: None when the bytes are valid, else where they stop being so.\<close>

function utf8_scan :: "nat \<Rightarrow> bytes \<Rightarrow> utf8_error option" where
  "utf8_scan i bs =
     (case utf8_head bs of
        End \<Rightarrow> None
      | Char n \<Rightarrow> utf8_scan (i + n) (drop n bs)
      | Invalid l \<Rightarrow> Some \<lparr>valid_up_to = i, error_len = l\<rparr>)"
  by pat_completeness auto
termination
  by (relation "measure (\<lambda>(i, bs). length bs)") (auto dest: utf8_head_Char_pos)

declare utf8_scan.simps [simp del]

definition from_utf8 :: "bytes \<Rightarrow> (utf8_error, bytes) result" where
  "from_utf8 bs = (case utf8_scan 0 bs of None \<Rightarrow> Inr bs | Some e \<Rightarrow> Inl (Err e))"

definition valid_utf8 :: "bytes \<Rightarrow> bool" where
  "valid_utf8 bs \<longleftrightarrow> utf8_scan 0 bs = None"

definition replacement_char :: bytes where
  "replacement_char = [0xEF, 0xBF, 0xBD]"

function from_utf8_lossy :: "bytes \<Rightarrow> bytes" where
  "from_utf8_lossy bs =
     (case utf8_head bs of
        End \<Rightarrow> []
      | Char n \<Rightarrow> take n bs @ from_utf8_lossy (drop n bs)
      | Invalid None \<Rightarrow> replacement_char
      | Invalid (Some n) \<Rightarrow> replacement_char @ from_utf8_lossy (drop n bs))"
  by pat_completeness auto
termination
  by (relation "measure length") (auto dest: utf8_head_Char_pos utf8_head_Invalid_pos)

declare from_utf8_lossy.simps [simp del]

subsection \<open>Facts\<close>

lemma utf8_scan_shift: "utf8_scan i bs = None \<longleftrightarrow> utf8_scan j bs = None"
proof (induction i bs arbitrary: j rule: utf8_scan.induct)
  case (1 i bs)
  show ?case
  proof (cases "utf8_head bs")
    case (Char n)
    with 1[OF Char, of "j + n"] show ?thesis
      by (simp add: utf8_scan.simps[of i bs] utf8_scan.simps[of j bs])
  qed (simp_all add: utf8_scan.simps[of i bs] utf8_scan.simps[of j bs])
qed

lemma from_utf8_Inr_iff: "from_utf8 bs = Inr s \<longleftrightarrow> valid_utf8 bs \<and> s = bs"
  by (auto simp: from_utf8_def valid_utf8_def split: option.splits)

lemma from_utf8_not_Panic [simp]: "from_utf8 bs \<noteq> Inl Panic"
  by (simp add: from_utf8_def split: option.splits)

lemma utf8_head_End_iff [simp]: "utf8_head bs = End \<longleftrightarrow> bs = []"
  by (cases bs) (auto simp: cont_at_def)

lemma valid_utf8_Nil [simp]: "valid_utf8 []"
  by (simp add: valid_utf8_def utf8_scan.simps)

lemma valid_utf8_Cons_ascii [simp]: "a < 0x80 \<Longrightarrow> valid_utf8 (a # bs) \<longleftrightarrow> valid_utf8 bs"
  unfolding valid_utf8_def utf8_scan.simps[of 0 "a # bs"]
  using utf8_scan_shift[of 1 bs 0] by simp

lemma valid_utf8_ascii: "\<forall>b \<in> set bs. b < 0x80 \<Longrightarrow> valid_utf8 bs"
  by (induction bs) auto

lemma from_utf8_lossy_valid: "valid_utf8 bs \<Longrightarrow> from_utf8_lossy bs = bs"
proof (induction bs rule: from_utf8_lossy.induct)
  case (1 bs)
  show ?case
  proof (cases "utf8_head bs")
    case (Char n)
    with "1.prems" have "valid_utf8 (drop n bs)"
      using utf8_scan_shift[of n "drop n bs" 0]
      by (simp add: valid_utf8_def utf8_scan.simps[of 0 bs])
    with Char 1(1)[OF Char] show ?thesis
      by (simp add: from_utf8_lossy.simps[of bs])
  next
    case End
    then show ?thesis by (simp add: from_utf8_lossy.simps)
  next
    case Invalid
    with "1.prems" show ?thesis by (simp add: valid_utf8_def utf8_scan.simps[of 0 bs])
  qed
qed

end
