(* ===== verification/FileNames.thy ===== *)
theory FileNames
  imports FileSystem Decimal Utf8
begin

section \<open>File names (src/storage/bitcask/utils.rs)\<close>

text \<open>
  The names of data and hint files and how the file ids are read back from a directory
  listing. Names are relative to the data directory.
\<close>

abbreviation DOT :: byte where "DOT \<equiv> 46"

definition DATAFILE_EXT :: bytes where
  "DATAFILE_EXT = ascii ''data''"

definition HINTFILE_EXT :: bytes where
  "HINTFILE_EXT = ascii ''hint''"

definition datafile_name :: "nat \<Rightarrow> bytes" where
  "datafile_name fileid = dec_nat fileid @ ascii ''.bitcask.'' @ DATAFILE_EXT"

definition hintfile_name :: "nat \<Rightarrow> bytes" where
  "hintfile_name fileid = dec_nat fileid @ ascii ''.bitcask.'' @ HINTFILE_EXT"

text \<open>\<open>Path::extension\<close> and \<open>Path::file_stem\<close>: split at the last dot, unless it comes first.\<close>

definition last_dot :: "bytes \<Rightarrow> (bytes \<times> bytes) option" where
  "last_dot name =
     (let ext = takeWhile (\<lambda>c. c \<noteq> DOT) (rev name); n = length name - length ext
      in if n \<le> 1 then None else Some (take (n - 1) name, drop n name))"

definition extension :: "bytes \<Rightarrow> bytes option" where
  "extension name = map_option snd (last_dot name)"

definition file_stem :: "bytes \<Rightarrow> bytes" where
  "file_stem name = (case last_dot name of None \<Rightarrow> name | Some (stem, ext) \<Rightarrow> stem)"

definition first_part :: "bytes \<Rightarrow> bytes" where
  "first_part s = takeWhile (\<lambda>c. c \<noteq> DOT) s"

definition fileid_of :: "bytes \<Rightarrow> nat option" where
  "fileid_of name =
     (if extension name = Some DATAFILE_EXT then
        (if valid_utf8 (file_stem name) then parse_u64 (first_part (file_stem name)) else None)
      else None)"

definition ids_of :: "bytes list \<Rightarrow> nat list" where
  "ids_of names = sort (remdups (List.map_filter fileid_of names))"

definition sorted_fileids :: "fs \<Rightarrow> (io_error, nat list) result \<times> fs" where
  "sorted_fileids fs = try_op (read_dir fs) (\<lambda>names fs. (Inr (ids_of names), fs))"

subsection \<open>Names and ids\<close>

lemma dec_nat_no_dot: "DOT \<notin> set (dec_nat n)"
  using set_dec_nat[of DOT n] by auto

lemma takeWhile_dec_nat: "takeWhile (\<lambda>c. c \<noteq> DOT) (dec_nat n @ DOT # rest) = dec_nat n"
proof -
  have "takeWhile (\<lambda>c. c \<noteq> DOT) (dec_nat n @ DOT # rest)
      = dec_nat n @ takeWhile (\<lambda>c. c \<noteq> DOT) (DOT # rest)"
    by (rule takeWhile_append2) (use dec_nat_no_dot in metis)
  then show ?thesis by simp
qed

lemma bitcask_ext: "ascii ''.bitcask.'' = DOT # [98, 105, 116, 99, 97, 115, 107] @ [DOT]"
  by (simp add: ascii_def)

lemma last_dot_name:
  assumes "DOT \<notin> set ext"
  shows "last_dot (dec_nat n @ ascii ''.bitcask.'' @ ext)
       = Some (dec_nat n @ DOT # [98, 105, 116, 99, 97, 115, 107], ext)"
proof -
  let ?stem = "dec_nat n @ DOT # [98, 105, 116, 99, 97, 115, 107]"
  have "takeWhile (\<lambda>c. c \<noteq> DOT) (rev ext @ DOT # rev ?stem)
      = rev ext @ takeWhile (\<lambda>c. c \<noteq> DOT) (DOT # rev ?stem)"
    by (rule takeWhile_append2) (use assms in auto)
  then have "takeWhile (\<lambda>c. c \<noteq> DOT) (rev (?stem @ DOT # ext)) = rev ext" by simp
  moreover have "dec_nat n @ ascii ''.bitcask.'' @ ext = ?stem @ DOT # ext"
    by (simp add: bitcask_ext)
  ultimately show ?thesis by (simp add: last_dot_def Let_def del: rev_append)
qed

lemma exts: "DOT \<notin> set DATAFILE_EXT" "DOT \<notin> set HINTFILE_EXT" "HINTFILE_EXT \<noteq> DATAFILE_EXT"
  by (simp_all add: DATAFILE_EXT_def HINTFILE_EXT_def ascii_def)

lemma fileid_of_datafile [simp]: "n < 2 ^ 64 \<Longrightarrow> fileid_of (datafile_name n) = Some n"
proof -
  assume n: "n < 2 ^ 64"
  let ?stem = "dec_nat n @ DOT # [98, 105, 116, 99, 97, 115, 107]"
  have "valid_utf8 ?stem"
  proof (rule valid_utf8_ascii, rule ballI)
    fix b assume "b \<in> set ?stem"
    then have "is_digit b \<or> b \<in> {46, 98, 105, 116, 99, 97, 115, 107}"
      using set_dec_nat[of b n] by auto
    then show "b < 0x80" by (auto simp: is_digit_unat word_less_nat_alt)
  qed
  with n exts(1) show ?thesis
    by (simp add: fileid_of_def extension_def file_stem_def datafile_name_def last_dot_name
        first_part_def takeWhile_dec_nat)
qed

lemma fileid_of_hintfile [simp]: "fileid_of (hintfile_name n) = None"
  using exts(2,3) by (simp add: fileid_of_def extension_def hintfile_name_def last_dot_name)

lemma datafile_name_inj [simp]: "datafile_name m = datafile_name n \<longleftrightarrow> m = n"
  by (simp add: datafile_name_def)

lemma hintfile_name_inj [simp]: "hintfile_name m = hintfile_name n \<longleftrightarrow> m = n"
  by (simp add: hintfile_name_def)

lemma datafile_not_hintfile [simp]:
  "datafile_name m \<noteq> hintfile_name n" "hintfile_name n \<noteq> datafile_name m"
proof -
  show "datafile_name m \<noteq> hintfile_name n"
  proof
    assume eq: "datafile_name m = hintfile_name n"
    have "extension (datafile_name m) = Some DATAFILE_EXT" "extension (hintfile_name n) = Some HINTFILE_EXT"
      using exts by (simp_all add: extension_def datafile_name_def hintfile_name_def last_dot_name)
    with eq exts(3) show False by simp
  qed
  then show "hintfile_name n \<noteq> datafile_name m" by metis
qed

lemma ids_of_sorted [simp]: "sorted (ids_of names)" "distinct (ids_of names)"
  by (simp_all add: ids_of_def)

lemma set_ids_of: "set (ids_of names) = {n. \<exists>name \<in> set names. fileid_of name = Some n}"
  by (force simp: ids_of_def List.map_filter_def image_iff)

end
