(* ===== verification/F64.thy ===== *)
theory F64
  imports Complex_Main "HOL-Library.Log_Nat" Prelude
begin

section \<open>Double precision numbers\<close>

text \<open>
  The \<open>f64\<close> values that the merge policy compares. A value is the rational number it stands
  for; a conversion from \<open>u64\<close> and a division round to 53 significant bits, ties to even. The
  numbers met here lie between \<open>2 ^ -64\<close> and \<open>2 ^ 64\<close>, so neither overflow nor subnormal
  numbers occur.
\<close>

definition round_half_even :: "rat \<Rightarrow> int" where
  "round_half_even r =
     (let f = \<lfloor>r\<rfloor>; d = r - of_int f in if d < 1 / 2 \<or> (d = 1 / 2 \<and> even f) then f else f + 1)"

text \<open>\<open>binade q\<close> is the exponent \<open>e\<close> with \<open>2 ^ e \<le> q < 2 ^ (e + 1)\<close>, for a positive \<open>q\<close>.\<close>

definition binade :: "rat \<Rightarrow> int" where
  "binade q =
     (if 1 \<le> q then int (floorlog 2 (nat \<lfloor>q\<rfloor>)) - 1 else - int (floorlog 2 (nat \<lceil>1 / q\<rceil> - 1)))"

definition pow2 :: "int \<Rightarrow> rat" where
  "pow2 e = (if 0 \<le> e then 2 ^ nat e else 1 / 2 ^ nat (- e))"

definition round_f64 :: "rat \<Rightarrow> rat" where
  "round_f64 q =
     (if q = 0 then 0
      else let u = pow2 (binade q - 52) in of_int (round_half_even (q / u)) * u)"

definition f64_of_nat :: "nat \<Rightarrow> rat" where
  "f64_of_nat n = round_f64 (of_nat n)"

definition f64_div :: "rat \<Rightarrow> rat \<Rightarrow> rat" where
  "f64_div x y = round_f64 (x / y)"

lemma pow2_pos [simp]: "0 < pow2 e"
  by (simp add: pow2_def)

lemma round_half_even_le: "r \<le> of_int n \<Longrightarrow> round_half_even r \<le> n"
proof -
  assume r: "r \<le> of_int n"
  then have f: "\<lfloor>r\<rfloor> \<le> n" by (simp add: floor_le_iff)
  show ?thesis
  proof (cases "\<lfloor>r\<rfloor> = n")
    case True
    with r have "r = of_int n" by linarith
    then show ?thesis by (simp add: round_half_even_def)
  next
    case False
    with f show ?thesis by (simp add: round_half_even_def Let_def)
  qed
qed

lemma round_half_even_ge: "of_int n \<le> r \<Longrightarrow> n \<le> round_half_even r"
  using le_floor_iff[of n r] by (simp add: round_half_even_def Let_def)

text \<open>The quotient of two counts of which one is part of the other stays within one.\<close>

lemma binade_le: "q \<le> 1 \<Longrightarrow> binade q \<le> 0"
  by (cases "q = 1") (simp_all add: binade_def floorlog_def)

lemma round_f64_nonneg: "0 \<le> q \<Longrightarrow> 0 \<le> round_f64 q"
  using round_half_even_ge[of 0 "q / pow2 (binade q - 52)"]
  by (simp add: round_f64_def Let_def less_imp_le)

lemma round_f64_le_1:
  assumes "0 \<le> q" and "q \<le> 1"
  shows "round_f64 q \<le> 1"
proof (cases "q = 0")
  case False
  obtain k where u: "pow2 (binade q - 52) = 1 / 2 ^ k"
    using binade_le[OF assms(2)] by (simp add: pow2_def)
  have "q * 2 ^ k \<le> of_int (2 ^ k)" using assms(2) by simp
  then have "round_half_even (q * 2 ^ k) \<le> 2 ^ k" by (rule round_half_even_le)
  then have "rat_of_int (round_half_even (q * 2 ^ k)) \<le> rat_of_int (2 ^ k)"
    by (simp only: of_int_le_iff)
  with False u show ?thesis by (simp add: round_f64_def Let_def divide_le_eq)
qed (simp add: round_f64_def)

end
