(* ===== verification/Log.thy ===== *)
theory Log
  imports Deps FileNames F64
begin

section \<open>Log files (src/storage/bitcask/log.rs, src/storage/bitcask/bufio.rs)\<close>

text \<open>
  Positions and statistics of log entries; the writer that appends entries, the memory-mapped
  reader, the cache of readers and the sequential iterator. Each operation that reaches the
  file system threads it, and returns what it changed even when it fails.
\<close>

datatype bc_error = Closed | BcIo io_error | Serialization codec_error | BcTask

record log_index =
  ix_len :: nat
  ix_pos :: nat

subsection \<open>LogStatistics\<close>

record log_statistics =
  live_keys :: nat
  dead_keys :: nat
  dead_bytes :: nat

definition default_stats :: log_statistics where
  "default_stats = \<lparr>live_keys = 0, dead_keys = 0, dead_bytes = 0\<rparr>"

text \<open>\<open>self.field = e\<close> for an \<open>e\<close> that may panic.\<close>

fun assign :: "('e, nat) result \<Rightarrow> (nat \<Rightarrow> 's \<Rightarrow> 's) \<Rightarrow> 's \<Rightarrow> ('e, unit) result \<times> 's" where
  "assign (Inl e) f s = (Inl e, s)"
| "assign (Inr n) f s = (Inr (), f n s)"

definition add_live :: "build \<Rightarrow> log_statistics \<Rightarrow> (bc_error, unit) result \<times> log_statistics" where
  "add_live B s = assign (u64_add B (live_keys s) 1) (\<lambda>n s. s\<lparr>live_keys := n\<rparr>) s"

definition add_dead :: "build \<Rightarrow> nat \<Rightarrow> log_statistics \<Rightarrow> (bc_error, unit) result \<times> log_statistics" where
  "add_dead B nbytes s =
     try_op (assign (u64_add B (dead_keys s) 1) (\<lambda>n s. s\<lparr>dead_keys := n\<rparr>) s) (\<lambda>_ s.
     assign (u64_add B (dead_bytes s) nbytes) (\<lambda>n s. s\<lparr>dead_bytes := n\<rparr>) s)"

definition overwrite :: "build \<Rightarrow> nat \<Rightarrow> log_statistics \<Rightarrow> (bc_error, unit) result \<times> log_statistics" where
  "overwrite B nbytes s =
     try_op (assign (u64_sub B (live_keys s) 1) (\<lambda>n s. s\<lparr>live_keys := n\<rparr>) s) (\<lambda>_ s.
     try_op (assign (u64_add B (dead_keys s) 1) (\<lambda>n s. s\<lparr>dead_keys := n\<rparr>) s) (\<lambda>_ s.
     assign (u64_add B (dead_bytes s) nbytes) (\<lambda>n s. s\<lparr>dead_bytes := n\<rparr>) s))"

definition fragmentation :: "build \<Rightarrow> log_statistics \<Rightarrow> (bc_error, rat) result" where
  "fragmentation B s =
     (if dead_keys s = 0 then Inr 0
      else and_then (u64_add B (dead_keys s) (live_keys s)) (\<lambda>total.
           Inr (f64_div (f64_of_nat (dead_keys s)) (f64_of_nat total))))"

subsection \<open>LogReader\<close>

text \<open>\<open>MmapOptions::new().map(&file)\<close> maps the file at its present length.\<close>

definition map_file :: "nat \<Rightarrow> fs \<Rightarrow> (io_error, nat) result \<times> fs" where
  "map_file i fs = sys_call fs (\<lambda>fs. (Inr (length (idata fs i)), fs))"

definition reader_new :: "nat \<Rightarrow> fs \<Rightarrow> (io_error, log_reader) result \<times> fs" where
  "reader_new i fs = try_op (map_file i fs) (\<lambda>n fs. (Inr \<lparr>rd_file = i, mmap_len = n\<rparr>, fs))"

text \<open>The slice both \<open>at\<close> and \<open>copy_raw\<close> take: remap if \<open>pos\<close> is not mapped, then \<open>&mmap[start..end]\<close>.\<close>

definition reader_slice ::
    "build \<Rightarrow> log_reader \<Rightarrow> nat \<Rightarrow> nat \<Rightarrow> fs \<Rightarrow> (io_error, bytes) result \<times> log_reader \<times> fs" where
  "reader_slice B rd len pos fs =
     try_op
       (if mmap_len rd \<le> pos then
          (case map_file (rd_file rd) fs of
             (Inl e, fs) \<Rightarrow> (Inl e, rd, fs)
           | (Inr n, fs) \<Rightarrow> (Inr (), rd\<lparr>mmap_len := n\<rparr>, fs))
        else (Inr (), rd, fs))
       (\<lambda>_ (rd, fs).
          (and_then (u64_add B pos len) (\<lambda>end.
             if pos \<le> end \<and> end \<le> mmap_len rd then Inr (sub_slice (idata fs (rd_file rd)) pos end)
             else Inl Panic), rd, fs))"

definition decode_entry :: "'l deps \<Rightarrow> bytes \<Rightarrow> (bc_error, data_entry) result" where
  "decode_entry D b =
     (case dec_data D b of
        Inl Oversized \<Rightarrow> Inl (Err (Serialization UnexpectedEof))
      | Inl e \<Rightarrow> Inl (Err (Serialization e))
      | Inr (e, n) \<Rightarrow> Inr e)"

definition reader_at ::
    "'l deps \<Rightarrow> build \<Rightarrow> log_reader \<Rightarrow> nat \<Rightarrow> nat \<Rightarrow> fs \<Rightarrow> (bc_error, data_entry) result \<times> log_reader \<times> fs" where
  "reader_at D B rd len pos fs =
     (let (r, s) = reader_slice B rd len pos fs in (and_then (map_err BcIo r) (decode_entry D), s))"

text \<open>\<open>io::copy\<close> into a \<open>BufWriter\<close>: the bytes for it, whose number is the result.\<close>

definition reader_copy_raw ::
    "build \<Rightarrow> log_reader \<Rightarrow> nat \<Rightarrow> nat \<Rightarrow> fs \<Rightarrow> (bc_error, bytes) result \<times> log_reader \<times> fs" where
  "reader_copy_raw B rd len pos fs =
     (let (r, s) = reader_slice B rd len pos fs in (map_err BcIo r, s))"

subsection \<open>LogDir\<close>

text \<open>
  \<open>read\<close> and \<open>copy\<close> differ in what they do with the reader, \<open>act\<close>. A reader made on a miss is
  put into the cache after it was used, so not when \<open>act\<close> panics.
\<close>

definition log_dir ::
    "'l deps \<Rightarrow> nat \<Rightarrow> (log_reader \<Rightarrow> fs \<Rightarrow> (bc_error, 'a) result \<times> log_reader \<times> fs) \<Rightarrow>
     'l \<Rightarrow> fs \<Rightarrow> (bc_error, 'a) result \<times> 'l \<times> fs" where
  "log_dir D fileid act cache fs =
     (case lru_get D fileid cache of
        Some rd \<Rightarrow> (case act rd fs of (r, rd, fs) \<Rightarrow> (r, lru_store D fileid rd cache, fs))
      | None \<Rightarrow>
          (case try_op (open_read (datafile_name fileid) fs) reader_new of
             (Inl e, fs) \<Rightarrow> (map_err BcIo (Inl e), cache, fs)
           | (Inr rd, fs) \<Rightarrow>
               (case act rd fs of
                  (Inl Panic, rd, fs) \<Rightarrow> (Inl Panic, cache, fs)
                | (r, rd, fs) \<Rightarrow> (r, lru_put D fileid rd cache, fs))))"

definition log_dir_read ::
    "'l deps \<Rightarrow> build \<Rightarrow> nat \<Rightarrow> nat \<Rightarrow> nat \<Rightarrow> 'l \<Rightarrow> fs \<Rightarrow> (bc_error, data_entry) result \<times> 'l \<times> fs" where
  "log_dir_read D B fileid len pos = log_dir D fileid (\<lambda>rd. reader_at D B rd len pos)"

definition log_dir_copy ::
    "'l deps \<Rightarrow> build \<Rightarrow> nat \<Rightarrow> nat \<Rightarrow> nat \<Rightarrow> 'l \<Rightarrow> fs \<Rightarrow> (bc_error, bytes) result \<times> 'l \<times> fs" where
  "log_dir_copy D B fileid len pos = log_dir D fileid (\<lambda>rd. reader_copy_raw B rd len pos)"

subsection \<open>BufWriterWithPos and LogWriter\<close>

text \<open>
  \<open>bw_buf\<close> are the bytes accepted and not yet written to the file. The \<open>BufWriter\<close> here keeps
  them all until it is flushed or dropped. Dropping it flushes and ignores the result.
\<close>

record log_writer =
  bw_pos :: nat
  bw_file :: nat
  bw_buf :: bytes

definition log_writer_new :: "nat \<Rightarrow> fs \<Rightarrow> (io_error, log_writer) result \<times> fs" where
  "log_writer_new i fs =
     try_op (stream_len i fs) (\<lambda>n fs. (Inr \<lparr>bw_pos = n, bw_file = i, bw_buf = []\<rparr>, fs))"

definition bw_flush :: "log_writer \<Rightarrow> fs \<Rightarrow> (io_error, unit) result \<times> log_writer \<times> fs" where
  "bw_flush w fs =
     (case write_file (bw_file w) (bw_buf w) fs of (r, n, fs) \<Rightarrow> (r, w\<lparr>bw_buf := drop n (bw_buf w)\<rparr>, fs))"

definition bw_drop :: "log_writer \<Rightarrow> fs \<Rightarrow> fs" where
  "bw_drop w fs = snd (snd (bw_flush w fs))"

definition bw_write_all :: "build \<Rightarrow> bytes \<Rightarrow> log_writer \<Rightarrow> (bc_error, unit) result \<times> log_writer" where
  "bw_write_all B d w =
     (let w = w\<lparr>bw_buf := bw_buf w @ d\<rparr>
      in assign (u64_add B (bw_pos w) (length d)) (\<lambda>n w. w\<lparr>bw_pos := n\<rparr>) w)"

text \<open>\<open>LogWriter::append\<close> of an entry whose serialization is \<open>d\<close>.\<close>

definition log_append ::
    "build \<Rightarrow> bytes \<Rightarrow> log_writer \<Rightarrow> fs \<Rightarrow> (bc_error, log_index) result \<times> log_writer \<times> fs" where
  "log_append B d w fs =
     (let pos = bw_pos w in
      case bw_write_all B d w of
        (Inl e, w) \<Rightarrow> (Inl e, w, fs)
      | (Inr _, w) \<Rightarrow>
          (case bw_flush w fs of
             (Inl e, w, fs) \<Rightarrow> (map_err BcIo (Inl e), w, fs)
           | (Inr _, w, fs) \<Rightarrow>
               (and_then (u64_sub B (bw_pos w) pos) (\<lambda>len. Inr \<lparr>ix_len = len, ix_pos = pos\<rparr>), w, fs)))"

definition log_sync :: "log_writer \<Rightarrow> fs \<Rightarrow> (bc_error, unit) result \<times> fs" where
  "log_sync w fs = (let (r, fs) = sync_all (bw_file w) fs in (map_err BcIo r, fs))"

text \<open>\<open>LogWriter::new(log::create(name)?)?\<close>.\<close>

definition log_create :: "bytes \<Rightarrow> fs \<Rightarrow> (bc_error, log_writer) result \<times> fs" where
  "log_create name fs =
     (let (r, fs) = try_op (create_new name fs) log_writer_new in (map_err BcIo r, fs))"

subsection \<open>BufReaderWithPos and LogIterator\<close>

record log_iter =
  it_pos :: nat
  it_file :: nat

text \<open>
  \<open>stream_position\<close> of a file just opened is zero. \<open>LogIterator::next\<close> decodes from a stream, so a
  length in the file that no buffer can have is a panic. Shorter lengths of which there is not
  enough memory abort the process, which is not modelled.
\<close>

definition log_iter_new :: "nat \<Rightarrow> fs \<Rightarrow> (io_error, log_iter) result \<times> fs" where
  "log_iter_new i fs = sys_call fs (\<lambda>fs. (Inr \<lparr>it_pos = 0, it_file = i\<rparr>, fs))"

definition log_next ::
    "(bytes \<Rightarrow> codec_error + 'e \<times> nat) \<Rightarrow> build \<Rightarrow> log_iter \<Rightarrow> fs \<Rightarrow>
     (bc_error, (log_index \<times> 'e) option) result \<times> log_iter \<times> fs" where
  "log_next dec B it fs =
     (let pos = it_pos it in
      case next_fault fs of
        (Some (e, n), fs) \<Rightarrow> (Inl (Err (Serialization (CodecIo e))), it, fs)
      | (None, fs) \<Rightarrow>
          (case dec (drop pos (idata fs (it_file it))) of
             Inl UnexpectedEof \<Rightarrow> (Inr None, it, fs)
           | Inl Oversized \<Rightarrow> (Inl Panic, it, fs)
           | Inl e \<Rightarrow> (Inl (Err (Serialization e)), it, fs)
           | Inr (entry, n) \<Rightarrow>
               (case assign (u64_add B pos n) (\<lambda>p it. it\<lparr>it_pos := p\<rparr>) it of
                  (Inl e, it) \<Rightarrow> (Inl e, it, fs)
                | (Inr _, it) \<Rightarrow>
                    (and_then (u64_sub B (it_pos it) pos) (\<lambda>len. Inr (Some (\<lparr>ix_len = len, ix_pos = pos\<rparr>, entry))),
                     it, fs))))"

end
