(* ===== verification/StoreConfig.thy ===== *)
theory StoreConfig
  imports F64
begin

section \<open>Configuration of the engine (src/storage/bitcask/config.rs)\<close>

text \<open>
  The settings, their defaults and the setters, whose assertions are panics. The data
  directory is not part of it: the model has one. Fractions are \<open>f64\<close> values.
\<close>

datatype sync_strategy = SyncNone | SyncAlways | SyncIntervalMs nat

datatype merge_policy = MergeAlways | MergeNever | MergeWindow nat nat

record config =
  concurrency :: nat
  readers_cache_size :: nat
  max_file_size :: nat
  sync :: sync_strategy
  policy :: merge_policy
  trigger_fragmentation :: rat
  trigger_dead_bytes :: nat
  threshold_fragmentation :: rat
  threshold_dead_bytes :: nat
  threshold_small_file :: nat
  check_interval_ms :: nat
  check_jitter :: rat

definition default_config :: "nat \<Rightarrow> config" where
  "default_config cpus =
     \<lparr>concurrency = cpus, readers_cache_size = 256, max_file_size = 2 * 1024 * 1024 * 1024,
      sync = SyncNone, policy = MergeAlways,
      trigger_fragmentation = round_f64 (6 / 10), trigger_dead_bytes = 512 * 1024 * 1024,
      threshold_fragmentation = round_f64 (4 / 10), threshold_dead_bytes = 128 * 1024 * 1024,
      threshold_small_file = 10 * 1024 * 1024,
      check_interval_ms = 18000, check_jitter = round_f64 (3 / 10)\<rparr>"

text \<open>The setters that store their argument. The types of the first three exclude zero.\<close>

definition set_concurrency :: "nat \<Rightarrow> config \<Rightarrow> config" where
  "set_concurrency n c = c\<lparr>concurrency := n\<rparr>"

definition set_readers_cache_size :: "nat \<Rightarrow> config \<Rightarrow> config" where
  "set_readers_cache_size n c = c\<lparr>readers_cache_size := n\<rparr>"

definition set_max_file_size :: "nat \<Rightarrow> config \<Rightarrow> config" where
  "set_max_file_size n c = c\<lparr>max_file_size := n\<rparr>"

definition set_sync :: "sync_strategy \<Rightarrow> config \<Rightarrow> config" where
  "set_sync s c = c\<lparr>sync := s\<rparr>"

definition set_trigger_dead_bytes :: "nat \<Rightarrow> config \<Rightarrow> config" where
  "set_trigger_dead_bytes n c = c\<lparr>trigger_dead_bytes := n\<rparr>"

definition set_threshold_dead_bytes :: "nat \<Rightarrow> config \<Rightarrow> config" where
  "set_threshold_dead_bytes n c = c\<lparr>threshold_dead_bytes := n\<rparr>"

definition set_threshold_small_file :: "nat \<Rightarrow> config \<Rightarrow> config" where
  "set_threshold_small_file n c = c\<lparr>threshold_small_file := n\<rparr>"

definition set_check_interval_ms :: "nat \<Rightarrow> config \<Rightarrow> config" where
  "set_check_interval_ms n c = c\<lparr>check_interval_ms := n\<rparr>"

text \<open>The setters that check their argument.\<close>

definition set_merge_policy :: "merge_policy \<Rightarrow> config \<Rightarrow> ('e, config) result" where
  "set_merge_policy p c =
     (case p of
        MergeWindow start end \<Rightarrow>
          if start < 24 \<and> end < 24 then Inr (c\<lparr>policy := p\<rparr>) else Inl Panic
      | _ \<Rightarrow> Inr (c\<lparr>policy := p\<rparr>))"

definition set_trigger_fragmentation :: "rat \<Rightarrow> config \<Rightarrow> ('e, config) result" where
  "set_trigger_fragmentation x c =
     (if 0 \<le> x \<and> x \<le> 1 then Inr (c\<lparr>trigger_fragmentation := x\<rparr>) else Inl Panic)"

definition set_threshold_fragmentation :: "rat \<Rightarrow> config \<Rightarrow> ('e, config) result" where
  "set_threshold_fragmentation x c =
     (if 0 \<le> x \<and> x \<le> 1 then Inr (c\<lparr>threshold_fragmentation := x\<rparr>) else Inl Panic)"

definition set_check_jitter :: "rat \<Rightarrow> config \<Rightarrow> ('e, config) result" where
  "set_check_jitter x c = (if 0 \<le> x \<and> x \<le> 1 then Inr (c\<lparr>check_jitter := x\<rparr>) else Inl Panic)"

end
