(* ===== verification/Writer.thy ===== *)
theory Writer
  imports Log StoreConfig
begin

section \<open>The shared state and the writer (context.rs, writer.rs)\<close>

text \<open>
  The state of an open storage: the fields of \<open>Context\<close> (the keydir, the closed flag, the
  configuration), of \<open>Writer\<close> (its reader cache, log writer, statistics, active file id and
  number of bytes written), the pool of readers of \<open>Handle\<close>, and the world: the files, the
  readings of the clock to come (\<open>None\<close> is a time \<open>timestamp_nanos_opt\<close> cannot express) and
  the hour of the day. The keydir lists its entries by key; \<open>SkipMap\<close> iterates in the order of
  the keys. The writer is behind a mutex, so its operations are one step each.
\<close>

record keydir_entry =
  kd_fileid :: nat
  kd_len :: nat
  kd_pos :: nat
  kd_tstamp :: int

type_synonym keydir = "(bytes \<times> keydir_entry) list"

record 'l storage =
  keydir :: keydir
  closed :: bool
  conf :: config
  w_readers :: 'l
  w_log :: log_writer
  w_stats :: "(nat \<times> log_statistics) list"
  active_fileid :: nat
  written_bytes :: nat
  pool :: "'l list"
  files :: fs
  clock :: "int option list"
  hour :: nat

type_synonym ('l, 'a) action = "'l storage \<Rightarrow> (bc_error, 'a) result \<times> 'l storage"

subsection \<open>Context\<close>

definition keydir_set :: "bytes \<Rightarrow> keydir_entry \<Rightarrow> 'l storage \<Rightarrow> keydir_entry option \<times> 'l storage" where
  "keydir_set k e st = (map_of (keydir st) k, st\<lparr>keydir := AList.update k e (keydir st)\<rparr>)"

definition keydir_remove :: "bytes \<Rightarrow> 'l storage \<Rightarrow> keydir_entry option \<times> 'l storage" where
  "keydir_remove k st = (map_of (keydir st) k, st\<lparr>keydir := AList.delete k (keydir st)\<rparr>)"

definition close_storage :: "'l storage \<Rightarrow> 'l storage" where
  "close_storage st = st\<lparr>closed := True\<rparr>"

subsection \<open>Helpers\<close>

text \<open>\<open>utils::timestamp\<close>.\<close>

definition timestamp :: "('l, int) action" where
  "timestamp st =
     (case clock st of
        [] \<Rightarrow> (Inr 0, st)
      | t # ts \<Rightarrow> (case t of None \<Rightarrow> Inl Panic | Some x \<Rightarrow> Inr x, st\<lparr>clock := ts\<rparr>))"

text \<open>\<open>stats.entry(fileid).or_default().op()\<close>.\<close>

definition stats_of :: "(nat \<times> log_statistics) list \<Rightarrow> nat \<Rightarrow> log_statistics" where
  "stats_of stats fileid = (case map_of stats fileid of None \<Rightarrow> default_stats | Some s \<Rightarrow> s)"

definition with_stats ::
    "nat \<Rightarrow> (log_statistics \<Rightarrow> (bc_error, unit) result \<times> log_statistics) \<Rightarrow> ('l, unit) action" where
  "with_stats fileid op st =
     (let (r, s) = op (stats_of (w_stats st) fileid)
      in (r, st\<lparr>w_stats := AList.update fileid s (w_stats st)\<rparr>))"

text \<open>Running an operation on the files alone.\<close>

definition on_files :: "(fs \<Rightarrow> (bc_error, 'a) result \<times> fs) \<Rightarrow> ('l, 'a) action" where
  "on_files op st = (let (r, fs) = op (files st) in (r, st\<lparr>files := fs\<rparr>))"

definition append_active :: "build \<Rightarrow> bytes \<Rightarrow> ('l, log_index) action" where
  "append_active B d st =
     (case log_append B d (w_log st) (files st) of (r, w, fs) \<Rightarrow> (r, st\<lparr>w_log := w, files := fs\<rparr>))"

subsection \<open>Writer::write, put and delete\<close>

text \<open>The id is set before the file is created. The old log writer is dropped after that.\<close>

definition new_active_datafile :: "nat \<Rightarrow> ('l, unit) action" where
  "new_active_datafile fileid st =
     (case log_create (datafile_name fileid) (files st) of
        (Inl e, fs) \<Rightarrow> (Inl e, st\<lparr>active_fileid := fileid, files := fs\<rparr>)
      | (Inr w, fs) \<Rightarrow>
          (Inr (), st\<lparr>active_fileid := fileid, w_log := w, files := bw_drop (w_log st) fs, written_bytes := 0\<rparr>))"

definition next_active_datafile :: "build \<Rightarrow> ('l, unit) action" where
  "next_active_datafile B st =
     (case u64_add B (active_fileid st) 1 of Inl e \<Rightarrow> (Inl e, st) | Inr n \<Rightarrow> new_active_datafile n st)"

definition write_entry :: "'l deps \<Rightarrow> build \<Rightarrow> int \<Rightarrow> bytes \<Rightarrow> bytes option \<Rightarrow> ('l, keydir_entry) action" where
  "write_entry D B t k v st =
     try_op (append_active B (enc_data D \<lparr>d_tstamp = t, d_key = k, d_value = v\<rparr>) st) (\<lambda>index st.
     try_op (if sync (conf st) = SyncAlways then on_files (log_sync (w_log st)) st else (Inr (), st)) (\<lambda>_ st.
     try_op (assign (u64_add B (written_bytes st) (ix_len index)) (\<lambda>n st. st\<lparr>written_bytes := n\<rparr>) st) (\<lambda>_ st.
     try_op (with_stats (active_fileid st)
               (if v \<noteq> None then add_live B else add_dead B (ix_len index)) st) (\<lambda>_ st.
     let entry = \<lparr>kd_fileid = active_fileid st, kd_len = ix_len index, kd_pos = ix_pos index, kd_tstamp = t\<rparr> in
     try_op (if max_file_size (conf st) < written_bytes st then next_active_datafile B st else (Inr (), st)) (\<lambda>_ st.
     (Inr entry, st))))))"

definition put :: "'l deps \<Rightarrow> build \<Rightarrow> bytes \<Rightarrow> bytes \<Rightarrow> ('l, unit) action" where
  "put D B k v st =
     try_op (timestamp st) (\<lambda>t st.
     try_op (write_entry D B t k (Some v) st) (\<lambda>entry st.
     case keydir_set k entry st of
       (Some prev, st) \<Rightarrow> with_stats (kd_fileid prev) (overwrite B (kd_len prev)) st
     | (None, st) \<Rightarrow> (Inr (), st)))"

definition delete :: "'l deps \<Rightarrow> build \<Rightarrow> bytes \<Rightarrow> ('l, bool) action" where
  "delete D B k st =
     try_op (timestamp st) (\<lambda>t st.
     try_op (write_entry D B t k None st) (\<lambda>_ st.
     case keydir_remove k st of
       (Some prev, st) \<Rightarrow>
         try_op (with_stats (kd_fileid prev) (overwrite B (kd_len prev)) st) (\<lambda>_ st. (Inr True, st))
     | (None, st) \<Rightarrow> (Inr False, st)))"

definition writer_sync :: "('l, unit) action" where
  "writer_sync st = on_files (log_sync (w_log st)) st"

text \<open>\<open>Drop for Writer\<close>: the log writer is dropped too, and an empty active file removed.\<close>

definition writer_drop :: "'l storage \<Rightarrow> 'l storage" where
  "writer_drop st =
     (let st = (if written_bytes st \<noteq> 0 then st
                else st\<lparr>files := snd (remove_file (datafile_name (active_fileid st)) (files st))\<rparr>)
      in st\<lparr>files := bw_drop (w_log st) (files st)\<rparr>)"

subsection \<open>Choosing what to merge\<close>

text \<open>\<open>a || b || c\<close>, where the second operand may panic and the third is evaluated last.\<close>

fun select_files :: "build \<Rightarrow> (nat \<times> log_statistics) list \<Rightarrow> nat list \<Rightarrow> ('l, nat list) action" where
  "select_files B [] ids st = (Inr (sort ids), st)"
| "select_files B ((fileid, s) # rest) ids st =
     try_op (on_files (\<lambda>fs. let (r, fs) = metadata_len (datafile_name fileid) fs in (map_err BcIo r, fs)) st) (\<lambda>len st.
     try_op (if threshold_dead_bytes (conf st) < dead_bytes s then (Inr True, st)
             else (and_then (fragmentation B s) (\<lambda>f.
                     Inr (threshold_fragmentation (conf st) < f \<or> len < threshold_small_file (conf st))), st)) (\<lambda>chosen st.
     select_files B rest (if chosen then fileid # ids else ids) st))"

definition fileids_to_merge :: "build \<Rightarrow> ('l, nat list) action" where
  "fileids_to_merge B st = select_files B (w_stats st) [] st"

fun any_trigger :: "build \<Rightarrow> config \<Rightarrow> (nat \<times> log_statistics) list \<Rightarrow> (bc_error, bool) result" where
  "any_trigger B c [] = Inr False"
| "any_trigger B c ((fileid, s) # rest) =
     (if trigger_dead_bytes c < dead_bytes s then Inr True
      else and_then (fragmentation B s) (\<lambda>f.
             if trigger_fragmentation c < f then Inr True else any_trigger B c rest))"

definition can_merge :: "build \<Rightarrow> 'l storage \<Rightarrow> (bc_error, bool) result" where
  "can_merge B st =
     (case policy (conf st) of
        MergeNever \<Rightarrow> Inr False
      | MergeWindow start end \<Rightarrow>
          if hour st < start \<or> end < hour st then Inr False else any_trigger B (conf st) (w_stats st)
      | MergeAlways \<Rightarrow> any_trigger B (conf st) (w_stats st))"

subsection \<open>Writer::merge\<close>

text \<open>
  The loop's own variables. \<open>m_data\<close> is the plain \<open>BufWriter\<close> of the merge data file, whose
  \<open>bw_pos\<close> is not used; \<open>m_entries\<close> are the new keydir entries.
\<close>

record merge_vars =
  merge_fileid :: nat
  merge_pos :: nat
  m_data :: log_writer
  m_hint :: log_writer
  m_entries :: keydir

definition create_merge_data :: "nat \<Rightarrow> fs \<Rightarrow> (bc_error, log_writer) result \<times> fs" where
  "create_merge_data fileid fs =
     (let (r, fs) = create_new (datafile_name fileid) fs
      in (and_then (map_err BcIo r) (\<lambda>i. Inr \<lparr>bw_pos = 0, bw_file = i, bw_buf = []\<rparr>), fs))"

text \<open>Assigning a new writer drops the old one, which flushes it and ignores an error.\<close>

definition replace_data :: "log_writer \<Rightarrow> merge_vars \<Rightarrow> 'l storage \<Rightarrow> merge_vars \<times> 'l storage" where
  "replace_data w m st = (m\<lparr>m_data := w\<rparr>, st\<lparr>files := bw_drop (m_data m) (files st)\<rparr>)"

definition replace_hint :: "log_writer \<Rightarrow> merge_vars \<Rightarrow> 'l storage \<Rightarrow> merge_vars \<times> 'l storage" where
  "replace_hint w m st = (m\<lparr>m_hint := w\<rparr>, st\<lparr>files := bw_drop (m_hint m) (files st)\<rparr>)"

definition switch_merge_file ::
    "build \<Rightarrow> merge_vars \<times> 'l storage \<Rightarrow> (bc_error, unit) result \<times> merge_vars \<times> 'l storage" where
  "switch_merge_file B = (\<lambda>(m, st).
     try_op (assign (u64_add B (merge_fileid m) 1) (\<lambda>n (m, st). (m\<lparr>merge_fileid := n, merge_pos := 0\<rparr>, st)) (m, st)) (\<lambda>_ (m, st).
     try_op (case on_files (create_merge_data (merge_fileid m)) st of (r, st) \<Rightarrow> (r, m, st)) (\<lambda>w (m, st).
     case replace_data w m st of (m, st) \<Rightarrow>
     try_op (case on_files (log_create (hintfile_name (merge_fileid m))) st of (r, st) \<Rightarrow> (r, m, st)) (\<lambda>w (m, st).
     (Inr (), replace_hint w m st)))))"

definition copy_entry ::
    "'l deps \<Rightarrow> build \<Rightarrow> keydir_entry \<Rightarrow> ('l, bytes) action" where
  "copy_entry D B e st =
     (case log_dir_copy D B (kd_fileid e) (kd_len e) (kd_pos e) (w_readers st) (files st) of
        (r, l, fs) \<Rightarrow> (r, st\<lparr>w_readers := l, files := fs\<rparr>))"

definition append_hint :: "build \<Rightarrow> bytes \<Rightarrow> merge_vars \<times> 'l storage \<Rightarrow> (bc_error, unit) result \<times> merge_vars \<times> 'l storage" where
  "append_hint B d = (\<lambda>(m, st).
     case log_append B d (m_hint m) (files st) of
       (r, w, fs) \<Rightarrow> (and_then r (\<lambda>_. Inr ()), m\<lparr>m_hint := w\<rparr>, st\<lparr>files := fs\<rparr>))"

text \<open>The hint is written with the old length and position of the entry.\<close>

definition merge_entry ::
    "'l deps \<Rightarrow> build \<Rightarrow> bytes \<times> keydir_entry \<Rightarrow> merge_vars \<times> 'l storage \<Rightarrow>
     (bc_error, unit) result \<times> merge_vars \<times> 'l storage" where
  "merge_entry D B = (\<lambda>(k, e) (m, st).
     try_op (case copy_entry D B e st of (r, st) \<Rightarrow> (r, m, st)) (\<lambda>d (m, st).
     let m = m\<lparr>m_data := (m_data m)\<lparr>bw_buf := bw_buf (m_data m) @ d\<rparr>,
               m_entries := AList.update k \<lparr>kd_fileid = merge_fileid m, kd_len = length d,
                 kd_pos = merge_pos m, kd_tstamp = kd_tstamp e\<rparr> (m_entries m)\<rparr> in
     try_op (case with_stats (merge_fileid m) (add_live B) st of (r, st) \<Rightarrow> (r, m, st)) (\<lambda>_ (m, st).
     try_op (append_hint B (enc_hint D \<lparr>h_tstamp = kd_tstamp e, h_len = kd_len e, h_pos = kd_pos e, h_key = k\<rparr>) (m, st)) (\<lambda>_ (m, st).
     try_op (assign (u64_add B (merge_pos m) (length d)) (\<lambda>n (m, st). (m\<lparr>merge_pos := n\<rparr>, st)) (m, st)) (\<lambda>_ (m, st).
     if max_file_size (conf st) < merge_pos m then switch_merge_file B (m, st) else (Inr (), m, st))))))"

fun merge_entries ::
    "'l deps \<Rightarrow> build \<Rightarrow> keydir \<Rightarrow> merge_vars \<times> 'l storage \<Rightarrow>
     (bc_error, unit) result \<times> merge_vars \<times> 'l storage" where
  "merge_entries D B [] s = (Inr (), s)"
| "merge_entries D B (ke # kes) s = try_op (merge_entry D B ke s) (\<lambda>_ s. merge_entries D B kes s)"

text \<open>Both writers go out of scope, the hint file's first.\<close>

definition drop_merge_writers :: "merge_vars \<Rightarrow> 'l storage \<Rightarrow> 'l storage" where
  "drop_merge_writers m st = st\<lparr>files := bw_drop (m_data m) (bw_drop (m_hint m) (files st))\<rparr>"

fun remove_if_present :: "bytes \<Rightarrow> ('l, unit) action" where
  "remove_if_present name st =
     (case remove_file name (files st) of
        (Inl (Err NotFound), fs) \<Rightarrow> (Inr (), st\<lparr>files := fs\<rparr>)
      | (r, fs) \<Rightarrow> (map_err BcIo r, st\<lparr>files := fs\<rparr>))"

fun remove_merged :: "nat list \<Rightarrow> ('l, unit) action" where
  "remove_merged [] st = (Inr (), st)"
| "remove_merged (fileid # ids) st =
     (let st = st\<lparr>w_stats := AList.delete fileid (w_stats st)\<rparr> in
      try_op (remove_if_present (hintfile_name fileid) st) (\<lambda>_ st.
      try_op (remove_if_present (datafile_name fileid) st) (\<lambda>_ st.
      remove_merged ids st)))"

fun install_entries :: "keydir \<Rightarrow> 'l storage \<Rightarrow> 'l storage" where
  "install_entries [] st = st"
| "install_entries ((k, e) # kes) st = install_entries kes (snd (keydir_set k e st))"

definition entries_of :: "nat list \<Rightarrow> keydir \<Rightarrow> keydir" where
  "entries_of ids kd = filter (\<lambda>(k, e). kd_fileid e \<in> set ids) (sort_key fst kd)"

definition merge_copy :: "'l deps \<Rightarrow> build \<Rightarrow> nat \<Rightarrow> nat list \<Rightarrow> ('l, nat \<times> keydir) action" where
  "merge_copy D B fileid ids st =
     try_op (on_files (create_merge_data fileid) st) (\<lambda>wd st.
     case on_files (log_create (hintfile_name fileid)) st of
       (Inl e, st) \<Rightarrow> (Inl e, st\<lparr>files := bw_drop wd (files st)\<rparr>)
     | (Inr wh, st) \<Rightarrow>
         (case merge_entries D B (entries_of ids (keydir st))
                 (\<lparr>merge_fileid = fileid, merge_pos = 0, m_data = wd, m_hint = wh, m_entries = []\<rparr>, st) of
            (r, m, st) \<Rightarrow>
              (and_then r (\<lambda>_. Inr (merge_fileid m, m_entries m)), drop_merge_writers m st)))"

definition merge :: "'l deps \<Rightarrow> build \<Rightarrow> ('l, unit) action" where
  "merge D B st =
     (case u64_add B (active_fileid st) 1 of
        Inl e \<Rightarrow> (Inl e, st)
      | Inr min_merge_fileid \<Rightarrow>
          try_op (fileids_to_merge B st) (\<lambda>ids st.
          try_op (merge_copy D B min_merge_fileid ids st) (\<lambda>(last, entries) st.
          try_op (remove_merged ids (install_entries entries st)) (\<lambda>_ st.
          case u64_add B last 1 of Inl e \<Rightarrow> (Inl e, st) | Inr n \<Rightarrow> new_active_datafile n st))))"

end
