(* ===== verification/Frame.thy ===== *)
theory Frame
  imports Utf8 Decimal
begin

section \<open>RESP frames (src/net/frame.rs)\<close>

text \<open>
  The value type of the wire protocol and its two readers: \<open>parse\<close>, which builds a frame,
  and \<open>check\<close>, which only finds where it ends. Both read a \<open>Cursor<&[u8]>\<close>, here the buffer
  and the position, and return the new position with their result. An index outside the
  buffer, an unchecked overflow of a build with overflow checks and an oversized
  \<open>with_capacity\<close> are panics, as in the code. Memory is unbounded otherwise and so is the
  stack.
\<close>

datatype frame =
    SimpleString bytes
  | Error bytes
  | Integer int
  | BulkString bytes
  | Array "frame list"
  | Null

text \<open>\<open>NotUtf8\<close> carries a \<open>FromUtf8Error\<close>: the bytes and where they stop being UTF-8.\<close>

datatype frame_error =
    Incomplete
  | BadEncoding
  | NotInteger bytes
  | NotUtf8 bytes utf8_error

subsection \<open>Cursor primitives\<close>

definition get_byte :: "bytes \<Rightarrow> nat \<Rightarrow> (frame_error, byte \<times> nat) result" where
  "get_byte b p = (if p < length b then Inr (b ! p, p + 1) else Inl (Err Incomplete))"

definition peek_byte :: "bytes \<Rightarrow> nat \<Rightarrow> (frame_error, byte) result" where
  "peek_byte b p = (if p < length b then Inr (b ! p) else Inl (Err Incomplete))"

definition skip :: "bytes \<Rightarrow> nat \<Rightarrow> nat \<Rightarrow> (frame_error, nat) result" where
  "skip b p n = (if length b - p < n then Inl (Err Incomplete) else Inr (p + n))"

text \<open>\<open>Buf::advance\<close> panics past the end; \<open>get_ref()[i]\<close> panics outside the buffer.\<close>

definition advance :: "bytes \<Rightarrow> nat \<Rightarrow> nat \<Rightarrow> (frame_error, nat) result" where
  "advance b p n = (if p + n \<le> length b then Inr (p + n) else Inl Panic)"

definition index :: "bytes \<Rightarrow> nat \<Rightarrow> (frame_error, byte) result" where
  "index b i = (if i < length b then Inr (b ! i) else Inl Panic)"

definition ascii_to_i64 :: "byte \<Rightarrow> int option" where
  "ascii_to_i64 b = (if \<not> (48 \<le> b \<and> b \<le> 57) then None else Some (uint b - 48))"

subsection \<open>Lines\<close>

function get_line_loop :: "bytes \<Rightarrow> nat \<Rightarrow> nat \<Rightarrow> nat \<Rightarrow> (frame_error, bytes \<times> nat) result" where
  "get_line_loop b start end i =
     (if i < end then
        and_then (index b i) (\<lambda>c.
          if c = CR then
            and_then (advance b start (i - start + 2)) (\<lambda>p'. Inr (sub_slice b start i, p'))
          else if c = LF then Inl (Err BadEncoding)
          else get_line_loop b start end (i + 1))
      else Inl (Err Incomplete))"
  by pat_completeness auto
termination
  by (relation "measure (\<lambda>(b, start, end, i). end - i)") auto

declare get_line_loop.simps [simp del]

text \<open>
  With an empty buffer \<open>len() - 1\<close> underflows: a panic by itself, or, wrapped, an end the
  loop does not reach before it indexes outside the buffer.
\<close>

definition get_line :: "bytes \<Rightarrow> nat \<Rightarrow> (frame_error, bytes \<times> nat) result" where
  "get_line b p = (if b = [] then Inl Panic else get_line_loop b p (length b - 1) p)"

subsection \<open>Integers\<close>

definition max_safe_digits :: nat where
  "max_safe_digits = 18"

text \<open>The exact value of one step: \<open>num * 10 + n\<close>, or \<open>num * 10 - n\<close> after a minus sign.\<close>

definition digit_step :: "bool \<Rightarrow> int \<Rightarrow> int \<Rightarrow> int" where
  "digit_step pos m n = (if pos then m + n else m - n)"

text \<open>
  The unchecked loop, \<open>while idx != end && idx != max_safe_digits\<close>, on the plain \<open>*\<close>, \<open>+\<close>
  and \<open>-\<close> of \<open>i64\<close>. The guard tests for inequality, so an index already past \<open>end\<close> is
  read, and panics. Stops with the index and the number.
\<close>

function parse_unchecked :: "build \<Rightarrow> bool \<Rightarrow> bytes \<Rightarrow> nat \<Rightarrow> nat \<Rightarrow> int \<Rightarrow> (frame_error, nat \<times> int) result" where
  "parse_unchecked B pos b end idx num =
     (if idx \<noteq> end \<and> idx \<noteq> max_safe_digits then
        and_then (index b idx) (\<lambda>c.
          case ascii_to_i64 c of
            None \<Rightarrow> Inr (idx, num)
          | Some n \<Rightarrow>
              and_then (i64_arith B (num * 10)) (\<lambda>m.
              and_then (i64_arith B (digit_step pos m n)) (\<lambda>num'.
              parse_unchecked B pos b end (idx + 1) num')))
      else Inr (idx, num))"
  by pat_completeness auto
termination
  by (relation "measure (\<lambda>(B, pos, b, end, idx, num). length b - idx)")
    (auto simp: index_def split: if_splits)

declare parse_unchecked.simps [simp del]

text \<open>The checked loop, \<open>while idx != end\<close>, on \<open>checked_mul\<close> and \<open>checked_add\<close> or \<open>checked_sub\<close>.\<close>

function parse_checked :: "bool \<Rightarrow> bytes \<Rightarrow> nat \<Rightarrow> nat \<Rightarrow> int option \<Rightarrow> (frame_error, nat \<times> int option) result" where
  "parse_checked pos b end idx num =
     (if idx \<noteq> end then
        and_then (index b idx) (\<lambda>c.
          case ascii_to_i64 c of
            None \<Rightarrow> Inr (idx, num)
          | Some n \<Rightarrow>
              parse_checked pos b end (idx + 1)
                (Option.bind (Option.bind num (\<lambda>m. checked_i64 (m * 10)))
                   (\<lambda>m. checked_i64 (digit_step pos m n))))
      else Inr (idx, num))"
  by pat_completeness auto
termination
  by (relation "measure (\<lambda>(pos, b, end, idx, num). length b - idx)")
    (auto simp: index_def split: if_splits)

declare parse_checked.simps [simp del]

text \<open>
  What \<open>get_integer\<close> does once its loops stopped at \<open>idx\<close>: \<open>p\<close> is \<open>buf_init_pos\<close>, where the
  optional sign is, and \<open>start\<close> where the digits start. An index other than \<open>end\<close> is that
  of a byte inside the buffer, because the loops read it.
\<close>

definition finish_integer ::
    "bytes \<Rightarrow> nat \<Rightarrow> nat \<Rightarrow> nat \<Rightarrow> nat \<Rightarrow> int option \<Rightarrow> (frame_error, int \<times> nat) result" where
  "finish_integer b p start end idx num =
     (if idx = end then Inl (Err Incomplete)
      else if idx = start \<or> b ! idx \<noteq> CR
        then Inl (Err (NotInteger (from_utf8_lossy (sub_slice b p (idx + 1)))))
      else and_then (advance b start (idx - start + 2)) (\<lambda>p'.
        case num of
          None \<Rightarrow> Inl (Err (NotInteger (from_utf8_lossy (sub_slice b p idx))))
        | Some v \<Rightarrow> Inr (v, p')))"

text \<open>The buffer is not empty once \<open>peek_byte\<close> succeeded, so \<open>len() - 1\<close> is exact.\<close>

definition get_integer :: "build \<Rightarrow> bytes \<Rightarrow> nat \<Rightarrow> (frame_error, int \<times> nat) result" where
  "get_integer B b p =
     and_then (peek_byte b p) (\<lambda>c.
     and_then (if c = 45 \<or> c = 43 then advance b p 1 else Inr p) (\<lambda>start.
     let is_positive = (c \<noteq> 45); end = length b - 1 in
     and_then (parse_unchecked B is_positive b end start 0) (\<lambda>(idx, num).
     and_then (parse_checked is_positive b end idx (Some num)) (\<lambda>(idx, num).
     finish_integer b p start end idx num))))"

text \<open>\<open>i64::try_into::<usize>\<close> on a 64-bit target.\<close>

definition try_into_usize :: "int \<Rightarrow> (frame_error, nat) result" where
  "try_into_usize n = (if n < 0 then Inl (Err BadEncoding) else Inr (nat n))"

definition get_string :: "bytes \<Rightarrow> nat \<Rightarrow> (frame_error, bytes \<times> nat) result" where
  "get_string b p =
     and_then (get_line b p) (\<lambda>(l, p').
     and_then (map_err (NotUtf8 l) (from_utf8 l)) (\<lambda>s. Inr (s, p')))"

subsection \<open>How far the primitives advance\<close>

text \<open>
  A successful read moves the cursor forward and keeps it inside the buffer. The recursive
  readers below terminate because of it.
\<close>

lemma get_byte_Inr: "get_byte b p = Inr (c, q) \<longleftrightarrow> p < length b \<and> c = b ! p \<and> q = p + 1"
  by (auto simp: get_byte_def)

lemma get_line_loop_advance:
  "get_line_loop b start end i = Inr (l, q) \<Longrightarrow> start \<le> i \<Longrightarrow> start + 2 \<le> q \<and> q \<le> length b"
proof (induction b start "end" i rule: get_line_loop.induct)
  case (1 b start "end" i)
  from "1.prems"(1) show ?case
    unfolding get_line_loop.simps[of b start "end" i]
    using "1.IH" "1.prems"(2) by (auto simp: res_simps advance_def split: if_splits)
qed

lemma get_line_advance: "get_line b p = Inr (l, q) \<Longrightarrow> p + 2 \<le> q \<and> q \<le> length b"
  by (auto simp: get_line_def dest: get_line_loop_advance split: if_splits)

lemma advance_Inr: "advance b p n = Inr q \<longleftrightarrow> p + n \<le> length b \<and> q = p + n"
  by (auto simp: advance_def)

lemma finish_integer_advance:
  "finish_integer b p start end idx num = Inr (n, q) \<Longrightarrow> start + 2 \<le> q \<and> q \<le> length b"
  by (auto simp: finish_integer_def res_simps advance_Inr split: if_splits option.splits)

lemma get_integer_advance:
  assumes "get_integer B b p = Inr (n, q)"
  shows "p + 2 \<le> q \<and> q \<le> length b"
proof -
  from assms obtain c :: byte and start "end" idx num
    where "(if c = 45 \<or> c = 43 then advance b p 1 else Inr p) = Inr start"
      and fin: "finish_integer b p start end idx num = Inr (n, q)"
    unfolding get_integer_def Let_def split_beta by (elim and_then_InrE) blast
  then have "p \<le> start" by (simp add: advance_Inr split: if_splits)
  with finish_integer_advance[OF fin] show ?thesis by simp
qed

lemma get_string_advance: "get_string b p = Inr (s, q) \<Longrightarrow> p + 2 \<le> q \<and> q \<le> length b"
  by (auto simp: get_string_def res_simps dest: get_line_advance)

lemma skip_Inr: "skip b p n = Inr q \<longleftrightarrow> n \<le> length b - p \<and> q = p + n"
  by (auto simp: skip_def)

lemmas advance_facts = get_line_advance get_integer_advance get_string_advance

subsection \<open>Frame::check\<close>

function (sequential) check :: "build \<Rightarrow> bytes \<Rightarrow> nat \<Rightarrow> (frame_error, nat) result"
  and check_items :: "build \<Rightarrow> nat \<Rightarrow> bytes \<Rightarrow> nat \<Rightarrow> (frame_error, nat) result" where
  "check B b p =
     and_then (get_byte b p) (\<lambda>(c, p1).
       if c = 43 then and_then (get_line b p1) (\<lambda>(l, p2). Inr p2)
       else if c = 45 then and_then (get_line b p1) (\<lambda>(l, p2). Inr p2)
       else if c = 58 then and_then (get_integer B b p1) (\<lambda>(n, p2). Inr p2)
       else if c = 36 then
         and_then (peek_byte b p1) (\<lambda>d.
           if d = 45 then skip b p1 4
           else and_then (get_integer B b p1) (\<lambda>(n, p2).
                and_then (try_into_usize n) (\<lambda>len. skip b p2 (len + 2))))
       else if c = 42 then
         and_then (get_integer B b p1) (\<lambda>(n, p2). check_items B (nat n) b p2)
       else Inl (Err BadEncoding))"
| "check_items B 0 b p = Inr p"
| "check_items B (Suc k) b p = and_then (check B b p) (\<lambda>p'. check_items B k b p')"
  by pat_completeness auto

lemma check_forward_dom:
  "check_check_items_dom (Inl (B, b, p)) \<Longrightarrow> check B b p = Inr q \<Longrightarrow> p < q"
  "check_check_items_dom (Inr (B, k, b, p)) \<Longrightarrow> check_items B k b p = Inr q \<Longrightarrow> p \<le> q"
proof (induction B b p and B k b p arbitrary: q and q rule: check_check_items.pinduct)
  case (1 B b p)
  show ?case
  proof (cases "p < length b")
    case True
    then have c: "get_byte b p = Inr (b ! p, p + 1)" by (simp add: get_byte_def)
    show ?thesis
    proof (cases "b ! p = 42")
      case star: True
      with "1.prems" "1.hyps" c obtain n p2
        where n: "get_integer B b (p + 1) = Inr (n, p2)" and "check_items B (nat n) b p2 = Inr q"
        by (auto simp: check.psimps elim!: and_then_InrE)
      then have "p2 \<le> q" using "1.IH"[OF c refl _ _ _ _ _ n] star by simp
      with get_integer_advance[OF n] show ?thesis by simp
    next
      case False
      with "1.prems" "1.hyps" c show ?thesis
        by (auto simp: check.psimps skip_Inr split: if_splits elim!: and_then_InrE dest!: advance_facts)
    qed
  next
    case False
    with "1.prems" "1.hyps" show ?thesis by (simp add: check.psimps get_byte_def)
  qed
next
  case (2 B b p)
  then show ?case by (simp add: check_items.psimps)
next
  case (3 B k b p)
  from "3.prems" "3.hyps" "3.IH" show ?case
    by (auto simp: check_items.psimps res_simps) (meson less_imp_le order_trans)
qed

termination check
proof (relation "measures
    [\<lambda>x. case x of Inl (B, b, p) \<Rightarrow> length b - p | Inr (B, k, b, p) \<Rightarrow> length b - p,
     \<lambda>x. case x of Inl (B, b, p) \<Rightarrow> 0 | Inr (B, k, b, p) \<Rightarrow> Suc k]", goal_cases)
  case 1
  show ?case by simp
next
  case (2 B b p x c p1 y n p2)
  then have "p < length b" and "p < p2"
    by (auto simp: get_byte_Inr dest!: advance_facts)
  then show ?case by simp
next
  case (3 B k b p)
  show ?case by simp
next
  case (4 B k b p p')
  then have "p < p'" by (auto dest: check_forward_dom(1))
  then show ?case by simp linarith
qed

subsection \<open>Frame::parse\<close>

function (sequential) parse :: "build \<Rightarrow> bytes \<Rightarrow> nat \<Rightarrow> (frame_error, frame \<times> nat) result"
  and parse_items :: "build \<Rightarrow> nat \<Rightarrow> bytes \<Rightarrow> nat \<Rightarrow> (frame_error, frame list \<times> nat) result" where
  "parse B b p =
     and_then (get_byte b p) (\<lambda>(c, p1).
       if c = 43 then and_then (get_string b p1) (\<lambda>(s, p2). Inr (SimpleString s, p2))
       else if c = 45 then and_then (get_string b p1) (\<lambda>(s, p2). Inr (Error s, p2))
       else if c = 58 then and_then (get_integer B b p1) (\<lambda>(n, p2). Inr (Integer n, p2))
       else if c = 36 then
         and_then (peek_byte b p1) (\<lambda>d.
           if d = 45 then
             and_then (get_line b p1) (\<lambda>(l, p2).
               if l \<noteq> [45, 49] then Inl (Err BadEncoding) else Inr (Null, p2))
           else and_then (get_integer B b p1) (\<lambda>(n, p2).
                and_then (try_into_usize n) (\<lambda>len.
                  if length b - p2 < len + 2 then Inl (Err Incomplete)
                  else and_then (skip b (p2 + len) 2) (\<lambda>p3.
                       Inr (BulkString (sub_slice b p2 (p2 + len)), p3)))))
       else if c = 42 then
         and_then (get_integer B b p1) (\<lambda>(n, p2).
         and_then (try_into_usize n) (\<lambda>len.
           if max_vec_frames B < len then Inl Panic
           else and_then (parse_items B len b p2) (\<lambda>(items, p3). Inr (Array items, p3))))
       else Inl (Err BadEncoding))"
| "parse_items B 0 b p = Inr ([], p)"
| "parse_items B (Suc k) b p =
     and_then (parse B b p) (\<lambda>(f, p').
     and_then (parse_items B k b p') (\<lambda>(fs, p''). Inr (f # fs, p'')))"
  by pat_completeness auto

lemma parse_forward_dom:
  "parse_parse_items_dom (Inl (B, b, p)) \<Longrightarrow> parse B b p = Inr (f, q) \<Longrightarrow> p < q"
  "parse_parse_items_dom (Inr (B, k, b, p)) \<Longrightarrow> parse_items B k b p = Inr (fs, q) \<Longrightarrow> p \<le> q"
proof (induction B b p and B k b p arbitrary: f q and fs q rule: parse_parse_items.pinduct)
  case (1 B b p)
  show ?case
  proof (cases "p < length b")
    case True
    then have c: "get_byte b p = Inr (b ! p, p + 1)" by (simp add: get_byte_def)
    show ?thesis
    proof (cases "b ! p = 42")
      case star: True
      with "1.prems" "1.hyps" c obtain n p2 len items
        where n: "get_integer B b (p + 1) = Inr (n, p2)" and len: "try_into_usize n = Inr len"
          and cap: "\<not> max_vec_frames B < len" and "parse_items B len b p2 = Inr (items, q)"
        by (auto simp: parse.psimps split: if_splits elim!: and_then_InrE)
      then have "p2 \<le> q" using "1.IH"[OF c refl _ _ _ _ _ n refl len cap] star by simp
      with get_integer_advance[OF n] show ?thesis by simp
    next
      case False
      with "1.prems" "1.hyps" c show ?thesis
        by (auto simp: parse.psimps skip_Inr split: if_splits elim!: and_then_InrE dest!: advance_facts)
    qed
  next
    case False
    with "1.prems" "1.hyps" show ?thesis by (simp add: parse.psimps get_byte_def)
  qed
next
  case (2 B b p)
  then show ?case by (simp add: parse_items.psimps)
next
  case (3 B k b p)
  from "3.prems" "3.hyps" "3.IH" show ?case
    by (auto simp: parse_items.psimps res_simps) (meson less_imp_le order_trans)
qed

termination parse
proof (relation "measures
    [\<lambda>x. case x of Inl (B, b, p) \<Rightarrow> length b - p | Inr (B, k, b, p) \<Rightarrow> length b - p,
     \<lambda>x. case x of Inl (B, b, p) \<Rightarrow> 0 | Inr (B, k, b, p) \<Rightarrow> Suc k]", goal_cases)
  case 1
  show ?case by simp
next
  case (2 B b p x c p1 y n p2 len)
  then have "p < length b" and "p < p2"
    by (auto simp: get_byte_Inr dest!: advance_facts)
  then show ?case by simp
next
  case (3 B k b p)
  show ?case by simp
next
  case (4 B k b p x f p')
  then have "p < p'" by (auto dest: parse_forward_dom(1))
  then show ?case by simp linarith
qed

declare check.simps [simp del] parse.simps [simp del]

end
