(* ===== verification/FrameInteger.thy ===== *)
theory FrameInteger
  imports Frame
begin

section \<open>What the integer reader computes\<close>

text \<open>
  The functional behaviour of \<open>get_integer\<close> (src/net/frame.rs) on a complete integer line:
  the exact value where it fits an \<open>i64\<close>, and otherwise an error, a panic or a wrapped
  value, depending on where in the buffer the line starts and on the build.
\<close>

subsection \<open>Single digits\<close>

lemma ascii_to_i64_digit: "is_digit d \<Longrightarrow> ascii_to_i64 d = Some (int (digit_val d))"
proof -
  assume d: "is_digit d"
  then have "48 \<le> unat d" by (simp add: is_digit_unat)
  then have "int (digit_val d) = int (unat d) - 48" by (simp add: digit_val_def)
  with d show ?thesis by (simp add: ascii_to_i64_def is_digit_def)
qed

lemma ascii_to_i64_None: "\<not> is_digit d \<Longrightarrow> ascii_to_i64 d = None"
  by (simp add: ascii_to_i64_def is_digit_def)

lemma ascii_to_i64_None_iff: "ascii_to_i64 d = None \<longleftrightarrow> \<not> is_digit d"
  using ascii_to_i64_digit ascii_to_i64_None by force

subsection \<open>The exact value of a run of digits\<close>

fun run_value :: "bool \<Rightarrow> int \<Rightarrow> bytes \<Rightarrow> int" where
  "run_value pos num [] = num"
| "run_value pos num (d # ds) = run_value pos (digit_step pos (num * 10) (int (digit_val d))) ds"

lemma run_value_append: "run_value pos num (xs @ ys) = run_value pos (run_value pos num xs) ys"
  by (induction xs arbitrary: num) auto

lemma run_value_eq:
  "run_value pos 0 ds = (if pos then int (digits_val ds) else - int (digits_val ds))"
  by (induction ds rule: rev_induct) (auto simp: run_value_append digit_step_def)

definition has_sign :: "bool \<Rightarrow> int \<Rightarrow> bool" where
  "has_sign pos x \<longleftrightarrow> (if pos then 0 \<le> x else x \<le> 0)"

lemma has_sign_0 [simp]: "has_sign pos 0"
  by (simp add: has_sign_def)

lemma has_sign_step: "has_sign pos num \<Longrightarrow> has_sign pos (digit_step pos (num * 10) (int n))"
  by (cases pos) (simp_all add: has_sign_def digit_step_def)

lemma has_sign_run: "has_sign pos num \<Longrightarrow> has_sign pos (run_value pos num ds)"
  by (induction ds arbitrary: num) (simp_all add: has_sign_step)

lemma in_i64_step:
  assumes "has_sign pos num" and "in_i64 (digit_step pos (num * 10) (int n))"
  shows "in_i64 (num * 10)" and "in_i64 num"
proof -
  have "0 \<le> int n" by simp
  with assms show "in_i64 (num * 10)" and "in_i64 num"
    unfolding has_sign_def digit_step_def in_i64_def
    by (cases pos; simp only: if_True if_False; linarith)+
qed

text \<open>A run that fits an \<open>i64\<close> never leaves the range on the way.\<close>

lemma in_i64_run: "has_sign pos num \<Longrightarrow> in_i64 (run_value pos num ds) \<Longrightarrow> in_i64 num"
proof (induction ds arbitrary: num)
  case (Cons d ds)
  then have "in_i64 (digit_step pos (num * 10) (int (digit_val d)))"
    by (simp add: has_sign_step)
  with Cons.prems(1) show ?case by (rule in_i64_step(2))
qed simp

lemma in_i64_run_Cons:
  assumes "has_sign pos num" and "in_i64 (run_value pos num (d # ds))"
  shows "in_i64 (num * 10)" and "in_i64 (digit_step pos (num * 10) (int (digit_val d)))"
proof -
  show m: "in_i64 (digit_step pos (num * 10) (int (digit_val d)))"
    using in_i64_run[OF has_sign_step[OF assms(1)]] assms(2) by simp
  show "in_i64 (num * 10)" by (rule in_i64_step(1)[OF assms(1) m])
qed

lemma run_value_short:
  assumes "list_all is_digit ds" and "length ds \<le> 18"
  shows "in_i64 (run_value pos 0 ds)"
proof -
  have "digits_val ds < 10 ^ length ds" by (rule digits_val_bound[OF assms(1)])
  also have "\<dots> \<le> 10 ^ 18" using assms(2) by (intro power_increasing) auto
  finally have "int (digits_val ds) < 10 ^ 18" by simp
  then show ?thesis by (auto simp: run_value_eq in_i64_def)
qed

lemma digit_step_mod_cong:
  assumes "y mod m = x mod (m :: int)"
  shows "digit_step pos y n mod m = digit_step pos x n mod m"
proof (cases pos)
  case True
  then show ?thesis using mod_add_cong[OF assms refl] by (simp add: digit_step_def)
next
  case False
  then show ?thesis using mod_diff_cong[OF assms refl] by (simp add: digit_step_def)
qed

lemma run_value_wrap:
  "wrap_i64 (run_value pos (wrap_i64 x) ds) = wrap_i64 (run_value pos x ds)"
proof -
  have cong: "run_value pos y ds mod 2 ^ 64 = run_value pos x ds mod 2 ^ 64"
    if "y mod 2 ^ 64 = x mod 2 ^ 64" for y
    using that
  proof (induction ds arbitrary: x y)
    case (Cons d ds)
    have "digit_step pos (y * 10) (int (digit_val d)) mod 2 ^ 64
        = digit_step pos (x * 10) (int (digit_val d)) mod 2 ^ 64"
      by (rule digit_step_mod_cong[OF mod_mult_cong[OF Cons.prems refl]])
    then show ?case unfolding run_value.simps by (rule Cons.IH)
  qed simp
  show ?thesis unfolding wrap_i64_cong by (rule cong[OF wrap_i64_mod])
qed

subsection \<open>The two loops on a run of digits\<close>

text \<open>
  \<open>digit_run b e idx ds\<close>: the bytes of \<open>b\<close> from \<open>idx\<close> are the digits \<open>ds\<close>, then one byte that
  is no digit and stands before \<open>e\<close>, itself inside the buffer.
\<close>

definition digit_run :: "bytes \<Rightarrow> nat \<Rightarrow> nat \<Rightarrow> bytes \<Rightarrow> bool" where
  "digit_run b e idx ds \<longleftrightarrow>
     list_all is_digit ds \<and> sub_slice b idx (idx + length ds) = ds \<and>
     idx + length ds < e \<and> e < length b \<and> \<not> is_digit (b ! (idx + length ds))"

lemma digit_run_Cons:
  assumes "digit_run b e idx (d # ds)"
  shows "b ! idx = d" and "is_digit d" and "idx < e" and "e < length b" and "digit_run b e (idx + 1) ds"
proof -
  from assms have sl: "take (Suc (length ds)) (drop idx b) = d # ds"
    and len: "idx + Suc (length ds) < e" "e < length b"
    and digs: "is_digit d" "list_all is_digit ds"
    and stop: "\<not> is_digit (b ! (idx + Suc (length ds)))"
    by (auto simp: digit_run_def sub_slice_def)
  from len have dr: "drop idx b = b ! idx # drop (Suc idx) b"
    by (simp add: Cons_nth_drop_Suc)
  with sl have "b ! idx = d" "take (length ds) (drop (Suc idx) b) = ds" by auto
  with len digs stop show "b ! idx = d" and "is_digit d" and "idx < e" and "e < length b"
    and "digit_run b e (idx + 1) ds"
    by (auto simp: digit_run_def sub_slice_def)
qed

lemma digit_run_Nil: "digit_run b e idx [] \<longleftrightarrow> idx < e \<and> e < length b \<and> \<not> is_digit (b ! idx)"
  by (auto simp: digit_run_def sub_slice_def)

lemma digit_run_drop: "digit_run b e idx (xs @ ys) \<Longrightarrow> digit_run b e (idx + length xs) ys"
proof (induction xs arbitrary: idx)
  case (Cons x xs)
  then have "digit_run b e (idx + 1) (xs @ ys)" by (metis append_Cons digit_run_Cons(5))
  from Cons.IH[OF this] show ?case by simp
qed simp

lemma digit_run_intro:
  assumes "b = pre @ ds @ c # x # post" and "list_all is_digit ds" and "\<not> is_digit c"
  shows "digit_run b (length b - 1) (length pre) ds"
  using assms by (simp add: digit_run_def sub_slice_middle nth_append)

lemma parse_unchecked_stop:
  "idx = end \<or> idx = 18 \<Longrightarrow> parse_unchecked B pos b end idx num = Inr (idx, num)"
  by (auto simp: parse_unchecked.simps[of B pos b "end" idx num] max_safe_digits_def)

lemma parse_unchecked_nondigit:
  "idx < length b \<Longrightarrow> \<not> is_digit (b ! idx) \<Longrightarrow> parse_unchecked B pos b end idx num = Inr (idx, num)"
  by (auto simp: parse_unchecked.simps[of B pos b "end" idx num] index_def ascii_to_i64_None)

lemma parse_unchecked_digit:
  assumes "idx < length b" and "is_digit (b ! idx)" and "idx \<noteq> end" and "idx \<noteq> 18"
  shows "parse_unchecked B pos b end idx num =
           and_then (i64_arith B (num * 10)) (\<lambda>m.
           and_then (i64_arith B (digit_step pos m (int (digit_val (b ! idx))))) (\<lambda>num'.
           parse_unchecked B pos b end (idx + 1) num'))"
  using assms
  by (simp add: parse_unchecked.simps[of B pos b "end" idx num] index_def ascii_to_i64_digit
      max_safe_digits_def)

text \<open>While every step fits, the loop is exact, up to the index where it stops checking.\<close>

lemma parse_unchecked_exact:
  assumes "digit_run b e idx (ds @ ds')" and "in_i64 (run_value pos num ds)"
    and "has_sign pos num"
    and "\<forall>k < length ds. idx + k \<noteq> 18" and "ds' = [] \<or> idx + length ds = 18"
  shows "parse_unchecked B pos b e idx num
       = Inr (idx + length ds, run_value pos num ds)"
  using assms
proof (induction ds arbitrary: idx num)
  case Nil
  then show ?case
    by (auto simp: digit_run_Nil parse_unchecked_nondigit parse_unchecked_stop)
next
  case (Cons d ds)
  let ?m = "digit_step pos (num * 10) (int (digit_val d))"
  have run: "digit_run b e idx (d # ds @ ds')" using Cons.prems(1) by simp
  note d = digit_run_Cons[OF run]
  note fits = in_i64_run_Cons[OF Cons.prems(3,2)]
  have "idx \<noteq> 18" using Cons.prems(4) by (auto dest: spec[of _ 0])
  with d fits have "parse_unchecked B pos b e idx num
      = parse_unchecked B pos b e (idx + 1) ?m"
    by (simp add: parse_unchecked_digit)
  also have "\<dots> = Inr (idx + 1 + length ds, run_value pos ?m ds)"
  proof (rule Cons.IH)
    show "\<forall>k < length ds. idx + 1 + k \<noteq> 18"
      using Cons.prems(4) by (auto dest: spec[of _ "Suc _"])
  qed (use d fits Cons.prems has_sign_step in auto)
  finally show ?case by simp
qed

text \<open>Without overflow checks and past index 18 it is exact modulo \<open>2 ^ 64\<close>.\<close>

lemma parse_unchecked_wraps:
  assumes "digit_run b e idx ds" and "18 < idx" and "\<not> overflow_checks B" and "in_i64 num"
  shows "parse_unchecked B pos b e idx num
       = Inr (idx + length ds, wrap_i64 (run_value pos num ds))"
  using assms
proof (induction ds arbitrary: idx num)
  case Nil
  then show ?case by (auto simp: digit_run_Nil parse_unchecked_nondigit wrap_i64_id)
next
  case (Cons d ds)
  note d = digit_run_Cons[OF Cons.prems(1)]
  let ?m = "digit_step pos (num * 10) (int (digit_val d))"
  have arith: "i64_arith B x = Inr (wrap_i64 x)" for x :: int
    using Cons.prems(3) by (simp add: i64_arith_def wrap_i64_id)
  have "wrap_i64 (digit_step pos (wrap_i64 (num * 10)) (int (digit_val d))) = wrap_i64 ?m"
    unfolding wrap_i64_cong by (rule digit_step_mod_cong[OF wrap_i64_mod])
  with d Cons.prems(2) have "parse_unchecked B pos b e idx num
      = parse_unchecked B pos b e (idx + 1) (wrap_i64 ?m)"
    by (simp add: parse_unchecked_digit arith)
  also have "\<dots> = Inr (idx + 1 + length ds, wrap_i64 (run_value pos (wrap_i64 ?m) ds))"
    using d Cons.prems by (intro Cons.IH) auto
  finally show ?case by (simp add: run_value_wrap)
qed

text \<open>With overflow checks and past index 18 a number that does not fit panics.\<close>

lemma parse_unchecked_panics:
  assumes "digit_run b e idx ds" and "18 < idx" and "overflow_checks B"
    and "in_i64 num" and "\<not> in_i64 (run_value pos num ds)"
  shows "parse_unchecked B pos b e idx num = Inl Panic"
  using assms
proof (induction ds arbitrary: idx num)
  case (Cons d ds)
  note d = digit_run_Cons[OF Cons.prems(1)]
  let ?m = "digit_step pos (num * 10) (int (digit_val d))"
  have step: "parse_unchecked B pos b e idx num =
      and_then (i64_arith B (num * 10)) (\<lambda>m.
      and_then (i64_arith B (digit_step pos m (int (digit_val d))))
        (parse_unchecked B pos b e (idx + 1)))"
    using d Cons.prems(2) by (simp add: parse_unchecked_digit)
  show ?case
  proof (cases "in_i64 (num * 10) \<and> in_i64 ?m")
    case True
    then have "parse_unchecked B pos b e (idx + 1) ?m = Inl Panic"
      using d Cons.prems by (intro Cons.IH) auto
    with True show ?thesis by (simp add: step)
  next
    case False
    with Cons.prems(3) show ?thesis
      by (cases "in_i64 (num * 10)") (simp_all add: step i64_arith_def)
  qed
qed simp

text \<open>The checked loop reads the whole run and has a number exactly when it fits.\<close>

definition checked_step :: "bool \<Rightarrow> byte \<Rightarrow> int option \<Rightarrow> int option" where
  "checked_step pos d acc =
     Option.bind (Option.bind acc (\<lambda>m. checked_i64 (m * 10)))
       (\<lambda>m. checked_i64 (digit_step pos m (int (digit_val d))))"

lemma parse_checked_digits:
  assumes "digit_run b e idx ds"
  shows "parse_checked pos b e idx num
       = Inr (idx + length ds,
              fold (checked_step pos) ds num)"
  using assms
proof (induction ds arbitrary: idx num)
  case Nil
  then show ?case
    by (auto simp: digit_run_Nil parse_checked.simps[of pos b e idx num] index_def
        ascii_to_i64_None)
next
  case (Cons d ds)
  note d = digit_run_Cons[OF Cons.prems]
  with Cons.IH[OF d(5)] show ?case
    by (simp add: parse_checked.simps[of pos b e idx num] index_def
        ascii_to_i64_digit checked_step_def)
qed

lemma fold_checked_None:
  "fold (checked_step pos) ds None = None"
  by (induction ds) (auto simp: checked_step_def)

lemma fold_checked:
  assumes "in_i64 num" and "has_sign pos num"
  shows "fold (checked_step pos) ds (Some num)
       = checked_i64 (run_value pos num ds)"
  using assms
proof (induction ds arbitrary: num)
  case Nil
  then show ?case by (simp add: checked_i64_def)
next
  case (Cons d ds)
  let ?m = "digit_step pos (num * 10) (int (digit_val d))"
  show ?case
  proof (cases "in_i64 (num * 10) \<and> in_i64 ?m")
    case True
    moreover have "has_sign pos ?m" by (rule has_sign_step[OF Cons.prems(2)])
    ultimately show ?thesis using Cons.IH[of ?m] by (simp add: checked_i64_def checked_step_def)
  next
    case False
    then have "checked_step pos d (Some num) = None"
      by (auto simp: checked_step_def checked_i64_def)
    moreover from False have "\<not> in_i64 (run_value pos num (d # ds))"
      using in_i64_run_Cons Cons.prems(2) by blast
    ultimately show ?thesis by (simp add: checked_i64_def fold_checked_None)
  qed
qed

subsection \<open>The whole reader\<close>

text \<open>The value of an integer line: an optional sign and digits.\<close>

definition line_value :: "bytes \<Rightarrow> bytes \<Rightarrow> int" where
  "line_value sign ds = (if sign = [45] then - int (digits_val ds) else int (digits_val ds))"

lemma line_value_run: "line_value sign ds = run_value (sign \<noteq> [45]) 0 ds"
  by (simp add: line_value_def run_value_eq)

text \<open>From its second loop on, \<open>get_integer\<close> depends on where the first loop stopped only.\<close>

lemma get_integer_start:
  assumes b: "b = pre @ sign @ ds @ CR # x # post"
    and sign: "sign = [] \<or> sign = [43] \<or> sign = [45]" and ds: "ds \<noteq> []" "list_all is_digit ds"
    and start: "start = length pre + length sign"
  shows "get_integer B b (length pre) =
     and_then (parse_unchecked B (sign \<noteq> [45]) b (length b - 1) start 0) (\<lambda>(idx, num).
     and_then (parse_checked (sign \<noteq> [45]) b (length b - 1) idx (Some num)) (\<lambda>(idx, num).
     finish_integer b (length pre) start (length b - 1) idx num))"
proof -
  obtain d ds' where d: "ds = d # ds'" "is_digit d" using ds by (cases ds) auto
  then have neq: "d \<noteq> 43" "d \<noteq> 45" by auto
  from sign consider "sign = []" | "sign = [43]" | "sign = [45]" by blast
  then show ?thesis
    by cases (simp_all add: get_integer_def peek_byte_def advance_def nth_append b start d neq Let_def)
qed

lemma finish_integer_line:
  assumes b: "b = pre @ sign @ ds @ CR # x # post" and ds: "ds \<noteq> []"
    and start: "start = length pre + length sign" and idx: "idx = start + length ds"
    and form: "list_all is_digit ds" "sign = [] \<or> sign = [43] \<or> sign = [45]"
  shows "finish_integer b (length pre) start (length b - 1) idx num =
     (case num of None \<Rightarrow> Inl (Err (NotInteger (sign @ ds))) | Some v \<Rightarrow> Inr (v, idx + 2))"
proof -
  have "b ! idx = CR" and "idx + 2 \<le> length b"
    by (simp_all add: b idx start nth_append)
  moreover have "sub_slice b (length pre) idx = sign @ ds"
    using sub_slice_middle[of pre "sign @ ds" "CR # x # post"]
    by (simp add: b idx start add.assoc)
  moreover have "valid_utf8 (sign @ ds)"
  proof (rule valid_utf8_ascii, rule ballI)
    fix a assume "a \<in> set (sign @ ds)"
    then have "a = 43 \<or> a = 45 \<or> is_digit a" using form by (auto simp: list_all_iff)
    then show "a < 0x80" by (auto simp: is_digit_unat word_less_nat_alt)
  qed
  ultimately show ?thesis using ds
    by (auto simp: finish_integer_def idx advance_def from_utf8_lossy_valid split: option.splits)
qed

lemma get_integer_line:
  assumes b: "b = pre @ sign @ ds @ CR # x # post"
    and sign: "sign = [] \<or> sign = [43] \<or> sign = [45]" and ds: "ds \<noteq> []" "list_all is_digit ds"
    and start: "start = length pre + length sign"
  shows "get_integer B b (length pre) =
    (if in_i64 (line_value sign ds) then Inr (line_value sign ds, start + length ds + 2)
     else if start \<le> 18 then Inl (Err (NotInteger (sign @ ds)))
     else if overflow_checks B then Inl Panic
     else Inr (wrap_i64 (line_value sign ds), start + length ds + 2))"
proof -
  let ?pos = "sign \<noteq> [45]"
  define e where "e = length b - 1"
  let ?v = "run_value ?pos 0 ds"
  have run: "digit_run b e start ds"
    using digit_run_intro[of b "pre @ sign" ds CR x post] ds by (simp add: b start e_def)
  note pre = get_integer_start[OF b sign ds start, folded e_def]
  note fin = finish_integer_line[OF b ds(1) start refl ds(2) sign, folded e_def]
  have zero: "in_i64 0" by (simp add: in_i64_def)
  have tail: "parse_checked ?pos b e (start + length ds) (Some v) = Inr (start + length ds, Some v)"
    for v
    using parse_checked_digits[OF digit_run_drop[of b e start ds "[]"]] run by simp
  consider (low) "start \<le> 18" | (high) "18 < start" by linarith
  then show ?thesis
  proof cases
    case low
    obtain xs ys where split: "ds = xs @ ys" and len: "length xs = min (length ds) (18 - start)"
      using append_take_drop_id length_take by (metis min.commute)
    have fits: "in_i64 (run_value ?pos 0 xs)"
      using ds(2) len by (intro run_value_short) (auto simp: split)
    have "\<forall>j < length xs. start + j \<noteq> 18" "ys = [] \<or> start + length xs = 18"
      using low len by (auto simp: split min_def split: if_splits)
    then have "parse_unchecked B ?pos b e start 0 = Inr (start + length xs, run_value ?pos 0 xs)"
      using run by (intro parse_unchecked_exact[where ds' = ys]) (simp_all add: split fits)
    moreover have "parse_checked ?pos b e (start + length xs) (Some (run_value ?pos 0 xs))
        = Inr (start + length ds, checked_i64 ?v)"
      using parse_checked_digits[OF digit_run_drop, of b e start xs ys ?pos] run
        fold_checked[OF fits has_sign_run[OF has_sign_0], of ys]
      by (simp add: split run_value_append)
    ultimately show ?thesis
      using low by (simp add: pre fin line_value_run checked_i64_def)
  next
    case high
    show ?thesis
    proof (cases "in_i64 ?v")
      case True
      have "parse_unchecked B ?pos b e start 0 = Inr (start + length ds, ?v)"
        using run high True zero by (intro parse_unchecked_exact[where ds' = "[]"]) auto
      with True show ?thesis by (simp add: pre tail fin line_value_run)
    next
      case False
      then show ?thesis
        using high parse_unchecked_wraps[OF run high _ zero, of B ?pos]
          parse_unchecked_panics[OF run high _ zero, of B ?pos]
        by (simp add: pre tail fin line_value_run)
    qed
  qed
qed

end
