(* ===== verification/FrameFacts.thy ===== *)
theory FrameFacts
  imports FrameInteger
begin

section \<open>Facts about the two frame readers\<close>

text \<open>
  \<open>check\<close> against \<open>parse\<close>; what a longer buffer changes; which inputs panic; the shape of a
  parsed frame. The lemmas follow the structure of src/net/frame.rs: primitives first,
  then the integer reader, then the two mutually recursive readers by their induction rules.
\<close>

subsection \<open>One step of each reader\<close>

lemma check_at_end: "\<not> p < length b \<Longrightarrow> check B b p = Inl (Err Incomplete)"
  by (simp add: check.simps[of B b p] get_byte_def)

lemma parse_at_end: "\<not> p < length b \<Longrightarrow> parse B b p = Inl (Err Incomplete)"
  by (simp add: parse.simps[of B b p] get_byte_def)

lemma check_in:
  "p < length b \<Longrightarrow> check B b p =
     (if b ! p = 43 then and_then (get_line b (Suc p)) (\<lambda>(l, p2). Inr p2)
      else if b ! p = 45 then and_then (get_line b (Suc p)) (\<lambda>(l, p2). Inr p2)
      else if b ! p = 58 then and_then (get_integer B b (Suc p)) (\<lambda>(n, p2). Inr p2)
      else if b ! p = 36 then
        and_then (peek_byte b (Suc p)) (\<lambda>d.
          if d = 45 then skip b (Suc p) 4
          else and_then (get_integer B b (Suc p)) (\<lambda>(n, p2).
               and_then (try_into_usize n) (\<lambda>len. skip b p2 (len + 2))))
      else if b ! p = 42 then
        and_then (get_integer B b (Suc p)) (\<lambda>(n, p2). check_items B (nat n) b p2)
      else Inl (Err BadEncoding))"
  by (simp add: check.simps[of B b p] get_byte_def)

lemma parse_in:
  "p < length b \<Longrightarrow> parse B b p =
     (if b ! p = 43 then and_then (get_string b (Suc p)) (\<lambda>(s, p2). Inr (SimpleString s, p2))
      else if b ! p = 45 then and_then (get_string b (Suc p)) (\<lambda>(s, p2). Inr (Error s, p2))
      else if b ! p = 58 then and_then (get_integer B b (Suc p)) (\<lambda>(n, p2). Inr (Integer n, p2))
      else if b ! p = 36 then
        and_then (peek_byte b (Suc p)) (\<lambda>d.
          if d = 45 then
            and_then (get_line b (Suc p)) (\<lambda>(l, p2).
              if l \<noteq> [45, 49] then Inl (Err BadEncoding) else Inr (Null, p2))
          else and_then (get_integer B b (Suc p)) (\<lambda>(n, p2).
               and_then (try_into_usize n) (\<lambda>len.
                 if length b - p2 < len + 2 then Inl (Err Incomplete)
                 else and_then (skip b (p2 + len) 2) (\<lambda>p3.
                      Inr (BulkString (sub_slice b p2 (p2 + len)), p3)))))
      else if b ! p = 42 then
        and_then (get_integer B b (Suc p)) (\<lambda>(n, p2).
        and_then (try_into_usize n) (\<lambda>len.
          if max_vec_frames B < len then Inl Panic
          else and_then (parse_items B len b p2) (\<lambda>(items, p3). Inr (Array items, p3))))
      else Inl (Err BadEncoding))"
  by (simp add: parse.simps[of B b p] get_byte_def)

subsection \<open>Lines\<close>

text \<open>\<open>plain b i j\<close>: no carriage return and no line feed in \<open>b[i..j]\<close>.\<close>

definition plain :: "bytes \<Rightarrow> nat \<Rightarrow> nat \<Rightarrow> bool" where
  "plain b i j \<longleftrightarrow> (\<forall>k. i \<le> k \<and> k < j \<longrightarrow> b ! k \<noteq> CR \<and> b ! k \<noteq> LF)"

lemma all_between_step:
  "(\<forall>k. i \<le> k \<and> k < (j :: nat) \<longrightarrow> P k) \<longleftrightarrow> (i < j \<longrightarrow> P i \<and> (\<forall>k. Suc i \<le> k \<and> k < j \<longrightarrow> P k))"
proof (cases "i < j")
  case True
  then have eq: "i \<le> k \<and> k < j \<longleftrightarrow> k = i \<or> (Suc i \<le> k \<and> k < j)" for k by auto
  from True show ?thesis by (simp only: eq simp_thms) (metis)
qed auto

lemma plain_step: "plain b i j \<longleftrightarrow> (i < j \<longrightarrow> b ! i \<noteq> CR \<and> b ! i \<noteq> LF \<and> plain b (Suc i) j)"
  unfolding plain_def by (subst all_between_step) blast

lemma plain_empty [simp]: "plain b i i"
  by (subst plain_step) simp

lemma get_line_loop_step:
  "i < end \<Longrightarrow> end < length b \<Longrightarrow> start \<le> i \<Longrightarrow> get_line_loop b start end i =
     (if b ! i = CR then Inr (sub_slice b start i, i + 2)
      else if b ! i = LF then Inl (Err BadEncoding)
      else get_line_loop b start end (Suc i))"
  by (simp add: get_line_loop.simps[of b start "end" i] index_def advance_def)

lemma get_line_loop_stop: "end \<le> i \<Longrightarrow> get_line_loop b start end i = Inl (Err Incomplete)"
  by (simp add: get_line_loop.simps[of b start "end" i])

lemma get_line_loop_Inr:
  assumes "get_line_loop b start end i = Inr (l, q)" and "start \<le> i" and "end < length b"
  shows "\<exists>j. i \<le> j \<and> j < end \<and> b ! j = CR \<and> plain b i j \<and> l = sub_slice b start j \<and> q = j + 2"
  using assms
proof (induction b start "end" i rule: get_line_loop.induct)
  case (1 b start "end" i)
  show ?case
  proof (cases "i < end \<and> b ! i \<noteq> CR")
    case True
    with "1.prems" have lf: "b ! i \<noteq> LF" and rest: "get_line_loop b start end (Suc i) = Inr (l, q)"
      by (auto simp: get_line_loop_step split: if_splits)
    with True "1.prems" "1.IH"[of "b ! i"] obtain j where
      "Suc i \<le> j \<and> j < end \<and> b ! j = CR \<and> plain b (Suc i) j \<and> l = sub_slice b start j \<and> q = j + 2"
      by (auto simp: index_def)
    with True lf show ?thesis by (intro exI[of _ j]) (auto simp: plain_step[of b i j])
  next
    case False
    with "1.prems" show ?thesis
      by (cases "i < end") (auto simp: get_line_loop_step get_line_loop_stop intro!: exI[of _ i])
  qed
qed

lemma get_line_loop_reaches:
  assumes "i \<le> j" and "j < end" and "end < length b" and "start \<le> i" and "plain b i j"
  shows "get_line_loop b start end i = get_line_loop b start end j"
  using assms
proof (induction "j - i" arbitrary: i)
  case (Suc n)
  then have "i < j" by simp
  with Suc.prems have "b ! i \<noteq> CR" "b ! i \<noteq> LF" "plain b (Suc i) j"
    by (auto simp: plain_step[of b i j])
  moreover have "get_line_loop b start end (Suc i) = get_line_loop b start end j"
    using Suc.hyps(2) Suc.prems \<open>i < j\<close> \<open>plain b (Suc i) j\<close> by (intro Suc.hyps(1)) auto
  ultimately show ?case using Suc.prems \<open>i < j\<close> by (simp add: get_line_loop_step)
qed simp

lemma get_line_Inr:
  assumes "get_line b p = Inr (l, q)"
  shows "\<exists>j. p \<le> j \<and> j < length b - 1 \<and> b ! j = CR \<and> plain b p j \<and> l = sub_slice b p j \<and> q = j + 2"
  using assms get_line_loop_Inr[of b p "length b - 1" p l q]
  by (auto simp: get_line_def split: if_splits)

lemma get_line_at:
  assumes "p \<le> j" and "j < length b - 1" and "b ! j = CR" and "plain b p j"
  shows "get_line b p = Inr (sub_slice b p j, j + 2)"
proof -
  have "get_line b p = get_line_loop b p (length b - 1) j"
    using assms get_line_loop_reaches[of p j "length b - 1" b p] by (auto simp: get_line_def)
  with assms show ?thesis by (simp add: get_line_loop_step)
qed

subsection \<open>Progress\<close>

lemma skip_bounds: "skip b p n = Inr q \<Longrightarrow> q = p + n \<and> (p \<le> length b \<longrightarrow> q \<le> length b)"
  by (auto simp: skip_def split: if_splits)

lemma check_bounds:
  "check B b p = Inr q \<Longrightarrow> p < q \<and> q \<le> length b"
  "check_items B k b p = Inr q \<Longrightarrow> p \<le> length b \<Longrightarrow> p \<le> q \<and> q \<le> length b"
proof (induction B b p and B k b p arbitrary: q and q rule: check_check_items.induct)
  case (1 B b p)
  show ?case
  proof (cases "p < length b")
    case True
    then have c: "get_byte b p = Inr (b ! p, Suc p)" by (simp add: get_byte_def)
    show ?thesis
    proof (cases "b ! p = 42")
      case star: True
      with "1.prems" True obtain n p2
        where n: "get_integer B b (Suc p) = Inr (n, p2)" and "check_items B (nat n) b p2 = Inr q"
        by (auto simp: check_in elim!: and_then_InrE)
      then have "p2 \<le> length b \<Longrightarrow> p2 \<le> q \<and> q \<le> length b"
        using "1.IH"[OF c refl _ _ _ _ _ n] star by simp
      with get_integer_advance[OF n] show ?thesis by simp
    next
      case False
      with "1.prems" True show ?thesis
        by (auto simp: check_in split: if_splits elim!: and_then_InrE dest!: advance_facts skip_bounds)
    qed
  qed (use "1.prems" in \<open>simp add: check_at_end\<close>)
next
  case (3 B k b p)
  then obtain p' where "check B b p = Inr p'" and "check_items B k b p' = Inr q"
    by (auto elim!: and_then_InrE)
  with "3.IH" show ?case by fastforce
qed simp

subsection \<open>Every parsed frame was checked\<close>

lemma get_string_line: "get_string b p = Inr (s, q) \<Longrightarrow> get_line b p = Inr (s, q)"
  by (auto simp: get_string_def from_utf8_Inr_iff elim!: and_then_InrE)

lemma get_line_null:
  assumes "get_line b p = Inr ([45, 49], q)"
  shows "skip b p 4 = Inr q"
proof -
  from get_line_Inr[OF assms] obtain j where j: "p \<le> j" "j < length b - 1" "q = j + 2"
    and l: "[45, 49] = sub_slice b p j" by blast
  from l j have "length [45::byte, 49] = j - p" by (metis length_sub_slice diff_le_self less_imp_le order_trans)
  then have "j - p = 2" by simp
  with j have "j = p + 2" "4 \<le> length b - p" by linarith+
  with j show ?thesis by (simp add: skip_Inr)
qed

lemma parse_check:
  "parse B b p = Inr (f, q) \<Longrightarrow> check B b p = Inr q"
  "parse_items B k b p = Inr (fs, q) \<Longrightarrow> check_items B k b p = Inr q"
proof (induction B b p and B k b p arbitrary: f q and fs q rule: parse_parse_items.induct)
  case (1 B b p)
  show ?case
  proof (cases "p < length b")
    case True
    then have c: "get_byte b p = Inr (b ! p, Suc p)" by (simp add: get_byte_def)
    show ?thesis
    proof (cases "b ! p = 42")
      case star: True
      with "1.prems" True obtain n p2 len items
        where n: "get_integer B b (Suc p) = Inr (n, p2)" and len: "try_into_usize n = Inr len"
          and cap: "\<not> max_vec_frames B < len" and "parse_items B len b p2 = Inr (items, q)"
        by (auto simp: parse_in split: if_splits elim!: and_then_InrE)
      then have "check_items B len b p2 = Inr q"
        using "1.IH"[OF c refl _ _ _ _ _ n refl len cap] star by simp
      moreover have "len = nat n" using len by (simp add: try_into_usize_def split: if_splits)
      ultimately show ?thesis using star True n by (simp add: check_in)
    next
      case False
      with "1.prems" True show ?thesis
        by (auto simp: parse_in check_in split: if_splits elim!: and_then_InrE
            dest!: get_string_line get_line_null) (auto simp: skip_Inr)
    qed
  qed (use "1.prems" in \<open>simp add: parse_at_end\<close>)
next
  case (3 B k b p)
  then show ?case by (fastforce elim!: and_then_InrE)
qed simp

subsection \<open>A longer buffer\<close>

text \<open>
  A settled answer, a result or an error other than \<open>Incomplete\<close>, does not change when more
  bytes arrive behind the buffer. \<open>and_then_settled\<close> lifts this through the \<open>?\<close> operator.
\<close>

definition settled :: "(frame_error, 'a) result \<Rightarrow> bool" where
  "settled r \<longleftrightarrow> r \<noteq> Inl (Err Incomplete) \<and> r \<noteq> Inl Panic"

lemma settled_simps [simp]:
  "settled (Inr x)" "\<not> settled (Inl (Err Incomplete))" "\<not> settled (Inl Panic)"
  "settled (Inl (Err BadEncoding))" "settled (Inl (Err (NotInteger t)))"
  "settled (Inl (Err (NotUtf8 t e)))"
  by (simp_all add: settled_def)

lemma settled_and_then: "settled (and_then m k) \<Longrightarrow> settled m"
  by (cases m) (auto simp: settled_def)

lemma and_then_settled:
  assumes "settled (and_then m k)" and "settled m \<Longrightarrow> m' = m"
    and "\<And>x. m = Inr x \<Longrightarrow> settled (k x) \<Longrightarrow> k' x = k x"
  shows "and_then m' k' = and_then m k"
  using assms settled_and_then[OF assms(1)] by (cases m) (auto simp: settled_def)

lemma get_byte_settled: "settled (get_byte b p) \<Longrightarrow> get_byte (b @ c) p = get_byte b p"
  by (auto simp: get_byte_def nth_append split: if_splits)

lemma peek_byte_settled: "settled (peek_byte b p) \<Longrightarrow> peek_byte (b @ c) p = peek_byte b p"
  by (auto simp: peek_byte_def nth_append split: if_splits)

lemma skip_settled: "settled (skip b p n) \<Longrightarrow> skip (b @ c) p n = skip b p n"
  by (auto simp: skip_def split: if_splits)

lemma advance_settled: "settled (advance b p n) \<Longrightarrow> advance (b @ c) p n = advance b p n"
  by (auto simp: advance_def split: if_splits)

lemma get_line_loop_settled:
  assumes "settled (get_line_loop b start end i)" and "start \<le> i"
    and "end < length b" and "end \<le> end'" and "end' < length (b @ c)"
  shows "get_line_loop (b @ c) start end' i = get_line_loop b start end i"
  using assms
proof (induction b start "end" i rule: get_line_loop.induct)
  case (1 b start "end" i)
  have "i < end" using "1.prems"(1) by (cases "i < end") (simp_all add: get_line_loop_stop)
  with "1.prems" "1.IH"[of "b ! i"] show ?case
    by (auto simp: get_line_loop_step index_def nth_append sub_slice_append1 split: if_splits)
qed

lemma get_line_settled: "settled (get_line b p) \<Longrightarrow> get_line (b @ c) p = get_line b p"
  by (auto simp: get_line_def intro!: get_line_loop_settled split: if_splits)

lemma get_string_settled: "settled (get_string b p) \<Longrightarrow> get_string (b @ c) p = get_string b p"
  unfolding get_string_def by (rule and_then_settled) (auto intro: get_line_settled)

text \<open>Where the loops of the integer reader stop.\<close>

lemma parse_unchecked_extend:
  assumes "parse_unchecked B pos b end idx num = Inr (i, n)" and "i \<noteq> end"
    and "length b = Suc end" and "end \<le> end'"
  shows "parse_unchecked B pos (b @ c) end' idx num = Inr (i, n)"
  using assms
proof (induction B pos b "end" idx num rule: parse_unchecked.induct)
  case (1 B pos b "end" idx num)
  show ?case
  proof (cases "idx = 18 \<or> idx = end")
    case True
    with "1.prems" show ?thesis by (auto simp: parse_unchecked_stop)
  next
    case False
    note unfold = parse_unchecked.simps[of B pos b "end" idx num]
    from False "1.prems"(1) have "idx < length b"
      by (auto simp: unfold index_def max_safe_digits_def split: if_splits)
    with False "1.prems"(3,4) have idx: "idx < length b" "idx \<noteq> end'" by auto
    show ?thesis
    proof (cases "is_digit (b ! idx)")
      case True
      with False idx "1.prems"(1) have
        "and_then (i64_arith B (num * 10)) (\<lambda>m.
         and_then (i64_arith B (digit_step pos m (int (digit_val (b ! idx)))))
           (parse_unchecked B pos b end (Suc idx))) = Inr (i, n)"
        by (simp add: parse_unchecked_digit)
      then obtain m num' where
        m: "i64_arith B (num * 10) = (Inr m :: (frame_error, int) result)"
          "i64_arith B (digit_step pos m (int (digit_val (b ! idx)))) = (Inr num' :: (frame_error, int) result)"
        and rest: "parse_unchecked B pos b end (Suc idx) num' = Inr (i, n)"
        by (elim and_then_InrE)
      then have "parse_unchecked B pos (b @ c) end' (Suc idx) num' = Inr (i, n)"
        using "1.IH"[of "b ! idx" "int (digit_val (b ! idx))" m num'] False idx True "1.prems"
        by (simp add: index_def max_safe_digits_def ascii_to_i64_digit)
      with False idx True m show ?thesis
        by (simp add: parse_unchecked_digit nth_append)
    next
      case stop: False
      with idx "1.prems" show ?thesis by (simp add: parse_unchecked_nondigit nth_append)
    qed
  qed
qed

lemma parse_checked_nondigit:
  "idx < length b \<Longrightarrow> \<not> is_digit (b ! idx) \<Longrightarrow> parse_checked pos b end idx num = Inr (idx, num)"
  by (simp add: parse_checked.simps[of pos b "end" idx num] index_def ascii_to_i64_None)

lemma parse_checked_digit:
  "idx < length b \<Longrightarrow> is_digit (b ! idx) \<Longrightarrow> idx \<noteq> end \<Longrightarrow>
   parse_checked pos b end idx num = parse_checked pos b end (Suc idx) (checked_step pos (b ! idx) num)"
  by (simp add: parse_checked.simps[of pos b "end" idx num] index_def ascii_to_i64_digit checked_step_def)

lemma parse_checked_stop: "parse_checked pos b end end num = Inr (end, num)"
  by (simp add: parse_checked.simps[of pos b "end" "end" num])

lemma parse_checked_outside:
  "length b \<le> idx \<Longrightarrow> idx \<noteq> end \<Longrightarrow> parse_checked pos b end idx num = Inl Panic"
  by (simp add: parse_checked.simps[of pos b "end" idx num] index_def)

lemma parse_checked_extend:
  assumes "parse_checked pos b end idx num = Inr (i, n)" and "i \<noteq> end"
    and "length b = Suc end" and "end \<le> end'"
  shows "parse_checked pos (b @ c) end' idx num = Inr (i, n) \<and> i < end"
  using assms
proof (induction pos b "end" idx num rule: parse_checked.induct)
  case (1 pos b "end" idx num)
  have "idx \<noteq> end" using "1.prems"(1,2) by (auto simp: parse_checked_stop)
  with "1.prems" have idx: "idx < end" "idx < length b" "idx \<noteq> end'"
    by (auto simp: parse_checked_outside not_less Suc_le_eq intro: ccontr)
  show ?case
  proof (cases "is_digit (b ! idx)")
    case True
    with idx "1.prems" "1.IH"[of "b ! idx" "int (digit_val (b ! idx))"] show ?thesis
      by (simp add: parse_checked_digit nth_append index_def ascii_to_i64_digit checked_step_def)
  next
    case False
    with idx "1.prems" show ?thesis by (simp add: parse_checked_nondigit nth_append)
  qed
qed

lemma finish_integer_settled:
  assumes "settled (finish_integer b p start end idx num)" and "idx < end"
    and "length b = Suc end" and "end \<le> end'"
  shows "finish_integer (b @ c) p start end' idx num = finish_integer b p start end idx num"
proof -
  have [simp]: "sub_slice (b @ c) p (Suc idx) = sub_slice b p (Suc idx)"
    "sub_slice (b @ c) p idx = sub_slice b p idx" "(b @ c) ! idx = b ! idx"
    using assms(2,3) by (simp_all add: sub_slice_append1 nth_append)
  show ?thesis
  proof (cases "idx = start \<or> b ! idx \<noteq> CR")
    case True
    with assms show ?thesis by (auto simp: finish_integer_def)
  next
    case False
    with assms have "settled (advance b start (idx - start + 2))"
      by (auto simp: finish_integer_def dest: settled_and_then)
    from advance_settled[OF this, of c] False assms show ?thesis
      by (cases num) (auto simp: finish_integer_def)
  qed
qed

lemma settled_InrE:
  assumes "settled (and_then m k)" and "\<And>e. m = Inl (Err e) \<Longrightarrow> e = Incomplete"
  obtains x where "m = Inr x" and "settled (k x)"
  using assms by (cases m; cases "projl m") (auto simp: settled_def)

lemma parse_unchecked_not_Err: "parse_unchecked B pos b end idx num \<noteq> Inl (Err e)"
proof (induction B pos b "end" idx num rule: parse_unchecked.induct)
  case (1 B pos b "end" idx num)
  then show ?case
    by (auto simp: parse_unchecked.simps[of B pos b "end" idx num] res_simps index_def
        split: option.splits if_splits)
qed

lemma parse_checked_not_Err: "parse_checked pos b end idx num \<noteq> Inl (Err e)"
proof (induction pos b "end" idx num rule: parse_checked.induct)
  case (1 pos b "end" idx num)
  then show ?case
    by (auto simp: parse_checked.simps[of pos b "end" idx num] res_simps index_def
        split: option.splits if_splits)
qed

lemma get_integer_settledE:
  assumes "settled (get_integer B b p)"
  obtains ch start i n j m where "peek_byte b p = Inr ch"
    and "(if ch = 45 \<or> ch = 43 then advance b p 1 else Inr p) = Inr start"
    and "parse_unchecked B (ch \<noteq> 45) b (length b - 1) start 0 = Inr (i, n)"
    and "parse_checked (ch \<noteq> 45) b (length b - 1) i (Some n) = Inr (j, m)"
    and "settled (finish_integer b p start (length b - 1) j m)"
proof -
  from assms obtain ch where 1: "peek_byte b p = Inr ch"
    and a: "settled (and_then (if ch = 45 \<or> ch = 43 then advance b p 1 else Inr p) (\<lambda>start.
       and_then (parse_unchecked B (ch \<noteq> 45) b (length b - 1) start 0) (\<lambda>(idx, num).
       and_then (parse_checked (ch \<noteq> 45) b (length b - 1) idx (Some num)) (\<lambda>(idx, num).
       finish_integer b p start (length b - 1) idx num))))"
    unfolding get_integer_def Let_def
    by (rule settled_InrE) (auto simp: peek_byte_def split: if_splits)
  from a obtain start where 2: "(if ch = 45 \<or> ch = 43 then advance b p 1 else Inr p) = Inr start"
    and a: "settled (and_then (parse_unchecked B (ch \<noteq> 45) b (length b - 1) start 0) (\<lambda>(idx, num).
       and_then (parse_checked (ch \<noteq> 45) b (length b - 1) idx (Some num)) (\<lambda>(idx, num).
       finish_integer b p start (length b - 1) idx num)))"
    by (rule settled_InrE) (auto simp: advance_def split: if_splits)
  from a obtain i n where 3: "parse_unchecked B (ch \<noteq> 45) b (length b - 1) start 0 = Inr (i, n)"
    and a: "settled (and_then (parse_checked (ch \<noteq> 45) b (length b - 1) i (Some n)) (\<lambda>(idx, num).
       finish_integer b p start (length b - 1) idx num))"
    by (rule settled_InrE) (auto simp: parse_unchecked_not_Err)
  from a obtain j m where "parse_checked (ch \<noteq> 45) b (length b - 1) i (Some n) = Inr (j, m)"
    and "settled (finish_integer b p start (length b - 1) j m)"
    by (rule settled_InrE) (auto simp: parse_checked_not_Err)
  with 1 2 3 show thesis by (rule that)
qed

lemma get_integer_settled:
  assumes "settled (get_integer B b p)"
  shows "get_integer B (b @ c) p = get_integer B b p"
  using assms
proof (rule get_integer_settledE)
  fix ch start i n j m
  let ?e = "length b - 1" and ?e' = "length (b @ c) - 1"
  assume peek: "peek_byte b p = Inr ch"
    and start: "(if ch = 45 \<or> ch = 43 then advance b p 1 else Inr p) = Inr start"
    and i: "parse_unchecked B (ch \<noteq> 45) b ?e start 0 = Inr (i, n)"
    and j: "parse_checked (ch \<noteq> 45) b ?e i (Some n) = Inr (j, m)"
    and fin: "settled (finish_integer b p start ?e j m)"
  have ne: "length b = Suc ?e"
    using peek by (cases b) (auto simp: peek_byte_def split: if_splits)
  have je: "j \<noteq> ?e" using fin by (auto simp: finish_integer_def)
  with j have ie: "i \<noteq> ?e" by (auto simp: parse_checked_stop)
  have le: "?e \<le> ?e'" by simp
  have start': "(if ch = 45 \<or> ch = 43 then advance (b @ c) p 1 else Inr p) = Inr start"
    using start advance_settled[of b p 1 c] by (auto split: if_splits)
  have peek': "peek_byte (b @ c) p = Inr ch"
    using peek peek_byte_settled[of b p c] by simp
  note j' = parse_checked_extend[OF j je ne le, of c]
  note i' = parse_unchecked_extend[OF i ie ne le, of c]
  have "finish_integer (b @ c) p start ?e' j m = finish_integer b p start ?e j m"
    using j' by (intro finish_integer_settled[OF fin _ ne le]) simp
  then show ?thesis
    unfolding get_integer_def Let_def by (simp only: peek peek' start start' i i' j j' and_then.simps prod.case)
qed

subsubsection \<open>The two readers\<close>

lemma map_res_settled:
  assumes "settled (and_then m k)" and "settled m \<Longrightarrow> m' = m"
  shows "and_then m' k = and_then m k"
  by (rule and_then_settled[OF assms(1)]) (simp_all add: assms(2))

lemma check_settled:
  "settled (check B b p) \<Longrightarrow> check B (b @ c) p = check B b p"
  "settled (check_items B k b p) \<Longrightarrow> check_items B k (b @ c) p = check_items B k b p"
proof (induction B b p and B k b p rule: check_check_items.induct)
  case (1 B b p)
  have p: "p < length b"
    using "1.prems" by (cases "p < length b") (auto simp: check_at_end)
  then have g: "get_byte b p = Inr (b ! p, Suc p)" and p': "p < length (b @ c)"
    and bp: "(b @ c) ! p = b ! p"
    by (simp_all add: get_byte_def nth_append)
  note settled = get_line_settled get_integer_settled peek_byte_settled skip_settled
  consider "b ! p = 42" | "b ! p = 36" | "b ! p \<noteq> 42" "b ! p \<noteq> 36" by blast
  then show ?case
  proof cases
    case 1
    have "and_then (get_integer B (b @ c) (Suc p)) (\<lambda>(n, p2). check_items B (nat n) (b @ c) p2)
        = and_then (get_integer B b (Suc p)) (\<lambda>(n, p2). check_items B (nat n) b p2)"
      using "1.prems" p 1 "1.IH"[OF g refl]
      by (intro and_then_settled settled) (auto simp: check_in)
    with 1 p p' bp show ?thesis by (simp add: check_in)
  next
    case 2
    have "and_then (peek_byte (b @ c) (Suc p)) (\<lambda>d. if d = 45 then skip (b @ c) (Suc p) 4
          else and_then (get_integer B (b @ c) (Suc p)) (\<lambda>(n, p2).
               and_then (try_into_usize n) (\<lambda>len. skip (b @ c) p2 (len + 2))))
        = and_then (peek_byte b (Suc p)) (\<lambda>d. if d = 45 then skip b (Suc p) 4
          else and_then (get_integer B b (Suc p)) (\<lambda>(n, p2).
               and_then (try_into_usize n) (\<lambda>len. skip b p2 (len + 2))))"
      using "1.prems" p 2
      by (auto simp: check_in intro!: and_then_settled settled split: prod.splits)
    with 2 p p' bp show ?thesis by (simp add: check_in)
  next
    case 3
    with "1.prems" p p' bp show ?thesis
      by (auto simp: check_in intro!: map_res_settled settled split: if_splits)
  qed
next
  case (3 B k b p)
  have "and_then (check B (b @ c) p) (check_items B k (b @ c)) = and_then (check B b p) (check_items B k b)"
    using "3.prems" by (intro and_then_settled) (auto dest: "3.IH")
  then show ?case by simp
qed simp

lemma parse_settled:
  "settled (parse B b p) \<Longrightarrow> parse B (b @ c) p = parse B b p"
  "settled (parse_items B k b p) \<Longrightarrow> parse_items B k (b @ c) p = parse_items B k b p"
proof (induction B b p and B k b p rule: parse_parse_items.induct)
  case (1 B b p)
  have p: "p < length b"
    using "1.prems" by (cases "p < length b") (auto simp: parse_at_end)
  then have g: "get_byte b p = Inr (b ! p, Suc p)" and p': "p < length (b @ c)"
    and bp: "(b @ c) ! p = b ! p"
    by (simp_all add: get_byte_def nth_append)
  note settled = get_line_settled get_string_settled get_integer_settled peek_byte_settled
  consider "b ! p = 42" | "b ! p = 36" | "b ! p \<noteq> 42" "b ! p \<noteq> 36" by blast
  then show ?case
  proof cases
    case 1
    have "and_then (get_integer B (b @ c) (Suc p)) (\<lambda>(n, p2).
          and_then (try_into_usize n) (\<lambda>len.
            if max_vec_frames B < len then Inl Panic
            else and_then (parse_items B len (b @ c) p2) (\<lambda>(items, p3). Inr (Array items, p3))))
        = and_then (get_integer B b (Suc p)) (\<lambda>(n, p2).
          and_then (try_into_usize n) (\<lambda>len.
            if max_vec_frames B < len then Inl Panic
            else and_then (parse_items B len b p2) (\<lambda>(items, p3). Inr (Array items, p3))))"
    proof (rule and_then_settled[OF _ get_integer_settled], goal_cases)
      case 1
      with "1.prems" p \<open>b ! p = 42\<close> show ?case by (simp add: parse_in)
    next
      case (3 x)
      obtain n p2 where x: "x = (n, p2)" by (cases x)
      have items: "parse_items B len (b @ c) p2 = parse_items B len b p2"
        if "try_into_usize n = Inr len" "\<not> max_vec_frames B < len" "settled (parse_items B len b p2)" for len
        using "1.IH"[OF g refl _ _ _ _ _ 3(1) x[symmetric] that(1,2)] that(3) \<open>b ! p = 42\<close> by simp
      have "and_then (try_into_usize n) (\<lambda>len. if max_vec_frames B < len then Inl Panic
            else and_then (parse_items B len (b @ c) p2) (\<lambda>(items, p3). Inr (Array items, p3)))
        = and_then (try_into_usize n) (\<lambda>len. if max_vec_frames B < len then Inl Panic
            else and_then (parse_items B len b p2) (\<lambda>(items, p3). Inr (Array items, p3)))"
        using 3 x \<open>b ! p = 42\<close>
        by (intro and_then_settled) (auto intro!: map_res_settled items split: if_splits)
      then show ?case by (simp add: x)
    qed
    with 1 p p' bp show ?thesis by (simp add: parse_in)
  next
    case 2
    have "and_then (peek_byte (b @ c) (Suc p)) (\<lambda>d.
          if d = 45 then and_then (get_line (b @ c) (Suc p)) (\<lambda>(l, p2).
              if l \<noteq> [45, 49] then Inl (Err BadEncoding) else Inr (Null, p2))
          else and_then (get_integer B (b @ c) (Suc p)) (\<lambda>(n, p2).
               and_then (try_into_usize n) (\<lambda>len.
                 if length (b @ c) - p2 < len + 2 then Inl (Err Incomplete)
                 else and_then (skip (b @ c) (p2 + len) 2) (\<lambda>p3.
                      Inr (BulkString (sub_slice (b @ c) p2 (p2 + len)), p3)))))
        = and_then (peek_byte b (Suc p)) (\<lambda>d.
          if d = 45 then and_then (get_line b (Suc p)) (\<lambda>(l, p2).
              if l \<noteq> [45, 49] then Inl (Err BadEncoding) else Inr (Null, p2))
          else and_then (get_integer B b (Suc p)) (\<lambda>(n, p2).
               and_then (try_into_usize n) (\<lambda>len.
                 if length b - p2 < len + 2 then Inl (Err Incomplete)
                 else and_then (skip b (p2 + len) 2) (\<lambda>p3.
                      Inr (BulkString (sub_slice b p2 (p2 + len)), p3)))))"
    proof (rule and_then_settled[OF _ peek_byte_settled], goal_cases)
      case 1
      with "1.prems" p 2 show ?case by (simp add: parse_in)
    next
      case (3 d)
      then show ?case
        by (cases "d = 45")
          (auto simp: skip_def sub_slice_append1 intro!: map_res_settled and_then_settled settled
            split: if_splits)
    qed
    with 2 p p' bp show ?thesis by (simp add: parse_in)
  next
    case 3
    with "1.prems" p p' bp show ?thesis
      by (auto simp: parse_in intro!: map_res_settled settled split: if_splits)
  qed
next
  case (3 B k b p)
  have "and_then (parse B (b @ c) p) (\<lambda>(f, p'). and_then (parse_items B k (b @ c) p') (\<lambda>(fs, p''). Inr (f # fs, p'')))
      = and_then (parse B b p) (\<lambda>(f, p'). and_then (parse_items B k b p') (\<lambda>(fs, p''). Inr (f # fs, p'')))"
    using "3.prems" by (intro and_then_settled) (auto intro!: "3.IH" map_res_settled)
  then show ?case by simp
qed simp

end
