(* ===== verification/FrameSafety.thy ===== *)
theory FrameSafety
  imports FrameFacts
begin

section \<open>Panics and the shape of parsed frames\<close>

text \<open>
  Which inputs make the readers of src/net/frame.rs panic, and what every frame they return
  looks like. Without overflow checks the only panic of \<open>check\<close> is a sign byte at the very
  end of the buffer, where the integer loops start behind their end.
\<close>

subsection \<open>No panic without a dangling sign\<close>

lemma parse_unchecked_returns:
  assumes "\<not> overflow_checks B" and "idx \<le> end" and "end < length b"
  shows "\<exists>i n. parse_unchecked B pos b end idx num = Inr (i, n) \<and> idx \<le> i \<and> i \<le> end"
  using assms
proof (induction B pos b "end" idx num rule: parse_unchecked.induct)
  case (1 B pos b "end" idx num)
  show ?case
  proof (cases "idx = end \<or> idx = 18 \<or> \<not> is_digit (b ! idx)")
    case True
    with "1.prems" show ?thesis by (auto simp: parse_unchecked_stop parse_unchecked_nondigit)
  next
    case False
    have arith: "i64_arith B x = Inr (wrap_i64 x)" for x :: int
      using "1.prems"(1) by (simp add: i64_arith_def wrap_i64_id)
    let ?m = "wrap_i64 (digit_step pos (wrap_i64 (num * 10)) (int (digit_val (b ! idx))))"
    have step: "parse_unchecked B pos b end idx num = parse_unchecked B pos b end (Suc idx) ?m"
      using False "1.prems" by (simp add: parse_unchecked_digit arith)
    have "\<exists>i n. parse_unchecked B pos b end (idx + 1) ?m = Inr (i, n) \<and> idx + 1 \<le> i \<and> i \<le> end"
      using False "1.prems"
      by (intro "1.IH"[of "b ! idx" "int (digit_val (b ! idx))" "wrap_i64 (num * 10)"])
        (auto simp: index_def max_safe_digits_def ascii_to_i64_digit arith)
    then show ?thesis by (auto simp: step)
  qed
qed

lemma parse_checked_returns:
  assumes "idx \<le> end" and "end < length b"
  shows "\<exists>i n. parse_checked pos b end idx num = Inr (i, n) \<and> idx \<le> i \<and> i \<le> end"
  using assms
proof (induction "end - idx" arbitrary: idx num)
  case 0
  then show ?case by (simp add: parse_checked_stop)
next
  case (Suc k)
  then have idx: "idx < length b" "idx \<noteq> end" "Suc idx \<le> end" "k = end - Suc idx" by linarith+
  show ?case
  proof (cases "is_digit (b ! idx)")
    case True
    from Suc.hyps(1)[OF idx(4,3) Suc.prems(2), of "checked_step pos (b ! idx) num"] idx True
    show ?thesis by (auto simp: parse_checked_digit)
  next
    case False
    with idx show ?thesis by (simp add: parse_checked_nondigit)
  qed
qed

lemma finish_integer_no_panic:
  assumes "start \<le> idx" and "idx \<le> end" and "length b = Suc end"
  shows "finish_integer b p start end idx num \<noteq> Inl Panic"
  using assms by (cases num) (auto simp: finish_integer_def advance_def)

lemma get_integer_no_panic:
  assumes rel: "\<not> overflow_checks B" and sign: "last b \<noteq> 43" "last b \<noteq> 45"
  shows "get_integer B b p \<noteq> Inl Panic"
proof (cases "p < length b")
  case True
  then have ne: "b \<noteq> []" "length b = Suc (length b - 1)" by auto
  define start where "start = (if b ! p = 45 \<or> b ! p = 43 then p + 1 else p)"
  have "p = length b - 1 \<Longrightarrow> b ! p = last b" using ne by (simp add: last_conv_nth)
  with sign True have le: "start \<le> length b - 1"
    by (cases "p = length b - 1") (auto simp: start_def)
  have adv: "(if b ! p = 45 \<or> b ! p = 43 then advance b p 1 else Inr p) = Inr start"
    using True by (auto simp: start_def advance_def)
  have lt: "length b - 1 < length b" using ne by simp
  from parse_unchecked_returns[OF rel le lt] obtain i n where
    i: "parse_unchecked B (b ! p \<noteq> 45) b (length b - 1) start 0 = Inr (i, n)"
    and "start \<le> i" "i \<le> length b - 1" by blast
  moreover from parse_checked_returns[OF this(3) lt] obtain j m where
    j: "parse_checked (b ! p \<noteq> 45) b (length b - 1) i (Some n) = Inr (j, m)"
    and "i \<le> j" "j \<le> length b - 1" by blast
  ultimately have "finish_integer b p start (length b - 1) j m \<noteq> Inl Panic"
    using ne by (intro finish_integer_no_panic) auto
  with True show ?thesis
    unfolding get_integer_def Let_def peek_byte_def
    by (simp only: if_True and_then.simps adv i j prod.case simp_thms)
qed (simp add: get_integer_def peek_byte_def)

lemma get_line_no_panic:
  assumes "b \<noteq> []"
  shows "get_line b p \<noteq> Inl Panic"
proof -
  have "get_line_loop b p e i \<noteq> Inl Panic" if "p \<le> i" "e < length b" for e i
    using that
  proof (induction "e - i" arbitrary: i)
    case 0
    then show ?case by (simp add: get_line_loop_stop)
  next
    case (Suc k)
    then show ?case by (simp add: get_line_loop_step)
  qed
  with assms show ?thesis by (simp add: get_line_def)
qed

lemma and_then_no_panic:
  "m \<noteq> Inl Panic \<Longrightarrow> (\<And>x. m = Inr x \<Longrightarrow> k x \<noteq> Inl Panic) \<Longrightarrow> and_then m k \<noteq> Inl Panic"
  by (cases m) auto

lemma simple_no_panic [simp]:
  "get_byte b p \<noteq> Inl Panic" "peek_byte b p \<noteq> Inl Panic" "skip b p n \<noteq> Inl Panic"
  "try_into_usize i \<noteq> Inl Panic"
  by (simp_all add: get_byte_def peek_byte_def skip_def try_into_usize_def)

lemma check_no_panic:
  assumes "\<not> overflow_checks B" and "last b \<noteq> 43" and "last b \<noteq> 45"
  shows "check B b p \<noteq> Inl Panic" and "check_items B k b p \<noteq> Inl Panic"
  using assms
proof (induction B b p and B k b p rule: check_check_items.induct)
  case (1 B b p)
  show ?case
  proof (cases "p < length b")
    case True
    then have g: "get_byte b p = Inr (b ! p, Suc p)" by (simp add: get_byte_def)
    have "b \<noteq> []" using True by auto
    with True "1.prems" "1.IH"[OF g refl] show ?thesis
      by (auto simp: check_in res_simps get_line_no_panic get_integer_no_panic split: if_splits)
  qed (simp add: check_at_end)
next
  case (3 B k b p)
  then show ?case by (auto simp: res_simps)
qed simp

subsection \<open>A dangling sign panics\<close>

lemma get_integer_dangling_sign:
  assumes "c = 43 \<or> c = 45"
  shows "get_integer B (pre @ [c]) (length pre) = Inl Panic"
proof -
  let ?b = "pre @ [c]" and ?i = "Suc (length pre)"
  have "parse_unchecked B pos ?b (length pre) ?i 0 = Inl Panic \<or>
        parse_unchecked B pos ?b (length pre) ?i 0 = Inr (?i, 0)" for pos
    by (simp add: parse_unchecked.simps[of B pos ?b _ ?i] index_def)
  moreover have "parse_checked pos ?b (length pre) ?i num = Inl Panic" for pos num
    by (simp add: parse_checked_outside)
  ultimately show ?thesis using assms
    unfolding get_integer_def Let_def
    by (auto simp: peek_byte_def advance_def) (metis and_then.simps prod.case)+
qed

lemma check_dangling_sign:
  assumes "c = 43 \<or> c = 45" and "k = 58 \<or> k = 42"
  shows "check B (pre @ [k, c]) (length pre) = Inl Panic"
  using assms get_integer_dangling_sign[of c B "pre @ [k]"]
  by (auto simp: check_in nth_append)

subsection \<open>Frames that parsing returns\<close>

text \<open>
  What the Rust types promise of a frame's contents (an \<open>i64\<close>, a UTF-8 \<open>String\<close>) and what
  the doc comments of \<open>Frame\<close> add: no line break in a simple string or an error.
\<close>

definition line_string :: "bytes \<Rightarrow> bool" where
  "line_string s \<longleftrightarrow> valid_utf8 s \<and> CR \<notin> set s \<and> LF \<notin> set s"

fun frame_ok :: "frame \<Rightarrow> bool" where
  "frame_ok (SimpleString s) = line_string s"
| "frame_ok (Error s) = line_string s"
| "frame_ok (Integer n) = in_i64 n"
| "frame_ok (BulkString s) = True"
| "frame_ok (Array fs) = list_all frame_ok fs"
| "frame_ok Null = True"

lemma get_string_ok:
  assumes "get_string b p = Inr (s, q)"
  shows "line_string s"
proof -
  have "valid_utf8 s"
    using assms by (auto simp: get_string_def from_utf8_Inr_iff elim!: and_then_InrE)
  moreover obtain j where j: "j < length b - 1" "plain b p j" "s = sub_slice b p j"
    using get_line_Inr[OF get_string_line[OF assms]] by blast
  then have "\<exists>k. p \<le> k \<and> k < j \<and> b ! k = x" if "x \<in> set s" for x
    using in_set_sub_slice[of x b p j] that by auto
  with j(2) have "CR \<notin> set s" "LF \<notin> set s" unfolding plain_def by metis+
  ultimately show ?thesis by (simp add: line_string_def)
qed

lemma parse_unchecked_in_i64:
  "parse_unchecked B pos b end idx num = Inr (i, n) \<Longrightarrow> in_i64 num \<Longrightarrow> in_i64 n"
proof (induction B pos b "end" idx num rule: parse_unchecked.induct)
  case (1 B pos b "end" idx num)
  show ?case
  proof (cases "idx = end \<or> idx = 18 \<or> idx \<ge> length b \<or> \<not> is_digit (b ! idx)")
    case True
    with "1.prems" show ?thesis
      by (auto simp: parse_unchecked.simps[of B pos b "end" idx num] index_def ascii_to_i64_None
            max_safe_digits_def split: if_splits option.splits)
  next
    case False
    with "1.prems" obtain m num' where
      m: "i64_arith B (num * 10) = (Inr m :: (frame_error, int) result)"
        "i64_arith B (digit_step pos m (int (digit_val (b ! idx)))) = (Inr num' :: (frame_error, int) result)"
      and "parse_unchecked B pos b end (Suc idx) num' = Inr (i, n)"
      by (auto simp: parse_unchecked_digit elim!: and_then_InrE)
    with False "1.IH"[of "b ! idx" "int (digit_val (b ! idx))" m num'] show ?thesis
      by (auto simp: index_def max_safe_digits_def ascii_to_i64_digit dest: i64_arith_in_range)
  qed
qed

lemma checked_i64_in_range: "checked_i64 x = Some y \<Longrightarrow> in_i64 y"
  by (auto simp: checked_i64_def split: if_splits)

lemma parse_checked_in_i64:
  "parse_checked pos b end idx num = Inr (i, Some n) \<Longrightarrow> (\<And>m. num = Some m \<Longrightarrow> in_i64 m) \<Longrightarrow> in_i64 n"
proof (induction pos b "end" idx num rule: parse_checked.induct)
  case (1 pos b "end" idx num)
  show ?case
  proof (cases "idx = end \<or> idx \<ge> length b \<or> \<not> is_digit (b ! idx)")
    case True
    with "1.prems" show ?thesis
      by (cases "idx = end"; cases "idx \<ge> length b")
        (auto simp: parse_checked_stop parse_checked_outside parse_checked_nondigit)
  next
    case False
    have "in_i64 m" if "checked_step pos (b ! idx) num = Some m" for m
      using that by (auto simp: checked_step_def bind_eq_Some_conv dest: checked_i64_in_range)
    with False "1.prems"(1) "1.IH"[of "b ! idx" "int (digit_val (b ! idx))"] show ?thesis
      by (simp add: parse_checked_digit index_def ascii_to_i64_digit checked_step_def)
  qed
qed

lemma finish_integer_value: "finish_integer b p start end idx num = Inr (v, q) \<Longrightarrow> num = Some v"
  by (auto simp: finish_integer_def split: if_splits option.splits elim!: and_then_InrE)

lemma get_integer_in_i64:
  assumes "get_integer B b p = Inr (v, q)"
  shows "in_i64 v"
proof -
  from assms have "settled (get_integer B b p)" by simp
  then obtain ch start i n j m where
    "peek_byte b p = Inr ch"
    "(if ch = 45 \<or> ch = 43 then advance b p 1 else Inr p) = Inr start"
    and i: "parse_unchecked B (ch \<noteq> 45) b (length b - 1) start 0 = Inr (i, n)"
    and j: "parse_checked (ch \<noteq> 45) b (length b - 1) i (Some n) = Inr (j, m)"
    by (rule get_integer_settledE)
  with assms have "finish_integer b p start (length b - 1) j m = Inr (v, q)"
    unfolding get_integer_def Let_def by (simp only: and_then.simps prod.case)
  then have "m = Some v" by (rule finish_integer_value)
  moreover have "in_i64 n" using parse_unchecked_in_i64[OF i] by (simp add: in_i64_def)
  ultimately show ?thesis using parse_checked_in_i64 j by blast
qed

lemma parse_ok:
  "parse B b p = Inr (f, q) \<Longrightarrow> frame_ok f"
  "parse_items B k b p = Inr (fs, q) \<Longrightarrow> list_all frame_ok fs \<and> length fs = k"
proof (induction B b p and B k b p arbitrary: f q and fs q rule: parse_parse_items.induct)
  case (1 B b p)
  show ?case
  proof (cases "p < length b")
    case True
    then have c: "get_byte b p = Inr (b ! p, Suc p)" by (simp add: get_byte_def)
    show ?thesis
    proof (cases "b ! p = 42")
      case star: True
      with "1.prems" True obtain n p2 len items
        where n: "get_integer B b (Suc p) = Inr (n, p2)" and len: "try_into_usize n = Inr len"
          and cap: "\<not> max_vec_frames B < len" and "parse_items B len b p2 = Inr (items, q)"
          and "f = Array items"
        by (auto simp: parse_in split: if_splits elim!: and_then_InrE)
      then show ?thesis using "1.IH"[OF c refl _ _ _ _ _ n refl len cap] star by simp
    next
      case False
      with "1.prems" True show ?thesis
        by (auto simp: parse_in split: if_splits elim!: and_then_InrE
            dest!: get_string_ok get_integer_in_i64)
    qed
  qed (use "1.prems" in \<open>simp add: parse_at_end\<close>)
next
  case (3 B k b p)
  then obtain g p' gs where "parse B b p = Inr (g, p')" and "parse_items B k b p' = Inr (gs, q)"
    and "fs = g # gs" by (auto elim!: and_then_InrE)
  with "3.IH" show ?case by fastforce
qed simp

end
