(* ===== verification/FrameEncode.thy ===== *)
theory FrameEncode
  imports FrameSafety
begin

section \<open>The wire encoding of frames\<close>

text \<open>
  \<open>encode\<close> is the specification of the wire format: what a peer sends for a frame. The two
  readers of src/net/frame.rs invert it, at any place of any buffer, and a proper prefix of
  an encoding is never mistaken for a frame. The functions of src/net/connection.rs are
  compared with \<open>encode\<close> in the theory of the connection.
\<close>

fun encode :: "frame \<Rightarrow> bytes" where
  "encode (SimpleString s) = 43 # s @ crlf"
| "encode (Error s) = 45 # s @ crlf"
| "encode (Integer n) = 58 # dec_int n @ crlf"
| "encode (BulkString s) = 36 # dec_int (int (length s)) @ crlf @ s @ crlf"
| "encode (Array fs) = 42 # dec_int (int (length fs)) @ crlf @ concat (map encode fs)"
| "encode Null = 36 # [45, 49] @ crlf"

text \<open>
  The sizes a frame in memory has: a \<open>Bytes\<close> holds at most \<open>isize::MAX\<close> bytes and a
  \<open>Vec<Frame>\<close> at most \<open>max_vec_frames\<close> frames.
\<close>

fun frame_fits :: "build \<Rightarrow> frame \<Rightarrow> bool" where
  "frame_fits B (BulkString s) = in_i64 (int (length s))"
| "frame_fits B (Array fs) =
     (length fs \<le> max_vec_frames B \<and> in_i64 (int (length fs)) \<and> list_all (frame_fits B) fs)"
| "frame_fits B f = True"

subsection \<open>Integers and lines\<close>

lemma get_integer_dec:
  assumes "in_i64 n"
  shows "get_integer B (pre @ dec_int n @ CR # x # post) (length pre)
       = Inr (n, length pre + length (dec_int n) + 2)"
proof (cases "n < 0")
  case True
  then have d: "dec_int n = [45] @ dec_nat (nat (- n))" by (simp add: dec_int_def)
  have v: "line_value [45] (dec_nat (nat (- n))) = n" using True by (simp add: line_value_def)
  show ?thesis
    using get_integer_line[of _ pre "[45]" "dec_nat (nat (- n))" x post _ B, OF refl _ _ _ refl] v assms
    by (simp add: d)
next
  case False
  then have d: "dec_int n = [] @ dec_nat (nat n)" by (simp add: dec_int_def)
  have v: "line_value [] (dec_nat (nat n)) = n" using False by (simp add: line_value_def)
  show ?thesis
    using get_integer_line[of _ pre "[]" "dec_nat (nat n)" x post _ B, OF refl _ _ _ refl] v assms
    by (simp add: d)
qed

lemma get_line_text:
  assumes "CR \<notin> set s" and "LF \<notin> set s"
  shows "get_line (pre @ s @ CR # x # post) (length pre) = Inr (s, length pre + length s + 2)"
proof -
  let ?b = "pre @ s @ CR # x # post" and ?j = "length pre + length s"
  have "plain ?b (length pre) ?j"
    unfolding plain_def
  proof (intro allI impI)
    fix k assume k: "length pre \<le> k \<and> k < ?j"
    then have "?b ! k = s ! (k - length pre)" "k - length pre < length s" by (auto simp: nth_append)
    with assms show "?b ! k \<noteq> CR \<and> ?b ! k \<noteq> LF" by (metis nth_mem)
  qed
  then have "get_line ?b (length pre) = Inr (sub_slice ?b (length pre) ?j, ?j + 2)"
    by (intro get_line_at) (auto simp: nth_append)
  with sub_slice_middle[of pre s "CR # x # post"] show ?thesis by simp
qed

lemma get_string_text:
  "line_string s \<Longrightarrow>
   get_string (pre @ s @ CR # x # post) (length pre) = Inr (s, length pre + length s + 2)"
  using get_line_text[of s pre x post] from_utf8_Inr_iff[of s s]
  by (simp add: line_string_def get_string_def)

lemma dec_int_nat: "dec_int (int n) = dec_nat n"
  by (simp add: dec_int_def)

lemma in_i64_nat: "n < 2 ^ 63 \<Longrightarrow> in_i64 (int n)"
  by (simp add: in_i64_def)

subsection \<open>Parsing inverts encoding\<close>

lemma hd_dec_nat_neq: "hd (dec_nat n) \<noteq> 45"
  using is_digit_simps(4) hd_dec_nat by metis

lemma peek_dec_nat:
  "peek_byte (pre @ dec_nat n @ post) (length pre) = Inr (hd (dec_nat n))"
  by (cases "dec_nat n") (auto simp: peek_byte_def nth_append)

lemma parse_bulk:
  assumes "in_i64 (int (length s))"
  shows "parse B (pre @ encode (BulkString s) @ rest) (length pre)
       = Inr (BulkString s, length pre + length (encode (BulkString s)))"
proof -
  let ?b = "pre @ encode (BulkString s) @ rest" and ?d = "dec_nat (length s)"
  let ?h = "pre @ [36]" and ?q = "length pre + 1 + length ?d + 2"
  have b: "?b = ?h @ ?d @ CR # LF # s @ crlf @ rest" by (simp add: dec_int_nat)
  have at: "?b ! length pre = 36" "length pre < length ?b" by simp_all
  have peek: "peek_byte ?b (Suc (length pre)) = Inr (hd ?d)"
    using peek_dec_nat[of ?h "length s"] by (simp add: dec_int_nat)
  have int: "get_integer B ?b (Suc (length pre)) = Inr (int (length s), ?q)"
    using get_integer_dec[OF assms, of B ?h LF "s @ crlf @ rest"]
    by (simp add: dec_int_nat)
  have sl: "sub_slice ?b ?q (?q + length s) = s"
    using sub_slice_middle[of "?h @ ?d @ crlf" s "crlf @ rest"] by (simp add: dec_int_nat)
  have "length ?b = ?q + length s + 2 + length rest" by (simp add: dec_int_nat)
  then have "skip ?b (?q + length s) 2 = Inr (?q + length s + 2)"
    and "\<not> length ?b - ?q < length s + 2"
    by (simp_all add: skip_def)
  with at peek int sl show ?thesis
    using hd_dec_nat_neq[of "length s"]
    by (subst parse_in) (simp_all add: try_into_usize_def dec_int_nat)
qed

lemma parse_null:
  "parse B (pre @ encode Null @ rest) (length pre) = Inr (Null, length pre + length (encode Null))"
proof -
  let ?b = "pre @ encode Null @ rest"
  have "get_line ?b (Suc (length pre)) = Inr ([45, 49], length pre + 5)"
    using get_line_text[of "[45, 49]" "pre @ [36]" LF rest] by simp
  moreover have "peek_byte ?b (Suc (length pre)) = Inr 45"
    by (simp add: peek_byte_def nth_append)
  ultimately show ?thesis by (subst parse_in) simp_all
qed

lemma parse_items_encode:
  assumes "\<And>f pre rest. f \<in> set fs \<Longrightarrow>
    parse B (pre @ encode f @ rest) (length pre) = Inr (f, length pre + length (encode f))"
  shows "parse_items B (length fs) (pre @ concat (map encode fs) @ rest) (length pre)
       = Inr (fs, length pre + length (concat (map encode fs)))"
  using assms
proof (induction fs arbitrary: pre)
  case (Cons f fs)
  from Cons.prems[of f pre "concat (map encode fs) @ rest"]
  have "parse B (pre @ encode f @ concat (map encode fs) @ rest) (length pre)
      = Inr (f, length (pre @ encode f))" by simp
  moreover from Cons.IH[of "pre @ encode f"] Cons.prems
  have "parse_items B (length fs) (pre @ encode f @ concat (map encode fs) @ rest) (length (pre @ encode f))
      = Inr (fs, length (pre @ encode f) + length (concat (map encode fs)))" by simp
  ultimately show ?case by simp
qed simp

lemma parse_encode:
  "frame_ok f \<Longrightarrow> frame_fits B f \<Longrightarrow>
   parse B (pre @ encode f @ rest) (length pre) = Inr (f, length pre + length (encode f))"
proof (induction f arbitrary: pre rest)
  case (SimpleString s)
  then show ?case
    using get_string_text[of s "pre @ [43]" LF rest] by (subst parse_in) simp_all
next
  case (Error s)
  then show ?case
    using get_string_text[of s "pre @ [45]" LF rest] by (subst parse_in) simp_all
next
  case (Integer n)
  then show ?case
    using get_integer_dec[of n B "pre @ [58]" LF rest] by (subst parse_in) simp_all
next
  case (BulkString s)
  then show ?case by (intro parse_bulk) simp
next
  case (Array fs)
  let ?b = "pre @ encode (Array fs) @ rest" and ?d = "dec_nat (length fs)"
  let ?h = "pre @ 42 # ?d @ crlf"
  have int: "get_integer B ?b (Suc (length pre)) = Inr (int (length fs), length ?h)"
    using get_integer_dec[of "int (length fs)" B "pre @ [42]" LF "concat (map encode fs) @ rest"]
      Array.prems by (simp add: dec_int_nat)
  have "parse_items B (length fs) (?h @ concat (map encode fs) @ rest) (length ?h)
      = Inr (fs, length ?h + length (concat (map encode fs)))"
    using Array by (intro parse_items_encode) (auto simp: list_all_iff)
  then have "parse_items B (length fs) ?b (length ?h)
      = Inr (fs, length ?h + length (concat (map encode fs)))" by (simp add: dec_int_nat)
  with int Array.prems show ?case
    by (subst parse_in) (simp_all add: try_into_usize_def dec_int_nat)
next
  case Null
  show ?case by (rule parse_null)
qed

lemma parse_encode_start:
  "frame_ok f \<Longrightarrow> frame_fits B f \<Longrightarrow> parse B (encode f @ rest) 0 = Inr (f, length (encode f))"
  using parse_encode[of f B "[]" rest] by simp

lemma check_encode_start:
  "frame_ok f \<Longrightarrow> frame_fits B f \<Longrightarrow> check B (encode f @ rest) 0 = Inr (length (encode f))"
  by (rule parse_check(1)[OF parse_encode_start])

subsection \<open>A proper prefix is incomplete\<close>

text \<open>\<open>safe_end b\<close>: the last byte of \<open>b\<close> is not a sign, the one case where a reader panics.\<close>

definition safe_end :: "bytes \<Rightarrow> bool" where
  "safe_end b \<longleftrightarrow> b = [] \<or> (last b \<noteq> 43 \<and> last b \<noteq> 45)"

lemma check_safe_end: "\<not> overflow_checks B \<Longrightarrow> safe_end b \<Longrightarrow> check B b 0 \<noteq> Inl Panic"
  using check_no_panic(1)[of B b 0] check_at_end[of 0 b B] by (auto simp: safe_end_def)

lemma check_prefix:
  assumes f: "frame_ok f" "frame_fits B f" and rel: "\<not> overflow_checks B" "safe_end b"
    and part: "b @ rest = encode f" "rest \<noteq> []"
  shows "check B b 0 = Inl (Err Incomplete)"
proof (rule ccontr)
  assume "check B b 0 \<noteq> Inl (Err Incomplete)"
  with check_safe_end[OF rel] have s: "settled (check B b 0)" by (simp add: settled_def)
  from check_settled(1)[OF s, of rest] part check_encode_start[OF f, of "[]"]
  have "check B b 0 = Inr (length (encode f))" by simp
  from check_bounds(1)[OF this] have "length (b @ rest) \<le> length b" using part(1) by simp
  with part(2) show False by simp
qed

end
