(* ===== verification/NetError.thy ===== *)
theory NetError
  imports Frame
begin

section \<open>Errors of the network layer (src/net/error.rs, src/net/command.rs)\<close>

text \<open>
  The errors of the command parser and of the whole layer. An \<open>anyhow::Error\<close> made of a
  storage error is the text of that error. A \<open>JoinError\<close> of a blocking task, here \<open>AsyncTask\<close>, is what the panic of
  the closure run by \<open>spawn_blocking\<close> becomes.
\<close>

datatype command_error =
    BadArguments string
  | BadCommand bytes
  | BadFrame frame
  | NotUtf8Bytes utf8_error

datatype net_error =
    Storage bytes
  | Frame frame_error
  | Command command_error
  | Io io_error
  | AsyncTask

end
