(* ===== verification/Connection.thy ===== *)
theory Connection
  imports FrameEncode NetError
begin

section \<open>Connections (src/net/connection.rs)\<close>

text \<open>
  A connection wraps a stream in tokio's \<open>BufWriter\<close> and keeps the bytes it has read but not
  yet parsed. The stream is a parameter: what \<open>write_all\<close>, \<open>write_u8\<close>, \<open>flush\<close> and
  \<open>read_buf\<close> do to it is a record of functions on its state \<open>'s\<close>, each of which may fail
  with an I/O error. The locale \<open>buffered_stream\<close> states what the code relies on.
\<close>

record 's stream_ops =
  write_all :: "'s \<Rightarrow> bytes \<Rightarrow> (io_error, unit) result \<times> 's"
  flush :: "'s \<Rightarrow> (io_error, unit) result \<times> 's"
  read_buf :: "'s \<Rightarrow> (io_error, bytes) result \<times> 's"

record 's connection =
  stream :: 's
  buffer :: bytes

definition connection_new :: "'s \<Rightarrow> 's connection" where
  "connection_new s = \<lparr>stream = s, buffer = []\<rparr>"

subsection \<open>Writing\<close>

definition write_u8 :: "'s stream_ops \<Rightarrow> byte \<Rightarrow> 's \<Rightarrow> (io_error, unit) result \<times> 's" where
  "write_u8 W c s = write_all W s [c]"

text \<open>\<open>write!\<close> into a \<open>Cursor\<close> over 20 bytes: text that does not fit is a \<open>WriteZero\<close> error.\<close>

definition decimal_buffer :: nat where
  "decimal_buffer = 20"

definition write_decimal :: "'s stream_ops \<Rightarrow> int \<Rightarrow> 's \<Rightarrow> (io_error, unit) result \<times> 's" where
  "write_decimal W value s =
     (let d = dec_int value
      in if decimal_buffer < length d then (Inl (Err WriteZero), s) else write_all W s d)"

text \<open>\<open>usize as i64\<close>.\<close>

definition as_i64 :: "nat \<Rightarrow> int" where
  "as_i64 n = wrap_i64 (int n)"

fun write_single_value :: "'s stream_ops \<Rightarrow> frame \<Rightarrow> 's \<Rightarrow> (io_error, unit) result \<times> 's" where
  "write_single_value W (SimpleString t) s =
     try_op (write_u8 W 43 s) (\<lambda>_ s. try_op (write_all W s t) (\<lambda>_ s. write_all W s crlf))"
| "write_single_value W (Error e) s =
     try_op (write_u8 W 45 s) (\<lambda>_ s. try_op (write_all W s e) (\<lambda>_ s. write_all W s crlf))"
| "write_single_value W (Integer i) s =
     try_op (write_u8 W 58 s) (\<lambda>_ s. try_op (write_decimal W i s) (\<lambda>_ s. write_all W s crlf))"
| "write_single_value W Null s = write_all W s (36 # 45 # 49 # crlf)"
| "write_single_value W (BulkString bs) s =
     try_op (write_u8 W 36 s) (\<lambda>_ s.
     try_op (write_decimal W (as_i64 (length bs)) s) (\<lambda>_ s.
     try_op (write_all W s crlf) (\<lambda>_ s.
     try_op (write_all W s bs) (\<lambda>_ s. write_all W s crlf))))"
| "write_single_value W (Array items) s = (Inl Panic, s)"

fun write_items :: "'s stream_ops \<Rightarrow> frame list \<Rightarrow> 's \<Rightarrow> (io_error, unit) result \<times> 's" where
  "write_items W [] s = (Inr (), s)"
| "write_items W (item # items) s =
     try_op (write_single_value W item s) (\<lambda>_ s. write_items W items s)"

definition write_array :: "'s stream_ops \<Rightarrow> frame list \<Rightarrow> 's \<Rightarrow> (io_error, unit) result \<times> 's" where
  "write_array W items s =
     try_op (write_u8 W 42 s) (\<lambda>_ s.
     try_op (write_decimal W (as_i64 (length items)) s) (\<lambda>_ s.
     try_op (write_all W s crlf) (\<lambda>_ s. write_items W items s)))"

definition write_frame :: "'s stream_ops \<Rightarrow> frame \<Rightarrow> 's connection \<Rightarrow> (net_error, unit) result \<times> 's connection" where
  "write_frame W f c =
     (let (r, s) = try_op (case f of Array items \<Rightarrow> write_array W items (stream c)
                                   | _ \<Rightarrow> write_single_value W f (stream c)) (\<lambda>_ s. flush W s)
      in (map_err Io r, c\<lparr>stream := s\<rparr>))"

subsection \<open>Reading\<close>

text \<open>\<open>BytesMut::advance\<close> panics past the end of the buffer.\<close>

definition parse_frame :: "build \<Rightarrow> bytes \<Rightarrow> (frame_error, frame option) result \<times> bytes" where
  "parse_frame B buf =
     (case check B buf 0 of
        Inr len \<Rightarrow>
          (case parse B buf 0 of
             Inr (f, _) \<Rightarrow> if len \<le> length buf then (Inr (Some f), drop len buf) else (Inl Panic, buf)
           | Inl e \<Rightarrow> (Inl e, buf))
      | Inl (Err Incomplete) \<Rightarrow> (Inr None, buf)
      | Inl e \<Rightarrow> (Inl e, buf))"

text \<open>
  The loop ends when a frame, an error or the end of the stream is met: never, on a stream
  that supplies bytes of one unfinished frame forever. \<open>None\<close> is that case.
\<close>

partial_function (option) read_frame ::
    "'s stream_ops \<Rightarrow> build \<Rightarrow> 's connection \<Rightarrow> ((net_error, frame option) result \<times> 's connection) option" where
  "read_frame W B c =
     (case parse_frame B (buffer c) of
        (Inl e, buf) \<Rightarrow> Some (map_err Frame (Inl e), c\<lparr>buffer := buf\<rparr>)
      | (Inr (Some f), buf) \<Rightarrow> Some (Inr (Some f), c\<lparr>buffer := buf\<rparr>)
      | (Inr None, buf) \<Rightarrow>
          (case read_buf W (stream c) of
             (Inl e, s) \<Rightarrow> Some (map_err Io (Inl e), \<lparr>stream = s, buffer = buf\<rparr>)
           | (Inr data, s) \<Rightarrow>
               if data = [] then
                 Some (if buf = [] then Inr None else Inl (Err (Io ConnectionReset)),
                       \<lparr>stream = s, buffer = buf\<rparr>)
               else read_frame W B \<lparr>stream = s, buffer = buf @ data\<rparr>))"

declare read_frame.simps [code]

subsection \<open>What is written\<close>

text \<open>
  \<open>queued s\<close>: all the bytes the stream has accepted since it was opened; \<open>wire s\<close>: those
  that left the writer's buffer. A failed write may have accepted any part of its bytes.
\<close>

locale buffered_stream =
  fixes W :: "'s stream_ops" and queued :: "'s \<Rightarrow> bytes" and wire :: "'s \<Rightarrow> bytes"
  assumes write_all_ok: "write_all W s d = (Inr u, s') \<Longrightarrow> queued s' = queued s @ d"
    and flush_ok: "flush W s = (Inr u, s') \<Longrightarrow> wire s' = queued s \<and> queued s' = queued s"
    and read_buf_keeps: "read_buf W s = (r, s') \<Longrightarrow> queued s' = queued s \<and> wire s' = wire s"
    and write_all_part: "write_all W s d = (Inl e, s') \<Longrightarrow> \<exists>n. queued s' = queued s @ take n d"
    and flush_fail: "flush W s = (Inl e, s') \<Longrightarrow> queued s' = queued s"
    and io_returns: "fst (write_all W s d) \<noteq> Inl Panic" "fst (flush W s) \<noteq> Inl Panic"
      "fst (read_buf W s) \<noteq> Inl Panic"

text \<open>The frames \<open>write_frame\<close> supports: an array must not contain an array.\<close>

fun is_array :: "frame \<Rightarrow> bool" where
  "is_array (Array fs) = True"
| "is_array f = False"

fun flat :: "frame \<Rightarrow> bool" where
  "flat (Array fs) = list_all (\<lambda>f. \<not> is_array f) fs"
| "flat f = True"

lemma as_i64_id: "in_i64 (int n) \<Longrightarrow> as_i64 n = int n"
  by (simp add: as_i64_def wrap_i64_id)

lemma in_i64_as_i64 [simp]: "in_i64 (as_i64 n)"
  by (simp add: as_i64_def)

lemma write_decimal_fits: "in_i64 i \<Longrightarrow> write_decimal W i s = write_all W s (dec_int i)"
  using length_dec_int_i64[of i] by (simp add: write_decimal_def decimal_buffer_def)

lemma try_op_Inr_iff:
  "try_op m k = (Inr y, t) \<longleftrightarrow> (\<exists>x s. m = (Inr x, s) \<and> k x s = (Inr y, t))"
  by (cases "(m, k)" rule: try_op.cases) auto

lemma try_op_fst_Inl:
  "fst (try_op m k) = Inl e \<longleftrightarrow> fst m = Inl e \<or> (\<exists>x s. m = (Inr x, s) \<and> fst (k x s) = Inl e)"
  by (cases "(m, k)" rule: try_op.cases) auto

context buffered_stream
begin

text \<open>
  \<open>emits m s d\<close>: the writes of \<open>m\<close> on the stream \<open>s\<close> put \<open>d\<close> behind what was queued, or, when
  one of them fails, some part of \<open>d\<close> from its start.
\<close>

definition emits :: "('e, unit) result \<times> 's \<Rightarrow> 's \<Rightarrow> bytes \<Rightarrow> bool" where
  "emits m s d \<longleftrightarrow>
     (case fst m of Inr _ \<Rightarrow> queued (snd m) = queued s @ d
      | Inl _ \<Rightarrow> \<exists>n. queued (snd m) = queued s @ take n d)"

lemma emits_panic: "emits (Inl e, s) s d"
  unfolding emits_def by (auto intro: exI[of _ 0])

lemma emits_nothing: "emits (Inr (), s) s []"
  by (simp add: emits_def)

lemma emits_write_all: "emits (write_all W s d) s d"
  by (cases "write_all W s d"; cases "fst (write_all W s d)")
    (auto simp: emits_def dest: write_all_ok write_all_part)

lemma emits_flush: "emits (flush W s) s []"
  by (cases "flush W s"; cases "fst (flush W s)") (auto simp: emits_def dest: flush_ok flush_fail)

lemma emits_try_op:
  assumes "emits m s d" and "\<And>t. emits (k () t) t d'"
  shows "emits (try_op m k) s (d @ d')"
proof (cases "(m, k)" rule: try_op.cases)
  case (1 e t)
  with assms(1) obtain n where "queued t = queued s @ take n d" by (auto simp: emits_def)
  then have "queued t = queued s @ take (min n (length d)) (d @ d')"
    by (cases "n \<le> length d") auto
  then have "\<exists>n. queued t = queued s @ take n (d @ d')" by blast
  with 1 show ?thesis by (simp add: emits_def del: take_append)
next
  case (2 x t)
  with assms(1) have t: "queued t = queued s @ d" by (simp add: emits_def)
  show ?thesis
  proof (cases "fst (k () t)")
    case (Inl e)
    with assms(2)[of t] obtain n where "queued (snd (k () t)) = queued t @ take n d'"
      by (auto simp: emits_def)
    then have "queued (snd (k () t)) = queued s @ take (length d + n) (d @ d')" using t by simp
    with 2 Inl show ?thesis by (auto simp: emits_def simp del: take_append)
  next
    case (Inr y)
    with assms(2)[of t] 2 t show ?thesis by (simp add: emits_def)
  qed
qed

lemma emits_write_u8: "emits (write_u8 W c s) s [c]"
  unfolding write_u8_def by (rule emits_write_all)

lemma emits_decimal: "in_i64 i \<Longrightarrow> emits (write_decimal W i s) s (dec_int i)"
  by (simp add: write_decimal_fits emits_write_all)

lemma emits_then:
  "emits m s d \<Longrightarrow> (\<And>t. emits (k t) t d') \<Longrightarrow> d @ d' = dd \<Longrightarrow> emits (try_op m (\<lambda>_. k)) s dd"
  using emits_try_op[of m s d "\<lambda>_. k" d'] by simp

lemmas emits_intros = emits_then emits_write_all emits_write_u8 emits_decimal

lemma write_single_value_emits:
  assumes "frame_ok f" and "frame_fits B f"
  shows "emits (write_single_value W f s) s (encode f)"
proof (cases f)
  case (BulkString bs)
  then have "as_i64 (length bs) = int (length bs)" using assms by (simp add: as_i64_id)
  moreover have "in_i64 (int (length bs))" using BulkString assms by simp
  ultimately show ?thesis unfolding BulkString encode.simps write_single_value.simps
    by (simp only:) (rule emits_intros | simp only: append_Cons append_Nil append.assoc | assumption)+
next
  case (Array fs)
  then show ?thesis by (simp add: emits_panic)
next
  case (Integer i)
  with assms have "in_i64 i" by simp
  then show ?thesis unfolding Integer encode.simps write_single_value.simps
    by - (rule emits_intros | simp only: append_Cons append_Nil | assumption)+
next
  case (SimpleString t)
  show ?thesis unfolding SimpleString encode.simps write_single_value.simps
    by (rule emits_intros | simp only: append_Cons append_Nil)+
next
  case (Error t)
  show ?thesis unfolding Error encode.simps write_single_value.simps
    by (rule emits_intros | simp only: append_Cons append_Nil)+
next
  case Null
  show ?thesis using emits_write_all[of s "encode Null"] by (simp add: Null)
qed

lemma write_items_emits:
  "list_all frame_ok fs \<Longrightarrow> list_all (frame_fits B) fs \<Longrightarrow>
   emits (write_items W fs s) s (concat (map encode fs))"
proof (induction fs arbitrary: s)
  case (Cons f fs)
  then have "emits (write_single_value W f s) s (encode f)" for s
    by (intro write_single_value_emits[where B = B]) auto
  moreover from Cons have "emits (write_items W fs t) t (concat (map encode fs))" for t by simp
  ultimately show ?case unfolding write_items.simps by (rule emits_then) simp
qed (simp add: emits_nothing)

lemma write_array_emits:
  assumes "frame_ok (Array fs)" and "frame_fits B (Array fs)"
  shows "emits (write_array W fs s) s (encode (Array fs))"
proof -
  from assms have len: "as_i64 (length fs) = int (length fs)" by (simp add: as_i64_id)
  have "in_i64 (int (length fs))" using assms by simp
  moreover from assms have "emits (write_items W fs t) t (concat (map encode fs))" for t
    by (intro write_items_emits[where B = B]) auto
  ultimately show ?thesis unfolding write_array_def encode.simps len
    by - (rule emits_intros | simp only: append_Cons append_Nil append.assoc | assumption)+
qed

lemma write_value_emits:
  assumes "frame_ok f" and "frame_fits B f"
  shows "emits (case f of Array items \<Rightarrow> write_array W items s | _ \<Rightarrow> write_single_value W f s) s (encode f)"
  using write_single_value_emits[OF assms, of s] write_array_emits[where B = B] assms
  by (cases f) (simp_all del: write_single_value.simps encode.simps)

lemma write_frame_emits:
  assumes "frame_ok f" and "frame_fits B f"
  shows "emits (fst (write_frame W f c), stream (snd (write_frame W f c))) (stream c) (encode f)"
proof -
  let ?m = "try_op (case f of Array items \<Rightarrow> write_array W items (stream c)
                           | _ \<Rightarrow> write_single_value W f (stream c)) (\<lambda>_ s. flush W s)"
  have "emits ?m (stream c) (encode f)"
    by (rule emits_then[OF write_value_emits[OF assms] emits_flush]) simp
  then show ?thesis
    by (cases ?m; cases "fst ?m") (auto simp: write_frame_def Let_def emits_def split: sum.splits)
qed

lemma write_frame_wire:
  assumes "write_frame W f c = (Inr u, c')" and "frame_ok f" and "frame_fits B f"
  shows "wire (stream c') = queued (stream c) @ encode f \<and> queued (stream c') = wire (stream c')"
proof -
  from assms(1) obtain v s s' where
    v: "(case f of Array items \<Rightarrow> write_array W items (stream c)
                 | _ \<Rightarrow> write_single_value W f (stream c)) = (Inr v, s)"
    and fl: "flush W s = (Inr (), s')" and c': "stream c' = s'"
    by (auto simp: write_frame_def Let_def try_op_Inr_iff split: prod.splits)
  from write_value_emits[OF assms(2,3), of "stream c"]
  have "queued s = queued (stream c) @ encode f" unfolding v by (simp add: emits_def)
  with flush_ok[OF fl] c' show ?thesis by simp
qed

end

text \<open>
  \<open>incoming s\<close>: the pieces that later reads return, the end of the stream behind them. Writes
  leave it alone, and no read fails.
\<close>

locale duplex_stream = buffered_stream +
  fixes incoming :: "'a \<Rightarrow> bytes list"
  assumes read_piece: "incoming s = c # cs \<Longrightarrow>
      c \<noteq> [] \<and> fst (read_buf W s) = Inr c \<and> incoming (snd (read_buf W s)) = cs"
    and read_end: "incoming s = [] \<Longrightarrow> fst (read_buf W s) = Inr [] \<and> incoming (snd (read_buf W s)) = []"
    and write_all_keeps: "incoming (snd (write_all W s d)) = incoming s"
    and flush_keeps: "incoming (snd (flush W s)) = incoming s"
begin

lemma try_op_keeps:
  "incoming (snd m) = incoming s \<Longrightarrow> (\<And>x t. incoming t = incoming s \<Longrightarrow> incoming (snd (k x t)) = incoming s) \<Longrightarrow>
   incoming (snd (try_op m k)) = incoming s"
  by (cases "(m, k)" rule: try_op.cases) auto

lemma write_decimal_keeps: "incoming (snd (write_decimal W i s)) = incoming s"
  by (simp add: write_decimal_def write_all_keeps Let_def)

lemmas keeps = try_op_keeps write_all_keeps write_decimal_keeps flush_keeps

lemma write_single_value_keeps: "incoming (snd (write_single_value W f s)) = incoming s"
  by (cases f) (auto simp: write_u8_def keeps intro!: try_op_keeps)

lemma write_items_keeps: "incoming (snd (write_items W fs s)) = incoming s"
  by (induction fs arbitrary: s) (auto simp: write_single_value_keeps intro!: try_op_keeps)

lemma write_array_keeps: "incoming (snd (write_array W fs s)) = incoming s"
  unfolding write_array_def write_u8_def
  by (intro try_op_keeps) (auto simp: keeps write_items_keeps)

lemma write_frame_keeps: "incoming (stream (snd (write_frame W f c))) = incoming (stream c)"
proof -
  have "incoming (snd (case f of Array items \<Rightarrow> write_array W items s | _ \<Rightarrow> write_single_value W f s)) = incoming s" for s
    by (cases f) (simp_all add: write_single_value_keeps write_array_keeps del: write_single_value.simps)
  then have "incoming (snd (try_op (case f of Array items \<Rightarrow> write_array W items (stream c)
      | _ \<Rightarrow> write_single_value W f (stream c)) (\<lambda>_ s. flush W s))) = incoming (stream c)"
    by (intro try_op_keeps) (simp_all add: flush_keeps)
  then show ?thesis by (simp add: write_frame_def Let_def split_beta)
qed

end

text \<open>What a frame write leaves alone, on every stream.\<close>

lemma write_frame_buffer [simp]: "buffer (snd (write_frame W f c)) = buffer c"
  by (auto simp: write_frame_def Let_def split: prod.splits)

lemma write_flat_no_panic:
  assumes "\<And>s d. fst (write_all W s d) \<noteq> Inl Panic" and "\<And>s. fst (flush W s) \<noteq> Inl Panic" and "flat f"
  shows "fst (write_frame W f c) \<noteq> Inl Panic"
proof -
  have dec: "fst (write_decimal W i s) \<noteq> Inl Panic" for i s
    using assms by (simp add: write_decimal_def Let_def)
  have single: "\<not> is_array g \<Longrightarrow> fst (write_single_value W g s) \<noteq> Inl Panic" for g s
    by (cases g) (auto simp: write_u8_def try_op_fst_Inl assms dec)
  have items: "list_all (\<lambda>g. \<not> is_array g) gs \<Longrightarrow> fst (write_items W gs s) \<noteq> Inl Panic" for gs s
    by (induction gs arbitrary: s) (auto simp: try_op_fst_Inl single)
  have "fst (case f of Array items \<Rightarrow> write_array W items s | _ \<Rightarrow> write_single_value W f s) \<noteq> Inl Panic" for s
    using assms(3)
    by (cases f) (auto simp: write_array_def write_u8_def try_op_fst_Inl assms(1,2) dec items single
        simp del: write_single_value.simps)
  then have "fst (try_op (case f of Array items \<Rightarrow> write_array W items (stream c)
      | _ \<Rightarrow> write_single_value W f (stream c)) (\<lambda>_ s. flush W s)) \<noteq> Inl Panic"
    by (auto simp: try_op_fst_Inl assms(2))
  then show ?thesis by (simp add: write_frame_def Let_def split_beta)
qed

text \<open>On a stream that never fails.\<close>

lemma write_frame_reliable:
  fixes W :: "'s stream_ops"
  assumes wr: "\<And>s d. \<exists>s'. write_all W s d = (Inr (), s')" and fl: "\<And>s. \<exists>s'. flush W s = (Inr (), s')"
    and "frame_ok f"
  shows "fst (write_frame W f c) = (if flat f then Inr () else Inl Panic)"
proof -
  have seq: "fst (try_op m k) = fst (k () (snd m))" if "fst m = Inr ()"
    for m :: "(io_error, unit) result \<times> 's" and k :: "unit \<Rightarrow> 's \<Rightarrow> (io_error, unit) result \<times> 's"
    using that by (cases "(m, k)" rule: try_op.cases) auto
  have w: "fst (write_all W s d) = Inr ()" for s d using wr[of s d] by auto
  have f: "fst (flush W s) = Inr ()" for s using fl[of s] by auto
  have d: "in_i64 i \<Longrightarrow> fst (write_decimal W i s) = Inr ()" for i s
    by (simp add: write_decimal_fits w)
  have single: "fst (write_single_value W g s) = (if is_array g then Inl Panic else Inr ())"
    if "frame_ok g" for g s
    using that by (cases g) (simp_all add: write_u8_def seq w d)
  have panic: "fst (try_op m k) = Inl Panic" if "fst m = Inl Panic"
    for m :: "(io_error, unit) result \<times> 's" and k :: "unit \<Rightarrow> 's \<Rightarrow> (io_error, unit) result \<times> 's"
    using that by (cases "(m, k)" rule: try_op.cases) auto
  have items: "fst (write_items W gs s)
      = (if list_all (\<lambda>g. \<not> is_array g) gs then Inr () else Inl Panic)" if "list_all frame_ok gs" for gs s
    using that
  proof (induction gs arbitrary: s)
    case (Cons g gs)
    then show ?case by (cases "is_array g") (simp_all add: seq single panic)
  qed simp
  have "fst (case f of Array items \<Rightarrow> write_array W items s | _ \<Rightarrow> write_single_value W f s)
      = (if flat f then Inr () else Inl Panic)" for s
    using assms(3) single[OF assms(3), of s]
    by (cases f) (simp_all add: write_array_def write_u8_def seq w d items del: write_single_value.simps)
  then have "fst (try_op (case f of Array items \<Rightarrow> write_array W items (stream c)
      | _ \<Rightarrow> write_single_value W f (stream c)) (\<lambda>_ s. flush W s)) = (if flat f then Inr () else Inl Panic)"
    by (simp add: seq panic f)
  then show ?thesis by (simp add: write_frame_def Let_def split_beta)
qed

lemma write_frame_error: "fst (write_frame W f c) = Inl (Err e) \<Longrightarrow> \<exists>i. e = Io i"
  by (auto simp: write_frame_def Let_def map_err_Err_iff split: prod.splits)

lemma write_single_value_array: "is_array f \<Longrightarrow> write_single_value W f s = (Inl Panic, s)"
  by (cases f) auto

end
