(* ===== verification/ConnectionRead.thy ===== *)
theory ConnectionRead
  imports Connection
begin

section \<open>Reading frames from a stream (src/net/connection.rs)\<close>

text \<open>
  What \<open>read_frame\<close> returns when the bytes of a frame arrive in pieces, and when the peer
  closes the stream. \<open>delivers W s cs s'\<close>: the next reads of \<open>s\<close> return the pieces \<open>cs\<close>, none
  of them empty, and leave the stream in \<open>s'\<close>.
\<close>

fun delivers :: "'s stream_ops \<Rightarrow> 's \<Rightarrow> bytes list \<Rightarrow> 's \<Rightarrow> bool" where
  "delivers W s [] s' \<longleftrightarrow> s' = s"
| "delivers W s (c # cs) s' \<longleftrightarrow>
     c \<noteq> [] \<and> fst (read_buf W s) = Inr c \<and> delivers W (snd (read_buf W s)) cs s'"

text \<open>\<open>safe_splits b cs\<close>: no piece leaves a buffer that ends in a sign, but for the last.\<close>

fun safe_splits :: "bytes \<Rightarrow> bytes list \<Rightarrow> bool" where
  "safe_splits b [] \<longleftrightarrow> True"
| "safe_splits b (c # cs) \<longleftrightarrow> safe_end b \<and> safe_splits (b @ c) cs"

lemma parse_frame_encode:
  assumes "frame_ok f" and "frame_fits B f"
  shows "parse_frame B (encode f @ rest) = (Inr (Some f), rest)"
  using check_encode_start[OF assms, of rest] parse_encode_start[OF assms, of rest]
  by (simp add: parse_frame_def)

lemma parse_frame_prefix:
  assumes "frame_ok f" "frame_fits B f" "\<not> overflow_checks B" "safe_end b" "b @ rest = encode f" "rest \<noteq> []"
  shows "parse_frame B b = (Inr None, b)"
  using check_prefix[OF assms] by (simp add: parse_frame_def)

lemma read_frame_ready:
  "parse_frame B (buffer c) = (Inr (Some f), b) \<Longrightarrow> read_frame W B c = Some (Inr (Some f), c\<lparr>buffer := b\<rparr>)"
  by (simp add: read_frame.simps[of W B c])

lemma read_frame_error:
  "parse_frame B (buffer c) = (Inl e, b) \<Longrightarrow> read_frame W B c = Some (map_err Frame (Inl e), c\<lparr>buffer := b\<rparr>)"
  by (simp add: read_frame.simps[of W B c])

lemma read_frame_more:
  assumes "parse_frame B (buffer c) = (Inr None, b)" and "read_buf W (stream c) = (Inr d, s)" and "d \<noteq> []"
  shows "read_frame W B c = read_frame W B \<lparr>stream = s, buffer = b @ d\<rparr>"
  using assms by (subst read_frame.simps) simp

lemma read_frame_eof:
  assumes "parse_frame B (buffer c) = (Inr None, b)" and "read_buf W (stream c) = (Inr [], s)"
  shows "read_frame W B c =
     Some (if b = [] then Inr None else Inl (Err (Io ConnectionReset)), \<lparr>stream = s, buffer = b\<rparr>)"
  using assms by (subst read_frame.simps) simp

lemma read_frame_io_error:
  assumes "parse_frame B (buffer c) = (Inr None, b)" and "read_buf W (stream c) = (Inl (Err e), s)"
  shows "read_frame W B c = Some (Inl (Err (Io e)), \<lparr>stream = s, buffer = b\<rparr>)"
  using assms by (subst read_frame.simps) simp

text \<open>A frame in pieces, with anything behind it.\<close>

lemma append_split_cases:
  assumes "b @ d = x @ y"
  obtains (inside) z where "b @ z = x" and "z \<noteq> []" | (past) z where "b = x @ z" and "y = z @ d"
proof -
  from assms obtain z where "b = x @ z \<and> z @ d = y \<or> b @ z = x \<and> d = z @ y"
    by (auto simp: append_eq_append_conv2)
  then show thesis
    by (cases "z = []") (auto intro: inside past)
qed

lemma read_frame_pieces:
  assumes f: "frame_ok f" "frame_fits B f" and rel: "\<not> overflow_checks B"
    and "delivers W s cs s'" and "safe_splits b cs" and "b @ concat cs = encode f @ rest"
  shows "\<exists>k s1 b1. k \<le> length cs \<and> delivers W s (take k cs) s1 \<and> b1 @ concat (drop k cs) = rest \<and>
           read_frame W B \<lparr>stream = s, buffer = b\<rparr> = Some (Inr (Some f), \<lparr>stream = s1, buffer = b1\<rparr>)"
  using assms(4-6)
proof (induction cs arbitrary: s b)
  case Nil
  then have "read_frame W B \<lparr>stream = s, buffer = b\<rparr> = Some (Inr (Some f), \<lparr>stream = s, buffer = rest\<rparr>)"
    using parse_frame_encode[OF f, of rest] by (simp add: read_frame_ready)
  then show ?case by simp
next
  case (Cons c cs)
  from Cons.prems(3) have eq: "b @ (c @ concat cs) = encode f @ rest" by simp
  then show ?case
  proof (cases rule: append_split_cases)
    case (inside z)
    obtain t where t: "read_buf W s = (Inr c, t)" "c \<noteq> []" "delivers W t cs s'"
      using Cons.prems(1) by (cases "read_buf W s") auto
    have "parse_frame B b = (Inr None, b)"
      using parse_frame_prefix[OF f rel _ inside] Cons.prems(2) by simp
    then have p: "parse_frame B (buffer \<lparr>stream = s, buffer = b\<rparr>) = (Inr None, b)" by simp
    note step = read_frame_more[OF p, of W c t]
    from Cons.prems(2) have safe: "safe_splits (b @ c) cs" by simp
    have "(b @ c) @ concat cs = encode f @ rest" using eq by simp
    from Cons.IH[OF t(3) safe this] show ?thesis
    proof (elim exE conjE, goal_cases)
      case (1 k s1 b1)
      with t show ?case by (intro exI[of _ "Suc k"] exI[of _ s1] exI[of _ b1]) (simp add: step)
    qed
  next
    case (past z)
    then have "read_frame W B \<lparr>stream = s, buffer = b\<rparr> = Some (Inr (Some f), \<lparr>stream = s, buffer = z\<rparr>)"
      using parse_frame_encode[OF f, of z] by (simp add: read_frame_ready)
    with past show ?thesis by (intro exI[of _ 0] exI[of _ s] exI[of _ z]) simp
  qed
qed

text \<open>The peer closes the stream with part of a frame sent.\<close>

lemma safe_splits_last: "safe_splits b cs \<Longrightarrow> safe_end (b @ concat cs) \<Longrightarrow> safe_end b"
  by (cases cs) auto

lemma read_frame_closed:
  assumes f: "frame_ok f" "frame_fits B f" and rel: "\<not> overflow_checks B"
    and "delivers W s cs s'" and "safe_splits b cs" and "safe_end (b @ concat cs)"
    and "(b @ concat cs) @ rest = encode f" and "rest \<noteq> []" and eof: "read_buf W s' = (Inr [], t)"
  shows "read_frame W B \<lparr>stream = s, buffer = b\<rparr> =
     Some (if b @ concat cs = [] then Inr None else Inl (Err (Io ConnectionReset)),
           \<lparr>stream = t, buffer = b @ concat cs\<rparr>)"
  using assms(4-8)
proof (induction cs arbitrary: s b)
  case Nil
  then have "parse_frame B b = (Inr None, b)"
    by (intro parse_frame_prefix[OF f rel, where rest = rest]) auto
  with Nil eof show ?case by (simp add: read_frame_eof)
next
  case (Cons c cs)
  obtain u where u: "read_buf W s = (Inr c, u)" "c \<noteq> []" "delivers W u cs s'"
    using Cons.prems(1) by (cases "read_buf W s") auto
  have "parse_frame B b = (Inr None, b)"
    using Cons.prems by (intro parse_frame_prefix[OF f rel, where rest = "c @ concat cs @ rest"]) auto
  then have p: "parse_frame B (buffer \<lparr>stream = s, buffer = b\<rparr>) = (Inr None, b)" by simp
  from Cons.IH[OF u(3), of "b @ c"] Cons.prems u show ?case
    by (simp add: read_frame_more[OF p, of W c u])
qed

text \<open>Reads of a stream in terms of \<open>incoming\<close>.\<close>

context duplex_stream
begin

lemma delivers_incoming: "\<exists>s'. delivers W s (incoming s) s' \<and> incoming s' = []"
proof (induction "incoming s" arbitrary: s)
  case (Cons c cs)
  from read_piece[OF Cons.hyps(2)[symmetric]] Cons.hyps(1)[of "snd (read_buf W s)"]
  show ?case unfolding Cons.hyps(2)[symmetric] by auto
qed simp

lemma delivers_take: "delivers W s (take k (incoming s)) s' \<Longrightarrow> incoming s' = drop k (incoming s)"
proof (induction k arbitrary: s)
  case (Suc k)
  show ?case
  proof (cases "incoming s")
    case (Cons c cs)
    with read_piece[OF Cons] Suc show ?thesis by auto
  qed (use Suc in simp)
qed simp

lemma delivers_queued: "delivers W s cs s' \<Longrightarrow> queued s' = queued s \<and> wire s' = wire s"
proof (induction cs arbitrary: s)
  case (Cons c cs)
  then show ?case
    using read_buf_keeps[OF prod.collapse[symmetric], of s] Cons.IH[of "snd (read_buf W s)"] by simp
qed simp

text \<open>A frame that arrives is read, whatever the pieces.\<close>

lemma read_frame_incoming:
  assumes "frame_ok f" and "frame_fits B f" and "\<not> overflow_checks B"
    and "safe_splits (buffer c) (incoming (stream c))"
    and "buffer c @ concat (incoming (stream c)) = encode f @ rest"
  obtains c' where "read_frame W B c = Some (Inr (Some f), c')"
    and "buffer c' @ concat (incoming (stream c')) = rest"
proof -
  obtain s' where "delivers W (stream c) (incoming (stream c)) s'" using delivers_incoming by blast
  from read_frame_pieces[OF assms(1-3) this assms(4,5)] obtain k s1 b1 where
    k: "delivers W (stream c) (take k (incoming (stream c))) s1"
      "b1 @ concat (drop k (incoming (stream c))) = rest"
    and "read_frame W B \<lparr>stream = stream c, buffer = buffer c\<rparr> = Some (Inr (Some f), \<lparr>stream = s1, buffer = b1\<rparr>)"
    by blast
  moreover have "\<lparr>stream = stream c, buffer = buffer c\<rparr> = c" by simp
  ultimately show thesis using that[of "\<lparr>stream = s1, buffer = b1\<rparr>"] delivers_take[OF k(1)] by simp
qed

end

end
