(* ===== verification/Command.thy ===== *)
theory Command
  imports ConnectionRead
begin

section \<open>Commands (src/net/command.rs, src/net/command/)\<close>

text \<open>
  The three commands, how they are parsed from a frame and turned into one, and how they are
  applied to a storage engine. The engine is whatever implements the trait
  \<open>KeyValueStorage\<close> of src/storage.rs: a record of functions on its state, with the
  promises of the trait in the locale \<open>kv_store\<close>. A command struct and its enum variant are
  one constructor; a \<open>Utf8Bytes\<close> is its bytes.
\<close>

datatype command = Del "bytes list" | Get bytes | Set bytes bytes

subsection \<open>The parser\<close>

text \<open>A \<open>Parser\<close> is the iterator over the items not yet taken.\<close>

fun parser_new :: "frame \<Rightarrow> (command_error, frame list) result" where
  "parser_new (Array frames) = Inr frames"
| "parser_new f = Inl (Err (BadFrame f))"

definition utf8_try_from :: "bytes \<Rightarrow> (command_error, bytes) result" where
  "utf8_try_from v = map_err NotUtf8Bytes (from_utf8 v)"

fun parser_get_string :: "frame list \<Rightarrow> (command_error, bytes option) result \<times> frame list" where
  "parser_get_string (BulkString s # frames) =
     (and_then (utf8_try_from s) (\<lambda>s. Inr (Some s)), frames)"
| "parser_get_string (f # frames) = (Inl (Err (BadFrame f)), frames)"
| "parser_get_string [] = (Inr None, [])"

fun parser_get_bytes :: "frame list \<Rightarrow> (command_error, bytes option) result \<times> frame list" where
  "parser_get_bytes (BulkString s # frames) = (Inr (Some s), frames)"
| "parser_get_bytes (f # frames) = (Inl (Err (BadFrame f)), frames)"
| "parser_get_bytes [] = (Inr None, [])"

definition parser_finish :: "frame list \<Rightarrow> bool" where
  "parser_finish frames \<longleftrightarrow> frames = []"

text \<open>\<open>while let Some(key) = parser.get_string()? { keys.push(key) }\<close>.\<close>

function del_keys :: "frame list \<Rightarrow> bytes list \<Rightarrow> (command_error, bytes list) result" where
  "del_keys frames keys =
     (case parser_get_string frames of
        (Inl e, _) \<Rightarrow> Inl e
      | (Inr None, _) \<Rightarrow> Inr keys
      | (Inr (Some key), frames') \<Rightarrow> del_keys frames' (keys @ [key]))"
  by pat_completeness auto
termination
proof (relation "measure (\<lambda>(frames, keys). length frames)", goal_cases)
  case (2 frames keys r frames' k key)
  then show ?case by (cases frames rule: parser_get_string.cases) auto
qed simp

declare del_keys.simps [simp del]

definition del_try_from :: "frame list \<Rightarrow> (command_error, command) result" where
  "del_try_from parser =
     and_then (del_keys parser []) (\<lambda>keys.
       if keys = [] then Inl (Err (BadArguments ''Keys are empty'')) else Inr (Del keys))"

definition ok_or :: "'a option \<Rightarrow> 'e \<Rightarrow> ('e, 'a) result" where
  "ok_or x e = (case x of None \<Rightarrow> Inl (Err e) | Some v \<Rightarrow> Inr v)"

definition get_try_from :: "frame list \<Rightarrow> (command_error, command) result" where
  "get_try_from parser =
     (let (r, parser) = parser_get_string parser in
      and_then r (\<lambda>k. and_then (ok_or k (BadArguments ''Key is not given'')) (\<lambda>key.
        if \<not> parser_finish parser then Inl (Err (BadArguments ''Frame contains extra data''))
        else Inr (Get key))))"

definition set_try_from :: "frame list \<Rightarrow> (command_error, command) result" where
  "set_try_from parser =
     (let (r, parser) = parser_get_string parser in
      and_then r (\<lambda>k. and_then (ok_or k (BadArguments ''Key is not given'')) (\<lambda>key.
      let (r, parser) = parser_get_bytes parser in
      and_then r (\<lambda>v. and_then (ok_or v (BadArguments ''Value is not given'')) (\<lambda>value.
        if \<not> parser_finish parser then Inl (Err (BadArguments ''Frame contains extra data''))
        else Inr (Set key value))))))"

definition command_try_from :: "frame \<Rightarrow> (command_error, command) result" where
  "command_try_from f =
     and_then (parser_new f) (\<lambda>parser.
     let (r, parser) = parser_get_bytes parser in
     and_then r (\<lambda>name.
       case name of
         Some b \<Rightarrow>
           if b = ascii ''DEL'' then del_try_from parser
           else if b = ascii ''GET'' then get_try_from parser
           else if b = ascii ''SET'' then set_try_from parser
           else Inl (Err (BadCommand (from_utf8_lossy b)))
       | None \<Rightarrow> Inl (Err (BadCommand []))))"

subsection \<open>From<Del>, From<Get> and From<Set> for Frame\<close>

definition del_frame :: "bytes list \<Rightarrow> frame" where
  [simp]: "del_frame keys = Array (BulkString (ascii ''DEL'') # map BulkString keys)"

definition get_frame :: "bytes \<Rightarrow> frame" where
  [simp]: "get_frame key = Array [BulkString (ascii ''GET''), BulkString key]"

definition set_frame :: "bytes \<Rightarrow> bytes \<Rightarrow> frame" where
  [simp]: "set_frame key value = Array [BulkString (ascii ''SET''), BulkString key, BulkString value]"

fun frame_from :: "command \<Rightarrow> frame" where
  "frame_from (Del keys) = del_frame keys"
| "frame_from (Get key) = get_frame key"
| "frame_from (Set key value) = set_frame key value"

subsection \<open>Applying a command\<close>

text \<open>
  The trait \<open>KeyValueStorage\<close>. A \<open>get\<close> is \<open>None\<close> when the call does not return: the engine of this
  repository spins as long as its pool has no reader. \<open>kv_text\<close> is the text of an engine error,
  what is left of it in an \<open>anyhow::Error\<close>.
\<close>

record ('st, 'e) kv_ops =
  kv_set :: "bytes \<Rightarrow> bytes \<Rightarrow> 'st \<Rightarrow> ('e, unit) result \<times> 'st"
  kv_get :: "bytes \<Rightarrow> 'st \<Rightarrow> (('e, bytes option) result \<times> 'st) option"
  kv_del :: "bytes \<Rightarrow> 'st \<Rightarrow> ('e, bool) result \<times> 'st"
  kv_text :: "'e \<Rightarrow> bytes"

text \<open>
  The closure runs on a blocking thread. Awaiting it gives a \<open>JoinError\<close> when it panicked,
  and the error of the engine otherwise.
\<close>

fun join :: "('e \<Rightarrow> bytes) \<Rightarrow> ('e, 'a) result \<Rightarrow> (net_error, 'a) result" where
  "join into (Inr x) = Inr x"
| "join into (Inl (Err e)) = Inl (Err (Storage (into e)))"
| "join into (Inl Panic) = Inl (Err AsyncTask)"

fun del_all :: "build \<Rightarrow> ('st, 'e) kv_ops \<Rightarrow> bytes list \<Rightarrow> int \<Rightarrow> 'st \<Rightarrow> ('e, int) result \<times> 'st" where
  "del_all B KV [] count st = (Inr count, st)"
| "del_all B KV (key # keys) count st =
     try_op (kv_del KV key st) (\<lambda>removed st.
       if removed then
         (case i64_arith B (count + 1) of Inl e \<Rightarrow> (Inl e, st) | Inr count' \<Rightarrow> del_all B KV keys count' st)
       else del_all B KV keys count st)"

text \<open>
  The first halves of \<open>Del::apply\<close>, \<open>Get::apply\<close> and \<open>Set::apply\<close>: the response to send. \<open>None\<close>: the
  blocking task never ends, and neither does the await.
\<close>

definition del_response :: "build \<Rightarrow> ('st, 'e) kv_ops \<Rightarrow> bytes list \<Rightarrow> 'st \<Rightarrow> (net_error, frame) result \<times> 'st" where
  [simp]: "del_response B KV keys st =
     (let (r, st) = del_all B KV keys 0 st in (and_then (join (kv_text KV) r) (\<lambda>count. Inr (Integer count)), st))"

definition get_response :: "('st, 'e) kv_ops \<Rightarrow> bytes \<Rightarrow> 'st \<Rightarrow> ((net_error, frame) result \<times> 'st) option" where
  [simp]: "get_response KV key st =
     map_option (\<lambda>(r, st).
       (and_then (join (kv_text KV) r) (\<lambda>v. Inr (case v of Some val \<Rightarrow> BulkString val | None \<Rightarrow> Null)), st)) (kv_get KV key st)"

definition set_response :: "('st, 'e) kv_ops \<Rightarrow> bytes \<Rightarrow> bytes \<Rightarrow> 'st \<Rightarrow> (net_error, frame) result \<times> 'st" where
  [simp]: "set_response KV key value st =
     (let (r, st) = kv_set KV key value st in
      (and_then (join (kv_text KV) r) (\<lambda>_. Inr (SimpleString (ascii ''OK''))), st))"

fun run_blocking :: "build \<Rightarrow> ('st, 'e) kv_ops \<Rightarrow> command \<Rightarrow> 'st \<Rightarrow> ((net_error, frame) result \<times> 'st) option" where
  "run_blocking B KV (Del keys) st = Some (del_response B KV keys st)"
| "run_blocking B KV (Get key) st = get_response KV key st"
| "run_blocking B KV (Set key value) st = Some (set_response KV key value st)"

text \<open>Their second halves: an error goes back to the handler, a response onto the connection.\<close>

definition respond ::
    "'s stream_ops \<Rightarrow> (net_error, frame) result \<times> 'st \<Rightarrow> 's connection \<Rightarrow> (net_error, unit) result \<times> 'st \<times> 's connection" where
  [simp]: "respond W x conn =
     (case x of
        (Inl e, st) \<Rightarrow> (Inl e, st, conn)
      | (Inr response, st) \<Rightarrow> (let (r, conn) = write_frame W response conn in (r, st, conn)))"

definition command_apply ::
    "build \<Rightarrow> 's stream_ops \<Rightarrow> ('st, 'e) kv_ops \<Rightarrow> command \<Rightarrow> 'st \<Rightarrow> 's connection \<Rightarrow>
     ((net_error, unit) result \<times> 'st \<times> 's connection) option" where
  "command_apply B W KV cmd st conn = map_option (\<lambda>x. respond W x conn) (run_blocking B KV cmd st)"

end
