(* ===== verification/Bitcask.thy ===== *)
theory Bitcask
  imports Writer Command
begin

section \<open>The storage engine (reader.rs, bitcask.rs)\<close>

text \<open>
  Reading, the operations of a \<open>Handle\<close>, rebuilding the keydir and the statistics from the
  files, opening and closing. The loops over the entries of a file end when the decoder
  reports the end of the file; \<open>None\<close> is a loop that does not end, with a decoder that takes
  no byte.
\<close>

subsection \<open>Reader::get\<close>

definition reader_get ::
    "'l deps \<Rightarrow> build \<Rightarrow> bytes \<Rightarrow> keydir \<Rightarrow> 'l \<Rightarrow> fs \<Rightarrow> (bc_error, bytes option) result \<times> 'l \<times> fs" where
  "reader_get D B k kd cache fs =
     (case map_of kd k of
        None \<Rightarrow> (Inr None, cache, fs)
      | Some e \<Rightarrow>
          (case log_dir_read D B (kd_fileid e) (kd_len e) (kd_pos e) cache fs of
             (r, cache, fs) \<Rightarrow> (and_then r (\<lambda>entry. Inr (d_value entry)), cache, fs)))"

subsection \<open>Handle\<close>

definition guarded :: "('l, 'a) action \<Rightarrow> ('l, 'a) action" where
  "guarded act st = (if closed st then (Inl (Err Closed), st) else act st)"

definition handle_put :: "'l deps \<Rightarrow> build \<Rightarrow> bytes \<Rightarrow> bytes \<Rightarrow> ('l, unit) action" where
  "handle_put D B k v = guarded (put D B k v)"

definition handle_delete :: "'l deps \<Rightarrow> build \<Rightarrow> bytes \<Rightarrow> ('l, bool) action" where
  "handle_delete D B k = guarded (delete D B k)"

text \<open>
  A reader is taken from the front of the queue and put back at its end, but not when it
  panicked. With no reader in the queue the call spins until one is back: \<open>None\<close>, when
  nothing else runs.
\<close>

definition handle_get ::
    "'l deps \<Rightarrow> build \<Rightarrow> bytes \<Rightarrow> 'l storage \<Rightarrow> ((bc_error, bytes option) result \<times> 'l storage) option" where
  "handle_get D B k st =
     (if closed st then Some (Inl (Err Closed), st)
      else case pool st of
        [] \<Rightarrow> None
      | reader # rest \<Rightarrow>
          Some (case reader_get D B k (keydir st) reader (files st) of
            (Inl Panic, reader, fs) \<Rightarrow> (Inl Panic, st\<lparr>pool := rest, files := fs\<rparr>)
          | (r, reader, fs) \<Rightarrow> (r, st\<lparr>pool := rest @ [reader], files := fs\<rparr>)))"

definition handle_merge :: "'l deps \<Rightarrow> build \<Rightarrow> ('l, unit) action" where
  "handle_merge D B = guarded (\<lambda>st.
     case can_merge B st of
       Inl e \<Rightarrow> (Inl e, st)
     | Inr b \<Rightarrow> if b then merge D B st else (Inr (), st))"

definition handle_sync :: "('l, unit) action" where
  "handle_sync = guarded writer_sync"

text \<open>\<open>KeyValueStorage for Handle\<close>. A \<open>get\<close> that finds the pool without a reader spins: \<open>None\<close>.\<close>

definition bitcask_kv :: "'l deps \<Rightarrow> build \<Rightarrow> (bc_error \<Rightarrow> bytes) \<Rightarrow> ('l storage, bc_error) kv_ops" where
  "bitcask_kv D B text =
     \<lparr>kv_set = handle_put D B,
      kv_get = handle_get D B,
      kv_del = handle_delete D B,
      kv_text = text\<rparr>"

subsection \<open>Rebuilding\<close>

type_synonym rebuild = "keydir \<times> (nat \<times> log_statistics) list \<times> fs"

definition rebuild_stats ::
    "nat \<Rightarrow> (log_statistics \<Rightarrow> (bc_error, unit) result \<times> log_statistics) \<Rightarrow> rebuild \<Rightarrow> (bc_error, unit) result \<times> rebuild" where
  "rebuild_stats fileid op = (\<lambda>(kd, ss, fs).
     let (r, s) = op (stats_of ss fileid) in (r, kd, AList.update fileid s ss, fs))"

text \<open>What is counted dead when an entry of the keydir is replaced or removed.\<close>

definition overwrite_prev :: "build \<Rightarrow> keydir_entry option \<Rightarrow> rebuild \<Rightarrow> (bc_error, unit) result \<times> rebuild" where
  "overwrite_prev B prev s =
     (case prev of None \<Rightarrow> (Inr (), s) | Some p \<Rightarrow> rebuild_stats (kd_fileid p) (overwrite B (kd_len p)) s)"

definition index_live :: "build \<Rightarrow> bytes \<Rightarrow> keydir_entry \<Rightarrow> rebuild \<Rightarrow> (bc_error, unit) result \<times> rebuild" where
  "index_live B k e s =
     try_op (rebuild_stats (kd_fileid e) (add_live B) s) (\<lambda>_ (kd, ss, fs).
     overwrite_prev B (map_of kd k) (AList.update k e kd, ss, fs))"

definition index_dead :: "build \<Rightarrow> nat \<Rightarrow> nat \<Rightarrow> bytes \<Rightarrow> rebuild \<Rightarrow> (bc_error, unit) result \<times> rebuild" where
  "index_dead B fileid len k s =
     try_op (rebuild_stats fileid (add_dead B len) s) (\<lambda>_ (kd, ss, fs).
     overwrite_prev B (map_of kd k) (AList.delete k kd, ss, fs))"

partial_function (option) hint_loop ::
    "'l deps \<Rightarrow> build \<Rightarrow> nat \<Rightarrow> log_iter \<Rightarrow> rebuild \<Rightarrow> ((bc_error, unit) result \<times> rebuild) option" where
  "hint_loop D B fileid it s =
     (case s of (kd, ss, fs) \<Rightarrow>
      case log_next (dec_hint D) B it fs of
        (Inl e, it, fs) \<Rightarrow> Some (Inl e, kd, ss, fs)
      | (Inr None, it, fs) \<Rightarrow> Some (Inr (), kd, ss, fs)
      | (Inr (Some (ix, h)), it, fs) \<Rightarrow>
          (case index_live B (h_key h) \<lparr>kd_fileid = fileid, kd_len = h_len h, kd_pos = h_pos h, kd_tstamp = h_tstamp h\<rparr>
                  (kd, ss, fs) of
             (Inl e, s) \<Rightarrow> Some (Inl e, s)
           | (Inr u, s) \<Rightarrow> hint_loop D B fileid it s))"

partial_function (option) data_loop ::
    "'l deps \<Rightarrow> build \<Rightarrow> nat \<Rightarrow> log_iter \<Rightarrow> rebuild \<Rightarrow> ((bc_error, unit) result \<times> rebuild) option" where
  "data_loop D B fileid it s =
     (case s of (kd, ss, fs) \<Rightarrow>
      case log_next (dec_data D) B it fs of
        (Inl e, it, fs) \<Rightarrow> Some (Inl e, kd, ss, fs)
      | (Inr None, it, fs) \<Rightarrow> Some (Inr (), kd, ss, fs)
      | (Inr (Some (ix, e)), it, fs) \<Rightarrow>
          (case (case d_value e of
                   None \<Rightarrow> index_dead B fileid (ix_len ix) (d_key e) (kd, ss, fs)
                 | Some v \<Rightarrow> index_live B (d_key e)
                     \<lparr>kd_fileid = fileid, kd_len = ix_len ix, kd_pos = ix_pos ix, kd_tstamp = d_tstamp e\<rparr> (kd, ss, fs)) of
             (Inl e, s) \<Rightarrow> Some (Inl e, s)
           | (Inr u, s) \<Rightarrow> data_loop D B fileid it s))"

declare hint_loop.simps [code] data_loop.simps [code]

text \<open>\<open>LogIterator::new(log::open(name)?)?\<close>.\<close>

definition open_iter :: "bytes \<Rightarrow> rebuild \<Rightarrow> (bc_error, log_iter) result \<times> rebuild" where
  "open_iter name = (\<lambda>(kd, ss, fs).
     let (r, fs) = try_op (open_read name fs) log_iter_new in (map_err BcIo r, kd, ss, fs))"

definition populate_keydir_with_hintfile ::
    "'l deps \<Rightarrow> build \<Rightarrow> nat \<Rightarrow> rebuild \<Rightarrow> ((bc_error, unit) result \<times> rebuild) option" where
  "populate_keydir_with_hintfile D B fileid s =
     (case open_iter (hintfile_name fileid) s of
        (Inl e, s) \<Rightarrow> Some (Inl e, s) | (Inr it, s) \<Rightarrow> hint_loop D B fileid it s)"

definition populate_keydir_with_datafile ::
    "'l deps \<Rightarrow> build \<Rightarrow> nat \<Rightarrow> rebuild \<Rightarrow> ((bc_error, unit) result \<times> rebuild) option" where
  "populate_keydir_with_datafile D B fileid s =
     (case open_iter (datafile_name fileid) s of
        (Inl e, s) \<Rightarrow> Some (Inl e, s) | (Inr it, s) \<Rightarrow> data_loop D B fileid it s)"

text \<open>The hint file, or the data file when there is no hint file.\<close>

definition populate_file ::
    "'l deps \<Rightarrow> build \<Rightarrow> nat \<Rightarrow> rebuild \<Rightarrow> ((bc_error, unit) result \<times> rebuild) option" where
  "populate_file D B fileid s =
     (case populate_keydir_with_hintfile D B fileid s of
        None \<Rightarrow> None
      | Some (Inl e, s) \<Rightarrow>
          if e = Err (BcIo NotFound) then populate_keydir_with_datafile D B fileid s else Some (Inl e, s)
      | Some (Inr u, s) \<Rightarrow> Some (Inr u, s))"

fun populate_files ::
    "'l deps \<Rightarrow> build \<Rightarrow> nat list \<Rightarrow> nat option \<Rightarrow> rebuild \<Rightarrow> ((bc_error, nat option) result \<times> rebuild) option" where
  "populate_files D B [] active s = Some (Inr active, s)"
| "populate_files D B (fileid # ids) active s =
     (let active = (case active of None \<Rightarrow> Some fileid | Some i \<Rightarrow> Some (if i < fileid then fileid else i)) in
      case populate_file D B fileid s of
        None \<Rightarrow> None
      | Some (Inl e, s) \<Rightarrow> Some (Inl e, s)
      | Some (Inr u, s) \<Rightarrow> populate_files D B ids active s)"

definition rebuild_storage ::
    "'l deps \<Rightarrow> build \<Rightarrow> fs \<Rightarrow> ((bc_error, nat) result \<times> rebuild) option" where
  "rebuild_storage D B fs =
     (case sorted_fileids fs of
        (Inl e, fs) \<Rightarrow> Some (map_err BcIo (Inl e), [], [], fs)
      | (Inr ids, fs) \<Rightarrow>
          map_option (\<lambda>(r, s). (and_then r (\<lambda>active.
              case active of None \<Rightarrow> Inr 0 | Some i \<Rightarrow> u64_add B i 1), s))
            (populate_files D B ids None ([], [], fs)))"

subsection \<open>Opening and closing\<close>

text \<open>
  The last call that may fail is the spawning of the thread for the background tasks; then
  the storage is dropped again.
\<close>

definition bitcask_open ::
    "'l deps \<Rightarrow> build \<Rightarrow> config \<Rightarrow> int option list \<Rightarrow> nat \<Rightarrow> fs \<Rightarrow> ((bc_error, 'l storage) result \<times> fs) option" where
  "bitcask_open D B c readings h fs =
     (case rebuild_storage D B fs of
        None \<Rightarrow> None
      | Some (Inl e, kd, ss, fs) \<Rightarrow> Some (Inl e, fs)
      | Some (Inr active, kd, ss, fs) \<Rightarrow>
          (case log_create (datafile_name active) fs of
             (Inl e, fs) \<Rightarrow> Some (Inl e, fs)
           | (Inr w, fs) \<Rightarrow>
               let st = \<lparr>keydir = kd, closed = False, conf = c, w_readers = lru_new D (readers_cache_size c),
                         w_log = w, w_stats = ss, active_fileid = active, written_bytes = 0,
                         pool = replicate (concurrency c) (lru_new D (readers_cache_size c)),
                         files = fs, clock = readings, hour = h\<rparr> in
               (case next_fault fs of
                  (Some (e, n), fs) \<Rightarrow> Some (Inl (Err (BcIo e)), files (writer_drop (st\<lparr>files := fs\<rparr>)))
                | (None, fs) \<Rightarrow> Some (Inr (st\<lparr>files := fs\<rparr>), fs))))"

text \<open>\<open>Drop for Bitcask\<close> closes the storage; the writer is dropped with the last handle.\<close>

definition bitcask_drop :: "'l storage \<Rightarrow> fs" where
  "bitcask_drop st = files (writer_drop (close_storage st))"

end
