(* ===== verification/CommandFacts.thy ===== *)
theory CommandFacts
  imports Command
begin

section \<open>What the command layer promises\<close>

text \<open>
  A frame parses to a command exactly when it is that command's own frame and its keys are
  UTF-8. Over an engine that keeps the promises of \<open>KeyValueStorage\<close> a command has the
  effect and the reply of the abstract map operations.
\<close>

subsection \<open>Parsing is the inverse of conversion\<close>

fun command_ok :: "command \<Rightarrow> bool" where
  "command_ok (Del keys) \<longleftrightarrow> keys \<noteq> [] \<and> list_all valid_utf8 keys"
| "command_ok (Get key) \<longleftrightarrow> valid_utf8 key"
| "command_ok (Set key value) \<longleftrightarrow> valid_utf8 key"

lemma utf8_try_from_Inr: "utf8_try_from v = Inr s \<longleftrightarrow> valid_utf8 v \<and> s = v"
  by (simp add: utf8_try_from_def from_utf8_Inr_iff)

lemma utf8_try_from_valid [simp]: "valid_utf8 v \<Longrightarrow> utf8_try_from v = Inr v"
  by (simp add: utf8_try_from_Inr)

lemma utf8_try_from_no_panic [simp]: "utf8_try_from v \<noteq> Inl Panic"
  by (simp add: utf8_try_from_def)

lemma parser_get_string_Some:
  "parser_get_string fs = (Inr (Some k), gs) \<longleftrightarrow> fs = BulkString k # gs \<and> valid_utf8 k"
  by (cases fs rule: parser_get_string.cases) (auto simp: res_simps utf8_try_from_Inr)

lemma parser_get_string_None: "parser_get_string fs = (Inr None, gs) \<longleftrightarrow> fs = [] \<and> gs = []"
  by (cases fs rule: parser_get_string.cases) (auto simp: res_simps)

lemma parser_get_string_no_panic [simp]: "fst (parser_get_string fs) \<noteq> Inl Panic"
  by (cases fs rule: parser_get_string.cases) (auto simp: res_simps)

lemma parser_get_bytes_Some:
  "parser_get_bytes fs = (Inr (Some v), gs) \<longleftrightarrow> fs = BulkString v # gs"
  by (cases fs rule: parser_get_bytes.cases) auto

lemma parser_get_bytes_no_panic [simp]: "fst (parser_get_bytes fs) \<noteq> Inl Panic"
  by (cases fs rule: parser_get_bytes.cases) auto

lemma ok_or_Inr [simp]: "ok_or x e = Inr y \<longleftrightarrow> x = Some y"
  by (cases x) (auto simp: ok_or_def)

lemma ok_or_no_panic [simp]: "ok_or x e \<noteq> Inl Panic"
  by (cases x) (auto simp: ok_or_def)

lemma del_keys_Inr:
  "del_keys fs acc = Inr ks \<longleftrightarrow> (\<exists>rest. fs = map BulkString rest \<and> list_all valid_utf8 rest \<and> ks = acc @ rest)"
proof (induction fs acc rule: del_keys.induct)
  case (1 fs acc)
  obtain r gs where g: "parser_get_string fs = (r, gs)" by fastforce
  consider (err) e where "r = Inl e" | (none) "r = Inr None" | (some) k where "r = Inr (Some k)"
    by (metis not_None_eq sumE)
  then show ?case
  proof cases
    case err
    then have "fs \<noteq> map BulkString rest \<or> \<not> list_all valid_utf8 rest" for rest
      using g by (cases rest) auto
    with err g show ?thesis by (auto simp: del_keys.simps[of fs acc])
  next
    case none
    with g have "fs = []" by (simp add: parser_get_string_None)
    with none g show ?thesis by (auto simp: del_keys.simps[of "[]" acc])
  next
    case some
    with g have fs: "fs = BulkString k # gs" "valid_utf8 k" by (simp_all add: parser_get_string_Some)
    have "del_keys fs acc = del_keys gs (acc @ [k])" using some g by (simp add: del_keys.simps[of fs acc])
    also have "(\<dots> = Inr ks) \<longleftrightarrow>
        (\<exists>rest. gs = map BulkString rest \<and> list_all valid_utf8 rest \<and> ks = (acc @ [k]) @ rest)"
      by (rule 1[OF g[symmetric] some refl])
    also have "\<dots> \<longleftrightarrow> (\<exists>rest. fs = map BulkString rest \<and> list_all valid_utf8 rest \<and> ks = acc @ rest)"
      using fs by (auto simp: Cons_eq_map_conv intro: exI[of _ "k # rest" for rest])
    finally show ?thesis .
  qed
qed

lemma del_keys_no_panic [simp]: "del_keys fs acc \<noteq> Inl Panic"
proof (induction fs acc rule: del_keys.induct)
  case (1 fs acc)
  obtain r gs where g: "parser_get_string fs = (r, gs)" by fastforce
  then have "r \<noteq> Inl Panic" using parser_get_string_no_panic[of fs] by simp
  with g 1[OF g[symmetric]] show ?case
    by (auto simp: del_keys.simps[of fs acc] split: sum.split option.split)
qed

lemma del_try_from_Inr:
  "del_try_from fs = Inr c \<longleftrightarrow> (\<exists>ks. c = Del ks \<and> fs = map BulkString ks \<and> command_ok c)"
proof -
  have "del_try_from fs = Inr c \<longleftrightarrow> (\<exists>ks. del_keys fs [] = Inr ks \<and> ks \<noteq> [] \<and> c = Del ks)"
    by (cases "del_keys fs []") (auto simp: del_try_from_def)
  also have "\<dots> \<longleftrightarrow> (\<exists>ks. c = Del ks \<and> fs = map BulkString ks \<and> command_ok c)"
    unfolding del_keys_Inr by auto
  finally show ?thesis .
qed

lemma get_try_from_Inr:
  "get_try_from fs = Inr c \<longleftrightarrow> (\<exists>k. c = Get k \<and> fs = [BulkString k] \<and> command_ok c)"
  by (cases "parser_get_string fs")
    (auto simp: get_try_from_def res_simps parser_get_string_Some parser_finish_def)

lemma set_try_from_Inr:
  "set_try_from fs = Inr c \<longleftrightarrow> (\<exists>k v. c = Set k v \<and> fs = [BulkString k, BulkString v] \<and> command_ok c)"
proof (cases "parser_get_string fs")
  case (Pair r gs)
  then show ?thesis
    by (cases "parser_get_bytes gs")
      (auto simp: set_try_from_def res_simps parser_get_string_Some parser_get_bytes_Some parser_finish_def)
qed

lemma command_try_from_iff: "command_try_from f = Inr c \<longleftrightarrow> f = frame_from c \<and> command_ok c"
proof (cases f)
  case (Array fs)
  have names: "ascii ''GET'' \<noteq> ascii ''DEL''" "ascii ''SET'' \<noteq> ascii ''DEL''" "ascii ''SET'' \<noteq> ascii ''GET''"
    by (simp_all add: ascii_def)
  obtain r gs where g: "parser_get_bytes fs = (r, gs)" by fastforce
  show ?thesis
  proof (cases "\<exists>b. r = Inr (Some b)")
    case True
    then obtain b where b: "r = Inr (Some b)" by blast
    with g have "fs = BulkString b # gs" by (simp add: parser_get_bytes_Some)
    with Array b g names show ?thesis
      by (cases c) (auto simp: command_try_from_def del_try_from_Inr get_try_from_Inr set_try_from_Inr)
  next
    case False
    then have "command_try_from f \<noteq> Inr c"
      using Array g by (cases r) (auto simp: command_try_from_def split: option.splits)
    moreover have "f \<noteq> frame_from c" using False Array g by (cases c) auto
    ultimately show ?thesis by simp
  qed
qed (cases c; simp add: command_try_from_def)+

lemma command_try_from_no_panic: "command_try_from f \<noteq> Inl Panic"
proof (cases f)
  case (Array fs)
  have "get_try_from gs \<noteq> Inl Panic" for gs
    using parser_get_string_no_panic[of gs]
    by (cases "parser_get_string gs") (auto simp: get_try_from_def res_simps)
  moreover have "set_try_from gs \<noteq> Inl Panic" for gs
  proof (cases "parser_get_string gs")
    case (Pair r hs)
    with parser_get_string_no_panic[of gs] parser_get_bytes_no_panic[of hs] show ?thesis
      by (cases "parser_get_bytes hs") (auto simp: set_try_from_def res_simps)
  qed
  moreover have "del_try_from gs \<noteq> Inl Panic" for gs
    by (auto simp: del_try_from_def res_simps)
  ultimately show ?thesis
    using Array parser_get_bytes_no_panic[of fs]
    by (cases "parser_get_bytes fs") (auto simp: command_try_from_def res_simps split: option.splits)
qed (simp_all add: command_try_from_def)

lemma frame_from_ok [simp]: "frame_ok (frame_from c)"
  by (cases c) (auto simp: list_all_iff)

lemma frame_from_flat [simp]: "flat (frame_from c)"
  by (cases c) (auto simp: list_all_iff)

subsection \<open>The abstract store\<close>

type_synonym store = "bytes \<rightharpoonup> bytes"

fun effect :: "command \<Rightarrow> store \<Rightarrow> store" where
  "effect (Del keys) m = m |` (- set keys)"
| "effect (Get key) m = m"
| "effect (Set key value) m = m(key \<mapsto> value)"

text \<open>The number of keys removed counts a repeated key once.\<close>

fun reply :: "command \<Rightarrow> store \<Rightarrow> frame" where
  "reply (Del keys) m = Integer (int (length (filter (\<lambda>k. m k \<noteq> None) (remdups keys))))"
| "reply (Get key) m = (case m key of Some v \<Rightarrow> BulkString v | None \<Rightarrow> Null)"
| "reply (Set key value) m = SimpleString (ascii ''OK'')"

text \<open>
  The promises of \<open>KeyValueStorage\<close>, for an engine whose state \<open>st\<close> stands for the map
  \<open>abs st\<close> as long as \<open>inv st\<close> holds.
\<close>

lemma length_filter_remdups: "length (filter P (remdups xs)) = card {x \<in> set xs. P x}"
proof -
  have "card (set (filter P (remdups xs))) = length (filter P (remdups xs))"
    by (rule distinct_card) simp
  moreover have "set (filter P (remdups xs)) = {x \<in> set xs. P x}" by auto
  ultimately show ?thesis by metis
qed

lemma count_removed:
  "length (filter P (remdups (k # ks))) =
   (if P k then 1 else 0) + length (filter (\<lambda>x. x \<noteq> k \<and> P x) (remdups ks))"
proof -
  have "{x \<in> set (k # ks). P x} = {x \<in> {k}. P x} \<union> {x \<in> set ks. x \<noteq> k \<and> P x}" by auto
  moreover have "card ({x \<in> {k}. P x} \<union> {x \<in> set ks. x \<noteq> k \<and> P x})
      = card {x \<in> {k}. P x} + card {x \<in> set ks. x \<noteq> k \<and> P x}"
    by (intro card_Un_disjoint) auto
  moreover have "{x \<in> {k}. P x} = (if P k then {k} else {})" by auto
  ultimately show ?thesis unfolding length_filter_remdups by simp
qed

lemma join_Inr [simp]: "join into r = Inr x \<longleftrightarrow> r = Inr x"
  by (cases "(into, r)" rule: join.cases) auto

lemma join_no_panic [simp]: "join into r \<noteq> Inl Panic"
  by (cases "(into, r)" rule: join.cases) auto

text \<open>A panic of the engine reaches the client as an error of the task, not as a panic.\<close>

lemma run_blocking_no_panic: "run_blocking B KV c st \<noteq> Some (Inl Panic, st')"
  by (cases c) (auto simp: res_simps split: prod.splits)

lemma join_Err: "join into r = Inl (Err e) \<Longrightarrow> (\<exists>t. e = Storage t) \<or> e = AsyncTask"
  by (cases "(into, r)" rule: join.cases) auto

lemma run_blocking_errors:
  "run_blocking B KV c st = Some (Inl (Err e), st') \<Longrightarrow> (\<exists>t. e = Storage t) \<or> e = AsyncTask"
  by (cases c) (auto simp: res_simps split: prod.splits dest: join_Err)

locale kv_store =
  fixes KV :: "('st, 'e) kv_ops" and inv :: "'st \<Rightarrow> bool" and abs :: "'st \<Rightarrow> store"
  assumes set_ok: "inv st \<Longrightarrow> kv_set KV k v st = (Inr u, st') \<Longrightarrow> inv st' \<and> abs st' = (abs st)(k \<mapsto> v)"
    and get_ok: "inv st \<Longrightarrow> kv_get KV k st = Some (Inr r, st') \<Longrightarrow> inv st' \<and> abs st' = abs st \<and> r = abs st k"
    and del_ok: "inv st \<Longrightarrow> kv_del KV k st = (Inr b, st') \<Longrightarrow>
        inv st' \<and> abs st' = (abs st)(k := None) \<and> b = (abs st k \<noteq> None)"
begin

lemma del_all_ok:
  "inv st \<Longrightarrow> del_all B KV keys c st = (Inr n, st') \<Longrightarrow> 0 \<le> c \<Longrightarrow> c + int (length keys) < 2 ^ 63 \<Longrightarrow>
   inv st' \<and> abs st' = effect (Del keys) (abs st) \<and>
   n = c + int (length (filter (\<lambda>k. abs st k \<noteq> None) (remdups keys)))"
proof (induction keys arbitrary: st c)
  case Nil
  then show ?case by (simp add: restrict_map_def)
next
  case (Cons k ks)
  from Cons.prems(2) obtain b s where d: "kv_del KV k st = (Inr b, s)"
    and rest: "(if b then case i64_arith B (c + 1) of Inl e \<Rightarrow> (Inl e, s) | Inr c' \<Rightarrow> del_all B KV ks c' s
                else del_all B KV ks c s) = (Inr n, st')"
    by (auto simp: try_op_Inr_iff)
  from del_ok[OF Cons.prems(1) d] have s: "inv s" "abs s = (abs st)(k := None)" "b = (abs st k \<noteq> None)"
    by simp_all
  let ?c = "if b then c + 1 else c"
  have "in_i64 (c + 1)" using Cons.prems by (simp add: in_i64_def)
  with rest have "del_all B KV ks ?c s = (Inr n, st')" by (simp split: if_splits)
  from Cons.IH[OF s(1) this] Cons.prems have
    IH: "inv st'" "abs st' = effect (Del ks) (abs s)"
      "n = ?c + int (length (filter (\<lambda>x. abs s x \<noteq> None) (remdups ks)))" by auto
  have same: "(\<lambda>x. abs s x \<noteq> None) = (\<lambda>x. x \<noteq> k \<and> abs st x \<noteq> None)"
    by (auto simp: s(2))
  have "n = c + int (length (filter (\<lambda>x. abs st x \<noteq> None) (remdups (k # ks))))"
    using IH(3) s(3) count_removed[of "\<lambda>x. abs st x \<noteq> None" k ks] unfolding same
    by (simp only: of_nat_add) (simp split: if_splits)
  moreover have "effect (Del ks) (abs s) = effect (Del (k # ks)) (abs st)"
    by (auto simp: s(2) restrict_map_def fun_eq_iff)
  ultimately show ?case using IH by simp
qed

lemma run_blocking_ok:
  assumes "inv st" and "run_blocking B KV c st = Some (Inr f, st')"
    and "\<And>keys. c = Del keys \<Longrightarrow> length keys < 2 ^ 63"
  shows "inv st' \<and> abs st' = effect c (abs st) \<and> f = reply c (abs st)"
proof (cases c)
  case (Del keys)
  with assms(2) obtain n where n: "del_all B KV keys 0 st = (Inr n, st')" "f = Integer n"
    by (cases "del_all B KV keys 0 st") (auto simp: res_simps join_Inr)
  from del_all_ok[OF assms(1) n(1)] assms(3)[OF Del] n(2) show ?thesis by (simp add: Del)
next
  case (Get key)
  with assms(2) obtain v where v: "kv_get KV key st = Some (Inr v, st')"
    "f = (case v of Some val \<Rightarrow> BulkString val | None \<Rightarrow> Null)"
    by (auto simp: res_simps join_Inr)
  from get_ok[OF assms(1) v(1)] v(2) show ?thesis by (simp add: Get)
next
  case (Set key val)
  with assms(2) obtain u where u: "kv_set KV key val st = (Inr u, st')" "f = SimpleString (ascii ''OK'')"
    by (cases "kv_set KV key val st") (auto simp: res_simps join_Inr)
  from set_ok[OF assms(1) u(1)] u(2) show ?thesis by (simp add: Set)
qed

end

subsection \<open>Engines that do not fail\<close>

text \<open>
  \<open>able n st\<close>: the engine carries out the next \<open>n\<close> operations, as long as their keys and values have
  sizes it takes, \<open>room k v\<close> (for a delete \<open>v\<close> is \<open>None\<close>).
\<close>

fun command_ops :: "command \<Rightarrow> nat" where
  "command_ops (Del keys) = length keys"
| "command_ops c = 1"

fun command_room :: "(bytes \<Rightarrow> bytes option \<Rightarrow> bool) \<Rightarrow> command \<Rightarrow> bool" where
  "command_room room (Del keys) = list_all (\<lambda>k. room k None) keys"
| "command_room room (Get key) = True"
| "command_room room (Set key val) = room key (Some val)"

locale reliable_store = kv_store KV inv abs
  for KV :: "('st, 'e) kv_ops" and inv abs +
  fixes able :: "nat \<Rightarrow> 'st \<Rightarrow> bool" and room :: "bytes \<Rightarrow> bytes option \<Rightarrow> bool"
  assumes able_inv: "able n st \<Longrightarrow> inv st"
    and able_set: "able (Suc n) st \<Longrightarrow> room k (Some v) \<Longrightarrow> \<exists>u st'. kv_set KV k v st = (Inr u, st') \<and> able n st'"
    and able_get: "able (Suc n) st \<Longrightarrow> \<exists>v st'. kv_get KV k st = Some (Inr v, st') \<and> able n st'"
    and able_del: "able (Suc n) st \<Longrightarrow> room k None \<Longrightarrow> \<exists>b st'. kv_del KV k st = (Inr b, st') \<and> able n st'"
begin

lemma del_all_succeeds:
  "able (length keys + n) st \<Longrightarrow> list_all (\<lambda>k. room k None) keys \<Longrightarrow> 0 \<le> c \<Longrightarrow> c + int (length keys) < 2 ^ 63 \<Longrightarrow>
   \<exists>m st'. del_all B KV keys c st = (Inr m, st') \<and> able n st'"
proof (induction keys arbitrary: st c)
  case (Cons k ks)
  from able_del[of "length ks + n" st k] Cons.prems(1,2) obtain b s where
    b: "kv_del KV k st = (Inr b, s)" "able (length ks + n) s" by auto
  have "in_i64 (c + 1)" using Cons.prems(3,4) by (simp add: in_i64_def)
  with b Cons.IH[OF b(2), of c] Cons.IH[OF b(2), of "c + 1"] Cons.prems show ?case by (cases b) simp_all
qed simp

lemma run_blocking_succeeds:
  assumes "able (command_ops c + n) st" and "command_room room c" and "\<And>keys. c = Del keys \<Longrightarrow> length keys < 2 ^ 63"
  shows "\<exists>f st'. run_blocking B KV c st = Some (Inr f, st') \<and> able n st'"
proof (cases c)
  case (Del keys)
  with assms(1,2) del_all_succeeds[of keys n st 0 B] assms(3)[OF Del] obtain m st' where
    "del_all B KV keys 0 st = (Inr m, st')" "able n st'" by auto
  with Del show ?thesis by simp
next
  case (Get key)
  with assms(1) able_get[of n st key] show ?thesis by auto
next
  case (Set key val)
  with assms(1,2) able_set[of n st key val] show ?thesis by auto
qed

end

end
