(* ===== verification/StorageInv.thy ===== *)
theory StorageInv
  imports Bitcask CommandFacts
begin

section \<open>The invariant of an open storage\<close>

text \<open>
  What the keydir, the files, the writer and the cached readers of an open storage promise each
  other, and the store the storage stands for. The lemmas show what the log operations change.
\<close>

subsection \<open>Entries on disk\<close>

definition located :: "'l deps \<Rightarrow> fs \<Rightarrow> keydir_entry \<Rightarrow> data_entry \<Rightarrow> bool" where
  "located D fs e x \<longleftrightarrow>
     (\<exists>i. map_of (dir fs) (datafile_name (kd_fileid e)) = Some i \<and> entry_ok x \<and>
        kd_len e = length (enc_data D x) \<and> kd_pos e + kd_len e \<le> length (idata fs i) \<and>
        kd_pos e + kd_len e < 2 ^ 63 \<and>
        sub_slice (idata fs i) (kd_pos e) (kd_pos e + kd_len e) = enc_data D x)"

text \<open>The value at a location, and the store that the keydir and the files make.\<close>

definition stored :: "'l deps \<Rightarrow> fs \<Rightarrow> keydir_entry \<Rightarrow> bytes option" where
  "stored D fs e =
     (case map_of (dir fs) (datafile_name (kd_fileid e)) of
        None \<Rightarrow> None
      | Some i \<Rightarrow>
          (case dec_data D (sub_slice (idata fs i) (kd_pos e) (kd_pos e + kd_len e)) of
             Inl err \<Rightarrow> None | Inr (x, n) \<Rightarrow> d_value x))"

definition abs_store :: "'l deps \<Rightarrow> 'l storage \<Rightarrow> store" where
  "abs_store D st k = (case map_of (keydir st) k of None \<Rightarrow> None | Some e \<Rightarrow> stored D (files st) e)"

subsection \<open>Readers\<close>

text \<open>
  A cached reader of a file maps a part of it that ends where an entry ends, and it is the
  file of that name as long as there is one.
\<close>

definition reader_ok :: "keydir \<Rightarrow> fs \<Rightarrow> nat \<Rightarrow> log_reader \<Rightarrow> bool" where
  "reader_ok kd fs fileid rd \<longleftrightarrow>
     rd_file rd < inext fs \<and> mmap_len rd \<le> length (idata fs (rd_file rd)) \<and>
     (\<forall>i. map_of (dir fs) (datafile_name fileid) = Some i \<longrightarrow> rd_file rd = i) \<and>
     (\<forall>(k, e) \<in> set kd. kd_fileid e = fileid \<longrightarrow> kd_pos e < mmap_len rd \<longrightarrow> kd_pos e + kd_len e \<le> mmap_len rd)"

definition cache_ok :: "'l deps \<Rightarrow> keydir \<Rightarrow> fs \<Rightarrow> nat \<Rightarrow> 'l \<Rightarrow> bool" where
  "cache_ok D kd fs active l \<longleftrightarrow>
     (\<forall>fileid rd. lru_get D fileid l = Some rd \<longrightarrow> fileid \<le> active \<and> reader_ok kd fs fileid rd)"

subsection \<open>The invariant\<close>

definition keydir_ok :: "'l deps \<Rightarrow> keydir \<Rightarrow> fs \<Rightarrow> nat \<Rightarrow> bool" where
  "keydir_ok D kd fs active \<longleftrightarrow>
     distinct (map fst kd) \<and>
     (\<forall>(k, e) \<in> set kd. kd_fileid e \<le> active \<and>
        (\<exists>x. located D fs e x \<and> d_key x = k \<and> d_value x \<noteq> None))"

text \<open>
  The position of a writer is where the next entry will be: behind the file and behind what is
  still buffered, since a flush that failed leaves the rest of the entry in the buffer.
\<close>

definition pos_ok :: "log_writer \<Rightarrow> fs \<Rightarrow> bool" where
  "pos_ok w fs \<longleftrightarrow> bw_pos w = (length (idata fs (bw_file w)) + length (bw_buf w)) mod 2 ^ 64"

definition writer_ok :: "log_writer \<Rightarrow> fs \<Rightarrow> nat \<Rightarrow> bool" where
  "writer_ok w fs active \<longleftrightarrow>
     map_of (dir fs) (datafile_name active) = Some (bw_file w) \<and>
     pos_ok w fs"

definition storage_inv :: "'l deps \<Rightarrow> 'l storage \<Rightarrow> bool" where
  "storage_inv D st \<longleftrightarrow>
     fs_ok (files st) \<and>
     keydir_ok D (keydir st) (files st) (active_fileid st) \<and>
     writer_ok (w_log st) (files st) (active_fileid st) \<and>
     (\<forall>l \<in> set (w_readers st # pool st). cache_ok D (keydir st) (files st) (active_fileid st) l) \<and>
     active_fileid st < 2 ^ 63 + inext (files st) \<and> (\<forall>t. Some t \<in> set (clock st) \<longrightarrow> in_i64 t)"

subsection \<open>Files that only grow\<close>

definition grows :: "fs \<Rightarrow> fs \<Rightarrow> bool" where
  "grows fs fs' \<longleftrightarrow>
     (\<forall>name i. map_of (dir fs) name = Some i \<longrightarrow> map_of (dir fs') name = Some i) \<and>
     inext fs \<le> inext fs' \<and> (\<forall>i < inext fs. \<exists>z. idata fs' i = idata fs i @ z)"

lemma grows_refl [simp]: "grows fs fs"
  by (simp add: grows_def)

lemma grows_trans:
  assumes "grows a b" and "grows b c"
  shows "grows a c"
  unfolding grows_def
proof (intro conjI allI impI)
  fix i assume i: "i < inext a"
  then have "i < inext b" using assms(1) by (simp add: grows_def)
  from assms(1) i obtain y where "idata b i = idata a i @ y" unfolding grows_def by blast
  moreover from assms(2) \<open>i < inext b\<close> obtain z where "idata c i = idata b i @ z" unfolding grows_def by blast
  ultimately show "\<exists>z. idata c i = idata a i @ z" by simp
qed (use assms in \<open>auto simp: grows_def\<close>)

lemma same_files_grows: "same_files fs fs' \<Longrightarrow> grows fs fs'"
  by (auto simp: same_files_def grows_def)

lemma fs_ok_inode: "fs_ok fs \<Longrightarrow> map_of (dir fs) name = Some i \<Longrightarrow> i < inext fs"
  by (force simp: fs_ok_def dest: map_of_SomeD)

lemma sub_slice_prefix: "j \<le> length b \<Longrightarrow> b' = b @ z \<Longrightarrow> sub_slice b' i j = sub_slice b i j"
  by (simp add: sub_slice_append1)

lemma located_grows:
  assumes "fs_ok fs" and "grows fs fs'" and "located D fs e x"
  shows "located D fs' e x"
proof -
  from assms(3) obtain i where i: "map_of (dir fs) (datafile_name (kd_fileid e)) = Some i"
    and x: "entry_ok x" "kd_len e = length (enc_data D x)" "kd_pos e + kd_len e \<le> length (idata fs i)"
      "kd_pos e + kd_len e < 2 ^ 63" "sub_slice (idata fs i) (kd_pos e) (kd_pos e + kd_len e) = enc_data D x"
    by (auto simp: located_def)
  obtain z where z: "idata fs' i = idata fs i @ z"
    using assms(2) fs_ok_inode[OF assms(1) i] by (auto simp: grows_def)
  have "map_of (dir fs') (datafile_name (kd_fileid e)) = Some i"
    using assms(2) i by (simp add: grows_def)
  moreover have "sub_slice (idata fs' i) (kd_pos e) (kd_pos e + kd_len e) = enc_data D x"
    using sub_slice_prefix[OF x(3) z] x(5) by simp
  moreover have "kd_pos e + kd_len e \<le> length (idata fs' i)" using x(3) z by simp
  ultimately show ?thesis using x by (auto simp: located_def)
qed

lemma stored_located:
  assumes "deps_laws D" and "located D fs e x"
  shows "stored D fs e = d_value x"
  using assms deps_laws.dec_enc_data[OF assms(1), of x "[]"] by (auto simp: located_def stored_def)

lemma located_unique:
  assumes "deps_laws D" and "located D fs e x" and "located D fs e y"
  shows "x = y"
proof -
  from assms(2,3) have "enc_data D x = enc_data D y" "entry_ok x" "entry_ok y"
    unfolding located_def by auto
  with deps_laws.dec_enc_data[OF assms(1), of x "[]"] deps_laws.dec_enc_data[OF assms(1), of y "[]"]
  show ?thesis by simp
qed

text \<open>Names that are new do not change which inode a cached reader must have.\<close>

definition old_names :: "nat \<Rightarrow> fs \<Rightarrow> fs \<Rightarrow> bool" where
  "old_names active fs fs' \<longleftrightarrow>
     (\<forall>fileid \<le> active. map_of (dir fs') (datafile_name fileid) \<noteq> None \<longrightarrow>
        map_of (dir fs') (datafile_name fileid) = map_of (dir fs) (datafile_name fileid))"

lemma reader_ok_grows:
  assumes "reader_ok kd fs fileid rd" and "grows fs fs'" and "old_names active fs fs'" and "fileid \<le> active"
  shows "reader_ok kd fs' fileid rd"
proof -
  from assms(1) have rd: "rd_file rd < inext fs" "mmap_len rd \<le> length (idata fs (rd_file rd))"
    by (simp_all add: reader_ok_def)
  with assms(2) obtain z where "idata fs' (rd_file rd) = idata fs (rd_file rd) @ z"
    by (auto simp: grows_def)
  with rd have "mmap_len rd \<le> length (idata fs' (rd_file rd))" by simp
  moreover have "rd_file rd < inext fs'" using rd assms(2) by (simp add: grows_def)
  moreover have "map_of (dir fs') (datafile_name fileid) = Some i \<longrightarrow> rd_file rd = i" for i
    using assms by (auto simp: reader_ok_def old_names_def)
  ultimately show ?thesis using assms(1) by (auto simp: reader_ok_def)
qed

lemma cache_ok_grows:
  assumes "cache_ok D kd fs active l" and "grows fs fs'" and "old_names active fs fs'" and "active \<le> active'"
  shows "cache_ok D kd fs' active' l"
  using assms(1,4) reader_ok_grows[OF _ assms(2,3)] unfolding cache_ok_def by (meson order_trans)

lemma keydir_ok_grows:
  assumes "keydir_ok D kd fs active" and "fs_ok fs" and "grows fs fs'" and "active \<le> active'"
  shows "keydir_ok D kd fs' active'"
  using assms located_grows[OF assms(2,3)] unfolding keydir_ok_def by (fastforce intro: order_trans)

lemma old_names_same: "dir fs' = dir fs \<Longrightarrow> old_names active fs fs'"
  by (simp add: old_names_def)

lemma old_names_trans: "old_names n a b \<Longrightarrow> old_names n b c \<Longrightarrow> old_names n a c"
  by (auto simp: old_names_def)

end
