(* ===== verification/StorageOps.thy ===== *)
theory StorageOps
  imports StorageInv
begin

section \<open>The writer keeps the invariant\<close>

text \<open>
  Appending an entry, switching to a new active file, and writing an entry, both when they
  succeed and when they fail with an error.
\<close>

subsection \<open>Appending\<close>

lemma try_op_InrE:
  assumes "try_op m k = (Inr y, t)"
  obtains x s where "m = (Inr x, s)" and "k x s = (Inr y, t)"
  using assms by (cases "(m, k)" rule: try_op.cases) auto

lemma try_opE:
  assumes "try_op m k = (r, t)"
  obtains e where "m = (Inl e, t)" and "r = Inl e"
    | x s where "m = (Inr x, s)" and "k x s = (r, t)"
  using assms by (cases "(m, k)" rule: try_op.cases) auto

lemma assign_Inr: "assign r f s = (Inr u, s') \<longleftrightarrow> (\<exists>n. r = Inr n \<and> s' = f n s)"
  by (cases "(r, f, s)" rule: assign.cases) auto

lemma u64_add_Inr: "u64_add B x y = Inr z \<Longrightarrow> z = (x + y) mod 2 ^ 64"
proof -
  assume z: "u64_add B x y = Inr z"
  show ?thesis
  proof (cases "in_u64 (int x + int y)")
    case True
    with z show ?thesis by (simp add: u64_add_def in_u64_def)
  next
    case False
    with z have "int z = int (x + y) mod 2 ^ 64" by (simp add: u64_add_def split: if_splits)
    then have "int z = int ((x + y) mod 2 ^ 64)" by (simp add: zmod_int)
    then show ?thesis by (simp only: of_nat_eq_iff)
  qed
qed

lemma u64_add_not_Err [simp]: "u64_add B x y \<noteq> Inl (Err e)"
  by (simp add: u64_add_def)

lemma u64_sub_not_Err [simp]: "u64_sub B x y \<noteq> Inl (Err e)"
  by (simp add: u64_sub_def)

lemma assign_Inl: "assign r f s = (Inl e, s') \<longleftrightarrow> r = Inl e \<and> s' = s"
  by (cases "(r, f, s)" rule: assign.cases) auto

text \<open>\<open>grown fs i d\<close> is the files with \<open>d\<close> behind the bytes of inode \<open>i\<close>.\<close>

definition grown :: "fs \<Rightarrow> nat \<Rightarrow> bytes \<Rightarrow> fs \<Rightarrow> bool" where
  "grown fs i d fs' \<longleftrightarrow> dir fs' = dir fs \<and> inext fs' = inext fs \<and> idata fs' = (idata fs)(i := idata fs i @ d)"

lemma grown_grows: "grown fs i d fs' \<Longrightarrow> grows fs fs'"
  by (auto simp: grown_def grows_def)

lemma grown_fs_ok: "grown fs i d fs' \<Longrightarrow> fs_ok fs' = fs_ok fs"
  by (simp add: grown_def fs_ok_def)

lemma bw_flush_cases:
  assumes "bw_flush w fs = (r, w', fs')"
  obtains n where "n \<le> length (bw_buf w)" and "w' = w\<lparr>bw_buf := drop n (bw_buf w)\<rparr>"
    and "grown fs (bw_file w) (take n (bw_buf w)) fs'"
    and "\<And>u. r = Inr u \<Longrightarrow> n = length (bw_buf w)"
    and "\<And>u. r = Inr u \<Longrightarrow> bw_buf w \<noteq> [] \<Longrightarrow> length (idata fs (bw_file w)) + length (bw_buf w) < 2 ^ 63"
proof -
  obtain r' n fs1 where wf: "write_file (bw_file w) (bw_buf w) fs = (r', n, fs1)" by (metis prod_cases3)
  with assms have eq: "r' = r" "w' = w\<lparr>bw_buf := drop n (bw_buf w)\<rparr>" "fs' = fs1"
    by (simp_all add: bw_flush_def)
  from write_file_cases[OF wf] eq show thesis by (intro that[of n]) (auto simp: grown_def)
qed

lemma bw_flush_pos_ok:
  assumes "bw_flush w fs = (r, w', fs')" and "pos_ok w fs"
  shows "pos_ok w' fs'" and "bw_file w' = bw_file w" and "bw_pos w' = bw_pos w"
  using assms by (auto simp: pos_ok_def grown_def elim!: bw_flush_cases)

lemma bw_write_all_Inr:
  assumes "bw_write_all B d w = (Inr u, w')" and "pos_ok w fs"
  shows "pos_ok w' fs" and "bw_file w' = bw_file w" and "bw_buf w' = bw_buf w @ d"
    and "bw_pos w' = (bw_pos w + length d) mod 2 ^ 64"
proof -
  from assms(1) obtain p where p: "u64_add B (bw_pos w) (length d) = (Inr p :: (bc_error, nat) result)"
    and w': "w' = w\<lparr>bw_buf := bw_buf w @ d, bw_pos := p\<rparr>" by (auto simp: bw_write_all_def assign_Inr)
  from w' u64_add_Inr[OF p] show "bw_file w' = bw_file w" "bw_buf w' = bw_buf w @ d"
    "bw_pos w' = (bw_pos w + length d) mod 2 ^ 64" by simp_all
  with assms(2) show "pos_ok w' fs" by (simp add: pos_ok_def mod_add_left_eq add.assoc)
qed

text \<open>An append, whether it fails or not, leaves a writer whose position is right.\<close>

lemma log_append_keeps:
  assumes "log_append B d w fs = (r, w', fs')" and "r \<noteq> Inl Panic" and "pos_ok w fs"
  shows "\<exists>z. grown fs (bw_file w) z fs'" and "pos_ok w' fs'" and "bw_file w' = bw_file w"
proof -
  obtain q w1 where w1: "bw_write_all B d w = (q, w1)" by fastforce
  from assms(1,2) w1 obtain u where q: "q = Inr u"
    by (cases q) (auto simp: log_append_def bw_write_all_def Let_def assign_Inl u64_add_def split: if_splits)
  note a = bw_write_all_Inr[OF w1[unfolded q] assms(3)]
  obtain r2 w2 fs2 where fl: "bw_flush w1 fs = (r2, w2, fs2)" by (metis prod_cases3)
  with assms(1) w1 q have "w' = w2" "fs' = fs2" by (auto simp: log_append_def Let_def split: sum.splits)
  with bw_flush_pos_ok[OF fl a(1)] a(2) show "pos_ok w' fs'" "bw_file w' = bw_file w" by simp_all
  from bw_flush_cases[OF fl] a(2) \<open>fs' = fs2\<close> show "\<exists>z. grown fs (bw_file w) z fs'" by metis
qed

lemma log_append_Inr:
  assumes "log_append B d w fs = (Inr ix, w', fs')" and "d \<noteq> []" and "pos_ok w fs"
  shows "grown fs (bw_file w) (bw_buf w @ d) fs'" and "bw_buf w' = []"
    and "ix = \<lparr>ix_len = length d, ix_pos = length (idata fs (bw_file w)) + length (bw_buf w)\<rparr>"
    and "length (idata fs (bw_file w)) + length (bw_buf w) + length d < 2 ^ 63"
proof -
  from assms(1) obtain u w1 where w1: "bw_write_all B d w = (Inr u, w1)"
    by (cases "bw_write_all B d w"; cases "fst (bw_write_all B d w)") (auto simp: log_append_def)
  note a = bw_write_all_Inr[OF w1 assms(3)]
  from assms(1) w1 obtain v w2 fs2 where fl: "bw_flush w1 fs = (Inr v, w2, fs2)"
    by (cases "bw_flush w1 fs"; cases "fst (bw_flush w1 fs)") (auto simp: log_append_def split: prod.splits)
  have f: "w2 = w1\<lparr>bw_buf := []\<rparr>" "grown fs (bw_file w) (bw_buf w @ d) fs2"
    "length (idata fs (bw_file w)) + length (bw_buf w) + length d < 2 ^ 63"
    using assms(2) a(2,3) by (auto intro: bw_flush_cases[OF fl])
  have p: "bw_pos w = length (idata fs (bw_file w)) + length (bw_buf w)" using assms(3) f(3) by (simp add: pos_ok_def)
  have "bw_pos w2 = bw_pos w + length d" using f(1,3) a(4) p by simp
  with assms(1) w1 fl have "w' = w2" "fs' = fs2" "ix = \<lparr>ix_len = length d, ix_pos = bw_pos w\<rparr>"
    by (simp_all add: log_append_def Let_def)
  with f p show "grown fs (bw_file w) (bw_buf w @ d) fs'" "bw_buf w' = []"
    "ix = \<lparr>ix_len = length d, ix_pos = length (idata fs (bw_file w)) + length (bw_buf w)\<rparr>"
    "length (idata fs (bw_file w)) + length (bw_buf w) + length d < 2 ^ 63" by simp_all
qed

lemma grown_located:
  assumes "grown fs i (b @ enc_data D x) fs'" and "map_of (dir fs) (datafile_name f) = Some i" and "entry_ok x"
    and "length (idata fs i) + length b + length (enc_data D x) < 2 ^ 63"
  shows "located D fs' \<lparr>kd_fileid = f, kd_len = length (enc_data D x), kd_pos = length (idata fs i) + length b, kd_tstamp = t\<rparr> x"
proof -
  let ?p = "length (idata fs i) + length b"
  have "sub_slice (idata fs i @ b @ enc_data D x) ?p (?p + length (enc_data D x)) = enc_data D x"
    by (simp add: sub_slice_def)
  with assms show ?thesis by (auto simp: located_def grown_def)
qed

subsection \<open>A new active file\<close>

lemma log_create_Inr:
  assumes "log_create name fs = (Inr w, fs')" and "fs_ok fs"
  shows "w = \<lparr>bw_pos = 0, bw_file = inext fs, bw_buf = []\<rparr>" and "grows fs fs'" and "fs_ok fs'"
    and "dir fs' = (name, inext fs) # dir fs" and "idata fs' (inext fs) = []" and "inext fs' = Suc (inext fs)"
    and "inext fs < 2 ^ 63" and "map_of (dir fs) name = None" and "\<And>j. j < inext fs \<Longrightarrow> idata fs' j = idata fs j"
proof -
  from assms(1) obtain r where "try_op (create_new name fs) log_writer_new = (r, fs')" "map_err BcIo r = Inr w"
    by (auto simp: log_create_def split: prod.splits)
  then obtain i fs1 where c: "create_new name fs = (Inr i, fs1)" and n: "log_writer_new i fs1 = (Inr w, fs')"
    by (auto elim: try_op_InrE)
  note cr = create_new_Inr[OF c]
  from n obtain l where l: "stream_len i fs1 = (Inr l, fs')"
    and w: "w = \<lparr>bw_pos = l, bw_file = i, bw_buf = []\<rparr>"
    by (auto simp: log_writer_new_def elim: try_op_InrE)
  have same: "same_files fs1 fs'" using stream_len_same[OF l] .
  have "l = 0" using stream_len_Inr[OF l] cr by simp
  with w cr show "w = \<lparr>bw_pos = 0, bw_file = inext fs, bw_buf = []\<rparr>" by simp
  show d: "dir fs' = (name, inext fs) # dir fs" "idata fs' (inext fs) = []" "inext fs' = Suc (inext fs)"
    "inext fs < 2 ^ 63" "map_of (dir fs) name = None"
    using same cr by (simp_all add: same_files_def)
  show "idata fs' j = idata fs j" if "j < inext fs" for j
    using same cr that by (simp add: same_files_def)
  then show "grows fs fs'" using d by (auto simp: grows_def)
  from assms(2) d(1,3,5) show "fs_ok fs'"
    by (force simp: fs_ok_def map_of_eq_None_iff)
qed

lemma bw_drop_grown: "\<exists>z. grown fs (bw_file w) z (bw_drop w fs)"
proof -
  obtain r w' fs' where "bw_flush w fs = (r, w', fs')" by (metis prod_cases3)
  then show ?thesis by (auto simp: bw_drop_def elim!: bw_flush_cases)
qed

lemma bw_drop_grows: "grows fs (bw_drop w fs)" "fs_ok (bw_drop w fs) = fs_ok fs" "dir (bw_drop w fs) = dir fs"
    "inext (bw_drop w fs) = inext fs" "i \<noteq> bw_file w \<Longrightarrow> idata (bw_drop w fs) i = idata fs i"
  using bw_drop_grown[of fs w] by (auto simp: grown_grows grown_fs_ok) (auto simp: grown_def)

lemma new_active_datafile_Inr:
  assumes "new_active_datafile n st = (Inr u, st')"
  obtains fs w where "log_create (datafile_name n) (files st) = (Inr w, fs)"
    and "st' = st\<lparr>active_fileid := n, w_log := w, files := bw_drop (w_log st) fs, written_bytes := 0\<rparr>"
  using assms by (auto simp: new_active_datafile_def split: prod.splits sum.splits)

lemma old_names_create:
  assumes "dir fs' = (datafile_name n, i) # dir fs" and "active < n"
  shows "old_names active fs fs'"
  using assms by (auto simp: old_names_def)

text \<open>The parts of the state that an operation of the writer does not touch.\<close>

definition same_rest :: "'l storage \<Rightarrow> 'l storage \<Rightarrow> bool" where
  "same_rest st st' \<longleftrightarrow>
     closed st' = closed st \<and> conf st' = conf st \<and> w_readers st' = w_readers st \<and> pool st' = pool st"

text \<open>\<open>ready\<close>: what a step of the writer needs, and \<open>writer_step\<close> what it leaves behind.\<close>

definition ready :: "'l storage \<Rightarrow> bool" where
  "ready st \<longleftrightarrow> fs_ok (files st) \<and> writer_ok (w_log st) (files st) (active_fileid st) \<and>
     active_fileid st < 2 ^ 63 + inext (files st)"

definition writer_step :: "'l storage \<Rightarrow> 'l storage \<Rightarrow> bool" where
  "writer_step st st' \<longleftrightarrow>
     same_rest st st' \<and> keydir st' = keydir st \<and> clock st' = clock st \<and>
     grows (files st) (files st') \<and> old_names (active_fileid st) (files st) (files st') \<and>
     active_fileid st \<le> active_fileid st' \<and> ready st'"

lemma writer_step_ready: "writer_step st st' \<Longrightarrow> ready st'"
  by (simp add: writer_step_def)

lemma writer_step_trans:
  assumes "writer_step a b" and "writer_step b c"
  shows "writer_step a c"
proof -
  have "old_names (active_fileid a) (files b) (files c)"
    using assms by (auto simp: writer_step_def old_names_def)
  with assms show ?thesis
    by (auto simp: writer_step_def same_rest_def intro: grows_trans old_names_trans)
qed

lemma writer_ok_same: "same_files fs fs' \<Longrightarrow> writer_ok w fs' active = writer_ok w fs active"
  by (simp add: writer_ok_def pos_ok_def same_files_def)

lemma writer_step_fields:
  assumes "ready st" and "keydir st' = keydir st" and "same_rest st st'" and "clock st' = clock st"
    and "active_fileid st' = active_fileid st" and "w_log st' = w_log st" and "same_files (files st) (files st')"
  shows "writer_step st st'"
  using assms same_files_grows[OF assms(7)] fs_ok_same[OF assms(7)] writer_ok_same[OF assms(7)]
  by (auto simp: writer_step_def ready_def same_files_def intro: old_names_same)

lemma writer_step_refl: "ready st \<Longrightarrow> writer_step st st"
  by (rule writer_step_fields) (simp_all add: same_rest_def)

lemma ready_inode: "ready st \<Longrightarrow> bw_file (w_log st) < inext (files st)"
  by (auto simp: ready_def writer_ok_def intro: fs_ok_inode)

lemma new_active_datafile_step:
  assumes "new_active_datafile n st = (Inr u, st')" and "fs_ok (files st)" and "bw_file (w_log st) < inext (files st)"
    and "active_fileid st < n" and "n \<le> 2 ^ 63 + inext (files st)"
  shows "writer_step st st'" and "active_fileid st' = n" and "inext (files st) < 2 ^ 63"
proof -
  from new_active_datafile_Inr[OF assms(1)] obtain fs w where
    cr: "log_create (datafile_name n) (files st) = (Inr w, fs)"
    and st': "st' = st\<lparr>active_fileid := n, w_log := w, files := bw_drop (w_log st) fs, written_bytes := 0\<rparr>" .
  note c = log_create_Inr[OF cr assms(2)]
  let ?fs = "bw_drop (w_log st) fs"
  have "idata ?fs (inext (files st)) = []" using c(5) assms(3) bw_drop_grows(5)[of "inext (files st)" "w_log st" fs] by simp
  then have "writer_ok w ?fs n" using c(1,4) by (simp add: writer_ok_def pos_ok_def bw_drop_grows)
  moreover have "old_names (active_fileid st) (files st) ?fs"
    using old_names_create[of ?fs n] c(4) assms(4) by (simp add: bw_drop_grows)
  moreover have "grows (files st) ?fs" using c(2) bw_drop_grows(1) grows_trans by blast
  ultimately show "writer_step st st'"
    using st' c(3,6) assms(4,5) by (simp add: writer_step_def ready_def same_rest_def bw_drop_grows)
  show "active_fileid st' = n" "inext (files st) < 2 ^ 63" using st' c(7) by simp_all
qed

lemma log_create_limit: "log_create name fs = (Inr w, fs') \<Longrightarrow> inext fs < 2 ^ 63"
  by (auto simp: log_create_def split: prod.splits elim!: try_op_InrE dest: create_new_Inr)

lemma Suc_mod_neq:
  assumes "1 < (m :: nat)"
  shows "Suc a mod m \<noteq> a"
proof
  assume eq: "Suc a mod m = a"
  then have "a < m" using assms mod_less_divisor[of m "Suc a"] by linarith
  then show False using eq assms by (cases "Suc a = m") auto
qed

lemma next_active_datafile_step:
  assumes "next_active_datafile B st = (r, st')" and "ready st" and "r \<noteq> Inl Panic"
  shows "r = Inr u \<Longrightarrow> writer_step st st'" and "r = Inl (Err e) \<Longrightarrow> active_fileid st' \<noteq> active_fileid st"
proof -
  let ?a = "active_fileid st"
  from assms(1,3) obtain n where n: "u64_add B ?a 1 = (Inr n :: (bc_error, nat) result)"
    and new: "new_active_datafile n st = (r, st')"
    by (auto simp: next_active_datafile_def split: sum.splits) (metis fault.exhaust u64_add_not_Err)
  have n': "n = Suc ?a mod 2 ^ 64" using u64_add_Inr[OF n] by simp
  show "writer_step st st'" if r: "r = Inr u"
  proof -
    have lim: "inext (files st) < 2 ^ 63"
      using new_active_datafile_Inr[OF new[unfolded r]] log_create_limit by metis
    then have "n = Suc ?a" using n' assms(2) by (simp add: ready_def)
    with new_active_datafile_step(1)[OF new[unfolded r]] assms(2) ready_inode[OF assms(2)]
    show ?thesis by (simp add: ready_def)
  qed
  show "active_fileid st' \<noteq> ?a" if r: "r = Inl (Err e)"
  proof -
    have "n \<noteq> ?a" using n' Suc_mod_neq[of "2 ^ 64" ?a] by simp
    with new r show ?thesis by (auto simp: new_active_datafile_def split: prod.splits sum.splits)
  qed
qed

subsection \<open>Writing an entry\<close>

lemma append_active_step:
  assumes "append_active B d st = (r, st')" and "r \<noteq> Inl Panic" and "ready st"
  shows "writer_step st st'" and "active_fileid st' = active_fileid st"
proof -
  obtain w fs where l: "log_append B d (w_log st) (files st) = (r, w, fs)"
    and st': "st' = st\<lparr>w_log := w, files := fs\<rparr>"
    using assms(1) by (auto simp: append_active_def split: prod.splits)
  have "pos_ok (w_log st) (files st)" using assms(3) by (simp add: ready_def writer_ok_def)
  from log_append_keeps[OF l assms(2) this] obtain z where z: "grown (files st) (bw_file (w_log st)) z fs"
    and w: "pos_ok w fs" "bw_file w = bw_file (w_log st)" by blast
  show "active_fileid st' = active_fileid st" using st' by simp
  from z w st' assms(3) grown_grows[OF z] grown_fs_ok[OF z] show "writer_step st st'"
    by (auto simp: writer_step_def same_rest_def writer_ok_def ready_def grown_def old_names_def)
qed

lemma append_active_Inr:
  assumes "append_active B d st = (Inr ix, st')" and "d \<noteq> []" and "ready st"
  shows "grown (files st) (bw_file (w_log st)) (bw_buf (w_log st) @ d) (files st')"
    and "ix = \<lparr>ix_len = length d, ix_pos = length (idata (files st) (bw_file (w_log st))) + length (bw_buf (w_log st))\<rparr>"
    and "length (idata (files st) (bw_file (w_log st))) + length (bw_buf (w_log st)) + length d < 2 ^ 63"
    and "bw_buf (w_log st') = []" and "bw_file (w_log st') = bw_file (w_log st)"
    and "written_bytes st' = written_bytes st" and "w_stats st' = w_stats st"
proof -
  obtain w fs where l: "log_append B d (w_log st) (files st) = (Inr ix, w, fs)"
    and st': "st' = st\<lparr>w_log := w, files := fs\<rparr>"
    using assms(1) by (auto simp: append_active_def split: prod.splits)
  have "pos_ok (w_log st) (files st)" using assms(3) by (simp add: ready_def writer_ok_def)
  note a = log_append_Inr[OF l assms(2) this] and k = log_append_keeps(3)[OF l _ this]
  from a k st' show "grown (files st) (bw_file (w_log st)) (bw_buf (w_log st) @ d) (files st')"
    "ix = \<lparr>ix_len = length d, ix_pos = length (idata (files st) (bw_file (w_log st))) + length (bw_buf (w_log st))\<rparr>"
    "length (idata (files st) (bw_file (w_log st))) + length (bw_buf (w_log st)) + length d < 2 ^ 63"
    "bw_buf (w_log st') = []" "bw_file (w_log st') = bw_file (w_log st)"
    "written_bytes st' = written_bytes st" "w_stats st' = w_stats st" by simp_all
qed

text \<open>The steps that follow an append and do not touch the files' bytes.\<close>

definition quiet :: "'l storage \<Rightarrow> 'l storage \<Rightarrow> bool" where
  "quiet st st' \<longleftrightarrow> keydir st' = keydir st \<and> same_rest st st' \<and> clock st' = clock st \<and>
     active_fileid st' = active_fileid st \<and> w_log st' = w_log st \<and> same_files (files st) (files st')"

lemma quiet_step: "quiet st st' \<Longrightarrow> ready st \<Longrightarrow> writer_step st st'"
  by (auto simp: quiet_def intro: writer_step_fields)

lemma quiet_refl [simp]: "quiet st st"
  by (simp add: quiet_def same_rest_def)

lemma quiet_trans: "quiet a b \<Longrightarrow> quiet b c \<Longrightarrow> quiet a c"
  by (auto simp: quiet_def same_rest_def intro: same_files_trans)

lemma with_stats_quiet: "with_stats f op st = (r, st') \<Longrightarrow> quiet st st'"
  by (auto simp: with_stats_def quiet_def same_rest_def split: prod.splits)

lemma stats_not_Err:
  "add_live B s \<noteq> (Inl (Err e), s')" "add_dead B n s \<noteq> (Inl (Err e), s')" "overwrite B n s \<noteq> (Inl (Err e), s')"
  by (auto simp: add_live_def add_dead_def overwrite_def assign_Inl elim!: try_opE)

lemma with_stats_not_Err:
  "with_stats f (add_live B) st \<noteq> (Inl (Err e), st')" "with_stats f (add_dead B n) st \<noteq> (Inl (Err e), st')"
  "with_stats f (overwrite B n) st \<noteq> (Inl (Err e), st')"
  by (auto simp: with_stats_def stats_not_Err split: prod.splits)

lemma sync_quiet: "on_files (log_sync w) st = (r, st') \<Longrightarrow> quiet st st'"
  by (auto simp: on_files_def log_sync_def quiet_def same_rest_def dest: sync_all_same split: prod.splits)

lemma assign_written_quiet: "assign r (\<lambda>n st. st\<lparr>written_bytes := n\<rparr>) (st :: 'l storage) = (q, st') \<Longrightarrow> quiet st st'"
  by (cases r) (auto simp: quiet_def same_rest_def)

lemma entry_ok_small:
  assumes "deps_laws D" and "in_i64 (d_tstamp x)" and "length (enc_data D x) < 2 ^ 63"
  shows "entry_ok x"
  using assms(2,3) deps_laws.enc_data_length[OF assms(1), of x]
  by (auto simp: entry_ok_def in_i64_def split: option.splits)

lemma enc_data_not_empty:
  assumes "deps_laws D" and "in_i64 (d_tstamp x)"
  shows "enc_data D x \<noteq> []"
proof
  assume n: "enc_data D x = []"
  with entry_ok_small[OF assms] have "entry_ok x" by simp
  with deps_laws.enc_data_nonempty[OF assms(1)] n show False by simp
qed

text \<open>The steps between the append and the change of the active file.\<close>

definition after_append :: "build \<Rightarrow> bytes option \<Rightarrow> log_index \<Rightarrow> ('l, unit) action" where
  "after_append B v ix st =
     try_op (if sync (conf st) = SyncAlways then on_files (log_sync (w_log st)) st else (Inr (), st)) (\<lambda>_ st.
     try_op (assign (u64_add B (written_bytes st) (ix_len ix)) (\<lambda>n st. st\<lparr>written_bytes := n\<rparr>) st) (\<lambda>_ st.
     with_stats (active_fileid st) (if v \<noteq> None then add_live B else add_dead B (ix_len ix)) st))"

lemma try_op_assoc: "try_op (try_op m k) h = try_op m (\<lambda>x s. try_op (k x s) h)"
  by (cases "(m, k)" rule: try_op.cases) auto

lemma write_entry_after:
  "write_entry D B t k v st =
     try_op (append_active B (enc_data D \<lparr>d_tstamp = t, d_key = k, d_value = v\<rparr>) st) (\<lambda>ix st.
     try_op (after_append B v ix st) (\<lambda>_ st.
     try_op (if max_file_size (conf st) < written_bytes st then next_active_datafile B st else (Inr (), st)) (\<lambda>_ st'.
     (Inr \<lparr>kd_fileid = active_fileid st, kd_len = ix_len ix, kd_pos = ix_pos ix, kd_tstamp = t\<rparr>, st'))))"
  by (simp add: write_entry_def after_append_def try_op_assoc Let_def)

lemma after_append_quiet: "after_append B v ix st = (r, st') \<Longrightarrow> quiet st st'"
  unfolding after_append_def
  by (auto elim!: try_opE split: if_splits dest!: sync_quiet assign_written_quiet with_stats_quiet intro: quiet_trans)

text \<open>
  An entry that was written is where its keydir entry says, in what was the active file, and
  everything else that was on disk still is. A failure keeps the state in order unless it was
  the next active file that could not be created.
\<close>

lemma write_entry_step:
  assumes "write_entry D B t k v st = (r, st')" and "ready st" and "r \<noteq> Inl Panic"
    and err: "\<And>e. r = Inl (Err e) \<Longrightarrow> active_fileid st' = active_fileid st"
  shows "writer_step st st'"
proof -
  let ?d = "enc_data D \<lparr>d_tstamp = t, d_key = k, d_value = v\<rparr>"
  obtain r1 s1 where 1: "append_active B ?d st = (r1, s1)" by fastforce
  with assms(1,3) have "r1 \<noteq> Inl Panic" by (auto simp: write_entry_def)
  from append_active_step[OF 1 this assms(2)] have s1: "writer_step st s1" "active_fileid s1 = active_fileid st" .
  show ?thesis
  proof (cases r1)
    case (Inl x)
    with 1 assms(1) s1 show ?thesis by (auto simp: write_entry_def)
  next
    case (Inr ix)
    obtain r2 s2 where 2: "after_append B v ix s1 = (r2, s2)" by fastforce
    then have q: "quiet s1 s2" by (rule after_append_quiet)
    then have s2: "writer_step st s2" "active_fileid s2 = active_fileid st"
      using s1 writer_step_trans[OF s1(1) quiet_step[OF q writer_step_ready[OF s1(1)]]] by (auto simp: quiet_def)
    show ?thesis
    proof (cases r2)
      case (Inl x)
      with 1 2 assms(1) \<open>r1 = Inr ix\<close> s2 show ?thesis by (auto simp: write_entry_after)
    next
      case (Inr u)
      let ?m = "if max_file_size (conf s2) < written_bytes s2 then next_active_datafile B s2 else (Inr (), s2)"
      obtain r3 s3 where 3: "?m = (r3, s3)" by fastforce
      with 1 2 assms(1) \<open>r1 = Inr ix\<close> Inr have st': "st' = s3" and r: "r3 = Inl x \<Longrightarrow> r = Inl x" for x
        by (auto simp: write_entry_after elim!: try_opE)
      have r3: "r3 \<noteq> Inl Panic" using r assms(3) by auto
      show ?thesis
      proof (cases "max_file_size (conf s2) < written_bytes s2")
        case False
        with 3 st' s2 show ?thesis by simp
      next
        case True
        with 3 have n: "next_active_datafile B s2 = (r3, s3)" by simp
        note step = next_active_datafile_step[OF n writer_step_ready[OF s2(1)] r3]
        show ?thesis
        proof (cases r3)
          case (Inr w)
          from step(1)[OF this] s2(1) st' show ?thesis using writer_step_trans by blast
        next
          case (Inl x)
          with r3 obtain e' where "r3 = Inl (Err e')" by (cases x) auto
          with step(2) r[of "Err e'"] st' s2 err[of e'] show ?thesis by simp
        qed
      qed
    qed
  qed
qed

lemma write_entry_Inr:
  assumes D: "deps_laws D" and st: "ready st" and t: "in_i64 t"
    and w: "write_entry D B t k v st = (Inr e, st')"
  shows "writer_step st st'" and "kd_fileid e = active_fileid st"
    and "located D (files st') e \<lparr>d_tstamp = t, d_key = k, d_value = v\<rparr>"
    and "kd_pos e = length (idata (files st) (bw_file (w_log st))) + length (bw_buf (w_log st))"
proof -
  let ?x = "\<lparr>d_tstamp = t, d_key = k, d_value = v\<rparr>"
  let ?w3 = "\<lambda>s. if max_file_size (conf s) < written_bytes s then next_active_datafile B s else (Inr (), s)"
  from w obtain ix s1 s2 s3 u2 u3 where
    1: "append_active B (enc_data D ?x) st = (Inr ix, s1)" and 2: "after_append B v ix s1 = (Inr u2, s2)" and
    3: "?w3 s2 = (Inr u3, s3)" and
    out: "(Inr \<lparr>kd_fileid = active_fileid s2, kd_len = ix_len ix, kd_pos = ix_pos ix, kd_tstamp = t\<rparr>, s3) =
      (Inr e :: (bc_error, keydir_entry) result, st')"
    unfolding write_entry_after by (elim try_op_InrE) (rule that; assumption)
  have d: "enc_data D ?x \<noteq> []" using enc_data_not_empty[OF D, of ?x] t by simp
  note a = append_active_Inr[OF 1 d st] and s1 = append_active_step[OF 1 _ st]
  have q: "quiet s1 s2" using after_append_quiet[OF 2] .
  show step: "writer_step st st'" by (rule write_entry_step[OF w st]) simp_all
  show "kd_fileid e = active_fileid st" using out q s1(2) by (auto simp: quiet_def)
  show "kd_pos e = length (idata (files st) (bw_file (w_log st))) + length (bw_buf (w_log st))"
    using out a(2) by auto
  have "map_of (dir (files st)) (datafile_name (active_fileid st)) = Some (bw_file (w_log st))"
    using st by (simp add: ready_def writer_ok_def)
  with grown_located[OF a(1) this entry_ok_small[OF D] a(3), of t] a(3) t
  have "located D (files s1) e ?x" using out q s1(2) a(2) by (auto simp: quiet_def)
  moreover have "writer_step s2 s3"
    using 3 next_active_datafile_step(1)[of B s2 "Inr u3" s3 u3] writer_step_ready[OF quiet_step[OF q]]
      writer_step_ready[OF s1(1)] writer_step_refl by (auto split: if_splits)
  then have "grows (files s1) (files st')" "fs_ok (files s1)"
    using out writer_step_trans[OF quiet_step[OF q writer_step_ready[OF s1(1)]]] writer_step_ready[OF s1(1)]
    by (auto simp: writer_step_def ready_def)
  ultimately show "located D (files st') e ?x" using located_grows by blast
qed

end
