(* ===== verification/StorageRefine.thy ===== *)
theory StorageRefine
  imports StorageOps
begin

section \<open>The engine refines a finite map\<close>

text \<open>
  What \<open>put\<close>, \<open>delete\<close>, \<open>get\<close> and \<open>sync\<close> do to the store that an open storage stands for,
  when they succeed and when they fail.
\<close>

subsection \<open>Steps that keep the store\<close>

lemma storage_inv_ready: "storage_inv D st \<Longrightarrow> ready st"
  by (simp add: storage_inv_def ready_def)

lemma storage_invD:
  assumes "storage_inv D st"
  shows "fs_ok (files st)" and "keydir_ok D (keydir st) (files st) (active_fileid st)"
    and "writer_ok (w_log st) (files st) (active_fileid st)"
    and "l \<in> set (w_readers st # pool st) \<Longrightarrow> cache_ok D (keydir st) (files st) (active_fileid st) l"
    and "active_fileid st < 2 ^ 63 + inext (files st)" and "Some t \<in> set (clock st) \<Longrightarrow> in_i64 t"
  using assms unfolding storage_inv_def by blast+

lemma storage_invI:
  assumes "ready st" and "keydir_ok D (keydir st) (files st) (active_fileid st)"
    and "\<And>l. l \<in> set (w_readers st # pool st) \<Longrightarrow> cache_ok D (keydir st) (files st) (active_fileid st) l"
    and "\<And>t. Some t \<in> set (clock st) \<Longrightarrow> in_i64 t"
  shows "storage_inv D st"
  using assms unfolding storage_inv_def ready_def by blast

lemma stored_grows:
  assumes "deps_laws D" and "keydir_ok D kd fs active" and "fs_ok fs" and "grows fs fs'" and "map_of kd k = Some e"
  shows "stored D fs' e = stored D fs e"
proof -
  from map_of_SomeD[OF assms(5)] assms(2) obtain x where x: "located D fs e x" by (auto simp: keydir_ok_def)
  with stored_located[OF assms(1)] located_grows[OF assms(3,4) x] show ?thesis by metis
qed

lemma abs_store_grows:
  assumes "deps_laws D" and "storage_inv D st" and "keydir st' = keydir st" and "grows (files st) (files st')"
  shows "abs_store D st' = abs_store D st"
proof
  fix k
  show "abs_store D st' k = abs_store D st k"
  proof (cases "map_of (keydir st) k")
    case (Some e)
    from stored_grows[OF assms(1) storage_invD(2,1)[OF assms(2)] assms(4) Some] show ?thesis
      using Some assms(3) by (simp add: abs_store_def)
  qed (use assms(3) in \<open>simp add: abs_store_def\<close>)
qed

lemma inv_step:
  assumes "deps_laws D" and "storage_inv D st" and "writer_step st st'"
  shows "storage_inv D st'" and "abs_store D st' = abs_store D st"
proof -
  have g: "grows (files st) (files st')" "old_names (active_fileid st) (files st) (files st')"
    "active_fileid st \<le> active_fileid st'" "keydir st' = keydir st"
    "w_readers st' = w_readers st" "pool st' = pool st" "clock st' = clock st"
    using assms(3) by (simp_all add: writer_step_def same_rest_def)
  show "abs_store D st' = abs_store D st" by (rule abs_store_grows[OF assms(1,2) g(4,1)])
  show "storage_inv D st'"
  proof (rule storage_invI)
    show "ready st'" using writer_step_ready[OF assms(3)] .
    show "keydir_ok D (keydir st') (files st') (active_fileid st')"
      using keydir_ok_grows[OF storage_invD(2,1)[OF assms(2)] g(1,3)] g(4) by simp
    show "cache_ok D (keydir st') (files st') (active_fileid st') l" if "l \<in> set (w_readers st' # pool st')" for l
      using cache_ok_grows[OF storage_invD(4)[OF assms(2)] g(1,2,3)] that g(4-6) by metis
    show "in_i64 t" if "Some t \<in> set (clock st')" for t using storage_invD(6)[OF assms(2)] that g(7) by simp
  qed
qed

lemma inv_quiet:
  assumes "deps_laws D" and "storage_inv D st" and "quiet st st'"
  shows "storage_inv D st'" and "abs_store D st' = abs_store D st"
  using inv_step[OF assms(1,2) quiet_step[OF assms(3) storage_inv_ready[OF assms(2)]]] .

lemma timestamp_cases:
  assumes "timestamp st = (r, st')"
  obtains cl where "st' = st\<lparr>clock := cl\<rparr>" and "set cl \<subseteq> set (clock st)" and "\<And>e. r \<noteq> Inl (Err e)"
    and "\<And>t. r = Inr t \<Longrightarrow> t = 0 \<or> Some t \<in> set (clock st)"
proof (cases "clock st")
  case Nil
  with assms have "r = Inr 0" "st' = st\<lparr>clock := []\<rparr>" by (simp_all add: timestamp_def)
  with that[of "[]"] show thesis by simp
next
  case (Cons x ts)
  with assms have "st' = st\<lparr>clock := ts\<rparr>" "r = (case x of None \<Rightarrow> Inl Panic | Some y \<Rightarrow> Inr y)"
    by (simp_all add: timestamp_def)
  with that[of ts] Cons show thesis by (cases x) auto
qed

lemma inv_timestamp:
  assumes "storage_inv D st" and "timestamp st = (r, st')"
  shows "storage_inv D st'" and "abs_store D st' = abs_store D st" and "active_fileid st' = active_fileid st"
    and "r = Inr t \<Longrightarrow> in_i64 t" and "r \<noteq> Inl (Err e)" and "keydir st' = keydir st"
proof -
  from timestamp_cases[OF assms(2)] obtain cl where
    st': "st' = st\<lparr>clock := cl\<rparr>" "set cl \<subseteq> set (clock st)" and r: "\<And>e. r \<noteq> Inl (Err e)"
      "\<And>t. r = Inr t \<Longrightarrow> t = 0 \<or> Some t \<in> set (clock st)" by blast
  show "storage_inv D st'" using assms(1) st' unfolding storage_inv_def by auto
  show "abs_store D st' = abs_store D st" using st' by (auto simp: abs_store_def fun_eq_iff split: option.split)
  show "active_fileid st' = active_fileid st" "keydir st' = keydir st" using st' by simp_all
  show "r \<noteq> Inl (Err e)" using r by simp
  show "in_i64 t" if "r = Inr t" using r(2)[OF that] storage_invD(6)[OF assms(1)] by (auto simp: in_i64_def)
qed

subsection \<open>Changing the keydir\<close>

lemma set_AList_update: "set (AList.update k e kd) \<subseteq> insert (k, e) (set kd)"
  by (induction kd) (auto split: if_splits)

lemma set_AList_delete: "set (AList.delete k kd) \<subseteq> set kd"
  by (simp add: AList.delete_eq)

lemma cache_ok_subset:
  assumes "cache_ok D kd fs active l" and "set kd' \<subseteq> set kd"
  shows "cache_ok D kd' fs active l"
  using assms unfolding cache_ok_def reader_ok_def by blast

lemma cache_ok_update:
  assumes "cache_ok D kd fs active l" and "kd_fileid e = active"
    and "map_of (dir fs) (datafile_name active) = Some i" and "length (idata fs i) \<le> kd_pos e"
  shows "cache_ok D (AList.update k e kd) fs active l"
proof -
  have "reader_ok (AList.update k e kd) fs fileid rd" if rd: "reader_ok kd fs fileid rd" for fileid rd
  proof -
    have "kd_pos e' + kd_len e' \<le> mmap_len rd"
      if e': "(k', e') \<in> set (AList.update k e kd)" "kd_fileid e' = fileid" "kd_pos e' < mmap_len rd" for k' e'
    proof (cases "(k', e') \<in> set kd")
      case True
      with rd e' show ?thesis by (auto simp: reader_ok_def)
    next
      case False
      with e'(1) set_AList_update have "e' = e" by fastforce
      with e' assms(2-4) rd show ?thesis by (auto simp: reader_ok_def)
    qed
    with rd show ?thesis by (auto simp: reader_ok_def)
  qed
  with assms(1) show ?thesis by (auto simp: cache_ok_def)
qed

lemma keydir_okI:
  assumes "distinct (map fst kd)"
    and "\<And>k e. (k, e) \<in> set kd \<Longrightarrow> kd_fileid e \<le> active \<and> (\<exists>x. located D fs e x \<and> d_key x = k \<and> d_value x \<noteq> None)"
  shows "keydir_ok D kd fs active"
  using assms unfolding keydir_ok_def by blast

lemma keydir_okD:
  assumes "keydir_ok D kd fs active"
  shows "distinct (map fst kd)"
    and "(k, e) \<in> set kd \<Longrightarrow> kd_fileid e \<le> active \<and> (\<exists>x. located D fs e x \<and> d_key x = k \<and> d_value x \<noteq> None)"
  using assms unfolding keydir_ok_def by blast+

lemma keydir_ok_update:
  assumes "keydir_ok D kd fs active" and "kd_fileid e \<le> active" and "located D fs e x"
    and "d_key x = k" and "d_value x \<noteq> None"
  shows "keydir_ok D (AList.update k e kd) fs active"
proof (rule keydir_okI)
  show "distinct (map fst (AList.update k e kd))" using keydir_okD(1)[OF assms(1)] by (rule distinct_update)
  show "kd_fileid e' \<le> active \<and> (\<exists>x. located D fs e' x \<and> d_key x = k' \<and> d_value x \<noteq> None)"
    if "(k', e') \<in> set (AList.update k e kd)" for k' e'
  proof (cases "(k', e') = (k, e)")
    case False
    with that set_AList_update have "(k', e') \<in> set kd" by fast
    from keydir_okD(2)[OF assms(1) this] show ?thesis .
  qed (use assms in blast)
qed

lemma keydir_ok_delete:
  assumes "keydir_ok D kd fs active"
  shows "keydir_ok D (AList.delete k kd) fs active"
  using distinct_delete[OF keydir_okD(1)[OF assms]] keydir_okD(2)[OF assms] set_AList_delete[of k kd]
  by (intro keydir_okI) blast+

lemma inv_remove:
  assumes "storage_inv D st"
  shows "storage_inv D (st\<lparr>keydir := AList.delete k (keydir st)\<rparr>)"
    and "abs_store D (st\<lparr>keydir := AList.delete k (keydir st)\<rparr>) = (abs_store D st)(k := None)"
proof -
  show "storage_inv D (st\<lparr>keydir := AList.delete k (keydir st)\<rparr>)"
  proof (rule storage_invI)
    show "ready (st\<lparr>keydir := AList.delete k (keydir st)\<rparr>)" using storage_inv_ready[OF assms] by (simp add: ready_def)
  qed (use storage_invD(6)[OF assms] keydir_ok_delete[OF storage_invD(2)[OF assms]]
      cache_ok_subset[OF storage_invD(4)[OF assms] set_AList_delete] in auto)
  show "abs_store D (st\<lparr>keydir := AList.delete k (keydir st)\<rparr>) = (abs_store D st)(k := None)"
    by (auto simp: abs_store_def delete_conv' fun_eq_iff split: option.split)
qed

text \<open>An entry written by a step that began in \<open>st\<close> enters the keydir.\<close>

lemma inv_install:
  assumes D: "deps_laws D" and st: "storage_inv D st" and step: "writer_step st st1"
    and e: "kd_fileid e = active_fileid st" "located D (files st1) e \<lparr>d_tstamp = t, d_key = k, d_value = Some v\<rparr>"
      "length (idata (files st) (bw_file (w_log st))) \<le> kd_pos e"
  shows "storage_inv D (st1\<lparr>keydir := AList.update k e (keydir st1)\<rparr>)"
    and "abs_store D (st1\<lparr>keydir := AList.update k e (keydir st1)\<rparr>) = (abs_store D st)(k \<mapsto> v)"
proof -
  note s1 = inv_step[OF D st step]
  have g: "grows (files st) (files st1)" "old_names (active_fileid st) (files st) (files st1)"
    "active_fileid st \<le> active_fileid st1" "keydir st1 = keydir st"
    "w_readers st1 = w_readers st" "pool st1 = pool st"
    using step by (simp_all add: writer_step_def same_rest_def)
  have m: "map_of (dir (files st)) (datafile_name (active_fileid st)) = Some (bw_file (w_log st))"
    using st by (simp add: storage_inv_def writer_ok_def)
  show "storage_inv D (st1\<lparr>keydir := AList.update k e (keydir st1)\<rparr>)"
  proof (rule storage_invI)
    show "ready (st1\<lparr>keydir := AList.update k e (keydir st1)\<rparr>)" using storage_inv_ready[OF s1(1)] by (simp add: ready_def)
    have "keydir_ok D (AList.update k e (keydir st1)) (files st1) (active_fileid st1)"
      using keydir_ok_update[OF storage_invD(2)[OF s1(1)] _ e(2)] e(1) g(3) by simp
    then show "keydir_ok D (keydir (st1\<lparr>keydir := AList.update k e (keydir st1)\<rparr>))
        (files (st1\<lparr>keydir := AList.update k e (keydir st1)\<rparr>)) (active_fileid (st1\<lparr>keydir := AList.update k e (keydir st1)\<rparr>))"
      by simp
  qed (use cache_ok_grows[OF cache_ok_update[OF storage_invD(4)[OF st] e(1) m e(3)] g(1,2,3)] g(4-6)
      storage_invD(6)[OF s1(1)] in auto)
  have "stored D (files st1) e = Some v" using stored_located[OF D e(2)] by simp
  then show "abs_store D (st1\<lparr>keydir := AList.update k e (keydir st1)\<rparr>) = (abs_store D st)(k \<mapsto> v)"
    unfolding s1(2)[symmetric] by (auto simp: abs_store_def update_conv' fun_eq_iff split: option.split)
qed

subsection \<open>put and delete\<close>

lemma put_ok:
  assumes D: "deps_laws D" and st: "storage_inv D st" and p: "put D B k v st = (Inr u, st')"
  shows "storage_inv D st' \<and> abs_store D st' = (abs_store D st)(k \<mapsto> v)"
proof -
  from p obtain t s0 e s1 where t: "timestamp st = (Inr t, s0)" and w: "write_entry D B t k (Some v) s0 = (Inr e, s1)"
    and rest: "(case keydir_set k e s1 of
       (Some prev, st) \<Rightarrow> with_stats (kd_fileid prev) (overwrite B (kd_len prev)) st
     | (None, st) \<Rightarrow> (Inr (), st)) = (Inr u, st')"
    unfolding put_def by (elim try_op_InrE) (rule that; assumption)
  note s0 = inv_timestamp[OF st t]
  note we = write_entry_Inr[OF D storage_inv_ready[OF s0(1)] s0(4)[OF refl] w]
  have "length (idata (files s0) (bw_file (w_log s0))) \<le> kd_pos e" using we(4) by simp
  note i = inv_install[OF D s0(1) we(1,2,3) this]
  have "quiet (s1\<lparr>keydir := AList.update k e (keydir s1)\<rparr>) st'"
    using rest with_stats_quiet by (auto simp: keydir_set_def split: option.splits)
  from inv_quiet[OF D i(1) this] i(2) s0(2) show ?thesis by simp
qed

lemma delete_ok:
  assumes D: "deps_laws D" and st: "storage_inv D st" and p: "delete D B k st = (Inr b, st')"
  shows "storage_inv D st' \<and> abs_store D st' = (abs_store D st)(k := None) \<and> b = (abs_store D st k \<noteq> None)"
proof -
  from p obtain t s0 e s1 where t: "timestamp st = (Inr t, s0)" and w: "write_entry D B t k None s0 = (Inr e, s1)"
    and rest: "(case keydir_remove k s1 of
       (Some prev, st) \<Rightarrow>
         try_op (with_stats (kd_fileid prev) (overwrite B (kd_len prev)) st) (\<lambda>_ st. (Inr True, st))
     | (None, st) \<Rightarrow> (Inr False, st)) = (Inr b, st')"
    unfolding delete_def by (elim try_op_InrE) (rule that; assumption)
  note s0 = inv_timestamp[OF st t]
  note we = write_entry_Inr[OF D storage_inv_ready[OF s0(1)] s0(4)[OF refl] w]
  note s1 = inv_step[OF D s0(1) we(1)]
  note i = inv_remove[OF s1(1), of k]
  have "quiet (s1\<lparr>keydir := AList.delete k (keydir s1)\<rparr>) st'" and b: "b = (map_of (keydir s1) k \<noteq> None)"
    using rest with_stats_quiet by (auto simp: keydir_remove_def split: option.splits elim!: try_op_InrE)
  from inv_quiet[OF D i(1) this(1)] i(2) s1(2) s0(2)
  have "storage_inv D st'" "abs_store D st' = (abs_store D st)(k := None)" by simp_all
  moreover have "map_of (keydir s1) k \<noteq> None \<longleftrightarrow> abs_store D s1 k \<noteq> None"
    using s1(1) stored_located[OF D]
    by (fastforce simp: abs_store_def storage_inv_def keydir_ok_def dest!: map_of_SomeD split: option.splits)
  ultimately show ?thesis using b s1(2) s0(2) by simp
qed

subsection \<open>put and delete that fail\<close>

text \<open>
  A failure leaves the store as it was, unless it was the creation of the next active file: then
  the id of the active file has moved on.
\<close>

lemma put_fails:
  assumes D: "deps_laws D" and st: "storage_inv D st" and p: "put D B k v st = (Inl (Err e), st')"
    and a: "active_fileid st' = active_fileid st"
  shows "storage_inv D st' \<and> abs_store D st' = abs_store D st"
proof -
  obtain r0 s0 where t: "timestamp st = (r0, s0)" by fastforce
  note s0 = inv_timestamp[OF st t]
  with p t obtain t' where r0: "r0 = Inr t'" by (cases r0; cases "projl r0") (auto simp: put_def)
  obtain r s1 where w: "write_entry D B t' k (Some v) s0 = (r, s1)" by fastforce
  have "r = Inl (Err e) \<and> st' = s1"
    using p t r0 w
    by (cases r) (auto simp: put_def keydir_set_def with_stats_not_Err split: option.splits)
  with write_entry_step[OF w storage_inv_ready[OF s0(1)]] s0(3) a have "writer_step s0 st'" by auto
  from inv_step[OF D s0(1) this] s0(2) show ?thesis by simp
qed

lemma delete_fails:
  assumes D: "deps_laws D" and st: "storage_inv D st" and p: "delete D B k st = (Inl (Err e), st')"
    and a: "active_fileid st' = active_fileid st"
  shows "storage_inv D st' \<and> abs_store D st' = abs_store D st"
proof -
  obtain r0 s0 where t: "timestamp st = (r0, s0)" by fastforce
  note s0 = inv_timestamp[OF st t]
  with p t obtain t' where r0: "r0 = Inr t'" by (cases r0; cases "projl r0") (auto simp: delete_def)
  obtain r s1 where w: "write_entry D B t' k None s0 = (r, s1)" by fastforce
  have "r = Inl (Err e) \<and> st' = s1"
    using p t r0 w
    by (cases r) (auto simp: delete_def keydir_remove_def with_stats_not_Err split: option.splits elim!: try_opE)
  with write_entry_step[OF w storage_inv_ready[OF s0(1)]] s0(3) a have "writer_step s0 st'" by auto
  from inv_step[OF D s0(1) this] s0(2) show ?thesis by simp
qed

subsection \<open>Reading\<close>

lemma reader_ok_same: "same_files fs fs' \<Longrightarrow> reader_ok kd fs' fileid rd = reader_ok kd fs fileid rd"
  by (simp add: reader_ok_def same_files_def)

lemma reader_ok_whole:
  assumes "keydir_ok D kd fs active" and "fs_ok fs" and "map_of (dir fs) (datafile_name fileid) = Some i"
  shows "reader_ok kd fs fileid \<lparr>rd_file = i, mmap_len = length (idata fs i)\<rparr>"
  using keydir_okD(2)[OF assms(1)] fs_ok_inode[OF assms(2,3)] assms(3)
  by (fastforce simp: reader_ok_def located_def)

lemma map_file_cases:
  assumes "map_file i fs = (r, fs')"
  shows "same_files fs fs'" and "r \<noteq> Inl Panic" and "r = Inr n \<Longrightarrow> n = length (idata fs i)"
    and "r = Inl e \<Longrightarrow> faults fs \<noteq> []"
proof -
  obtain f fs1 where f: "next_fault fs = (f, fs1)" by fastforce
  have none: "f = None" if "faults fs = []" using f that by simp
  from f assms next_fault_same[OF f] next_fault_keeps(2)[OF f] none
  show "same_files fs fs'" "r \<noteq> Inl Panic" "r = Inr n \<Longrightarrow> n = length (idata fs i)" "r = Inl e \<Longrightarrow> faults fs \<noteq> []"
    by (auto simp: map_file_def sys_call_def split: option.splits)
qed

lemma open_read_no_panic: "open_read name fs = (r, fs') \<Longrightarrow> r \<noteq> Inl Panic"
  by (auto simp: open_read_def sys_call_def split: option.splits prod.splits)

lemma open_read_Inl: "open_read name fs = (Inl e, fs') \<Longrightarrow> faults fs \<noteq> [] \<or> map_of (dir fs) name = None"
  by (cases "faults fs = []") (auto simp: open_read_def split: option.splits)

lemma reader_open_cases:
  assumes "try_op (open_read name fs) reader_new = (r, fs')"
  shows "same_files fs fs'" and "r \<noteq> Inl Panic"
    and "r = Inr rd \<Longrightarrow> \<exists>i. map_of (dir fs) name = Some i \<and> rd = \<lparr>rd_file = i, mmap_len = length (idata fs i)\<rparr>"
    and "r = Inl e \<Longrightarrow> faults fs \<noteq> [] \<or> map_of (dir fs) name = None"
proof -
  obtain q fs1 where q: "open_read name fs = (q, fs1)" by fastforce
  note o = open_read_same[OF q] open_read_no_panic[OF q]
  have "same_files fs fs' \<and> r \<noteq> Inl Panic \<and>
    (\<forall>rd. r = Inr rd \<longrightarrow> (\<exists>i. map_of (dir fs) name = Some i \<and> rd = \<lparr>rd_file = i, mmap_len = length (idata fs i)\<rparr>)) \<and>
    (\<forall>e. r = Inl e \<longrightarrow> faults fs \<noteq> [] \<or> map_of (dir fs) name = None)"
  proof (cases q)
    case (Inl e)
    with assms q o open_read_Inl[of name fs] show ?thesis by auto
  next
    case (Inr i)
    obtain m fs2 where m: "map_file i fs1 = (m, fs2)" by fastforce
    note mc = map_file_cases[OF m]
    have "idata fs1 = idata fs" "faults fs = [] \<longrightarrow> faults fs1 = []" using o(1) by (simp_all add: same_files_def)
    with assms q Inr m mc same_files_trans[OF o(1) mc(1)] open_read_Inr[of name fs i fs1] show ?thesis
      by (cases m) (auto simp: reader_new_def)
  qed
  then show "same_files fs fs'" and "r \<noteq> Inl Panic"
    and "r = Inr rd \<Longrightarrow> \<exists>i. map_of (dir fs) name = Some i \<and> rd = \<lparr>rd_file = i, mmap_len = length (idata fs i)\<rparr>"
    and "r = Inl e \<Longrightarrow> faults fs \<noteq> [] \<or> map_of (dir fs) name = None"
    by (blast, blast, blast, metis)
qed

text \<open>The slice of an entry of the keydir is its encoding.\<close>

lemma reader_slice_ok:
  assumes kd: "keydir_ok D kd fs active" "fs_ok fs" "(k, e) \<in> set kd" and x: "located D fs e x"
    and rd: "reader_ok kd fs (kd_fileid e) rd" and sl: "reader_slice B rd (kd_len e) (kd_pos e) fs = (r, rd', fs')"
  shows "same_files fs fs' \<and> reader_ok kd fs (kd_fileid e) rd' \<and> (r = Inr (enc_data D x) \<or> (\<exists>err. r = Inl (Err err) \<and> faults fs \<noteq> []))"
proof -
  from x obtain i where i: "map_of (dir fs) (datafile_name (kd_fileid e)) = Some i"
    and le: "kd_pos e + kd_len e \<le> length (idata fs i)" "kd_pos e + kd_len e < 2 ^ 63" "kd_len e = length (enc_data D x)"
    and d: "sub_slice (idata fs i) (kd_pos e) (kd_pos e + kd_len e) = enc_data D x"
    by (auto simp: located_def)
  from rd i have f: "rd_file rd = i" by (simp add: reader_ok_def)
  have take_it: "(and_then (u64_add B (kd_pos e) (kd_len e)) (\<lambda>end.
       if kd_pos e \<le> end \<and> end \<le> mmap_len q then Inr (sub_slice (idata g (rd_file q)) (kd_pos e) end) else Inl Panic))
      = (Inr (enc_data D x) :: (io_error, bytes) result)"
    if "kd_pos e + kd_len e \<le> mmap_len q" "idata g = idata fs" "rd_file q = i" for q g
    using that le(2) d by simp
  show ?thesis
  proof (cases "mmap_len rd \<le> kd_pos e")
    case False
    with rd kd(3) have "kd_pos e + kd_len e \<le> mmap_len rd" by (auto simp: reader_ok_def)
    from take_it[OF this refl f] sl False rd f show ?thesis by (auto simp: reader_slice_def)
  next
    case True
    obtain m fs1 where m: "map_file (rd_file rd) fs = (m, fs1)" by fastforce
    note mc = map_file_cases[OF m]
    show ?thesis
    proof (cases m)
      case (Inl err)
      with mc(2) obtain z where "m = Inl (Err z)" by (cases err) auto
      with sl True m mc(1) mc(4)[OF Inl] rd show ?thesis by (auto simp: reader_slice_def)
    next
      case (Inr n)
      with mc(3) f have n: "n = length (idata fs i)" by simp
      have "reader_ok kd fs (kd_fileid e) (rd\<lparr>mmap_len := n\<rparr>)"
        using reader_ok_whole[OF kd(1,2) i] n f by (cases rd) simp
      moreover have "idata fs1 = idata fs" using mc(1) by (simp add: same_files_def)
      ultimately show ?thesis
        using take_it[of "rd\<lparr>mmap_len := n\<rparr>" fs1] sl True m Inr mc(1) f n le(1) by (auto simp: reader_slice_def)
    qed
  qed
qed

text \<open>What the cache of readers does, for a use \<open>act\<close> of a reader that is in order.\<close>

definition io_or :: "fs \<Rightarrow> 'a \<Rightarrow> (bc_error, 'a) result \<Rightarrow> bool" where
  "io_or fs y r \<longleftrightarrow> r = Inr y \<or> (\<exists>err. r = Inl (Err (BcIo err)) \<and> faults fs \<noteq> [])"

definition act_ok ::
    "keydir \<Rightarrow> fs \<Rightarrow> nat \<Rightarrow> (log_reader \<Rightarrow> fs \<Rightarrow> (bc_error, 'a) result \<times> log_reader \<times> fs) \<Rightarrow> 'a \<Rightarrow> bool" where
  "act_ok kd fs fileid act y \<longleftrightarrow>
     (\<forall>rd fs1 r rd' fs'. same_files fs fs1 \<longrightarrow> reader_ok kd fs fileid rd \<longrightarrow> act rd fs1 = (r, rd', fs') \<longrightarrow>
        io_or fs y r \<and> same_files fs fs' \<and> reader_ok kd fs fileid rd')"

lemma cache_ok_store:
  assumes "deps_laws D" and "cache_ok D kd fs active l" and "reader_ok kd fs fileid rd" and "fileid \<le> active"
  shows "lru_get D fileid l \<noteq> None \<Longrightarrow> cache_ok D kd fs active (lru_store D fileid rd l)"
    and "cache_ok D kd fs active (lru_put D fileid rd l)"
proof -
  show "cache_ok D kd fs active (lru_store D fileid rd l)" if "lru_get D fileid l \<noteq> None"
    using assms(2-4) deps_laws.lru_get_store[OF assms(1) that] by (auto simp: cache_ok_def)
  show "cache_ok D kd fs active (lru_put D fileid rd l)"
    unfolding cache_ok_def
  proof (intro allI impI)
    fix f q assume q: "lru_get D f (lru_put D fileid rd l) = Some q"
    show "f \<le> active \<and> reader_ok kd fs f q"
    proof (cases "f = fileid")
      case True
      with q deps_laws.lru_get_put[OF assms(1)] assms(3,4) show ?thesis by simp
    next
      case False
      with q deps_laws.lru_put_other[OF assms(1) False, of rd l] have "lru_get D f l = Some q" by auto
      with assms(2) show ?thesis by (simp add: cache_ok_def)
    qed
  qed
qed

lemma log_dir_ok:
  assumes D: "deps_laws D" and kd: "keydir_ok D kd fs active" "fs_ok fs" and l: "cache_ok D kd fs active l"
    and f: "fileid \<le> active" "map_of (dir fs) (datafile_name fileid) = Some i"
    and act: "act_ok kd fs fileid act y" and run: "log_dir D fileid act l fs = (r, l', fs')"
  shows "io_or fs y r \<and> same_files fs fs' \<and> cache_ok D kd fs active l'"
proof (cases "lru_get D fileid l")
  case (Some rd)
  obtain r1 rd1 fs1 where a: "act rd fs = (r1, rd1, fs1)" by (metis prod_cases3)
  have "reader_ok kd fs fileid rd" using l Some by (simp add: cache_ok_def)
  with act a have ok: "io_or fs y r1" "same_files fs fs1" "reader_ok kd fs fileid rd1"
    unfolding act_ok_def by (meson same_files_refl)+
  with run a Some cache_ok_store(1)[OF D l ok(3) f(1)] show ?thesis by (simp add: log_dir_def)
next
  case None
  obtain q fs1 where o: "try_op (open_read (datafile_name fileid) fs) reader_new = (q, fs1)" by fastforce
  note oc = reader_open_cases[OF o]
  show ?thesis
  proof (cases q)
    case (Inl e)
    with oc(2) obtain z where "q = Inl (Err z)" by (cases e) auto
    with run o None oc(1) oc(4)[OF Inl] f(2) l show ?thesis by (auto simp: log_dir_def io_or_def)
  next
    case (Inr rd)
    with oc(3) f(2) have "reader_ok kd fs fileid rd" using reader_ok_whole[OF kd f(2)] by auto
    moreover obtain r1 rd1 fs2 where a: "act rd fs1 = (r1, rd1, fs2)" by (metis prod_cases3)
    ultimately have ok: "io_or fs y r1" "same_files fs fs2" "reader_ok kd fs fileid rd1"
      using act oc(1) unfolding act_ok_def by blast+
    then have "r1 \<noteq> Inl Panic" by (auto simp: io_or_def)
    with run a o None Inr have "r = r1" "l' = lru_put D fileid rd1 l" "fs' = fs2"
      by (auto simp: log_dir_def split: sum.splits fault.splits)
    with ok cache_ok_store(2)[OF D l ok(3) f(1)] show ?thesis by simp
  qed
qed

lemma copy_raw_act_ok:
  assumes "keydir_ok D kd fs active" "fs_ok fs" "(k, e) \<in> set kd" "located D fs e x"
  shows "act_ok kd fs (kd_fileid e) (\<lambda>rd. reader_copy_raw B rd (kd_len e) (kd_pos e)) (enc_data D x)"
  unfolding act_ok_def
proof (intro allI impI)
  fix rd fs1 r rd' fs'
  assume same: "same_files fs fs1" and rd: "reader_ok kd fs (kd_fileid e) rd"
    and run: "reader_copy_raw B rd (kd_len e) (kd_pos e) fs1 = (r, rd', fs')"
  from run obtain q where q: "reader_slice B rd (kd_len e) (kd_pos e) fs1 = (q, rd', fs')" "r = map_err BcIo q"
    by (auto simp: reader_copy_raw_def split: prod.splits)
  have "keydir_ok D kd fs1 active" "fs_ok fs1" "located D fs1 e x" "reader_ok kd fs1 (kd_fileid e) rd"
    using assms rd fs_ok_same[OF same] reader_ok_same[OF same]
      keydir_ok_grows[OF _ _ same_files_grows[OF same] order_refl] located_grows[OF _ same_files_grows[OF same]] by blast+
  from reader_slice_ok[OF this(1,2) assms(3) this(3,4) q(1)] same q(2)
  show "io_or fs (enc_data D x) r \<and> same_files fs fs' \<and> reader_ok kd fs (kd_fileid e) rd'"
    using reader_ok_same[OF same] same_files_trans[OF same] same by (auto simp: io_or_def same_files_def)
qed

lemma decode_located: "deps_laws D \<Longrightarrow> located D fs e x \<Longrightarrow> decode_entry D (enc_data D x) = Inr x"
  using deps_laws.dec_enc_data[of D x "[]"] by (auto simp: decode_entry_def located_def)

lemma reader_at_act_ok:
  assumes "deps_laws D" "keydir_ok D kd fs active" "fs_ok fs" "(k, e) \<in> set kd" "located D fs e x"
  shows "act_ok kd fs (kd_fileid e) (\<lambda>rd. reader_at D B rd (kd_len e) (kd_pos e)) x"
  unfolding act_ok_def
proof (intro allI impI)
  fix rd fs1 r rd' fs'
  assume same: "same_files fs fs1" and rd: "reader_ok kd fs (kd_fileid e) rd"
    and run: "reader_at D B rd (kd_len e) (kd_pos e) fs1 = (r, rd', fs')"
  from run obtain q where q: "reader_copy_raw B rd (kd_len e) (kd_pos e) fs1 = (q, rd', fs')"
    "r = and_then q (decode_entry D)"
    by (auto simp: reader_at_def reader_copy_raw_def split: prod.splits)
  with copy_raw_act_ok[OF assms(2-5)] same rd
  have "io_or fs (enc_data D x) q \<and> same_files fs fs' \<and> reader_ok kd fs (kd_fileid e) rd'"
    unfolding act_ok_def by blast
  with q(2) decode_located[OF assms(1,5)] show "io_or fs x r \<and> same_files fs fs' \<and> reader_ok kd fs (kd_fileid e) rd'"
    by (auto simp: io_or_def)
qed


lemma reader_get_ok:
  assumes D: "deps_laws D" and st: "storage_inv D st" and l: "l \<in> set (pool st)"
    and g: "reader_get D B k (keydir st) l (files st) = (r, l', fs')"
  shows "io_or (files st) (abs_store D st k) r \<and> same_files (files st) fs' \<and>
    cache_ok D (keydir st) (files st) (active_fileid st) l'"
proof (cases "map_of (keydir st) k")
  case None
  with g storage_invD(4)[OF st] l show ?thesis by (auto simp: reader_get_def io_or_def abs_store_def)
next
  case (Some e)
  from map_of_SomeD[OF Some] have mem: "(k, e) \<in> set (keydir st)" .
  from keydir_okD(2)[OF storage_invD(2)[OF st] mem] obtain x where
    x: "located D (files st) e x" "kd_fileid e \<le> active_fileid st" by blast
  then obtain i where i: "map_of (dir (files st)) (datafile_name (kd_fileid e)) = Some i" by (auto simp: located_def)
  obtain q l1 fs1 where q: "log_dir_read D B (kd_fileid e) (kd_len e) (kd_pos e) l (files st) = (q, l1, fs1)"
    by (metis prod_cases3)
  have "cache_ok D (keydir st) (files st) (active_fileid st) l" using storage_invD(4)[OF st] l by simp
  from log_dir_ok[OF D storage_invD(2,1)[OF st] this x(2) i
      reader_at_act_ok[OF D storage_invD(2,1)[OF st] mem x(1)] q[unfolded log_dir_read_def]]
  have "io_or (files st) x q \<and> same_files (files st) fs1 \<and> cache_ok D (keydir st) (files st) (active_fileid st) l1" .
  moreover have "r = and_then q (\<lambda>entry. Inr (d_value entry))" "l' = l1" "fs' = fs1"
    using g q Some by (simp_all add: reader_get_def)
  moreover have "abs_store D st k = d_value x" using Some stored_located[OF D x(1)] by (simp add: abs_store_def)
  ultimately show ?thesis by (auto simp: io_or_def)
qed

lemma inv_same_files:
  assumes "storage_inv D st" and "same_files (files st) fs'"
  shows "storage_inv D (st\<lparr>files := fs'\<rparr>)" and "abs_store D (st\<lparr>files := fs'\<rparr>) = abs_store D st"
proof -
  have "stored D fs' e = stored D (files st) e" for e
    using assms(2) by (simp add: stored_def same_files_def cong: option.case_cong)
  then show "abs_store D (st\<lparr>files := fs'\<rparr>) = abs_store D st"
    by (auto simp: abs_store_def fun_eq_iff split: option.split)
  have g: "cache_ok D (keydir st) fs' (active_fileid st) l = cache_ok D (keydir st) (files st) (active_fileid st) l" for l
    using reader_ok_same[OF assms(2)] by (simp add: cache_ok_def)
  show "storage_inv D (st\<lparr>files := fs'\<rparr>)"
  proof (rule storage_invI)
    show "ready (st\<lparr>files := fs'\<rparr>)"
      using storage_inv_ready[OF assms(1)] writer_ok_same[OF assms(2)] fs_ok_same[OF assms(2)] assms(2)
      by (simp add: ready_def same_files_def)
  qed (use g storage_invD[OF assms(1)]
      keydir_ok_grows[OF storage_invD(2,1)[OF assms(1)] same_files_grows[OF assms(2)] order_refl] in auto)
qed

text \<open>A \<open>get\<close> returns the value or an I/O error; it does not panic, and the reader goes back to the pool.\<close>

lemma handle_get_ok:
  assumes D: "deps_laws D" and st: "storage_inv D st" and o: "\<not> closed st" and o': "pool st \<noteq> []"
  shows "\<exists>r st'. handle_get D B k st = Some (r, st') \<and> io_or (files st) (abs_store D st k) r \<and>
    storage_inv D st' \<and> abs_store D st' = abs_store D st \<and> length (pool st') = length (pool st) \<and>
    active_fileid st' = active_fileid st \<and> same_files (files st) (files st')"
proof -
  from o' obtain l rest where p: "pool st = l # rest" by (cases "pool st") auto
  obtain r l' fs' where g: "reader_get D B k (keydir st) l (files st) = (r, l', fs')" by (metis prod_cases3)
  with reader_get_ok[OF D st _ g] p have ok: "io_or (files st) (abs_store D st k) r" "same_files (files st) fs'"
    "cache_ok D (keydir st) (files st) (active_fileid st) l'" by auto
  let ?st = "st\<lparr>files := fs'\<rparr>"
  note s = inv_same_files[OF st ok(2)]
  have "r \<noteq> Inl Panic" using ok(1) by (auto simp: io_or_def)
  with o p g have h: "handle_get D B k st = Some (r, ?st\<lparr>pool := rest @ [l']\<rparr>)"
    by (auto simp: handle_get_def split: sum.split fault.split)
  have "cache_ok D (keydir st) fs' (active_fileid st) l'"
    using ok(3) reader_ok_same[OF ok(2)] by (simp add: cache_ok_def)
  then have "storage_inv D (?st\<lparr>pool := rest @ [l']\<rparr>)" using s(1) p by (auto simp: storage_inv_def)
  moreover have "abs_store D (?st\<lparr>pool := rest @ [l']\<rparr>) = abs_store D st"
    using s(2) by (simp add: abs_store_def fun_eq_iff cong: option.case_cong)
  ultimately show ?thesis using h ok p by (intro exI[of _ r] exI[of _ "?st\<lparr>pool := rest @ [l']\<rparr>"]) simp
qed

text \<open>An open storage that returns from a \<open>get\<close> had a reader in its pool.\<close>

lemma handle_get_some:
  assumes D: "deps_laws D" and st: "storage_inv D st" and g: "handle_get D B k st = Some (r, st')" and o: "\<not> closed st"
  shows "io_or (files st) (abs_store D st k) r \<and> storage_inv D st' \<and> abs_store D st' = abs_store D st \<and>
    length (pool st') = length (pool st) \<and> same_files (files st) (files st')"
proof -
  from g o have "pool st \<noteq> []" by (auto simp: handle_get_def)
  from handle_get_ok[OF D st o this, of B k] g show ?thesis by auto
qed

subsection \<open>The engine as a key-value store\<close>

lemma bitcask_refines:
  assumes "deps_laws D"
  shows "kv_store (bitcask_kv D B text) (storage_inv D) (abs_store D)"
proof (unfold_locales, goal_cases)
  case (1 st k v u st')
  then show ?case using put_ok[OF assms, of st B k v u st']
    by (auto simp: bitcask_kv_def handle_put_def guarded_def split: if_splits)
next
  case (2 st k r st')
  from 2(2) have g: "handle_get D B k st = Some (Inr r, st')"
    by (simp add: bitcask_kv_def)
  then have "\<not> closed st" by (auto simp: handle_get_def)
  with handle_get_some[OF assms 2(1) g] show ?case by (simp add: io_or_def)
next
  case (3 st k b st')
  then show ?case using delete_ok[OF assms, of st B k b st']
    by (auto simp: bitcask_kv_def handle_delete_def guarded_def split: if_splits)
qed

end
