(* ===== verification/Statistics.thy ===== *)
theory Statistics
  imports StorageRefine
begin

section \<open>The statistics of the data files are exact\<close>

text \<open>
  For every file the counters add up: the live keys are the entries of the keydir that lie in
  it, live and dead keys are the entries written to it, and the dead bytes are the bytes of
  those that the keydir does not lead to. So the counters neither overflow nor underflow. The
  lemmas are about one entry that is indexed, by the writer or when the storage is rebuilt.
\<close>

subsection \<open>Sums over the keydir\<close>

definition tally :: "(keydir_entry \<Rightarrow> nat) \<Rightarrow> keydir \<Rightarrow> nat" where
  "tally w kd = sum_list (map (w \<circ> snd) kd)"

definition weight_of :: "(keydir_entry \<Rightarrow> nat) \<Rightarrow> keydir_entry option \<Rightarrow> nat" where
  "weight_of w p = (case p of None \<Rightarrow> 0 | Some e \<Rightarrow> w e)"

lemma tally_update: "tally w (AList.update k e kd) + weight_of w (map_of kd k) = tally w kd + w e"
  by (induction kd) (auto simp: tally_def weight_of_def)

lemma tally_delete: "distinct (map fst kd) \<Longrightarrow> tally w (AList.delete k kd) + weight_of w (map_of kd k) = tally w kd"
proof (induction kd)
  case (Cons p kd)
  obtain a e where p: "p = (a, e)" by fastforce
  show ?case
  proof (cases "a = k")
    case True
    with Cons.prems p have "AList.delete k (p # kd) = kd" by (simp add: delete_id)
    then show ?thesis using p True by (simp add: tally_def weight_of_def)
  next
    case False
    with Cons p show ?thesis by (simp add: tally_def)
  qed
qed (simp add: tally_def weight_of_def)

lemma tally_ge: "map_of kd k = Some e \<Longrightarrow> w e \<le> tally w kd"
  by (induction kd) (auto simp: tally_def split: if_splits)

definition here :: "nat \<Rightarrow> keydir_entry \<Rightarrow> nat" where
  "here f e = (if kd_fileid e = f then 1 else 0)"

definition bytes_here :: "nat \<Rightarrow> keydir_entry \<Rightarrow> nat" where
  "bytes_here f e = (if kd_fileid e = f then kd_len e else 0)"

subsection \<open>Exact statistics\<close>

text \<open>\<open>n f\<close> entries of \<open>b f\<close> bytes together were written to file \<open>f\<close>.\<close>

definition stats_exact ::
    "keydir \<Rightarrow> (nat \<times> log_statistics) list \<Rightarrow> (nat \<Rightarrow> nat) \<Rightarrow> (nat \<Rightarrow> nat) \<Rightarrow> bool" where
  "stats_exact kd ss n b \<longleftrightarrow> distinct (map fst ss) \<and> (\<forall>f. let s = stats_of ss f in
     live_keys s = tally (here f) kd \<and> dead_keys s + live_keys s = n f \<and>
     dead_bytes s + tally (bytes_here f) kd = b f)"

definition totals_fit :: "(nat \<Rightarrow> nat) \<Rightarrow> (nat \<Rightarrow> nat) \<Rightarrow> bool" where
  "totals_fit n b \<longleftrightarrow> (\<forall>f. n f < 2 ^ 63 \<and> b f < 2 ^ 63)"

lemma stats_exact_empty: "stats_exact [] [] (\<lambda>_. 0) (\<lambda>_. 0)"
  by (simp add: stats_exact_def stats_of_def default_stats_def tally_def)

lemma stats_of_update [simp]: "stats_of (AList.update f s ss) g = (if g = f then s else stats_of ss g)"
  by (simp add: stats_of_def update_conv')

text \<open>One entry of a file becomes live, and the one before it of the same key dead.\<close>

definition bump :: "nat \<Rightarrow> nat \<Rightarrow> (nat \<Rightarrow> nat) \<Rightarrow> nat \<Rightarrow> nat" where
  "bump f x n = n(f := n f + x)"

lemma add_live_exact: "live_keys s + 1 < 2 ^ 64 \<Longrightarrow> add_live B s = (Inr (), s\<lparr>live_keys := live_keys s + 1\<rparr>)"
  by (simp add: add_live_def)

lemma add_dead_exact:
  "dead_keys s + 1 < 2 ^ 64 \<Longrightarrow> dead_bytes s + x < 2 ^ 64 \<Longrightarrow>
   add_dead B x s = (Inr (), s\<lparr>dead_keys := dead_keys s + 1, dead_bytes := dead_bytes s + x\<rparr>)"
  by (simp add: add_dead_def)

lemma overwrite_exact:
  "1 \<le> live_keys s \<Longrightarrow> dead_keys s + 1 < 2 ^ 64 \<Longrightarrow> dead_bytes s + x < 2 ^ 64 \<Longrightarrow>
   overwrite B x s = (Inr (), s\<lparr>live_keys := live_keys s - 1, dead_keys := dead_keys s + 1, dead_bytes := dead_bytes s + x\<rparr>)"
  by (simp add: overwrite_def)

text \<open>The change of the statistics when an entry of the keydir is replaced or removed.\<close>

definition drop_prev :: "keydir_entry option \<Rightarrow> (nat \<times> log_statistics) list \<Rightarrow> (nat \<times> log_statistics) list" where
  "drop_prev prev ss =
     (case prev of None \<Rightarrow> ss
      | Some p \<Rightarrow> let s = stats_of ss (kd_fileid p) in
          AList.update (kd_fileid p)
            (s\<lparr>live_keys := live_keys s - 1, dead_keys := dead_keys s + 1, dead_bytes := dead_bytes s + kd_len p\<rparr>) ss)"

definition count_live :: "nat \<Rightarrow> (nat \<times> log_statistics) list \<Rightarrow> (nat \<times> log_statistics) list" where
  "count_live f ss = (let s = stats_of ss f in AList.update f (s\<lparr>live_keys := live_keys s + 1\<rparr>) ss)"

definition count_dead :: "nat \<Rightarrow> nat \<Rightarrow> (nat \<times> log_statistics) list \<Rightarrow> (nat \<times> log_statistics) list" where
  "count_dead f x ss =
     (let s = stats_of ss f in AList.update f (s\<lparr>dead_keys := dead_keys s + 1, dead_bytes := dead_bytes s + x\<rparr>) ss)"

lemma stats_exactD:
  assumes "stats_exact kd ss n b"
  shows "live_keys (stats_of ss f) = tally (here f) kd" and "dead_keys (stats_of ss f) + tally (here f) kd = n f"
    and "dead_bytes (stats_of ss f) + tally (bytes_here f) kd = b f"
  using assms unfolding stats_exact_def Let_def by metis+

lemma stats_exact_distinct: "stats_exact kd ss n b \<Longrightarrow> distinct (map fst ss)"
  by (simp add: stats_exact_def)

lemma exact_live:
  assumes "stats_exact kd ss n b"
  shows "stats_exact (AList.update k e kd) (drop_prev (map_of kd k) (count_live (kd_fileid e) ss))
    (bump (kd_fileid e) 1 n) (bump (kd_fileid e) (kd_len e) b)"
  unfolding stats_exact_def Let_def
proof (rule conjI[OF _ allI])
  show "distinct (map fst (drop_prev (map_of kd k) (count_live (kd_fileid e) ss)))"
    using stats_exact_distinct[OF assms] by (auto simp: drop_prev_def count_live_def Let_def distinct_update split: option.split)
next
  fix f
  note s = stats_exactD[OF assms, of f] tally_update[of "here f" k e kd] tally_update[of "bytes_here f" k e kd]
  show "live_keys (stats_of (drop_prev (map_of kd k) (count_live (kd_fileid e) ss)) f) = tally (here f) (AList.update k e kd) \<and>
    dead_keys (stats_of (drop_prev (map_of kd k) (count_live (kd_fileid e) ss)) f) +
      live_keys (stats_of (drop_prev (map_of kd k) (count_live (kd_fileid e) ss)) f) = bump (kd_fileid e) 1 n f \<and>
    dead_bytes (stats_of (drop_prev (map_of kd k) (count_live (kd_fileid e) ss)) f) +
      tally (bytes_here f) (AList.update k e kd) = bump (kd_fileid e) (kd_len e) b f"
  proof (cases "map_of kd k")
    case None
    with s show ?thesis
      by (auto simp: drop_prev_def count_live_def Let_def weight_of_def here_def bytes_here_def bump_def)
  next
    case (Some p)
    with s tally_ge[OF Some, of "here f"] tally_ge[OF Some, of "bytes_here f"] show ?thesis
      by (simp add: drop_prev_def count_live_def Let_def weight_of_def here_def bytes_here_def bump_def split: if_splits)
  qed
qed

lemma exact_dead:
  assumes "stats_exact kd ss n b" and "distinct (map fst kd)"
  shows "stats_exact (AList.delete k kd) (drop_prev (map_of kd k) (count_dead f x ss)) (bump f 1 n) (bump f x b)"
  unfolding stats_exact_def Let_def
proof (rule conjI[OF _ allI])
  show "distinct (map fst (drop_prev (map_of kd k) (count_dead f x ss)))"
    using stats_exact_distinct[OF assms(1)] by (auto simp: drop_prev_def count_dead_def Let_def distinct_update split: option.split)
next
  fix g
  note s = stats_exactD[OF assms(1), of g] tally_delete[OF assms(2), of "here g" k] tally_delete[OF assms(2), of "bytes_here g" k]
  show "live_keys (stats_of (drop_prev (map_of kd k) (count_dead f x ss)) g) = tally (here g) (AList.delete k kd) \<and>
    dead_keys (stats_of (drop_prev (map_of kd k) (count_dead f x ss)) g) +
      live_keys (stats_of (drop_prev (map_of kd k) (count_dead f x ss)) g) = bump f 1 n g \<and>
    dead_bytes (stats_of (drop_prev (map_of kd k) (count_dead f x ss)) g) +
      tally (bytes_here g) (AList.delete k kd) = bump f x b g"
  proof (cases "map_of kd k")
    case None
    with s show ?thesis by (auto simp: drop_prev_def count_dead_def Let_def weight_of_def bump_def)
  next
    case (Some p)
    with s tally_ge[OF Some, of "here g"] tally_ge[OF Some, of "bytes_here g"] show ?thesis
      by (cases "g = f"; cases "kd_fileid p = g")
        (simp_all add: drop_prev_def count_dead_def Let_def weight_of_def here_def bytes_here_def bump_def)
  qed
qed

text \<open>The operations compute these changes as long as the totals fit.\<close>

lemma totals_fit_bounds:
  assumes "stats_exact kd ss n b" and "totals_fit n b"
  shows "live_keys (stats_of ss f) < 2 ^ 63" and "dead_keys (stats_of ss f) < 2 ^ 63" and "dead_bytes (stats_of ss f) < 2 ^ 63"
    and "tally (here f) kd < 2 ^ 63" and "tally (bytes_here f) kd < 2 ^ 63"
  using stats_exactD[OF assms(1), of f] assms(2) unfolding totals_fit_def
  by (metis add_lessD1 trans_less_add1 add.commute le_add2 order_le_less_trans)+

lemma rebuild_add_live:
  assumes "stats_exact kd ss n b" and "totals_fit n b"
  shows "rebuild_stats f (add_live B) (kd', ss, fs) = (Inr (), kd', count_live f ss, fs)"
  using totals_fit_bounds(1)[OF assms, of f] add_live_exact[of "stats_of ss f" B]
  by (simp add: rebuild_stats_def count_live_def Let_def)

lemma rebuild_add_dead:
  assumes "stats_exact kd ss n b" and "totals_fit n b" and "x < 2 ^ 63"
  shows "rebuild_stats f (add_dead B x) (kd', ss, fs) = (Inr (), kd', count_dead f x ss, fs)"
  using totals_fit_bounds(2,3)[OF assms(1,2), of f] assms(3) add_dead_exact[of "stats_of ss f" x B]
  by (simp add: rebuild_stats_def count_dead_def Let_def)

text \<open>What is left of the room for an entry that is dropped, after another was counted.\<close>

lemma drop_room:
  assumes "stats_exact kd ss n b" and "totals_fit n b" and "map_of kd k = Some p" and "x < 2 ^ 63"
    and "ss' = count_live f ss \<or> ss' = count_dead f x ss"
  shows "overwrite B (kd_len p) (stats_of ss' (kd_fileid p)) = (Inr (), let s = stats_of ss' (kd_fileid p) in
     s\<lparr>live_keys := live_keys s - 1, dead_keys := dead_keys s + 1, dead_bytes := dead_bytes s + kd_len p\<rparr>)"
proof -
  let ?g = "kd_fileid p"
  note s = stats_exactD[OF assms(1), of ?g] totals_fit_bounds[OF assms(1,2), of ?g]
  have "1 \<le> live_keys (stats_of ss ?g)" "kd_len p < 2 ^ 63"
    using s tally_ge[OF assms(3), of "here ?g"] tally_ge[OF assms(3), of "bytes_here ?g"]
    by (simp_all add: here_def bytes_here_def)
  moreover have "dead_bytes (stats_of ss ?g) + kd_len p < 2 ^ 63"
    using s(3) tally_ge[OF assms(3), of "bytes_here ?g"] assms(2)
    by (simp add: bytes_here_def totals_fit_def) (metis add_le_cancel_left order_le_less_trans)
  ultimately show ?thesis using assms(4,5) s
    by (subst overwrite_exact) (auto simp: count_live_def count_dead_def Let_def)
qed

lemma rebuild_drop_prev:
  assumes "stats_exact kd ss n b" and "totals_fit n b" and "x < 2 ^ 63"
    and "ss' = count_live f ss \<or> ss' = count_dead f x ss"
  shows "overwrite_prev B (map_of kd k) (kd', ss', fs) = (Inr (), kd', drop_prev (map_of kd k) ss', fs)"
proof (cases "map_of kd k")
  case None
  then show ?thesis by (simp add: overwrite_prev_def drop_prev_def)
next
  case (Some p)
  with drop_room[OF assms(1,2) Some assms(3,4), of B] show ?thesis
    by (simp add: overwrite_prev_def drop_prev_def rebuild_stats_def Let_def)
qed

lemma index_live_exact:
  assumes "stats_exact kd ss n b" and "totals_fit n b"
  obtains ss' where "index_live B k e (kd, ss, fs) = (Inr (), AList.update k e kd, ss', fs)"
    and "stats_exact (AList.update k e kd) ss' (bump (kd_fileid e) 1 n) (bump (kd_fileid e) (kd_len e) b)"
proof (rule that)
  show "index_live B k e (kd, ss, fs) =
      (Inr (), AList.update k e kd, drop_prev (map_of kd k) (count_live (kd_fileid e) ss), fs)"
    using rebuild_add_live[OF assms, of "kd_fileid e" B kd fs] rebuild_drop_prev[OF assms _ disjI1[OF refl], of 0]
    by (simp add: index_live_def)
qed (rule exact_live[OF assms(1)])

lemma index_dead_exact:
  assumes "stats_exact kd ss n b" and "totals_fit n b" and "distinct (map fst kd)" and "x < 2 ^ 63"
  obtains ss' where "index_dead B f x k (kd, ss, fs) = (Inr (), AList.delete k kd, ss', fs)"
    and "stats_exact (AList.delete k kd) ss' (bump f 1 n) (bump f x b)"
proof (rule that)
  show "index_dead B f x k (kd, ss, fs) =
      (Inr (), AList.delete k kd, drop_prev (map_of kd k) (count_dead f x ss), fs)"
    using rebuild_add_dead[OF assms(1,2,4), of f B kd fs] rebuild_drop_prev[OF assms(1,2,4) disjI2[OF refl]]
    by (simp add: index_dead_def)
qed (rule exact_dead[OF assms(1,3)])

end
