(* ===== verification/Recovery.thy ===== *)
theory Recovery
  imports Statistics
begin

section \<open>Rebuilding the storage from its data files\<close>

text \<open>
  The data files of a storage hold the encodings of the entries that were written, in order;
  the last bytes of a file may be the beginning of an entry whose write was cut off. The
  lemmas show that rebuilding replays the entries: its loops end, nothing panics, the keydir
  leads to the last value of every key, and the statistics are exact.
\<close>

subsection \<open>What the data files hold\<close>

definition file_bytes :: "'l deps \<Rightarrow> data_entry list \<Rightarrow> bytes" where
  "file_bytes D es = concat (map (enc_data D) es)"

definition replay :: "data_entry list \<Rightarrow> store \<Rightarrow> store" where
  "replay es m = fold (\<lambda>x m. m(d_key x := d_value x)) es m"

definition torn :: "'l deps \<Rightarrow> bytes \<Rightarrow> bool" where
  "torn D tail \<longleftrightarrow> (\<exists>x c. entry_ok x \<and> c \<noteq> [] \<and> tail @ c = enc_data D x)"

text \<open>File \<open>f\<close> has no hint file and holds the entries \<open>es\<close>.\<close>

definition file_holds :: "'l deps \<Rightarrow> fs \<Rightarrow> nat \<times> data_entry list \<Rightarrow> bool" where
  "file_holds D fs = (\<lambda>(f, es). \<exists>i tail.
     map_of (dir fs) (datafile_name f) = Some i \<and> map_of (dir fs) (hintfile_name f) = None \<and>
     idata fs i = file_bytes D es @ tail \<and> torn D tail \<and> length (idata fs i) < 2 ^ 63 \<and>
     (\<forall>x \<in> set es. entry_ok x))"

text \<open>The data files are those of \<open>logs\<close>, which lists them by id.\<close>

definition logs_ok :: "'l deps \<Rightarrow> fs \<Rightarrow> (nat \<times> data_entry list) list \<Rightarrow> bool" where
  "logs_ok D fs logs \<longleftrightarrow>
     ids_of (map fst (dir fs)) = map fst logs \<and> (\<forall>l \<in> set logs. file_holds D fs l \<and> fst l < 2 ^ 63)"

definition all_entries :: "(nat \<times> data_entry list) list \<Rightarrow> data_entry list" where
  "all_entries logs = concat (map snd logs)"

lemma replay_simps [simp]:
  "replay [] m = m" "replay (x # es) m = replay es (m(d_key x := d_value x))"
  "replay (es @ es') m = replay es' (replay es m)"
  by (simp_all add: replay_def)

lemma file_bytes_simps [simp]:
  "file_bytes D [] = []" "file_bytes D (x # es) = enc_data D x @ file_bytes D es"
  "file_bytes D (es @ es') = file_bytes D es @ file_bytes D es'"
  by (simp_all add: file_bytes_def)

lemma torn_Nil: "deps_laws D \<Longrightarrow> torn D []"
  unfolding torn_def
  by (rule exI[of _ "\<lparr>d_tstamp = 0, d_key = [], d_value = None\<rparr>"])
    (simp add: enc_data_not_empty in_i64_def entry_ok_def)

lemma length_file_bytes:
  assumes "deps_laws D" and "\<forall>x \<in> set es. entry_ok x"
  shows "length es \<le> length (file_bytes D es)"
  using assms(2)
proof (induction es)
  case (Cons x es)
  with deps_laws.enc_data_nonempty[OF assms(1), of x] have "1 \<le> length (enc_data D x)" by (simp add: Suc_le_eq)
  with Cons show ?case by simp
qed simp

subsection \<open>One file\<close>

definition kd_store :: "'l deps \<Rightarrow> keydir \<Rightarrow> fs \<Rightarrow> store" where
  "kd_store D kd fs k = (case map_of kd k of None \<Rightarrow> None | Some e \<Rightarrow> stored D fs e)"

lemma abs_store_kd: "abs_store D st = kd_store D (keydir st) (files st)"
  by (simp add: abs_store_def kd_store_def fun_eq_iff)

lemma kd_store_simps [simp]:
  "kd_store D (AList.update k e kd) fs = (kd_store D kd fs)(k := stored D fs e)"
  "kd_store D (AList.delete k kd) fs = (kd_store D kd fs)(k := None)"
  "kd_store D [] fs = (\<lambda>_. None)"
  by (auto simp: kd_store_def update_conv' delete_conv' fun_eq_iff)

text \<open>What the rebuilding has reached.\<close>

definition rebuilt :: "'l deps \<Rightarrow> nat \<Rightarrow> fs \<Rightarrow> rebuild \<Rightarrow> store \<Rightarrow> (nat \<Rightarrow> nat) \<Rightarrow> (nat \<Rightarrow> nat) \<Rightarrow> bool" where
  "rebuilt D a fs s m n b \<longleftrightarrow> (\<exists>kd ss. s = (kd, ss, fs) \<and> keydir_ok D kd fs a \<and> kd_store D kd fs = m \<and>
     stats_exact kd ss n b \<and> totals_fit n b)"

lemma log_next_entry:
  assumes "deps_laws D" and "faults fs = []" and "idata fs (it_file it) = pre @ enc_data D x @ rest"
    and "it_pos it = length pre" and "entry_ok x" and "length (idata fs (it_file it)) < 2 ^ 63"
  shows "log_next (dec_data D) B it fs =
    (Inr (Some (\<lparr>ix_len = length (enc_data D x), ix_pos = length pre\<rparr>, x)),
     it\<lparr>it_pos := length pre + length (enc_data D x)\<rparr>, fs)"
  using assms deps_laws.dec_enc_data[OF assms(1,5), of rest] by (simp add: log_next_def Let_def)

lemma log_next_end:
  assumes "deps_laws D" and "faults fs = []" and "idata fs (it_file it) = pre @ tail"
    and "it_pos it = length pre" and "torn D tail"
  shows "log_next (dec_data D) B it fs = (Inr None, it, fs)"
proof -
  from assms(5) obtain x c where "entry_ok x" "c \<noteq> []" "tail @ c = enc_data D x" by (auto simp: torn_def)
  then have "dec_data D tail = Inl UnexpectedEof" by (intro deps_laws.dec_data_cut[OF assms(1)])
  with assms show ?thesis by (simp add: log_next_def Let_def)
qed

lemma located_at:
  assumes "map_of (dir fs) (datafile_name f) = Some i" and "idata fs i = pre @ enc_data D x @ rest"
    and "entry_ok x" and "length (idata fs i) < 2 ^ 63"
  shows "located D fs \<lparr>kd_fileid = f, kd_len = length (enc_data D x), kd_pos = length pre, kd_tstamp = t\<rparr> x"
  using assms sub_slice_middle[of pre "enc_data D x" rest] by (auto simp: located_def)

lemma bump_bump: "bump f x (bump f y n) = bump f (y + x) n"
  by (simp add: bump_def fun_eq_iff)

lemma totals_fit_bump:
  "totals_fit n b \<Longrightarrow> n f + x < 2 ^ 63 \<Longrightarrow> b f + y < 2 ^ 63 \<Longrightarrow> totals_fit (bump f x n) (bump f y b)"
  by (simp add: totals_fit_def bump_def)

text \<open>One step of the loop over a data file.\<close>

lemma index_step:
  assumes D: "deps_laws D" and s: "rebuilt D a fs (kd, ss, fs) m n b" and f: "f \<le> a"
    and x: "entry_ok x" "located D fs e x" and e: "e = \<lparr>kd_fileid = f, kd_len = len, kd_pos = pos, kd_tstamp = d_tstamp x\<rparr>"
    and fit: "n f + 1 < 2 ^ 63" "b f + len < 2 ^ 63"
  shows "\<exists>s'. (case d_value x of None \<Rightarrow> index_dead B f len (d_key x) (kd, ss, fs)
      | Some v \<Rightarrow> index_live B (d_key x) e (kd, ss, fs)) = (Inr (), s') \<and>
    rebuilt D a fs s' (m(d_key x := d_value x)) (bump f 1 n) (bump f len b)"
proof -
  have kd: "keydir_ok D kd fs a" "kd_store D kd fs = m" "stats_exact kd ss n b" "totals_fit n b"
    using s by (simp_all add: rebuilt_def)
  note t = totals_fit_bump[OF kd(4) fit]
  show ?thesis
  proof (cases "d_value x")
    case None
    from index_dead_exact[OF kd(3,4) keydir_okD(1)[OF kd(1)], of len B f "d_key x" fs] fit(2) obtain ss' where
      "index_dead B f len (d_key x) (kd, ss, fs) = (Inr (), AList.delete (d_key x) kd, ss', fs)"
      "stats_exact (AList.delete (d_key x) kd) ss' (bump f 1 n) (bump f len b)" by auto
    with None t keydir_ok_delete[OF kd(1)] kd(2) show ?thesis by (auto simp: rebuilt_def)
  next
    case (Some v)
    from index_live_exact[OF kd(3,4), of B "d_key x" e fs] e obtain ss' where
      "index_live B (d_key x) e (kd, ss, fs) = (Inr (), AList.update (d_key x) e kd, ss', fs)"
      "stats_exact (AList.update (d_key x) e kd) ss' (bump f 1 n) (bump f len b)" by auto
    moreover have "keydir_ok D (AList.update (d_key x) e kd) fs a"
      using keydir_ok_update[OF kd(1) _ x(2)] e f Some by simp
    ultimately show ?thesis
      using Some t kd(2) stored_located[OF D x(2)] by (auto simp: rebuilt_def)
  qed
qed

lemma data_loop_replays:
  assumes D: "deps_laws D" and fs: "faults fs = []" "map_of (dir fs) (datafile_name f) = Some i" "length (idata fs i) < 2 ^ 63"
    and f: "f \<le> a" and tail: "torn D tail"
    and "idata fs i = pre @ file_bytes D es @ tail" and "\<forall>x \<in> set es. entry_ok x"
    and "it = \<lparr>it_pos = length pre, it_file = i\<rparr>" and "rebuilt D a fs s m n b"
    and "n f + length es < 2 ^ 63" and "b f + length (file_bytes D es) < 2 ^ 63"
  shows "\<exists>s'. data_loop D B f it s = Some (Inr (), s') \<and>
    rebuilt D a fs s' (replay es m) (bump f (length es) n) (bump f (length (file_bytes D es)) b)"
  using assms(7-12)
proof (induction es arbitrary: pre it s m n b)
  case Nil
  then have s: "s = (fst s, fst (snd s), fs)" by (auto simp: rebuilt_def)
  have "log_next (dec_data D) B it fs = (Inr None, it, fs)"
    by (rule log_next_end[OF D fs(1) _ _ tail, of _ pre]) (use Nil.prems in simp_all)
  with Nil.prems(4) s show ?case
    by (subst data_loop.simps) (auto simp: bump_def split: prod.split)
next
  case (Cons x es)
  let ?len = "length (enc_data D x)"
  let ?e = "\<lparr>kd_fileid = f, kd_len = ?len, kd_pos = length pre, kd_tstamp = d_tstamp x\<rparr>"
  obtain kd ss where s: "s = (kd, ss, fs)" using Cons.prems(4) by (auto simp: rebuilt_def)
  have x: "entry_ok x" using Cons.prems(2) by simp
  have held: "idata fs i = pre @ enc_data D x @ (file_bytes D es @ tail)" using Cons.prems(1) by simp
  have next_x: "log_next (dec_data D) B it fs = (Inr (Some (\<lparr>ix_len = ?len, ix_pos = length pre\<rparr>, x)),
     it\<lparr>it_pos := length pre + ?len\<rparr>, fs)"
    using log_next_entry[OF D fs(1) _ _ x, of it pre _ B] held Cons.prems(3) fs(3) by simp
  have fit: "n f + 1 < 2 ^ 63" "b f + ?len < 2 ^ 63" using Cons.prems(5,6) by simp_all
  obtain s' where i: "(case d_value x of None \<Rightarrow> index_dead B f ?len (d_key x) (kd, ss, fs)
      | Some v \<Rightarrow> index_live B (d_key x) ?e (kd, ss, fs)) = (Inr (), s')"
    and s': "rebuilt D a fs s' (m(d_key x := d_value x)) (bump f 1 n) (bump f ?len b)"
    using index_step[OF D Cons.prems(4)[unfolded s] f x located_at[OF fs(2) held x fs(3)] refl fit] by blast
  have step: "data_loop D B f it s = data_loop D B f (it\<lparr>it_pos := length pre + ?len\<rparr>) s'"
    unfolding s by (subst data_loop.simps) (simp add: next_x i cong: option.case_cong)
  have "\<exists>s''. data_loop D B f (it\<lparr>it_pos := length pre + ?len\<rparr>) s' = Some (Inr (), s'') \<and>
    rebuilt D a fs s'' (replay es (m(d_key x := d_value x))) (bump f (length es) (bump f 1 n))
      (bump f (length (file_bytes D es)) (bump f ?len b))"
    by (rule Cons.IH[of "pre @ enc_data D x", OF _ _ _ s'])
      (use Cons.prems held in \<open>simp_all add: bump_def\<close>)
  with step show ?case by (simp add: bump_bump)
qed

lemma populate_file_replays:
  assumes D: "deps_laws D" and fs: "faults fs = []" and h: "file_holds D fs (f, es)" and f: "f \<le> a"
    and s: "rebuilt D a fs s m n b" and new: "n f = 0" "b f = 0"
  shows "\<exists>s'. populate_file D B f s = Some (Inr (), s') \<and>
    rebuilt D a fs s' (replay es m) (n(f := length es)) (b(f := length (file_bytes D es)))"
proof -
  from h obtain i tail where i: "map_of (dir fs) (datafile_name f) = Some i" "map_of (dir fs) (hintfile_name f) = None"
    and held: "idata fs i = file_bytes D es @ tail" "torn D tail" "length (idata fs i) < 2 ^ 63" "\<forall>x \<in> set es. entry_ok x"
    by (auto simp: file_holds_def)
  obtain kd ss where kd: "s = (kd, ss, fs)" using s by (auto simp: rebuilt_def)
  have "populate_keydir_with_hintfile D B f s = Some (Inl (Err (BcIo NotFound)), s)"
    using fs i(2) by (simp add: populate_keydir_with_hintfile_def open_iter_def kd open_read_def)
  then have "populate_file D B f s = populate_keydir_with_datafile D B f s" by (simp add: populate_file_def)
  also have "\<dots> = data_loop D B f \<lparr>it_pos = 0, it_file = i\<rparr> s"
    using fs i(1) by (simp add: populate_keydir_with_datafile_def open_iter_def kd open_read_def log_iter_new_def)
  finally have run: "populate_file D B f s = data_loop D B f \<lparr>it_pos = 0, it_file = i\<rparr> s" .
  have "length es \<le> length (file_bytes D es)" "length (file_bytes D es) \<le> length (idata fs i)"
    using length_file_bytes[OF D held(4)] held(1) by simp_all
  then have "\<exists>s'. data_loop D B f \<lparr>it_pos = 0, it_file = i\<rparr> s = Some (Inr (), s') \<and>
    rebuilt D a fs s' (replay es m) (bump f (length es) n) (bump f (length (file_bytes D es)) b)"
    by (intro data_loop_replays[OF D fs i(1) held(3) f held(2), of "[]"]) (use held s new in auto)
  with run new show ?thesis by (simp add: bump_def)
qed

subsection \<open>All files\<close>

definition newest :: "nat option \<Rightarrow> nat list \<Rightarrow> nat option" where
  "newest active ids = fold (\<lambda>f a. case a of None \<Rightarrow> Some f | Some i \<Rightarrow> Some (if i < f then f else i)) ids active"

text \<open>The number of entries and of bytes that the files hold.\<close>

definition count_on :: "(data_entry list \<Rightarrow> nat) \<Rightarrow> (nat \<times> data_entry list) list \<Rightarrow> (nat \<Rightarrow> nat) \<Rightarrow> nat \<Rightarrow> nat" where
  "count_on g logs n f = (case map_of logs f of None \<Rightarrow> n f | Some es \<Rightarrow> g es)"

abbreviation entry_count :: "(nat \<times> data_entry list) list \<Rightarrow> nat \<Rightarrow> nat" where
  "entry_count logs \<equiv> count_on length logs (\<lambda>_. 0)"

abbreviation byte_count :: "'l deps \<Rightarrow> (nat \<times> data_entry list) list \<Rightarrow> nat \<Rightarrow> nat" where
  "byte_count D logs \<equiv> count_on (\<lambda>es. length (file_bytes D es)) logs (\<lambda>_. 0)"

lemma count_on_Cons: "f \<notin> set (map fst logs) \<Longrightarrow> count_on g logs (n(f := g es)) = count_on g ((f, es) # logs) n"
  by (auto simp: count_on_def fun_eq_iff split: option.split dest: map_of_SomeD)
    (metis map_of_SomeD fst_conv image_eqI option.simps(3))

lemma populate_files_replays:
  assumes D: "deps_laws D" and fs: "faults fs = []"
    and "\<forall>l \<in> set logs. file_holds D fs l \<and> fst l \<le> a" and "distinct (map fst logs)"
    and "rebuilt D a fs s m n b" and "\<forall>f \<in> set (map fst logs). n f = 0 \<and> b f = 0"
  shows "\<exists>s'. populate_files D B (map fst logs) active s = Some (Inr (newest active (map fst logs)), s') \<and>
    rebuilt D a fs s' (replay (all_entries logs) m) (count_on length logs n)
      (count_on (\<lambda>es. length (file_bytes D es)) logs b)"
  using assms(3-6)
proof (induction logs arbitrary: active s m n b)
  case Nil
  then show ?case by (auto simp: newest_def all_entries_def count_on_def)
next
  case (Cons l logs)
  obtain f es where l: "l = (f, es)" by fastforce
  let ?n = "n(f := length es)" and ?b = "b(f := length (file_bytes D es))"
  from Cons.prems l obtain s1 where 1: "populate_file D B f s = Some (Inr (), s1)"
    "rebuilt D a fs s1 (replay es m) ?n ?b"
    using populate_file_replays[OF D fs, of f es a s m n b B] by auto
  let ?active = "case active of None \<Rightarrow> Some f | Some i \<Rightarrow> Some (if i < f then f else i)"
  have new: "f \<notin> set (map fst logs)" using Cons.prems(2) l by simp
  then have z: "\<forall>g \<in> set (map fst logs). ?n g = 0 \<and> ?b g = 0" using Cons.prems(4) l by auto
  have "\<forall>l \<in> set logs. file_holds D fs l \<and> fst l \<le> a" "distinct (map fst logs)" using Cons.prems(1,2) by simp_all
  from Cons.IH[OF this 1(2) z, of ?active] obtain s2 where
    "populate_files D B (map fst logs) ?active s1 = Some (Inr (newest ?active (map fst logs)), s2)"
    "rebuilt D a fs s2 (replay (all_entries logs) (replay es m)) (count_on length logs ?n)
      (count_on (\<lambda>es. length (file_bytes D es)) logs ?b)" by blast
  with 1(1) l show ?case
    using count_on_Cons[OF new, of length n es] count_on_Cons[OF new, of "\<lambda>es. length (file_bytes D es)" b es]
    by (auto simp: newest_def all_entries_def Let_def)
qed

lemma newest_Some: "newest (Some i) ids = Some (Max (insert i (set ids)))"
proof (induction ids arbitrary: i)
  case (Cons f ids)
  have "newest (Some i) (f # ids) = newest (Some (max i f)) ids"
    by (simp add: newest_def max_def not_less)
  also have "\<dots> = Some (Max (insert i (set (f # ids))))"
    using Cons.IH[of "max i f"] by (cases "set ids = {}") (simp_all add: newest_def max.assoc)
  finally show ?case .
qed (simp add: newest_def)

lemma newest_None: "newest None ids = (if ids = [] then None else Some (Max (set ids)))"
proof (cases ids)
  case (Cons f ids')
  have "newest None (f # ids') = newest (Some f) ids'" by (simp add: newest_def)
  with Cons show ?thesis by (simp add: newest_Some)
qed (simp add: newest_def)

definition next_id :: "nat list \<Rightarrow> nat" where
  "next_id ids = (if ids = [] then 0 else Max (set ids) + 1)"

lemma next_id_gt: "f \<in> set ids \<Longrightarrow> f < next_id ids"
  by (auto simp: next_id_def less_Suc_eq_le)

lemma rebuild_storage_replays:
  assumes D: "deps_laws D" and fs: "faults fs = []" and logs: "logs_ok D fs logs" and small: "next_id (map fst logs) < 2 ^ 64"
  shows "\<exists>s. rebuild_storage D B fs = Some (Inr (next_id (map fst logs)), s) \<and>
    rebuilt D (next_id (map fst logs)) fs s (replay (all_entries logs) (\<lambda>_. None)) (entry_count logs) (byte_count D logs)"
proof -
  let ?a = "next_id (map fst logs)"
  have ids: "sorted_fileids fs = (Inr (map fst logs), fs)" "distinct (map fst logs)"
    using fs logs ids_of_sorted(2)[of "map fst (dir fs)"] by (simp_all add: sorted_fileids_def read_dir_def logs_ok_def)
  have "\<forall>l \<in> set logs. file_holds D fs l \<and> fst l \<le> ?a"
    using logs next_id_gt[of _ "map fst logs"] by (auto simp: logs_ok_def intro: less_imp_le)
  moreover have "rebuilt D ?a fs ([], [], fs) (\<lambda>_. None) (\<lambda>_. 0) (\<lambda>_. 0)"
    by (simp add: rebuilt_def keydir_ok_def stats_exact_empty totals_fit_def)
  ultimately obtain s where
    run: "populate_files D B (map fst logs) None ([], [], fs) = Some (Inr (newest None (map fst logs)), s)"
    and s: "rebuilt D ?a fs s (replay (all_entries logs) (\<lambda>_. None)) (entry_count logs) (byte_count D logs)"
    using populate_files_replays[OF D fs, of logs ?a "([], [], fs)" "\<lambda>_. None" "\<lambda>_. 0" "\<lambda>_. 0" B None] ids(2) by auto
  have "rebuild_storage D B fs = Some (Inr ?a, s)"
    using small u64_add_exact[of "Max (set (map fst logs))" 1 B] run
    by (cases "logs = []") (simp_all add: rebuild_storage_def ids(1) run newest_None next_id_def del: u64_add_exact)
  with s show ?thesis by blast
qed

end
