(* ===== verification/Durability.thy ===== *)
theory Durability
  imports Recovery
begin

section \<open>What was written is on disk\<close>

text \<open>
  The data files of an open storage hold the entries it wrote, in the order of their writes, so
  a storage that is opened on them again stands for the same store. \<open>durable\<close> says so, with the
  list of the older files and the entries of the active one; writing keeps it.
\<close>

subsection \<open>The files of an open storage\<close>

definition no_hints :: "fs \<Rightarrow> bool" where
  "no_hints fs \<longleftrightarrow> (\<forall>f. map_of (dir fs) (hintfile_name f) = None)"

text \<open>No other name, like one with leading zeros, has the id \<open>f\<close>.\<close>

definition only_name :: "fs \<Rightarrow> nat \<Rightarrow> bool" where
  "only_name fs f \<longleftrightarrow> (\<forall>name \<in> set (map fst (dir fs)). fileid_of name = Some f \<longrightarrow> name = datafile_name f)"

definition on_disk :: "'l deps \<Rightarrow> 'l storage \<Rightarrow> (nat \<times> data_entry list) list \<Rightarrow> data_entry list \<Rightarrow> bool" where
  "on_disk D st old es \<longleftrightarrow>
     no_hints (files st) \<and> ids_of (map fst (dir (files st))) = map fst old @ [active_fileid st] \<and>
     only_name (files st) (active_fileid st) \<and>
     (\<forall>l \<in> set (old @ [(active_fileid st, es)]). file_holds D (files st) l) \<and>
     idata (files st) (bw_file (w_log st)) = file_bytes D es \<and> bw_buf (w_log st) = []"

lemma fs_ok_inj:
  assumes "fs_ok fs" and "map_of (dir fs) x = Some i" and "map_of (dir fs) y = Some i"
  shows "x = y"
proof -
  have inj: "inj_on snd (set (dir fs))" using assms(1) by (simp add: fs_ok_def distinct_map)
  have "(x, i) = (y, i)"
    by (rule inj_onD[OF inj _ map_of_SomeD[OF assms(2)] map_of_SomeD[OF assms(3)]]) simp
  then show ?thesis by simp
qed

lemma file_holds_same:
  assumes "file_holds D fs (f, es)" and "map_of (dir fs') (datafile_name f) = map_of (dir fs) (datafile_name f)"
    and "map_of (dir fs') (hintfile_name f) = None"
    and "\<And>i. map_of (dir fs) (datafile_name f) = Some i \<Longrightarrow> idata fs' i = idata fs i"
  shows "file_holds D fs' (f, es)"
  using assms by (force simp: file_holds_def)

lemma old_not_active: "on_disk D st old es \<Longrightarrow> (f, es') \<in> set old \<Longrightarrow> f \<noteq> active_fileid st"
  using ids_of_sorted(2)[of "map fst (dir (files st))"] by (force simp: on_disk_def)

lemma on_disk_quiet:
  assumes "on_disk D st old es" and "quiet st st'"
  shows "on_disk D st' old es"
proof -
  have same: "dir (files st') = dir (files st)" "idata (files st') = idata (files st)"
    "w_log st' = w_log st" "active_fileid st' = active_fileid st"
    using assms(2) by (simp_all add: quiet_def same_files_def)
  then have "file_holds D (files st') l = file_holds D (files st) l" for l
    by (simp add: file_holds_def split: prod.split)
  with assms(1) same show ?thesis by (simp add: on_disk_def no_hints_def only_name_def)
qed

lemma on_disk_append:
  assumes D: "deps_laws D" and st: "ready st" "on_disk D st old es" and x: "in_i64 (d_tstamp x)"
    and a: "append_active B (enc_data D x) st = (Inr ix, st')"
  shows "on_disk D st' old (es @ [x])"
proof -
  let ?i = "bw_file (w_log st)"
  have i: "map_of (dir (files st)) (datafile_name (active_fileid st)) = Some ?i" and ok: "fs_ok (files st)"
    using st(1) by (simp_all add: ready_def writer_ok_def)
  note w = append_active_Inr[OF a enc_data_not_empty[OF D x] st(1)]
  have b: "bw_buf (w_log st) = []" "idata (files st) ?i = file_bytes D es" using st(2) by (simp_all add: on_disk_def)
  from w(1) b(1) have g: "dir (files st') = dir (files st)"
    "idata (files st') = (idata (files st))(?i := idata (files st) ?i @ enc_data D x)" by (simp_all add: grown_def)
  have len: "length (idata (files st) ?i) + length (enc_data D x) < 2 ^ 63" using w(3) by simp
  have id: "active_fileid st' = active_fileid st" by (rule append_active_step(2)[OF a _ st(1)]) simp
  have "file_holds D (files st') l" if l: "l \<in> set old" for l
  proof -
    obtain f es' where fe: "l = (f, es')" by fastforce
    have "j \<noteq> ?i" if "map_of (dir (files st)) (datafile_name f) = Some j" for j
      using fs_ok_inj[OF ok that, of "datafile_name (active_fileid st)"] i old_not_active[OF st(2), of f es'] l fe by auto
    then have same: "idata (files st') j = idata (files st) j" if "map_of (dir (files st)) (datafile_name f) = Some j" for j
      using g(2) that by simp
    have h: "file_holds D (files st) (f, es')" using st(2) l fe by (auto simp: on_disk_def)
    have hint: "map_of (dir (files st')) (hintfile_name f) = None" using st(2) g(1) by (simp add: on_disk_def no_hints_def)
    show ?thesis unfolding fe
      by (rule file_holds_same[OF h _ hint]) (simp_all add: g(1) same)
  qed
  moreover have "file_holds D (files st') (active_fileid st, es @ [x])"
  proof -
    have "\<forall>y \<in> set (es @ [x]). entry_ok y"
      using st(2) entry_ok_small[OF D x] len by (auto simp: on_disk_def file_holds_def)
    then show ?thesis
      using i g b len torn_Nil[OF D] st(2) by (auto simp: file_holds_def on_disk_def no_hints_def intro!: exI[of _ "[]"])
  qed
  ultimately show ?thesis
    using st(2) g b id w(4,5) by (simp add: on_disk_def no_hints_def only_name_def)
qed

text \<open>A new file has the greatest id.\<close>

lemma ids_of_new:
  assumes "n < 2 ^ 64" and "\<forall>f \<in> set (ids_of names). f < n"
  shows "ids_of (datafile_name n # names) = ids_of names @ [n]"
proof (rule sorted_distinct_set_unique)
  show "sorted (ids_of names @ [n])" "distinct (ids_of names @ [n])"
    using assms(2) by (auto simp: sorted_append intro: less_imp_le)
  show "set (ids_of (datafile_name n # names)) = set (ids_of names @ [n])"
    using assms(1) by (auto simp: set_ids_of)
qed simp_all

lemma only_name_new:
  assumes "\<forall>f \<in> set (ids_of (map fst d)). f < n" and "dir fs = (datafile_name n, i) # d"
  shows "only_name fs n"
  using assms by (force simp: only_name_def set_ids_of)

lemma ids_of_sorted_last: "ids_of names = ids @ [a] \<Longrightarrow> \<forall>f \<in> set (ids_of names). f \<le> a"
  using ids_of_sorted(1)[of names] by (auto simp: sorted_append)

lemma bw_drop_empty: "bw_buf w = [] \<Longrightarrow> bw_drop w fs = fs"
  by (simp add: bw_drop_def bw_flush_def write_file_def)

lemma file_holds_create:
  assumes "file_holds D fs l" and "dir fs' = (datafile_name n, inext fs) # dir fs" and "fst l \<noteq> n"
    and "fs_ok fs" and "\<And>j. j < inext fs \<Longrightarrow> idata fs' j = idata fs j"
  shows "file_holds D fs' l"
proof -
  obtain f es where l: "l = (f, es)" by fastforce
  show ?thesis unfolding l
    by (rule file_holds_same[of D fs]) (use assms l fs_ok_inode[OF assms(4)] in \<open>auto simp: file_holds_def\<close>)
qed

lemma on_disk_rotate:
  assumes D: "deps_laws D" and st: "ready st" "on_disk D st old es"
    and n: "next_active_datafile B st = (Inr u, st')"
  shows "on_disk D st' (old @ [(active_fileid st, es)]) []"
    and "w_stats st' = w_stats st" and "written_bytes st' = 0" and "active_fileid st' = Suc (active_fileid st)"
proof -
  let ?a = "active_fileid st" and ?fs = "files st"
  have ok: "fs_ok ?fs" using st(1) by (simp add: ready_def)
  from n obtain m where m: "u64_add B ?a 1 = (Inr m :: (bc_error, nat) result)"
    and new: "new_active_datafile m st = (Inr u, st')" by (auto simp: next_active_datafile_def split: sum.splits)
  have nil: "bw_buf (w_log st) = []" using st(2) by (simp add: on_disk_def)
  from new_active_datafile_Inr[OF new, unfolded bw_drop_empty[OF nil]] obtain fs w where cr: "log_create (datafile_name m) ?fs = (Inr w, fs)"
    and st': "st' = st\<lparr>active_fileid := m, w_log := w, files := fs, written_bytes := 0\<rparr>"
    by blast
  note c = log_create_Inr[OF cr ok]
  have m': "m = Suc ?a" using u64_add_Inr[OF m] st(1) c(7) by (simp add: ready_def)
  show "w_stats st' = w_stats st" "written_bytes st' = 0" "active_fileid st' = Suc ?a" using st' m' by simp_all
  have ids: "ids_of (map fst (dir ?fs)) = map fst old @ [?a]" using st(2) by (simp add: on_disk_def)
  have "m < 2 ^ 64" using m' st(1) c(7) by (simp add: ready_def)
  moreover have "\<forall>f \<in> set (ids_of (map fst (dir ?fs))). f < m" using ids_of_sorted_last[OF ids] m' by auto
  ultimately have "ids_of (map fst (dir fs)) = map fst (old @ [(?a, es)]) @ [m]"
    using ids_of_new[of m "map fst (dir ?fs)"] ids c(4) by simp
  moreover have "file_holds D fs l" if "l \<in> set (old @ [(?a, es)])" for l
  proof (rule file_holds_create[OF _ c(4) _ ok c(9)])
    show "file_holds D ?fs l" using st(2) that by (auto simp: on_disk_def)
    have "fst l \<in> set (ids_of (map fst (dir ?fs)))" using that ids by auto
    with ids_of_sorted_last[OF ids] m' show "fst l \<noteq> m" by auto
  qed
  moreover have "file_holds D fs (m, [])"
    using c(4,5) torn_Nil[OF D] st(2) by (auto simp: file_holds_def on_disk_def no_hints_def)
  moreover have "only_name fs m"
    using only_name_new[of "dir ?fs" m fs] \<open>\<forall>f \<in> set (ids_of (map fst (dir ?fs))). f < m\<close> c(4) by blast
  ultimately show "on_disk D st' (old @ [(?a, es)]) []"
    using st' st(2) c(1,4,5) by (auto simp: on_disk_def no_hints_def)
qed

subsection \<open>Writing keeps it\<close>

lemma on_disk_cong:
  assumes "files st' = files st" and "w_log st' = w_log st" and "active_fileid st' = active_fileid st"
  shows "on_disk D st' old es = on_disk D st old es"
  using assms by (simp add: on_disk_def)

definition the_logs :: "'l storage \<Rightarrow> (nat \<times> data_entry list) list \<Rightarrow> data_entry list \<Rightarrow> (nat \<times> data_entry list) list" where
  "the_logs st old es = old @ [(active_fileid st, es)]"

lemma count_on_logs:
  assumes "a \<notin> set (map fst old)"
  shows "count_on g (old @ [(a, es)]) n f = (if f = a then g es else count_on g old n f)"
proof -
  have "map_of old a = None" using assms by (simp add: map_of_eq_None_iff)
  then show ?thesis by (auto simp: count_on_def map_add_def split: option.split)
qed

lemma active_not_old: "on_disk D st old es \<Longrightarrow> active_fileid st \<notin> set (map fst old)"
  using old_not_active[of D st old es] by force

lemma all_entries_logs [simp]: "all_entries (the_logs st old es) = all_entries old @ es"
  by (simp add: all_entries_def the_logs_def)

lemma totals_fit_logs:
  assumes "deps_laws D" and "\<forall>l \<in> set logs. file_holds D fs l"
  shows "totals_fit (entry_count logs) (byte_count D logs)"
  unfolding totals_fit_def
proof (intro allI)
  fix f
  show "entry_count logs f < 2 ^ 63 \<and> byte_count D logs f < 2 ^ 63"
  proof (cases "map_of logs f")
    case (Some es)
    from map_of_SomeD[OF Some] assms(2) have "file_holds D fs (f, es)" by auto
    then have "length (file_bytes D es) < 2 ^ 63" "\<forall>x \<in> set es. entry_ok x" by (auto simp: file_holds_def)
    with length_file_bytes[OF assms(1) this(2)] Some show ?thesis by (simp add: count_on_def)
  qed (simp add: count_on_def)
qed

lemma after_append_Inr:
  assumes "after_append B v ix st = (Inr u, st')" and "written_bytes st + ix_len ix < 2 ^ 64"
    and "stats_exact kd (w_stats st) n b" and "totals_fit n b" and "ix_len ix < 2 ^ 63"
  shows "written_bytes st' = written_bytes st + ix_len ix"
    and "w_stats st' = (if v \<noteq> None then count_live (active_fileid st) (w_stats st)
      else count_dead (active_fileid st) (ix_len ix) (w_stats st))"
proof -
  let ?w1 = "\<lambda>s. if sync (conf s) = SyncAlways then on_files (log_sync (w_log s)) s else (Inr (), s)"
  let ?w2 = "\<lambda>s. assign (u64_add B (written_bytes s) (ix_len ix)) (\<lambda>n st. st\<lparr>written_bytes := n\<rparr>) s"
  from assms(1) obtain u1 u2 s1 s2 where 1: "?w1 st = (Inr u1, s1)"
    and 2: "?w2 s1 = (Inr u2 :: (bc_error, unit) result, s2)" and
    3: "with_stats (active_fileid s2) (if v \<noteq> None then add_live B else add_dead B (ix_len ix)) s2 = (Inr u, st')"
    unfolding after_append_def by (elim try_op_InrE) (rule that; assumption)
  have s1: "written_bytes s1 = written_bytes st" "w_stats s1 = w_stats st" "active_fileid s1 = active_fileid st"
    using 1 by (auto simp: on_files_def split: if_splits prod.splits)
  have s2: "written_bytes s2 = written_bytes st + ix_len ix" "w_stats s2 = w_stats st" "active_fileid s2 = active_fileid st"
    using 2 s1 assms(2) by auto
  let ?s = "stats_of (w_stats st) (active_fileid st)"
  note fit = totals_fit_bounds[OF assms(3,4), of "active_fileid st"]
  have live: "add_live B ?s = (Inr (), ?s\<lparr>live_keys := live_keys ?s + 1\<rparr>)"
    using fit(1) by (intro add_live_exact) simp
  have dead: "add_dead B (ix_len ix) ?s =
      (Inr (), ?s\<lparr>dead_keys := dead_keys ?s + 1, dead_bytes := dead_bytes ?s + ix_len ix\<rparr>)"
    using fit(2,3) assms(5) by (intro add_dead_exact) simp_all
  show "written_bytes st' = written_bytes st + ix_len ix"
    "w_stats st' = (if v \<noteq> None then count_live (active_fileid st) (w_stats st)
      else count_dead (active_fileid st) (ix_len ix) (w_stats st))"
    using 3 s2 live dead
    by (auto simp: with_stats_def count_live_def count_dead_def Let_def split: prod.splits if_splits)
qed

text \<open>After a write: what the files hold, and what is counted.\<close>

definition wrote :: "'l deps \<Rightarrow> 'l storage \<Rightarrow> (nat \<times> data_entry list) list \<Rightarrow> data_entry list \<Rightarrow> data_entry \<Rightarrow> 'l storage \<Rightarrow> bool" where
  "wrote D st old es x st' \<longleftrightarrow> (\<exists>old' es'. on_disk D st' old' es' \<and>
     all_entries old' @ es' = all_entries old @ es @ [x] \<and> written_bytes st' = length (file_bytes D es') \<and>
     entry_count (the_logs st' old' es') = bump (active_fileid st) 1 (entry_count (the_logs st old es)) \<and>
     byte_count D (the_logs st' old' es') =
       bump (active_fileid st) (length (enc_data D x)) (byte_count D (the_logs st old es)))"

lemma write_entry_disk:
  assumes D: "deps_laws D" and st: "ready st" "on_disk D st old es" and t: "in_i64 t"
    and w: "write_entry D B t k v st = (Inr e, st')" and wb: "written_bytes st = length (file_bytes D es)"
    and ex: "stats_exact kd (w_stats st) n b" "totals_fit n b"
  shows "wrote D st old es \<lparr>d_tstamp = t, d_key = k, d_value = v\<rparr> st'"
    and "kd_len e = length (enc_data D \<lparr>d_tstamp = t, d_key = k, d_value = v\<rparr>)" and "kd_len e < 2 ^ 63"
    and "w_stats st' = (if v \<noteq> None then count_live (active_fileid st) (w_stats st)
      else count_dead (active_fileid st) (kd_len e) (w_stats st))"
proof -
  let ?x = "\<lparr>d_tstamp = t, d_key = k, d_value = v\<rparr>"
  let ?w3 = "\<lambda>s. if max_file_size (conf s) < written_bytes s then next_active_datafile B s else (Inr (), s)"
  from w obtain ix s1 s2 s3 u2 u3 where
    1: "append_active B (enc_data D ?x) st = (Inr ix, s1)" and 2: "after_append B v ix s1 = (Inr u2, s2)" and
    3: "?w3 s2 = (Inr u3, s3)" and
    out: "(Inr \<lparr>kd_fileid = active_fileid s2, kd_len = ix_len ix, kd_pos = ix_pos ix, kd_tstamp = t\<rparr>, s3) =
      (Inr e :: (bc_error, keydir_entry) result, st')"
    unfolding write_entry_after by (elim try_op_InrE) (rule that; assumption)
  have x: "in_i64 (d_tstamp ?x)" using t by simp
  note a = append_active_Inr[OF 1 enc_data_not_empty[OF D x] st(1)] and s1 = append_active_step[OF 1 _ st(1)]
  have len: "ix_len ix = length (enc_data D ?x)" using a(2) by simp
  have fit: "length (file_bytes D es) + ix_len ix < 2 ^ 63" using a(3) st(2) len by (simp add: on_disk_def)
  have wfit: "written_bytes s1 + ix_len ix < 2 ^ 64" using fit wb a(6) by simp
  have ex1: "stats_exact kd (w_stats s1) n b" using ex(1) a(7) by simp
  have small: "ix_len ix < 2 ^ 63" using fit by simp
  note s2 = after_append_Inr[OF 2 wfit ex1 ex(2) small]
  have q: "quiet s1 s2" using after_append_quiet[OF 2] .
  have d2: "on_disk D s2 old (es @ [?x])" using on_disk_quiet[OF on_disk_append[OF D st x 1] q] .
  have id: "active_fileid s2 = active_fileid st" using s1(2) q by (simp add: quiet_def)
  have w2: "written_bytes s2 = length (file_bytes D (es @ [?x]))" using s2(1) a(6) wb len by simp
  show "kd_len e = length (enc_data D ?x)" "kd_len e < 2 ^ 63" using out len small by auto
  have r2: "ready s2" using quiet_step[OF q writer_step_ready[OF s1(1)]] writer_step_ready by simp
  have new: "active_fileid st \<notin> set (map fst old)" using active_not_old[OF st(2)] .
  show "wrote D st old es ?x st'"
  proof (cases "max_file_size (conf s2) < written_bytes s2")
    case False
    with 3 out have "st' = s2" by simp
    with d2 w2 id new len show ?thesis unfolding wrote_def the_logs_def
      by (intro exI[of _ old] exI[of _ "es @ [?x]"]) (simp add: count_on_logs bump_def fun_eq_iff)
  next
    case True
    with 3 have n: "next_active_datafile B s2 = (Inr u3, s3)" by simp
    note r = on_disk_rotate[OF D r2 d2 n]
    have "Suc (active_fileid st) \<notin> set (map fst (old @ [(active_fileid st, es @ [?x])]))"
      using active_not_old[OF r(1)] r(4) id by simp
    then have c: "count_on g ((old @ [(active_fileid st, es @ [?x])]) @ [(Suc (active_fileid st), [])]) (\<lambda>_. 0) =
        count_on g (old @ [(active_fileid st, es @ [?x])]) (\<lambda>_. 0)" if "g [] = 0" for g
      using that by (subst fun_eq_iff) (auto simp: count_on_logs count_on_def split: option.split dest: map_of_SomeD)
    let ?l = "(old @ [(active_fileid st, es @ [?x])]) @ [(Suc (active_fileid st), [])]"
    have "entry_count ?l = bump (active_fileid st) 1 (entry_count (old @ [(active_fileid st, es)]))"
      by (subst c) (simp_all add: count_on_logs[OF new] bump_def fun_eq_iff)
    moreover have "byte_count D ?l =
        bump (active_fileid st) (length (enc_data D ?x)) (byte_count D (old @ [(active_fileid st, es)]))"
      by (subst c) (simp_all add: count_on_logs[OF new] bump_def fun_eq_iff)
    ultimately show ?thesis using out r id unfolding wrote_def the_logs_def
      by (intro exI[of _ "old @ [(active_fileid st, es @ [?x])]"] exI[of _ "[]"]) (simp add: all_entries_def)
  qed
  show "w_stats st' = (if v \<noteq> None then count_live (active_fileid st) (w_stats st)
      else count_dead (active_fileid st) (kd_len e) (w_stats st))"
  proof (cases "max_file_size (conf s2) < written_bytes s2")
    case True
    with 3 have "next_active_datafile B s2 = (Inr u3, s3)" by simp
    from on_disk_rotate(2)[OF D r2 d2 this] out s2(2) s1(2) a(7) show ?thesis by auto
  qed (use 3 out s2(2) s1(2) a(7) in auto)
qed

end
