(* ===== verification/Reopen.thy ===== *)
theory Reopen
  imports Durability
begin

section \<open>Opening a storage again\<close>

text \<open>
  A durable storage stays durable under \<open>put\<close>, \<open>delete\<close>, \<open>get\<close> and \<open>sync\<close>; whatever happens to
  its process, a storage opened on its files stands for the same store, also when the last
  write was cut off.
\<close>

subsection \<open>Durable storages\<close>

definition durable_at :: "'l deps \<Rightarrow> 'l storage \<Rightarrow> (nat \<times> data_entry list) list \<Rightarrow> data_entry list \<Rightarrow> bool" where
  "durable_at D st old es \<longleftrightarrow> on_disk D st old es \<and>
     replay (all_entries (the_logs st old es)) (\<lambda>_. None) = abs_store D st \<and>
     written_bytes st = length (file_bytes D es) \<and>
     stats_exact (keydir st) (w_stats st) (entry_count (the_logs st old es)) (byte_count D (the_logs st old es))"

definition durable :: "'l deps \<Rightarrow> 'l storage \<Rightarrow> bool" where
  "durable D st \<longleftrightarrow> storage_inv D st \<and> (\<exists>old es. durable_at D st old es)"

text \<open>\<open>logged\<close>: the entries \<open>xs\<close> are in the files of a durable storage, in this order.\<close>

definition logged :: "'l deps \<Rightarrow> 'l storage \<Rightarrow> data_entry list \<Rightarrow> bool" where
  "logged D st xs \<longleftrightarrow> storage_inv D st \<and> (\<exists>old es. durable_at D st old es \<and> all_entries (the_logs st old es) = xs)"

lemma durable_logged: "durable D st \<longleftrightarrow> (\<exists>xs. logged D st xs)"
  by (auto simp: durable_def logged_def)

lemma logged_store: "logged D st xs \<Longrightarrow> abs_store D st = replay xs (\<lambda>_. None)"
  by (auto simp: logged_def durable_at_def)

lemma durable_fit:
  assumes "deps_laws D" and "on_disk D st old es"
  shows "totals_fit (entry_count (the_logs st old es)) (byte_count D (the_logs st old es))"
  using assms(2) by (intro totals_fit_logs[OF assms(1), of _ "files st"]) (simp add: on_disk_def the_logs_def)

lemma durable_at_cong:
  assumes "durable_at D st old es" and "files st' = files st" and "w_log st' = w_log st"
    and "active_fileid st' = active_fileid st" and "keydir st' = keydir st" and "w_stats st' = w_stats st"
    and "written_bytes st' = written_bytes st"
  shows "durable_at D st' old es"
proof -
  have "abs_store D st' = abs_store D st" using assms(2,5) by (simp add: abs_store_kd)
  with assms on_disk_cong[OF assms(2,3,4)] show ?thesis by (simp add: durable_at_def the_logs_def)
qed

lemma timestamp_fields:
  assumes "timestamp st = (r, st')"
  shows "files st' = files st" "w_log st' = w_log st" "active_fileid st' = active_fileid st"
    "keydir st' = keydir st" "w_stats st' = w_stats st" "written_bytes st' = written_bytes st"
    "closed st' = closed st" "conf st' = conf st"
proof -
  from timestamp_cases[OF assms] obtain cl where "st' = st\<lparr>clock := cl\<rparr>" by blast
  then show "files st' = files st" "w_log st' = w_log st" "active_fileid st' = active_fileid st"
    "keydir st' = keydir st" "w_stats st' = w_stats st" "written_bytes st' = written_bytes st"
    "closed st' = closed st" "conf st' = conf st" by simp_all
qed

text \<open>The statistics of the previous entry, after the new one was counted.\<close>

lemma with_stats_drop:
  assumes "stats_exact kd ss n b" and "totals_fit n b" and "map_of kd k = Some p" and "x < 2 ^ 63"
    and "w_stats st = count_live f ss \<or> w_stats st = count_dead f x ss"
    and "with_stats (kd_fileid p) (overwrite B (kd_len p)) st = (r, st')"
  shows "st' = st\<lparr>w_stats := drop_prev (Some p) (w_stats st)\<rparr>"
  using assms(6) drop_room[OF assms(1-5), of B]
  by (simp add: with_stats_def drop_prev_def Let_def)

text \<open>A written entry, once the keydir and the statistics have been changed.\<close>

lemma write_logged:
  assumes D: "deps_laws D" and st: "storage_inv D st" "durable_at D st old es" and t: "in_i64 t"
    and w: "write_entry D B t k v st = (Inr e, s1)"
    and same: "files st' = files s1" "w_log st' = w_log s1" "active_fileid st' = active_fileid s1"
      "written_bytes st' = written_bytes s1"
    and kd: "keydir st' = (case v of None \<Rightarrow> AList.delete k (keydir st) | Some _ \<Rightarrow> AList.update k e (keydir st))"
    and ws: "w_stats st' = drop_prev (map_of (keydir st) k) (w_stats s1)"
    and inv': "storage_inv D st'" "abs_store D st' = (abs_store D st)(k := v)"
  shows "logged D st' (all_entries (the_logs st old es) @ [\<lparr>d_tstamp = t, d_key = k, d_value = v\<rparr>])"
proof -
  let ?x = "\<lparr>d_tstamp = t, d_key = k, d_value = v\<rparr>"
  have o: "on_disk D st old es" and wb: "written_bytes st = length (file_bytes D es)"
    and ex: "stats_exact (keydir st) (w_stats st) (entry_count (the_logs st old es)) (byte_count D (the_logs st old es))"
    using st(2) by (simp_all add: durable_at_def)
  note we = write_entry_disk[OF D storage_inv_ready[OF st(1)] o t w wb ex durable_fit[OF D o]]
  have id: "kd_fileid e = active_fileid st" using write_entry_Inr(2)[OF D storage_inv_ready[OF st(1)] t w] .
  from we(1) obtain old' es' where o': "on_disk D s1 old' es'" "all_entries old' @ es' = all_entries old @ es @ [?x]"
    "written_bytes s1 = length (file_bytes D es')"
    "entry_count (the_logs s1 old' es') = bump (active_fileid st) 1 (entry_count (the_logs st old es))"
    "byte_count D (the_logs s1 old' es') =
       bump (active_fileid st) (length (enc_data D ?x)) (byte_count D (the_logs st old es))"
    unfolding wrote_def by blast
  have logs: "the_logs st' = the_logs s1" using same(3) by (simp add: the_logs_def fun_eq_iff)
  have "replay (all_entries (the_logs st' old' es')) (\<lambda>_. None) = abs_store D st'"
    using st(2) inv'(2) unfolding durable_at_def all_entries_logs o'(2) by simp
  moreover have "stats_exact (keydir st') (w_stats st') (entry_count (the_logs s1 old' es')) (byte_count D (the_logs s1 old' es'))"
  proof (cases v)
    case None
    with exact_dead[OF ex keydir_okD(1)[OF storage_invD(2)[OF st(1)]], of k "active_fileid st" "kd_len e"] kd ws we(2,4) o'(4,5)
    show ?thesis by simp
  next
    case (Some y)
    with exact_live[OF ex, of k e] kd ws we(2,4) o'(4,5) id show ?thesis by simp
  qed
  ultimately have "durable_at D st' old' es'"
    using o'(1,3) same on_disk_cong[OF same(1-3), of D] by (simp add: durable_at_def logs)
  moreover have "all_entries (the_logs st' old' es') = all_entries (the_logs st old es) @ [?x]" using o'(2) by simp
  ultimately show ?thesis using inv'(1) by (auto simp: logged_def)
qed

lemma drop_prev_None [simp]: "drop_prev None ss = ss"
  by (simp add: drop_prev_def)

lemma put_logged:
  assumes D: "deps_laws D" and st: "logged D st xs" and p: "put D B k v st = (Inr u, st')"
  shows "\<exists>t. logged D st' (xs @ [\<lparr>d_tstamp = t, d_key = k, d_value = Some v\<rparr>])"
proof -
  from st obtain old es where inv: "storage_inv D st" and d: "durable_at D st old es"
    and xs: "all_entries (the_logs st old es) = xs" unfolding logged_def by blast
  from p obtain t s0 e s1 where t: "timestamp st = (Inr t, s0)" and w: "write_entry D B t k (Some v) s0 = (Inr e, s1)"
    and rest: "(case keydir_set k e s1 of
       (Some prev, st) \<Rightarrow> with_stats (kd_fileid prev) (overwrite B (kd_len prev)) st
     | (None, st) \<Rightarrow> (Inr (), st)) = (Inr u, st')"
    unfolding put_def by (elim try_op_InrE) (rule that; assumption)
  note s0 = inv_timestamp[OF inv t]
  have d0: "durable_at D s0 old es" by (rule durable_at_cong[OF d]) (simp_all add: timestamp_fields[OF t])
  then have o: "on_disk D s0 old es" and wb: "written_bytes s0 = length (file_bytes D es)"
    and ex: "stats_exact (keydir s0) (w_stats s0) (entry_count (the_logs s0 old es)) (byte_count D (the_logs s0 old es))"
    by (simp_all add: durable_at_def)
  have kd: "keydir s1 = keydir s0" "kd_fileid e = active_fileid s0"
    using write_entry_Inr[OF D storage_inv_ready[OF s0(1)] s0(4)[OF refl] w] by (auto simp: writer_step_def)
  have ws: "w_stats s1 = count_live (active_fileid s0) (w_stats s0)"
    using write_entry_disk(4)[OF D storage_inv_ready[OF s0(1)] o s0(4)[OF refl] w wb ex durable_fit[OF D o]] by simp
  let ?s2 = "s1\<lparr>keydir := AList.update k e (keydir s0)\<rparr>"
  have st': "\<exists>ss. st' = ?s2\<lparr>w_stats := ss\<rparr> \<and> ss = drop_prev (map_of (keydir s0) k) (w_stats s1)"
  proof (cases "map_of (keydir s0) k")
    case None
    with rest kd have "st' = ?s2\<lparr>w_stats := w_stats s1\<rparr>" by (auto simp: keydir_set_def)
    with None show ?thesis by simp
  next
    case (Some q)
    with rest kd have "with_stats (kd_fileid q) (overwrite B (kd_len q)) ?s2 = (Inr u, st')"
      by (simp add: keydir_set_def)
    from with_stats_drop[OF ex durable_fit[OF D o] Some, of 0 _ "active_fileid s0", OF _ _ this] ws Some show ?thesis by simp
  qed
  then have "logged D st' (all_entries (the_logs s0 old es) @ [\<lparr>d_tstamp = t, d_key = k, d_value = Some v\<rparr>])"
    using put_ok[OF D inv p] s0(2) by (intro write_logged[OF D s0(1) d0 s0(4)[OF refl] w]) auto
  with xs show ?thesis by auto
qed

lemma put_durable:
  assumes "deps_laws D" and "durable D st" and "put D B k v st = (Inr u, st')"
  shows "durable D st'"
  using assms put_logged[OF assms(1) _ assms(3)] by (metis durable_logged)

lemma delete_logged:
  assumes D: "deps_laws D" and st: "logged D st xs" and p: "delete D B k st = (Inr b, st')"
  shows "\<exists>t. logged D st' (xs @ [\<lparr>d_tstamp = t, d_key = k, d_value = None\<rparr>])"
proof -
  from st obtain old es where inv: "storage_inv D st" and d: "durable_at D st old es"
    and xs: "all_entries (the_logs st old es) = xs" unfolding logged_def by blast
  from p obtain t s0 e s1 where t: "timestamp st = (Inr t, s0)" and w: "write_entry D B t k None s0 = (Inr e, s1)"
    and rest: "(case keydir_remove k s1 of
       (Some prev, st) \<Rightarrow>
         try_op (with_stats (kd_fileid prev) (overwrite B (kd_len prev)) st) (\<lambda>_ st. (Inr True, st))
     | (None, st) \<Rightarrow> (Inr False, st)) = (Inr b, st')"
    unfolding delete_def by (elim try_op_InrE) (rule that; assumption)
  note s0 = inv_timestamp[OF inv t]
  have d0: "durable_at D s0 old es" by (rule durable_at_cong[OF d]) (simp_all add: timestamp_fields[OF t])
  then have o: "on_disk D s0 old es" and wb: "written_bytes s0 = length (file_bytes D es)"
    and ex: "stats_exact (keydir s0) (w_stats s0) (entry_count (the_logs s0 old es)) (byte_count D (the_logs s0 old es))"
    by (simp_all add: durable_at_def)
  have kd: "keydir s1 = keydir s0" using write_entry_Inr(1)[OF D storage_inv_ready[OF s0(1)] s0(4)[OF refl] w]
    by (auto simp: writer_step_def)
  note we = write_entry_disk[OF D storage_inv_ready[OF s0(1)] o s0(4)[OF refl] w wb ex durable_fit[OF D o]]
  let ?s2 = "s1\<lparr>keydir := AList.delete k (keydir s0)\<rparr>"
  have st': "\<exists>ss. st' = ?s2\<lparr>w_stats := ss\<rparr> \<and> ss = drop_prev (map_of (keydir s0) k) (w_stats s1)"
  proof (cases "map_of (keydir s0) k")
    case None
    with rest kd have "st' = ?s2\<lparr>w_stats := w_stats s1\<rparr>" by (auto simp: keydir_remove_def)
    with None show ?thesis by simp
  next
    case (Some q)
    with rest kd obtain y where "with_stats (kd_fileid q) (overwrite B (kd_len q)) ?s2 = (Inr y, st')"
      by (auto simp: keydir_remove_def elim!: try_op_InrE)
    from with_stats_drop[OF ex durable_fit[OF D o] Some we(3), of _ "active_fileid s0", OF _ this] we(4) Some
    show ?thesis by simp
  qed
  then have "logged D st' (all_entries (the_logs s0 old es) @ [\<lparr>d_tstamp = t, d_key = k, d_value = None\<rparr>])"
    using delete_ok[OF D inv p] s0(2) by (intro write_logged[OF D s0(1) d0 s0(4)[OF refl] w]) auto
  with xs show ?thesis by auto
qed

lemma delete_durable:
  assumes "deps_laws D" and "durable D st" and "delete D B k st = (Inr b, st')"
  shows "durable D st'"
  using assms delete_logged[OF assms(1) _ assms(3)] by (metis durable_logged)

lemma on_disk_same:
  assumes "on_disk D st old es" and "same_files (files st) (files st')" and "w_log st' = w_log st"
    and "active_fileid st' = active_fileid st"
  shows "on_disk D st' old es"
proof -
  have "file_holds D (files st') l = file_holds D (files st) l" for l
    using assms(2) by (simp add: file_holds_def same_files_def split: prod.split)
  with assms show ?thesis by (simp add: on_disk_def no_hints_def only_name_def same_files_def)
qed

lemma logged_same:
  assumes D: "deps_laws D" and st: "logged D st xs" and inv: "storage_inv D st'" "abs_store D st' = abs_store D st"
    and same: "same_files (files st) (files st')" "w_log st' = w_log st" "active_fileid st' = active_fileid st"
      "keydir st' = keydir st" "w_stats st' = w_stats st" "written_bytes st' = written_bytes st"
  shows "logged D st' xs"
proof -
  from st obtain old es where d: "durable_at D st old es" "all_entries (the_logs st old es) = xs" by (auto simp: logged_def)
  then have "on_disk D st' old es" using on_disk_same[OF _ same(1-3)] by (simp add: durable_at_def)
  with d inv same(3-6) have "durable_at D st' old es" by (simp add: durable_at_def the_logs_def)
  with inv(1) d(2) same(3) show ?thesis by (auto simp: logged_def the_logs_def)
qed

lemma handle_get_fields:
  assumes "handle_get D B k st = Some (r, st')"
  shows "keydir st' = keydir st" "w_log st' = w_log st" "w_stats st' = w_stats st" "written_bytes st' = written_bytes st"
    "active_fileid st' = active_fileid st" "closed st' = closed st"
  using assms by (auto simp: handle_get_def split: if_splits list.splits prod.splits sum.splits fault.splits)

lemma get_logged:
  assumes D: "deps_laws D" and st: "logged D st xs" and g: "handle_get D B k st = Some (r, st')"
  shows "logged D st' xs" and "abs_store D st' = abs_store D st"
proof -
  have inv: "storage_inv D st" using st by (simp add: logged_def)
  have "logged D st' xs \<and> abs_store D st' = abs_store D st"
  proof (cases "closed st")
    case True
    with g st show ?thesis by (simp add: handle_get_def)
  next
    case False
    from handle_get_some[OF D inv g this] have "storage_inv D st'" "abs_store D st' = abs_store D st"
      "same_files (files st) (files st')" by auto
    with logged_same[OF D st] handle_get_fields[OF g] show ?thesis by simp
  qed
  then show "logged D st' xs" "abs_store D st' = abs_store D st" by simp_all
qed

lemma get_durable:
  assumes "deps_laws D" and "durable D st" and "handle_get D B k st = Some (r, st')"
  shows "durable D st'" and "abs_store D st' = abs_store D st"
  using assms get_logged[OF assms(1) _ assms(3)] by (metis durable_logged)+

lemma sync_durable:
  assumes D: "deps_laws D" and st: "durable D st" and s: "handle_sync st = (r, st')"
  shows "durable D st'" and "abs_store D st' = abs_store D st"
proof -
  have inv: "storage_inv D st" using st by (simp add: durable_def)
  have q: "quiet st st'" using s sync_quiet[of "w_log st" st] by (auto simp: handle_sync_def guarded_def writer_sync_def split: if_splits)
  have same: "w_stats st' = w_stats st" "written_bytes st' = written_bytes st"
    using s by (auto simp: handle_sync_def guarded_def writer_sync_def on_files_def split: if_splits prod.splits)
  note i = inv_quiet[OF D inv q]
  show "abs_store D st' = abs_store D st" using i(2) .
  from st obtain xs where "logged D st xs" by (auto simp: durable_logged)
  then have "logged D st' xs" by (rule logged_same[OF D _ i]) (use q same in \<open>simp_all add: quiet_def\<close>)
  then show "durable D st'" by (auto simp: durable_logged)
qed

subsection \<open>Runs\<close>

text \<open>
  Operations that succeed, one after the other, through any of the handles: those after which a
  durable storage is durable. \<open>Handle::merge\<close> is the operation that is left out. It keeps the store
  (\<open>merge_keeps_store\<close>), but it leaves hint files with positions in the old files and removes
  tombstones, so that the directory may not rebuild to the same store any more. Runs with merges
  are the matter of \<open>engine_step\<close> in Background and of \<open>system_step\<close> in Concurrent.
\<close>

datatype engine_op = OpPut bytes bytes | OpDelete bytes | OpGet bytes | OpSync

inductive engine_run :: "'l deps \<Rightarrow> build \<Rightarrow> 'l storage \<Rightarrow> engine_op list \<Rightarrow> 'l storage \<Rightarrow> bool"
  for D :: "'l deps" and B :: build where
  start: "engine_run D B st [] st"
| put: "engine_run D B st ops st1 \<Longrightarrow> handle_put D B k v st1 = (Inr u, st') \<Longrightarrow> engine_run D B st (ops @ [OpPut k v]) st'"
| delete: "engine_run D B st ops st1 \<Longrightarrow> handle_delete D B k st1 = (Inr b, st') \<Longrightarrow> engine_run D B st (ops @ [OpDelete k]) st'"
| get: "engine_run D B st ops st1 \<Longrightarrow> handle_get D B k st1 = Some (r, st') \<Longrightarrow> engine_run D B st (ops @ [OpGet k]) st'"
| sync: "engine_run D B st ops st1 \<Longrightarrow> handle_sync st1 = (r, st') \<Longrightarrow> engine_run D B st (ops @ [OpSync]) st'"

inductive_cases engine_run_NilE: "engine_run D B st [] st'"

fun op_effect :: "engine_op \<Rightarrow> store \<Rightarrow> store" where
  "op_effect (OpPut k v) m = m(k \<mapsto> v)"
| "op_effect (OpDelete k) m = m(k := None)"
| "op_effect (OpGet k) m = m"
| "op_effect OpSync m = m"

lemma engine_run_durable:
  assumes "engine_run D B st ops st'" and D: "deps_laws D" and st: "durable D st"
  shows "durable D st' \<and> abs_store D st' = fold op_effect ops (abs_store D st)"
  using assms(1,3)
proof (induction rule: engine_run.induct)
  case (put st ops st1 k v u st')
  have p: "put D B k v st1 = (Inr u, st')" using put.hyps(2) by (simp add: handle_put_def guarded_def split: if_splits)
  have "storage_inv D st1" using put.IH put.prems by (simp add: durable_def)
  with put_durable[OF D _ p] put_ok[OF D _ p] put.IH put.prems show ?case by simp
next
  case (delete st ops st1 k b st')
  have p: "delete D B k st1 = (Inr b, st')" using delete.hyps(2) by (simp add: handle_delete_def guarded_def split: if_splits)
  have "storage_inv D st1" using delete.IH delete.prems by (simp add: durable_def)
  with delete_durable[OF D _ p] delete_ok[OF D _ p] delete.IH delete.prems show ?case by simp
next
  case (get st ops st1 k r st')
  with get_durable[OF D _ get.hyps(2)] show ?case by simp
next
  case (sync st ops st1 r st')
  with sync_durable[OF D _ sync.hyps(2)] show ?case by simp
qed simp

subsection \<open>Opening\<close>

lemma log_create_succeeds:
  assumes "faults fs = []" and "map_of (dir fs) name = None" and "inext fs < 2 ^ 63"
  shows "\<exists>w fs'. log_create name fs = (Inr w, fs') \<and> faults fs' = [] \<and> inext fs' = Suc (inext fs)"
  using assms by (simp add: log_create_def create_new_def log_writer_new_def stream_len_def in_i64_def)

lemma new_id_is_free:
  assumes "logs_ok D fs logs" and "next_id (map fst logs) < 2 ^ 64"
  shows "map_of (dir fs) (datafile_name (next_id (map fst logs))) = None"
proof (rule ccontr)
  let ?a = "next_id (map fst logs)"
  assume "map_of (dir fs) (datafile_name ?a) \<noteq> None"
  then obtain i where "(datafile_name ?a, i) \<in> set (dir fs)" by (auto dest: map_of_SomeD)
  then have "?a \<in> set (ids_of (map fst (dir fs)))"
    using assms(2) by (force simp: set_ids_of)
  with assms(1) next_id_gt[of ?a "map fst logs"] show False by (simp add: logs_ok_def)
qed

lemma next_id_small:
  assumes "\<And>f. f \<in> set ids \<Longrightarrow> f < m" and "0 < m"
  shows "next_id ids \<le> m"
  using assms by (simp add: next_id_def Suc_le_eq)

lemma open_durable:
  assumes D: "deps_laws D" and fs: "fs_ok fs" "faults fs = []" "inext fs < 2 ^ 63" "no_hints fs" and logs: "logs_ok D fs logs"
    and c: "0 < concurrency c" and ts: "\<And>t. Some t \<in> set readings \<Longrightarrow> in_i64 t"
  shows "\<exists>st. bitcask_open D B c readings h fs = Some (Inr st, files st) \<and> durable D st \<and>
    abs_store D st = replay (all_entries logs) (\<lambda>_. None) \<and> \<not> closed st \<and> faults (files st) = [] \<and>
    logged D st (all_entries logs) \<and> conf st = c \<and> clock st = readings \<and> written_bytes st = 0 \<and>
    active_fileid st = next_id (map fst logs) \<and> inext (files st) = inext fs + 1"
proof -
  let ?a = "next_id (map fst logs)"
  have a: "?a \<le> 2 ^ 63" by (rule next_id_small) (use logs in \<open>auto simp: logs_ok_def\<close>)
  then obtain s where run: "rebuild_storage D B fs = Some (Inr ?a, s)"
    and s: "rebuilt D ?a fs s (replay (all_entries logs) (\<lambda>_. None)) (entry_count logs) (byte_count D logs)"
    using rebuild_storage_replays[OF D fs(2) logs, of B] by auto
  then obtain kd ss where kd: "s = (kd, ss, fs)" "keydir_ok D kd fs ?a" "kd_store D kd fs = replay (all_entries logs) (\<lambda>_. None)"
    "stats_exact kd ss (entry_count logs) (byte_count D logs)" by (auto simp: rebuilt_def)
  have free: "map_of (dir fs) (datafile_name ?a) = None" using new_id_is_free[OF logs] a by simp
  obtain w fs1 where cr: "log_create (datafile_name ?a) fs = (Inr w, fs1)" and f1: "faults fs1 = []"
    using log_create_succeeds[OF fs(2) free fs(3)] by auto
  note lc = log_create_Inr[OF cr fs(1)]
  let ?l = "lru_new D (readers_cache_size c)"
  let ?st = "\<lparr>keydir = kd, closed = False, conf = c, w_readers = ?l, w_log = w, w_stats = ss, active_fileid = ?a,
    written_bytes = 0, pool = replicate (concurrency c) ?l, files = fs1, clock = readings, hour = h\<rparr>"
  have open_it: "bitcask_open D B c readings h fs = Some (Inr ?st, fs1)"
    using run kd(1) cr f1 by (simp add: bitcask_open_def Let_def)
  have inv: "storage_inv D ?st"
  proof (rule storage_invI)
    show "ready ?st" using lc a by (simp add: ready_def writer_ok_def pos_ok_def)
    show "keydir_ok D (keydir ?st) (files ?st) (active_fileid ?st)"
      using keydir_ok_grows[OF kd(2) fs(1) lc(2) order_refl] by simp
    show "cache_ok D (keydir ?st) (files ?st) (active_fileid ?st) l" if "l \<in> set (w_readers ?st # pool ?st)" for l
      using that deps_laws.lru_get_new[OF D] by (auto simp: cache_ok_def)
  qed (use c ts in auto)
  have "kd_store D kd fs1 = kd_store D kd fs"
    using stored_grows[OF D kd(2) fs(1) lc(2)] by (auto simp: kd_store_def fun_eq_iff split: option.split)
  then have abs: "abs_store D ?st = replay (all_entries logs) (\<lambda>_. None)" using kd(3) by (simp add: abs_store_kd)
  have ids: "ids_of (map fst (dir fs)) = map fst logs" using logs by (simp add: logs_ok_def)
  have gt: "\<forall>f \<in> set (map fst logs). f < ?a" using next_id_gt by blast
  have ids1: "ids_of (map fst (dir fs1)) = map fst logs @ [?a]"
    using ids_of_new[of ?a "map fst (dir fs)"] a gt ids lc(4) by simp
  have nh: "no_hints fs1" using fs(4) lc(4) by (simp add: no_hints_def)
  have old: "file_holds D fs1 l" if "l \<in> set logs" for l
    by (rule file_holds_create[OF _ lc(4) _ fs(1) lc(9)]) (use that logs gt in \<open>auto simp: logs_ok_def\<close>)
  have new: "file_holds D fs1 (?a, [])"
    using lc(4,5) torn_Nil[OF D] fs(4) by (auto simp: file_holds_def no_hints_def)
  have "only_name fs1 ?a" using only_name_new[of "dir fs" ?a fs1] gt ids lc(4) by simp
  with ids1 nh old new lc(1,5) have "on_disk D ?st logs []" by (simp add: on_disk_def)
  moreover have "?a \<notin> set (map fst logs)" using gt by blast
  then have "count_on g (logs @ [(?a, [])]) (\<lambda>_. 0) = count_on g logs (\<lambda>_. 0)" if "g [] = 0" for g
    using that by (subst fun_eq_iff) (auto simp: count_on_logs count_on_def split: option.split if_splits dest: map_of_SomeD)
  ultimately have "durable_at D ?st logs []"
    using abs kd(4) by (simp add: durable_at_def the_logs_def all_entries_def)
  with inv have "logged D ?st (all_entries logs)" by (auto simp: logged_def all_entries_def the_logs_def)
  then have "durable D ?st" by (auto simp: durable_logged)
  with open_it abs f1 lc \<open>logged D ?st (all_entries logs)\<close> show ?thesis by (intro exI[of _ ?st]) simp
qed

subsection \<open>Opening again\<close>

text \<open>
  The files when the process dies after it handed the bytes \<open>d\<close> of an entry to the system, and
  the files when it dropped the storage; the calls of the next process succeed.
\<close>

definition crash_files :: "'l storage \<Rightarrow> bytes \<Rightarrow> fs" where
  "crash_files st d = (append_bytes (bw_file (w_log st)) d (files st))\<lparr>faults := []\<rparr>"

definition dropped_files :: "'l storage \<Rightarrow> fs" where
  "dropped_files st = (bitcask_drop st)\<lparr>faults := []\<rparr>"

lemma durable_ids:
  assumes "on_disk D st old es" and "l \<in> set (the_logs st old es)"
  shows "fst l \<le> active_fileid st"
  using assms ids_of_sorted_last[of "map fst (dir (files st))" "map fst old" "active_fileid st"]
  by (auto simp: on_disk_def the_logs_def)

lemma logs_ok_crash:
  assumes D: "deps_laws D" and st: "storage_inv D st" "on_disk D st old es" and a: "active_fileid st < 2 ^ 63"
    and x: "entry_ok x" and n: "n \<le> length (enc_data D x)"
    and fit: "length (idata (files st) (bw_file (w_log st))) + n < 2 ^ 63"
  shows "logs_ok D (crash_files st (take n (enc_data D x)))
    (the_logs st old (if n < length (enc_data D x) then es else es @ [x]))"
proof -
  let ?i = "bw_file (w_log st)" and ?d = "take n (enc_data D x)"
  let ?fs = "crash_files st ?d" and ?es = "if n < length (enc_data D x) then es else es @ [x]"
  have i: "map_of (dir (files st)) (datafile_name (active_fileid st)) = Some ?i"
    using storage_invD(3)[OF st(1)] by (simp add: writer_ok_def)
  have g: "dir ?fs = dir (files st)" "idata ?fs = (idata (files st))(?i := idata (files st) ?i @ ?d)"
    by (simp_all add: crash_files_def append_bytes_def)
  have b: "idata (files st) ?i = file_bytes D es" "no_hints (files st)" using st(2) by (simp_all add: on_disk_def)
  have old: "file_holds D ?fs l" if l: "l \<in> set old" for l
  proof -
    obtain f es' where fe: "l = (f, es')" by fastforce
    have same: "idata ?fs j = idata (files st) j" if "map_of (dir (files st)) (datafile_name f) = Some j" for j
      using fs_ok_inj[OF storage_invD(1)[OF st(1)] that, of "datafile_name (active_fileid st)"] i
        old_not_active[OF st(2), of f es'] l fe g(2) by auto
    have h: "file_holds D (files st) (f, es')" using st(2) l fe by (auto simp: on_disk_def)
    have hint: "map_of (dir ?fs) (hintfile_name f) = None" using b(2) g(1) by (simp add: no_hints_def)
    show ?thesis unfolding fe by (rule file_holds_same[OF h _ hint]) (simp_all add: g(1) same)
  qed
  have new: "file_holds D ?fs (active_fileid st, ?es)"
  proof -
    have "\<exists>tail. idata ?fs ?i = file_bytes D ?es @ tail \<and> torn D tail"
    proof (cases "n < length (enc_data D x)")
      case True
      then have "torn D ?d" using x unfolding torn_def by (intro exI[of _ x] exI[of _ "drop n (enc_data D x)"]) simp
      with True b(1) g(2) show ?thesis by auto
    next
      case False
      with n b(1) g(2) torn_Nil[OF D] show ?thesis by auto
    qed
    moreover have "length (idata ?fs ?i) < 2 ^ 63" using fit n g(2) by simp
    moreover have "\<forall>y \<in> set ?es. entry_ok y" using st(2) x by (auto simp: on_disk_def file_holds_def)
    moreover have "map_of (dir ?fs) (hintfile_name (active_fileid st)) = None" using b(2) g(1) by (simp add: no_hints_def)
    ultimately show ?thesis using i g(1) by (auto simp: file_holds_def)
  qed
  show ?thesis
    unfolding logs_ok_def
  proof (intro conjI ballI)
    show "ids_of (map fst (dir ?fs)) = map fst (the_logs st old ?es)"
      using st(2) g(1) by (simp add: on_disk_def the_logs_def)
    fix l assume l: "l \<in> set (the_logs st old ?es)"
    then have "l \<in> set old \<or> l = (active_fileid st, ?es)" by (auto simp: the_logs_def)
    with old new show "file_holds D ?fs l" by blast
    have "fst l \<in> set (map fst (the_logs st old es))" using l by (auto simp: the_logs_def)
    then obtain l' where "l' \<in> set (the_logs st old es)" "fst l' = fst l" by auto
    with durable_ids[OF st(2)] a show "fst l < 2 ^ 63" using order_le_less_trans by metis
  qed
qed

lemma crash_files_ok:
  "fs_ok (crash_files st d) = fs_ok (files st)" "faults (crash_files st d) = []"
  "inext (crash_files st d) = inext (files st)" "no_hints (crash_files st d) = no_hints (files st)"
  by (simp_all add: crash_files_def append_bytes_def fs_ok_def no_hints_def)

lemma reopen_crashed:
  assumes D: "deps_laws D" and st: "durable D st" and small: "active_fileid st < 2 ^ 63" "inext (files st) < 2 ^ 63"
    and x: "entry_ok x" and n: "n \<le> length (enc_data D x)"
    and fit: "length (idata (files st) (bw_file (w_log st))) + n < 2 ^ 63"
    and c: "0 < concurrency c" and ts: "\<And>t. Some t \<in> set readings \<Longrightarrow> in_i64 t"
  shows "\<exists>st'. bitcask_open D B c readings h (crash_files st (take n (enc_data D x))) = Some (Inr st', files st') \<and>
    durable D st' \<and> \<not> closed st' \<and>
    abs_store D st' =
      (if n < length (enc_data D x) then abs_store D st else (abs_store D st)(d_key x := d_value x))"
proof -
  from st obtain old es where inv: "storage_inv D st" and d: "durable_at D st old es" by (auto simp: durable_def)
  then have o: "on_disk D st old es" and r: "replay (all_entries (the_logs st old es)) (\<lambda>_. None) = abs_store D st"
    by (simp_all add: durable_at_def)
  let ?es = "if n < length (enc_data D x) then es else es @ [x]"
  have "no_hints (files st)" using o by (simp add: on_disk_def)
  from open_durable[OF D _ _ _ _ logs_ok_crash[OF D inv o small(1) x n fit] c ts, of readings B h] obtain st' where
    "bitcask_open D B c readings h (crash_files st (take n (enc_data D x))) = Some (Inr st', files st')" "durable D st'"
    "abs_store D st' = replay (all_entries (the_logs st old ?es)) (\<lambda>_. None)" "\<not> closed st'"
    using crash_files_ok[of st "take n (enc_data D x)"] storage_invD(1)[OF inv] small(2) \<open>no_hints (files st)\<close> by auto
  moreover have "replay (all_entries (the_logs st old ?es)) (\<lambda>_. None) =
      (if n < length (enc_data D x) then abs_store D st else (abs_store D st)(d_key x := d_value x))"
    using r by (simp flip: r)
  ultimately show ?thesis by auto
qed

text \<open>A clean shutdown removes an active file nothing was written to.\<close>

lemma dropped_files_cases:
  assumes "on_disk D st old es"
  shows "dropped_files st = (files st)\<lparr>faults := []\<rparr> \<or>
    written_bytes st = 0 \<and>
    dropped_files st = (files st)\<lparr>dir := AList.delete (datafile_name (active_fileid st)) (dir (files st)), faults := []\<rparr>"
proof -
  have nil: "bw_buf (w_log st) = []" using assms by (simp add: on_disk_def)
  obtain f fs1 where f: "next_fault (files st) = (f, fs1)" by fastforce
  note k = next_fault_keeps[OF f]
  have "fs1\<lparr>faults := []\<rparr> = (files st)\<lparr>faults := []\<rparr>" using k by (cases fs1; cases "files st") simp
  moreover have "fs1\<lparr>dir := AList.delete nm (dir fs1), faults := []\<rparr> =
      (files st)\<lparr>dir := AList.delete nm (dir (files st)), faults := []\<rparr>" for nm
    using k by (cases fs1; cases "files st") simp
  ultimately show ?thesis
    using nil f by (auto simp: dropped_files_def bitcask_drop_def writer_drop_def close_storage_def Let_def bw_drop_empty
        remove_file_def sys_call_def split: option.split)
qed

lemma ids_of_delete:
  assumes "only_name fs a" and "a < 2 ^ 64"
  shows "set (ids_of (map fst (AList.delete (datafile_name a) (dir fs)))) = set (ids_of (map fst (dir fs))) - {a}"
proof -
  let ?N = "set (map fst (dir fs))"
  have "set (map fst (AList.delete (datafile_name a) (dir fs))) = ?N - {datafile_name a}"
    by (simp only: delete_keys set_removeAll)
  then have "set (ids_of (map fst (AList.delete (datafile_name a) (dir fs)))) =
      {n. \<exists>name \<in> ?N - {datafile_name a}. fileid_of name = Some n}" by (simp only: set_ids_of)
  also have "\<dots> = {n. \<exists>name \<in> ?N. fileid_of name = Some n} - {a}"
  proof (intro set_eqI iffI)
    fix n assume "n \<in> {n. \<exists>name \<in> ?N - {datafile_name a}. fileid_of name = Some n}"
    then obtain name where "name \<in> ?N" "name \<noteq> datafile_name a" "fileid_of name = Some n" by blast
    with assms(1) show "n \<in> {n. \<exists>name \<in> ?N. fileid_of name = Some n} - {a}" unfolding only_name_def by blast
  next
    fix n assume "n \<in> {n. \<exists>name \<in> ?N. fileid_of name = Some n} - {a}"
    then obtain name where "name \<in> ?N" "fileid_of name = Some n" "n \<noteq> a" by blast
    moreover from this fileid_of_datafile[OF assms(2)] have "name \<noteq> datafile_name a" by auto
    ultimately show "n \<in> {n. \<exists>name \<in> ?N - {datafile_name a}. fileid_of name = Some n}" by blast
  qed
  finally show ?thesis by (simp only: set_ids_of)
qed

lemma logs_ok_dropped:
  assumes D: "deps_laws D" and st: "storage_inv D st" "durable_at D st old es" and a: "active_fileid st < 2 ^ 63"
  shows "\<exists>logs. logs_ok D (dropped_files st) logs \<and> all_entries logs = all_entries (the_logs st old es)"
proof -
  have o: "on_disk D st old es" and wb: "written_bytes st = length (file_bytes D es)" using st(2) by (simp_all add: durable_at_def)
  have x: "entry_ok \<lparr>d_tstamp = 0, d_key = [], d_value = None\<rparr>" by (simp add: entry_ok_def in_i64_def)
  have len: "length (idata (files st) (bw_file (w_log st))) < 2 ^ 63"
    using o storage_invD(3)[OF st(1)] by (auto simp: on_disk_def file_holds_def writer_ok_def)
  have "crash_files st [] = (files st)\<lparr>faults := []\<rparr>" by (simp add: crash_files_def append_bytes_def)
  with logs_ok_crash[OF D st(1) o a x, of 0] len enc_data_not_empty[OF D, of "\<lparr>d_tstamp = 0, d_key = [], d_value = None\<rparr>"]
  have all: "logs_ok D ((files st)\<lparr>faults := []\<rparr>) (the_logs st old es)" by (simp add: in_i64_def)
  from dropped_files_cases[OF o] show ?thesis
  proof (elim disjE conjE)
    assume "dropped_files st = (files st)\<lparr>faults := []\<rparr>"
    with all show ?thesis by auto
  next
    let ?fs = "(files st)\<lparr>dir := AList.delete (datafile_name (active_fileid st)) (dir (files st)), faults := []\<rparr>"
    assume w: "written_bytes st = 0" and fs: "dropped_files st = ?fs"
    have "\<forall>y \<in> set es. entry_ok y" using o by (auto simp: on_disk_def file_holds_def)
    with length_file_bytes[OF D] w wb have es: "es = []" by fastforce
    have d: "map_of (dir ?fs) nm = (if nm = datafile_name (active_fileid st) then None else map_of (dir (files st)) nm)" for nm
      by (simp add: delete_conv')
    have sorted: "sorted (map fst old @ [active_fileid st])" "distinct (map fst old @ [active_fileid st])"
      using o ids_of_sorted[of "map fst (dir (files st))"] by (simp_all add: on_disk_def)
    have "ids_of (map fst (dir ?fs)) = map fst old"
    proof (rule sorted_distinct_set_unique)
      have "set (ids_of (map fst (dir ?fs))) = set (ids_of (map fst (dir (files st)))) - {active_fileid st}"
        using ids_of_delete[of "files st" "active_fileid st"] o a by (simp add: on_disk_def)
      then show "set (ids_of (map fst (dir ?fs))) = set (map fst old)" using o sorted(2) by (simp add: on_disk_def)
      show "sorted (map fst old)" "distinct (map fst old)" using sorted by (simp_all add: sorted_append)
    qed simp_all
    moreover have "file_holds D ?fs l \<and> fst l < 2 ^ 63" if l: "l \<in> set old" for l
    proof -
      obtain f es' where fe: "l = (f, es')" by fastforce
      have ne: "f \<noteq> active_fileid st" using old_not_active[OF o] l fe by blast
      have h: "file_holds D (files st) (f, es')" using o l fe by (auto simp: on_disk_def)
      have hint: "map_of (dir ?fs) (hintfile_name f) = None" using o unfolding d by (simp add: on_disk_def no_hints_def)
      have name: "map_of (dir ?fs) (datafile_name f) = map_of (dir (files st)) (datafile_name f)" unfolding d using ne by simp
      have "file_holds D ?fs (f, es')" by (rule file_holds_same[OF h name hint]) simp
      moreover have "fst l < 2 ^ 63" using all l by (auto simp: logs_ok_def the_logs_def)
      ultimately show ?thesis using fe by simp
    qed
    ultimately have "logs_ok D ?fs old" by (simp add: logs_ok_def)
    with fs es show ?thesis by (intro exI[of _ old]) (simp add: all_entries_def the_logs_def)
  qed
qed

lemma reopen_logged:
  assumes D: "deps_laws D" and st: "logged D st xs" and small: "active_fileid st < 2 ^ 63" "inext (files st) < 2 ^ 63"
    and c: "0 < concurrency c" and ts: "\<And>t. Some t \<in> set readings \<Longrightarrow> in_i64 t"
  shows "\<exists>st'. bitcask_open D B c readings h (dropped_files st) = Some (Inr st', files st') \<and>
    logged D st' xs \<and> \<not> closed st' \<and> conf st' = c \<and> clock st' = readings \<and> faults (files st') = [] \<and> written_bytes st' = 0 \<and>
    active_fileid st' \<le> Suc (active_fileid st) \<and> inext (files st') = Suc (inext (files st))"
proof -
  from st obtain old es where inv: "storage_inv D st" and d: "durable_at D st old es"
    and xs: "all_entries (the_logs st old es) = xs" by (auto simp: logged_def)
  then have o: "on_disk D st old es" by (simp add: durable_at_def)
  from logs_ok_dropped[OF D inv d small(1)] obtain logs where
    logs: "logs_ok D (dropped_files st) logs" "all_entries logs = all_entries (the_logs st old es)" by blast
  have fs: "fs_ok (dropped_files st)" "faults (dropped_files st) = []" "inext (dropped_files st) < 2 ^ 63"
    "no_hints (dropped_files st)"
  proof -
    have "fs_ok (files st)" "no_hints (files st)" using storage_invD(1)[OF inv] o by (simp_all add: on_disk_def)
    moreover have "set (AList.delete nm xs) \<subseteq> set xs" "distinct (map fst xs) \<Longrightarrow> distinct (map fst (AList.delete nm xs))"
      "distinct (map snd xs) \<Longrightarrow> distinct (map snd (AList.delete nm xs))" for nm and xs :: "(bytes \<times> nat) list"
      by (auto simp: AList.delete_eq distinct_map_filter)
    ultimately show "fs_ok (dropped_files st)" "faults (dropped_files st) = []" "inext (dropped_files st) < 2 ^ 63"
      "no_hints (dropped_files st)"
      using dropped_files_cases[OF o] small(2)
      by (auto simp: fs_ok_def no_hints_def delete_conv') blast+
  qed
  have "f < Suc (active_fileid st)" if "f \<in> set (map fst logs)" for f
  proof -
    have "f \<in> set (ids_of (map fst (dir (dropped_files st))))" using logs(1) that by (simp add: logs_ok_def)
    moreover have "set (map fst (dir (dropped_files st))) \<subseteq> set (map fst (dir (files st)))"
      using dropped_files_cases[OF o] by (auto simp: AList.delete_eq)
    ultimately have "f \<in> set (ids_of (map fst (dir (files st))))" unfolding set_ids_of by blast
    with ids_of_sorted_last[of "map fst (dir (files st))"] o show ?thesis by (fastforce simp: on_disk_def less_Suc_eq_le)
  qed
  then have new: "next_id (map fst logs) \<le> Suc (active_fileid st)" by (rule next_id_small) simp_all
  have inx: "inext (dropped_files st) = inext (files st)" using dropped_files_cases[OF o] by auto
  from open_durable[OF D fs logs(1) c ts, of readings B h] xs new inx logs(2) show ?thesis by (auto simp del: all_entries_logs)
qed

lemma reopen_dropped:
  assumes D: "deps_laws D" and st: "durable D st" and small: "active_fileid st < 2 ^ 63" "inext (files st) < 2 ^ 63"
    and c: "0 < concurrency c" and ts: "\<And>t. Some t \<in> set readings \<Longrightarrow> in_i64 t"
  shows "\<exists>st'. bitcask_open D B c readings h (dropped_files st) = Some (Inr st', files st') \<and>
    durable D st' \<and> \<not> closed st' \<and> abs_store D st' = abs_store D st"
proof -
  from st obtain xs where xs: "logged D st xs" by (auto simp: durable_logged)
  from reopen_logged[OF D xs small c ts, of readings B h] obtain st' where
    "bitcask_open D B c readings h (dropped_files st) = Some (Inr st', files st')" "logged D st' xs" "\<not> closed st'" by blast
  with logged_store[OF xs] logged_store[of D st' xs] show ?thesis by (auto simp: durable_logged)
qed

end
