(* ===== verification/Progress.thy ===== *)
theory Progress
  imports Reopen
begin

section \<open>Operations that succeed\<close>

text \<open>
  When no system call fails and there is room, \<open>put\<close> and \<open>delete\<close> return: no counter
  overflows, no assertion fails, and the next active file can be created.
\<close>

lemma append_succeeds:
  assumes "faults (files st) = []" and "bw_buf (w_log st) = []" and "pos_ok (w_log st) (files st)"
    and "length (idata (files st) (bw_file (w_log st))) + length d < 2 ^ 63"
  shows "\<exists>ix st'. append_active B d st = (Inr ix, st') \<and> faults (files st') = [] \<and> conf st' = conf st"
proof -
  let ?n = "length (idata (files st) (bw_file (w_log st)))"
  have p: "bw_pos (w_log st) = ?n" using assms(2-4) by (simp add: pos_ok_def)
  have add: "u64_add B ?n (length d) = (Inr (?n + length d) :: (bc_error, nat) result)" using assms(4) by simp
  have i: "in_i64 (int ?n + int (length d))" using assms(4) by (simp add: in_i64_def)
  have sub: "u64_sub B (?n + length d) ?n = (Inr (length d) :: (bc_error, nat) result)" by simp
  show ?thesis
    using assms(1,2) p add i sub
    by (cases "d = []")
      (simp_all add: append_active_def log_append_def bw_write_all_def bw_flush_def write_file_def append_bytes_def Let_def)
qed

lemma sync_succeeds:
  assumes "faults (files st) = []"
  shows "\<exists>st'. on_files (log_sync w) st = (Inr (), st') \<and> st' = st"
  using assms by (simp add: on_files_def log_sync_def sync_all_def)

lemma after_append_succeeds:
  assumes "faults (files st) = []" and "written_bytes st + ix_len ix < 2 ^ 64"
    and "stats_exact kd (w_stats st) n b" and "totals_fit n b" and "ix_len ix < 2 ^ 63"
  shows "\<exists>st'. after_append B v ix st = (Inr (), st') \<and> faults (files st') = []"
proof -
  let ?s = "stats_of (w_stats st) (active_fileid st)"
  note fit = totals_fit_bounds[OF assms(3,4), of "active_fileid st"]
  have live: "add_live B ?s = (Inr (), ?s\<lparr>live_keys := live_keys ?s + 1\<rparr>)"
    using fit(1) by (intro add_live_exact) simp
  have dead: "add_dead B (ix_len ix) ?s =
      (Inr (), ?s\<lparr>dead_keys := dead_keys ?s + 1, dead_bytes := dead_bytes ?s + ix_len ix\<rparr>)"
    using fit(2,3) assms(5) by (intro add_dead_exact) simp_all
  show ?thesis
    using assms(1,2) live dead sync_succeeds[OF assms(1), of "w_log st"]
    by (auto simp: after_append_def with_stats_def Let_def)
qed

lemma rotate_succeeds:
  assumes "faults (files st) = []" and "on_disk D st old es" and "active_fileid st < 2 ^ 63" and "inext (files st) < 2 ^ 63"
  shows "\<exists>st'. next_active_datafile B st = (Inr (), st') \<and> faults (files st') = [] \<and> active_fileid st' = Suc (active_fileid st) \<and>
    inext (files st') = Suc (inext (files st)) \<and> written_bytes st' = 0"
proof -
  let ?n = "active_fileid st + 1"
  have ids: "ids_of (map fst (dir (files st))) = map fst old @ [active_fileid st]" using assms(2) by (simp add: on_disk_def)
  have "map_of (dir (files st)) (datafile_name ?n) = None"
  proof (rule ccontr)
    assume "map_of (dir (files st)) (datafile_name ?n) \<noteq> None"
    then obtain i where "(datafile_name ?n, i) \<in> set (dir (files st))" by (auto dest: map_of_SomeD)
    then have "datafile_name ?n \<in> set (map fst (dir (files st)))" by force
    moreover have "fileid_of (datafile_name ?n) = Some ?n" using assms(3) by simp
    ultimately have "?n \<in> set (ids_of (map fst (dir (files st))))" unfolding set_ids_of by blast
    with ids_of_sorted_last[OF ids] show False by fastforce
  qed
  from log_create_succeeds[OF assms(1) this assms(4)] obtain w fs where
    w: "log_create (datafile_name ?n) (files st) = (Inr w, fs)" "faults fs = []" "inext fs = Suc (inext (files st))" by blast
  moreover have "u64_add B (active_fileid st) 1 = (Inr ?n :: (bc_error, nat) result)" using assms(3) by simp
  moreover have "bw_drop (w_log st) fs = fs" using assms(2) by (simp add: on_disk_def bw_drop_empty)
  ultimately show ?thesis by (simp add: next_active_datafile_def new_active_datafile_def)
qed

text \<open>What one write uses up, and what it leaves alone.\<close>

definition one_write :: "'l storage \<Rightarrow> 'l storage \<Rightarrow> bool" where
  "one_write st st' \<longleftrightarrow> faults (files st') = [] \<and> active_fileid st' \<le> Suc (active_fileid st) \<and>
     inext (files st') \<le> Suc (inext (files st)) \<and> written_bytes st' \<le> max_file_size (conf st) \<and> same_rest st st'"

lemma write_entry_succeeds:
  assumes D: "deps_laws D" and inv: "storage_inv D st" and d: "durable_at D st old es" and t: "in_i64 t"
    and f: "faults (files st) = []" and small: "active_fileid st < 2 ^ 63" "inext (files st) < 2 ^ 63"
    and room: "length (idata (files st) (bw_file (w_log st))) + length (enc_data D \<lparr>d_tstamp = t, d_key = k, d_value = v\<rparr>) < 2 ^ 63"
  shows "\<exists>e st'. write_entry D B t k v st = (Inr e, st') \<and> one_write st st' \<and> clock st' = clock st"
proof -
  let ?x = "\<lparr>d_tstamp = t, d_key = k, d_value = v\<rparr>"
  have o: "on_disk D st old es" and wb: "written_bytes st = length (file_bytes D es)"
    and ex: "stats_exact (keydir st) (w_stats st) (entry_count (the_logs st old es)) (byte_count D (the_logs st old es))"
    using d by (simp_all add: durable_at_def)
  have x: "in_i64 (d_tstamp ?x)" using t by simp
  have "bw_buf (w_log st) = []" "pos_ok (w_log st) (files st)"
    using o storage_invD(3)[OF inv] by (simp_all add: on_disk_def writer_ok_def)
  from append_succeeds[OF f this room] obtain ix s1 where
    1: "append_active B (enc_data D ?x) st = (Inr ix, s1)" "faults (files s1) = []" by blast
  note a = append_active_Inr[OF 1(1) enc_data_not_empty[OF D x] storage_inv_ready[OF inv]]
  note s1 = append_active_step[OF 1(1) _ storage_inv_ready[OF inv]]
  have len: "length (file_bytes D es) + ix_len ix < 2 ^ 63" using a(2) room o by (simp add: on_disk_def)
  have "written_bytes s1 + ix_len ix < 2 ^ 64" "ix_len ix < 2 ^ 63" using len wb a(6) by simp_all
  from after_append_succeeds[OF 1(2) this(1) _ durable_fit[OF D o] this(2)] ex a(7) obtain s2 where
    2: "after_append B v ix s1 = (Inr (), s2)" "faults (files s2) = []" by metis
  have q: "quiet s1 s2" using after_append_quiet[OF 2(1)] .
  have o2: "on_disk D s2 old (es @ [?x])"
    using on_disk_quiet[OF on_disk_append[OF D storage_inv_ready[OF inv] o x 1(1)] q] .
  have same: "active_fileid s2 = active_fileid st" "inext (files s2) = inext (files st)"
    using s1(2) q a(1) by (simp_all add: quiet_def same_files_def grown_def)
  have c2: "conf s2 = conf st" using s1(1) q by (simp add: quiet_def writer_step_def same_rest_def)
  from rotate_succeeds[OF 2(2) o2, of B] small same obtain s3 where 3: "next_active_datafile B s2 = (Inr (), s3)"
    "faults (files s3) = []" "active_fileid s3 = Suc (active_fileid st)" "inext (files s3) = Suc (inext (files st))"
    "written_bytes s3 = 0" by auto
  let ?s' = "if max_file_size (conf s2) < written_bytes s2 then s3 else s2"
  let ?e = "\<lparr>kd_fileid = active_fileid s2, kd_len = ix_len ix, kd_pos = ix_pos ix, kd_tstamp = t\<rparr>"
  have w: "write_entry D B t k v st = (Inr ?e, ?s')" using 1(1) 2(1) 3(1) by (simp add: write_entry_after)
  note step = write_entry_Inr(1)[OF D storage_inv_ready[OF inv] t w]
  then have "same_rest st ?s'" "clock ?s' = clock st" unfolding writer_step_def by blast+
  moreover have "faults (files ?s') = [] \<and> active_fileid ?s' \<le> Suc (active_fileid st) \<and> inext (files ?s') \<le> Suc (inext (files st)) \<and>
      written_bytes ?s' \<le> max_file_size (conf st)" using 2(2) 3 same c2 by simp
  ultimately show ?thesis using w unfolding one_write_def by blast
qed

lemma timestamp_succeeds:
  assumes "None \<notin> set (clock st)"
  shows "\<exists>t ts. timestamp st = (Inr t, st\<lparr>clock := ts\<rparr>) \<and> set ts \<subseteq> set (clock st) \<and> (clock st \<noteq> [] \<longrightarrow> clock st = Some t # ts)"
proof (cases "clock st")
  case Nil
  then have "timestamp st = (Inr 0, st\<lparr>clock := []\<rparr>)" by (simp add: timestamp_def)
  with Nil show ?thesis by (intro exI[of _ 0] exI[of _ "[]"]) simp
next
  case (Cons r ts)
  with assms obtain t where "r = Some t" by (cases r) auto
  with Cons show ?thesis by (intro exI[of _ t] exI[of _ ts]) (auto simp: timestamp_def)
qed

text \<open>The previous entry of the key can be counted dead.\<close>

lemma drop_succeeds:
  assumes D: "deps_laws D" and inv: "storage_inv D s0" and d: "durable_at D s0 old es" and t: "in_i64 t"
    and w: "write_entry D B t k v s0 = (Inr e, s1)" and p: "map_of (keydir s0) k = Some p"
    and s2: "w_stats s2 = w_stats s1"
  shows "\<exists>ss. with_stats (kd_fileid p) (overwrite B (kd_len p)) s2 = (Inr (), s2\<lparr>w_stats := ss\<rparr>)"
proof -
  have o: "on_disk D s0 old es" and wb: "written_bytes s0 = length (file_bytes D es)"
    and ex: "stats_exact (keydir s0) (w_stats s0) (entry_count (the_logs s0 old es)) (byte_count D (the_logs s0 old es))"
    using d by (simp_all add: durable_at_def)
  note we = write_entry_disk[OF D storage_inv_ready[OF inv] o t w wb ex durable_fit[OF D o]]
  have "w_stats s1 = count_live (active_fileid s0) (w_stats s0) \<or> w_stats s1 = count_dead (active_fileid s0) (kd_len e) (w_stats s0)"
    using we(4) by (auto split: if_splits)
  from drop_room[OF ex durable_fit[OF D o] p we(3) this, of B] s2 show ?thesis
    by (auto simp: with_stats_def Let_def)
qed

lemma put_can_run:
  assumes D: "deps_laws D" and st: "durable D st" and ts: "timestamp st = (Inr t, st\<lparr>clock := ts\<rparr>)"
    and f: "faults (files st) = []" and small: "active_fileid st < 2 ^ 63" "inext (files st) < 2 ^ 63"
    and room: "length (idata (files st) (bw_file (w_log st))) + length (enc_data D \<lparr>d_tstamp = t, d_key = k, d_value = Some v\<rparr>) < 2 ^ 63"
  shows "\<exists>st'. put D B k v st = (Inr (), st') \<and> one_write st st' \<and> clock st' = ts"
proof -
  from st obtain old es where inv: "storage_inv D st" and d: "durable_at D st old es" by (auto simp: durable_def)
  let ?s0 = "st\<lparr>clock := ts\<rparr>"
  note s0 = inv_timestamp[OF inv ts]
  have d0: "durable_at D ?s0 old es" by (rule durable_at_cong[OF d]) simp_all
  have ti: "in_i64 t" using s0(4) by simp
  from write_entry_succeeds[OF D s0(1) d0 ti, of k "Some v" B] f small room obtain e s1 where
    w: "write_entry D B t k (Some v) ?s0 = (Inr e, s1)" "one_write ?s0 s1" "clock s1 = ts" by auto
  have kd: "keydir s1 = keydir ?s0" using write_entry_Inr(1)[OF D storage_inv_ready[OF s0(1)] ti w(1)] by (simp add: writer_step_def)
  show ?thesis
  proof (cases "map_of (keydir ?s0) k")
    case None
    with ts w kd show ?thesis by (simp add: put_def keydir_set_def one_write_def same_rest_def)
  next
    case (Some p)
    from drop_succeeds[OF D s0(1) d0 ti w(1) Some, of "s1\<lparr>keydir := AList.update k e (keydir s1)\<rparr>"] obtain ss where
      "with_stats (kd_fileid p) (overwrite B (kd_len p)) (s1\<lparr>keydir := AList.update k e (keydir s1)\<rparr>) =
        (Inr (), s1\<lparr>keydir := AList.update k e (keydir s1), w_stats := ss\<rparr>)" by auto
    then show ?thesis using ts w kd Some by (simp add: put_def keydir_set_def one_write_def same_rest_def)
  qed
qed

lemma delete_can_run:
  assumes D: "deps_laws D" and st: "durable D st" and ts: "timestamp st = (Inr t, st\<lparr>clock := ts\<rparr>)"
    and f: "faults (files st) = []" and small: "active_fileid st < 2 ^ 63" "inext (files st) < 2 ^ 63"
    and room: "length (idata (files st) (bw_file (w_log st))) + length (enc_data D \<lparr>d_tstamp = t, d_key = k, d_value = None\<rparr>) < 2 ^ 63"
  shows "\<exists>b st'. delete D B k st = (Inr b, st') \<and> one_write st st' \<and> clock st' = ts"
proof -
  from st obtain old es where inv: "storage_inv D st" and d: "durable_at D st old es" by (auto simp: durable_def)
  let ?s0 = "st\<lparr>clock := ts\<rparr>"
  note s0 = inv_timestamp[OF inv ts]
  have d0: "durable_at D ?s0 old es" by (rule durable_at_cong[OF d]) simp_all
  have ti: "in_i64 t" using s0(4) by simp
  from write_entry_succeeds[OF D s0(1) d0 ti, of k None B] f small room obtain e s1 where
    w: "write_entry D B t k None ?s0 = (Inr e, s1)" "one_write ?s0 s1" "clock s1 = ts" by auto
  have kd: "keydir s1 = keydir ?s0" using write_entry_Inr(1)[OF D storage_inv_ready[OF s0(1)] ti w(1)] by (simp add: writer_step_def)
  show ?thesis
  proof (cases "map_of (keydir ?s0) k")
    case None
    with ts w kd show ?thesis by (auto simp: delete_def keydir_remove_def one_write_def same_rest_def)
  next
    case (Some p)
    from drop_succeeds[OF D s0(1) d0 ti w(1) Some, of "s1\<lparr>keydir := AList.delete k (keydir s1)\<rparr>"] obtain ss where
      "with_stats (kd_fileid p) (overwrite B (kd_len p)) (s1\<lparr>keydir := AList.delete k (keydir s1)\<rparr>) =
        (Inr (), s1\<lparr>keydir := AList.delete k (keydir s1), w_stats := ss\<rparr>)" by auto
    then show ?thesis using ts w kd Some by (auto simp: delete_def keydir_remove_def one_write_def same_rest_def)
  qed
qed

lemma put_succeeds:
  assumes D: "deps_laws D" and st: "durable D st" and t: "clock st = Some t # ts"
    and f: "faults (files st) = []" and small: "active_fileid st < 2 ^ 63" "inext (files st) < 2 ^ 63"
    and room: "length (idata (files st) (bw_file (w_log st))) + length (enc_data D \<lparr>d_tstamp = t, d_key = k, d_value = Some v\<rparr>) < 2 ^ 63"
  shows "fst (put D B k v st) = Inr ()"
proof -
  have "timestamp st = (Inr t, st\<lparr>clock := ts\<rparr>)" using t by (simp add: timestamp_def)
  from put_can_run[OF D st this f small room] show ?thesis by (metis fst_conv)
qed

end
