(* ===== verification/MergeRefine.thy ===== *)
theory MergeRefine
  imports Progress
begin

section \<open>Merging keeps the store\<close>

text \<open>
  A merge copies the live entries of the chosen files to new files, leads the keydir to the
  copies and removes the chosen files. When no system call fails the storage stands for the
  same store afterwards. The copies of the current merge file are in part still in the buffer
  of its writer; \<open>flushed\<close> is what the files will be.
\<close>

subsection \<open>Buffered copies\<close>

definition flushed :: "fs \<Rightarrow> log_writer \<Rightarrow> fs" where
  "flushed fs w = append_bytes (bw_file w) (bw_buf w) fs"

lemma flushed_sel [simp]:
  "dir (flushed fs w) = dir fs" "inext (flushed fs w) = inext fs" "faults (flushed fs w) = faults fs"
  "idata (flushed fs w) = (idata fs)(bw_file w := idata fs (bw_file w) @ bw_buf w)"
  by (simp_all add: flushed_def append_bytes_def)

lemma flushed_grows: "grows fs (flushed fs w)"
  by (auto simp: grows_def)

lemma fs_ok_flushed: "fs_ok (flushed fs w) = fs_ok fs"
  by (simp add: fs_ok_def)

lemma bw_drop_flushed:
  assumes "faults fs = []" and "length (idata fs (bw_file w)) + length (bw_buf w) < 2 ^ 63"
  shows "bw_drop w fs = flushed fs w"
proof -
  have "in_i64 (int (length (idata fs (bw_file w))) + int (length (bw_buf w)))" using assms(2) by (simp add: in_i64_def)
  with assms(1) show ?thesis
    by (cases "bw_buf w = []") (simp_all add: bw_drop_def bw_flush_def write_file_def flushed_def append_bytes_def)
qed

text \<open>Growth of everything but one file that stays as it is, for the files behind a buffer.\<close>

lemma grows_flushed:
  assumes "grows fs fs'" and "idata fs' (bw_file w) = idata fs (bw_file w)" and "bw_file w' = bw_file w"
    and "bw_buf w' = bw_buf w @ d"
  shows "grows (flushed fs w) (flushed fs' w')"
  unfolding grows_def
proof (intro conjI allI impI)
  fix i assume "i < inext (flushed fs w)"
  then obtain z where "idata fs' i = idata fs i @ z" using assms(1) by (auto simp: grows_def)
  with assms(2-4) show "\<exists>z. idata (flushed fs' w') i = idata (flushed fs w) i @ z" by auto
qed (use assms(1) in \<open>auto simp: grows_def\<close>)

subsection \<open>The state of the loop\<close>

definition merge_frame :: "'l deps \<Rightarrow> 'l storage \<Rightarrow> 'l storage \<Rightarrow> bool" where
  "merge_frame D st0 st \<longleftrightarrow>
     keydir st = keydir st0 \<and> active_fileid st = active_fileid st0 \<and> w_log st = w_log st0 \<and> pool st = pool st0 \<and>
     clock st = clock st0 \<and> closed st = closed st0 \<and>
     fs_ok (files st) \<and> grows (files st0) (files st) \<and> old_names (active_fileid st0) (files st0) (files st) \<and>
     faults (files st) = [] \<and> cache_ok D (keydir st0) (files st) (active_fileid st0) (w_readers st)"

definition merge_writers :: "'l storage \<Rightarrow> merge_vars \<times> 'l storage \<Rightarrow> bool" where
  "merge_writers st0 = (\<lambda>(m, st).
     active_fileid st0 < merge_fileid m \<and> merge_fileid m < 2 ^ 63 + inext (files st) \<and>
     map_of (dir (files st)) (datafile_name (merge_fileid m)) = Some (bw_file (m_data m)) \<and>
     map_of (dir (files st)) (hintfile_name (merge_fileid m)) = Some (bw_file (m_hint m)) \<and>
     merge_pos m = length (idata (files st) (bw_file (m_data m))) + length (bw_buf (m_data m)) \<and>
     merge_pos m < 2 ^ 63 \<and> pos_ok (m_hint m) (files st))"

text \<open>Every new keydir entry leads to a copy of what the old one leads to.\<close>

definition copied :: "'l deps \<Rightarrow> 'l storage \<Rightarrow> fs \<Rightarrow> nat \<Rightarrow> keydir \<Rightarrow> bool" where
  "copied D st0 fs lid kes \<longleftrightarrow> distinct (map fst kes) \<and>
     (\<forall>k e'. (k, e') \<in> set kes \<longrightarrow> active_fileid st0 < kd_fileid e' \<and> kd_fileid e' \<le> lid \<and>
       (\<exists>e x. map_of (keydir st0) k = Some e \<and> located D (files st0) e x \<and> located D fs e' x))"

definition merge_inv :: "'l deps \<Rightarrow> 'l storage \<Rightarrow> merge_vars \<times> 'l storage \<Rightarrow> bool" where
  "merge_inv D st0 = (\<lambda>(m, st). merge_frame D st0 st \<and> merge_writers st0 (m, st) \<and>
     copied D st0 (flushed (files st) (m_data m)) (merge_fileid m) (m_entries m))"

lemma copied_grows:
  assumes "copied D st0 fs lid kes" and "fs_ok fs" and "grows fs fs'" and "lid \<le> lid'"
  shows "copied D st0 fs' lid' kes"
  using assms(1) located_grows[OF assms(2,3)] assms(4) unfolding copied_def by (meson order_trans)

lemma copied_update:
  assumes "copied D st0 fs lid kes" and "map_of (keydir st0) k = Some e" and "located D (files st0) e x"
    and "located D fs e' x" and "active_fileid st0 < kd_fileid e'" and "kd_fileid e' \<le> lid"
  shows "copied D st0 fs lid (AList.update k e' kes)"
proof -
  have "distinct (map fst (AList.update k e' kes))" using assms(1) by (simp add: copied_def distinct_update)
  moreover have "(k', q) \<in> set (AList.update k e' kes) \<Longrightarrow> (k', q) = (k, e') \<or> (k', q) \<in> set kes" for k' q
    using set_AList_update[of k e' kes] by blast
  ultimately show ?thesis using assms unfolding copied_def by (metis prod.inject)
qed

text \<open>Steps that only make the files grow.\<close>

lemma merge_frame_step:
  assumes "merge_frame D st0 st" and "keydir st' = keydir st" and "active_fileid st' = active_fileid st"
    and "w_log st' = w_log st" and "pool st' = pool st" and "clock st' = clock st" and "closed st' = closed st"
    and "w_readers st' = w_readers st"
    and "fs_ok (files st')" and "grows (files st) (files st')" and "old_names (active_fileid st0) (files st) (files st')"
    and "faults (files st') = []"
  shows "merge_frame D st0 st'"
  using assms cache_ok_grows[OF _ assms(10,11) order_refl, of D "keydir st0" "w_readers st"]
    grows_trans[OF _ assms(10)] old_names_trans[OF _ assms(11)]
  unfolding merge_frame_def by simp

subsection \<open>One entry\<close>

lemma copy_entry_ok:
  assumes D: "deps_laws D" and inv: "storage_inv D st0" and fr: "merge_frame D st0 st"
    and k: "map_of (keydir st0) k = Some e" and x: "located D (files st0) e x"
    and run: "copy_entry D B e st = (r, st')"
  shows "r = Inr (enc_data D x)" and "merge_frame D st0 st'" and "same_files (files st) (files st')"
    and "w_stats st' = w_stats st" and "conf st' = conf st"
proof -
  have f: "fs_ok (files st)" "grows (files st0) (files st)" "cache_ok D (keydir st0) (files st) (active_fileid st0) (w_readers st)"
    "faults (files st) = []" using fr by (simp_all add: merge_frame_def)
  have kd: "keydir_ok D (keydir st0) (files st) (active_fileid st0)"
    using keydir_ok_grows[OF storage_invD(2,1)[OF inv] f(2) order_refl] .
  have le: "kd_fileid e \<le> active_fileid st0" using keydir_okD(2)[OF kd map_of_SomeD[OF k]] by simp
  have x': "located D (files st) e x" using located_grows[OF storage_invD(1)[OF inv] f(2) x] .
  then obtain i where i: "map_of (dir (files st)) (datafile_name (kd_fileid e)) = Some i" by (auto simp: located_def)
  obtain q l fs where q: "log_dir_copy D B (kd_fileid e) (kd_len e) (kd_pos e) (w_readers st) (files st) = (q, l, fs)"
    by (metis prod_cases3)
  from log_dir_ok[OF D kd f(1,3) le i copy_raw_act_ok[OF kd f(1) map_of_SomeD[OF k] x'] q[unfolded log_dir_copy_def]]
  have ok: "io_or (files st) (enc_data D x) q" "same_files (files st) fs" "cache_ok D (keydir st0) (files st) (active_fileid st0) l"
    by simp_all
  have st': "st' = st\<lparr>w_readers := l, files := fs\<rparr>" "r = q" using run q by (simp_all add: copy_entry_def)
  show "r = Inr (enc_data D x)" using ok(1) f(4) st'(2) by (simp add: io_or_def)
  show "same_files (files st) (files st')" "w_stats st' = w_stats st" "conf st' = conf st" using st'(1) ok(2) by simp_all
  have "cache_ok D (keydir st0) fs (active_fileid st0) l"
    using ok(3) reader_ok_same[OF ok(2)] by (simp add: cache_ok_def)
  with fr st'(1) ok(2) show "merge_frame D st0 st'"
    using fs_ok_same[OF ok(2)] grows_trans[OF _ same_files_grows[OF ok(2)]] old_names_trans[OF _ old_names_same, of _ _ "files st" fs]
    by (simp add: merge_frame_def same_files_def)
qed

lemma flushed_empty: "bw_buf w = [] \<Longrightarrow> flushed fs w = fs"
  by (cases fs) (simp add: flushed_def append_bytes_def)

lemma with_stats_fields:
  assumes "with_stats f op st = (r, st')"
  obtains ss where "st' = st\<lparr>w_stats := ss\<rparr>"
  using assms by (auto simp: with_stats_def split: prod.splits)

lemma with_stats_keys:
  assumes "with_stats f op st = (r, st')"
  shows "fst ` set (w_stats st') \<subseteq> insert f (fst ` set (w_stats st))"
proof -
  obtain s where "w_stats st' = AList.update f s (w_stats st)" using assms by (auto simp: with_stats_def split: prod.splits)
  then show ?thesis by (simp add: dom_update)
qed

lemma merge_frame_stats: "merge_frame D st0 st \<Longrightarrow> merge_frame D st0 (st\<lparr>w_stats := ss\<rparr>)"
  by (simp add: merge_frame_def)

text \<open>The copy goes behind what the merge file holds and will hold.\<close>

lemma copied_step:
  assumes ok: "fs_ok fs" and c: "copied D st0 (flushed fs w) lid kes" and k: "map_of (keydir st0) k = Some e"
    and x: "located D (files st0) e x" and a: "active_fileid st0 < lid"
    and m: "map_of (dir fs) (datafile_name lid) = Some (bw_file w)"
    and pos: "pos = length (idata fs (bw_file w)) + length (bw_buf w)" and fit: "pos + length (enc_data D x) < 2 ^ 63"
  shows "copied D st0 (flushed fs (w\<lparr>bw_buf := bw_buf w @ enc_data D x\<rparr>)) lid
    (AList.update k \<lparr>kd_fileid = lid, kd_len = length (enc_data D x), kd_pos = pos, kd_tstamp = kd_tstamp e\<rparr> kes)"
proof -
  let ?w = "w\<lparr>bw_buf := bw_buf w @ enc_data D x\<rparr>"
  have "grows (flushed fs w) (flushed fs ?w)" by (rule grows_flushed[of _ _ _ _ "enc_data D x"]) simp_all
  from copied_grows[OF c _ this order_refl] ok have "copied D st0 (flushed fs ?w) lid kes" by (simp add: fs_ok_flushed)
  moreover have "entry_ok x" using x by (auto simp: located_def)
  then have "located D (flushed fs ?w)
      \<lparr>kd_fileid = lid, kd_len = length (enc_data D x), kd_pos = pos, kd_tstamp = kd_tstamp e\<rparr> x"
    using located_at[of "flushed fs ?w" lid "bw_file w" "idata fs (bw_file w) @ bw_buf w" D x "[]" "kd_tstamp e"]
      m pos fit by simp
  ultimately show ?thesis using copied_update[OF _ k x] a by simp
qed

text \<open>Writing the hint changes the hint file alone.\<close>

lemma append_hint_ok:
  assumes fr: "merge_frame D st0 st" and wr: "merge_writers st0 (m, st)"
    and c: "copied D st0 (flushed (files st) (m_data m)) lid kes"
    and run: "append_hint B d (m, st) = (Inr u, m', st')"
  shows "merge_frame D st0 st'" and "merge_writers st0 (m', st')"
    and "copied D st0 (flushed (files st') (m_data m')) lid kes"
    and "merge_fileid m' = merge_fileid m" "merge_pos m' = merge_pos m" "m_data m' = m_data m" "m_entries m' = m_entries m"
    and "conf st' = conf st" "w_stats st' = w_stats st"
proof -
  obtain r w fs where l: "log_append B d (m_hint m) (files st) = (r, w, fs)" by (metis prod_cases3)
  with run have st': "st' = st\<lparr>files := fs\<rparr>" "m' = m\<lparr>m_hint := w\<rparr>" and r: "r \<noteq> Inl Panic"
    by (auto simp: append_hint_def)
  have h: "pos_ok (m_hint m) (files st)" using wr by (simp add: merge_writers_def)
  from log_append_keeps[OF l r h] obtain z where z: "grown (files st) (bw_file (m_hint m)) z fs"
    and w: "pos_ok w fs" "bw_file w = bw_file (m_hint m)" by blast
  have ok: "fs_ok (files st)" "faults (files st) = []" using fr by (simp_all add: merge_frame_def)
  have ne: "bw_file (m_data m) \<noteq> bw_file (m_hint m)"
    using fs_ok_inj[OF ok(1), of "datafile_name (merge_fileid m)" "bw_file (m_data m)" "hintfile_name (merge_fileid m)"] wr
    by (auto simp: merge_writers_def)
  have nf: "faults fs = []"
    using l ok(2) by (auto simp: log_append_def bw_write_all_def bw_flush_def write_file_def append_bytes_def Let_def
        assign_Inl assign_Inr split: prod.splits sum.splits if_splits)
  have same: "idata fs (bw_file (m_data m)) = idata (files st) (bw_file (m_data m))" using z ne by (simp add: grown_def)
  show "merge_frame D st0 st'"
    by (rule merge_frame_step[OF fr]) (use st' z ok nf grown_grows[OF z] grown_fs_ok[OF z] in \<open>auto simp: grown_def intro: old_names_same\<close>)
  show "merge_writers st0 (m', st')" using wr st' z w same by (simp add: merge_writers_def grown_def)
  have "grows (flushed (files st) (m_data m)) (flushed fs (m_data m))"
    by (rule grows_flushed[OF grown_grows[OF z] same refl, of "[]"]) simp
  from copied_grows[OF c _ this order_refl] ok(1) st'
  show "copied D st0 (flushed (files st') (m_data m')) lid kes" by (simp add: fs_ok_flushed)
  show "merge_fileid m' = merge_fileid m" "merge_pos m' = merge_pos m" "m_data m' = m_data m" "m_entries m' = m_entries m"
    "conf st' = conf st" "w_stats st' = w_stats st" using st' by simp_all
qed

lemma create_merge_data_Inr:
  assumes "create_merge_data f fs = (Inr w, fs')" and "fs_ok fs" and "faults fs = []"
  shows "w = \<lparr>bw_pos = 0, bw_file = inext fs, bw_buf = []\<rparr>" and "grows fs fs'" and "fs_ok fs'" and "faults fs' = []"
    and "dir fs' = (datafile_name f, inext fs) # dir fs" and "idata fs' (inext fs) = []" and "inext fs' = Suc (inext fs)"
    and "inext fs < 2 ^ 63" and "\<And>j. j < inext fs \<Longrightarrow> idata fs' j = idata fs j" and "map_of (dir fs) (datafile_name f) = None"
proof -
  from assms(1) obtain i where c: "create_new (datafile_name f) fs = (Inr i, fs')" and w: "w = \<lparr>bw_pos = 0, bw_file = i, bw_buf = []\<rparr>"
    by (auto simp: create_merge_data_def res_simps split: prod.splits)
  note cr = create_new_Inr[OF c]
  show "w = \<lparr>bw_pos = 0, bw_file = inext fs, bw_buf = []\<rparr>" using w cr by simp
  show "dir fs' = (datafile_name f, inext fs) # dir fs" "idata fs' (inext fs) = []" "inext fs' = Suc (inext fs)"
    "inext fs < 2 ^ 63" "map_of (dir fs) (datafile_name f) = None" using cr by simp_all
  show old: "idata fs' j = idata fs j" if "j < inext fs" for j using cr that by simp
  then show "grows fs fs'" using cr by (auto simp: grows_def)
  show "faults fs' = []" using c assms(3) by (auto simp: create_new_def split: if_splits)
  show "fs_ok fs'" using assms(2) cr by (force simp: fs_ok_def map_of_eq_None_iff)
qed

lemma log_create_faults: "log_create name fs = (Inr w, fs') \<Longrightarrow> faults fs = [] \<Longrightarrow> faults fs' = []"
  by (auto simp: log_create_def create_new_def log_writer_new_def stream_len_def split: if_splits)

lemma bw_drop_faults: "faults fs = [] \<Longrightarrow> faults (bw_drop w fs) = []"
  by (auto simp: bw_drop_def bw_flush_def write_file_def append_bytes_def split: prod.splits if_splits)

text \<open>Two new files, for data and hints; the old writers are dropped.\<close>

lemma switch_merge_file_ok:
  assumes fr: "merge_frame D st0 st" and wr: "merge_writers st0 (m, st)"
    and c: "copied D st0 (flushed (files st) (m_data m)) (merge_fileid m) (m_entries m)"
    and run: "switch_merge_file B (m, st) = (Inr u, m', st')"
  shows "merge_frame D st0 st' \<and> merge_writers st0 (m', st') \<and> merge_pos m' = 0 \<and> m_entries m' = m_entries m \<and>
    merge_fileid m \<le> merge_fileid m' \<and> w_stats st' = w_stats st \<and>
    copied D st0 (flushed (files st') (m_data m')) (merge_fileid m') (m_entries m')"
proof -
  let ?fs = "files st"
  have ok: "fs_ok ?fs" "faults ?fs = []" using fr by (simp_all add: merge_frame_def)
  from run obtain n wd fs1 wh fs3 where n: "u64_add B (merge_fileid m) 1 = (Inr n :: (bc_error, nat) result)"
    and d: "create_merge_data n ?fs = (Inr wd, fs1)"
    and h: "log_create (hintfile_name n) (bw_drop (m_data m) fs1) = (Inr wh, fs3)"
    and m': "m' = m\<lparr>merge_fileid := n, merge_pos := 0, m_data := wd, m_hint := wh\<rparr>"
    and st': "st' = st\<lparr>files := bw_drop (m_hint m) fs3\<rparr>"
    by (auto simp: switch_merge_file_def on_files_def replace_data_def replace_hint_def assign_Inr
        split: prod.splits elim!: try_op_InrE)
  note d1 = create_merge_data_Inr[OF d ok]
  let ?fs2 = "bw_drop (m_data m) fs1" and ?fs4 = "bw_drop (m_hint m) fs3"
  have fi: "bw_file (m_data m) < inext ?fs" "bw_file (m_hint m) < inext ?fs"
    using wr fs_ok_inode[OF ok(1)] by (auto simp: merge_writers_def)
  have len: "length (idata ?fs (bw_file (m_data m))) + length (bw_buf (m_data m)) < 2 ^ 63"
    using wr by (simp add: merge_writers_def)
  have fs2: "?fs2 = flushed fs1 (m_data m)" by (rule bw_drop_flushed[OF d1(4)]) (use len d1(9)[OF fi(1)] in simp)
  have ok2: "fs_ok ?fs2" "faults ?fs2 = []" "inext ?fs2 = Suc (inext ?fs)" using d1 by (simp_all add: fs2 fs_ok_flushed)
  note h1 = log_create_Inr[OF h ok2(1)]
  have n': "n = Suc (merge_fileid m)"
    using u64_add_Inr[OF n] wr d1(8) by (simp add: merge_writers_def)
  have g12: "grows (flushed ?fs (m_data m)) ?fs2"
    unfolding fs2 by (rule grows_flushed[OF d1(2) d1(9)[OF fi(1)] refl, of "[]"]) simp
  have g24: "grows ?fs2 ?fs4" using grows_trans[OF h1(2) bw_drop_grows(1)] .
  have nf: "bw_file wd = inext ?fs" "bw_buf wd = []" using d1(1) by simp_all
  have "idata ?fs4 (inext ?fs) = idata fs3 (inext ?fs)" using bw_drop_grows(5)[of "inext ?fs" "m_hint m" fs3] fi(2) by simp
  also have "\<dots> = idata ?fs2 (inext ?fs)" using h1(9)[of "inext ?fs"] ok2(3) by simp
  also have "\<dots> = []" using bw_drop_grows(5)[of "inext ?fs" "m_data m" fs1] fi(1) d1(6) by simp
  finally have empty: "idata ?fs4 (inext ?fs) = []" .
  have dir4: "dir ?fs4 = (hintfile_name n, Suc (inext ?fs)) # (datafile_name n, inext ?fs) # dir ?fs"
    using h1(4) d1(5) ok2(3) by (simp add: bw_drop_grows)
  have "idata ?fs4 (Suc (inext ?fs)) = []"
    using bw_drop_grows(5)[of "Suc (inext ?fs)" "m_hint m" fs3] fi(2) h1(5) ok2(3) by simp
  then have wh: "pos_ok wh ?fs4" "bw_file wh = Suc (inext ?fs)" using h1(1) ok2(3) by (simp_all add: pos_ok_def)
  have fl4: "flushed ?fs4 wd = ?fs4" using nf by (simp add: flushed_empty)
  have "merge_frame D st0 st'"
  proof (rule merge_frame_step[OF fr])
    show "fs_ok (files st')" using st' h1(3) by (simp add: bw_drop_grows)
    show "grows (files st) (files st')"
      using st' grows_trans[OF d1(2) grows_trans[OF bw_drop_grows(1) g24]] by simp
    have "active_fileid st0 < n" using wr n' by (simp add: merge_writers_def)
    then show "old_names (active_fileid st0) (files st) (files st')" using st' dir4 by (auto simp: old_names_def)
    show "faults (files st') = []" using st' log_create_faults[OF h ok2(2)] bw_drop_faults by simp
  qed (use st' in simp_all)
  moreover have "merge_writers st0 (m', st')"
    using wr n' m' st' dir4 nf empty wh h1(6) ok2(3) by (simp add: merge_writers_def bw_drop_grows)
  moreover have "copied D st0 ?fs4 n (m_entries m)"
    by (rule copied_grows[OF c]) (use ok(1) grows_trans[OF g12 g24] n' in \<open>simp_all add: fs_ok_flushed\<close>)
  ultimately show ?thesis using m' st' fl4 n' by simp
qed

lemma merge_entry_ok:
  assumes D: "deps_laws D" and inv: "storage_inv D st0" and mi: "merge_inv D st0 (m, st)"
    and k: "map_of (keydir st0) k = Some e" and fit: "merge_pos m + kd_len e < 2 ^ 63"
    and run: "merge_entry D B (k, e) (m, st) = (Inr u, m', st')"
  shows "merge_inv D st0 (m', st') \<and> set (map fst (m_entries m')) = insert k (set (map fst (m_entries m))) \<and>
    merge_pos m' \<le> merge_pos m + kd_len e \<and> merge_fileid m \<le> merge_fileid m' \<and>
    fst ` set (w_stats st') \<subseteq> insert (merge_fileid m) (fst ` set (w_stats st))"
proof -
  have fr: "merge_frame D st0 st" and wr: "merge_writers st0 (m, st)"
    and c: "copied D st0 (flushed (files st) (m_data m)) (merge_fileid m) (m_entries m)"
    using mi by (simp_all add: merge_inv_def)
  from keydir_okD(2)[OF storage_invD(2)[OF inv] map_of_SomeD[OF k]] obtain x where x: "located D (files st0) e x" by blast
  have len: "kd_len e = length (enc_data D x)" using x by (auto simp: located_def)
  obtain r s1 where r1: "copy_entry D B e st = (r, s1)" by fastforce
  note cp = copy_entry_ok[OF D inv fr k x r1]
  let ?d = "enc_data D x"
  let ?e = "\<lparr>kd_fileid = merge_fileid m, kd_len = length ?d, kd_pos = merge_pos m, kd_tstamp = kd_tstamp e\<rparr>"
  let ?m1 = "m\<lparr>m_data := (m_data m)\<lparr>bw_buf := bw_buf (m_data m) @ ?d\<rparr>, m_entries := AList.update k ?e (m_entries m)\<rparr>"
  obtain r2 s2 where r2: "with_stats (merge_fileid m) (add_live B) s1 = (r2, s2)" by fastforce
  from with_stats_fields[OF r2] obtain ss where s2: "s2 = s1\<lparr>w_stats := ss\<rparr>" .
  let ?h = "enc_hint D \<lparr>h_tstamp = kd_tstamp e, h_len = kd_len e, h_pos = kd_pos e, h_key = k\<rparr>"
  from run r1 r2 cp(1) obtain u2 m3 s3 q where r3: "append_hint B ?h (?m1, s2) = (Inr u2, m3, s3)"
    and pos: "u64_add B (merge_pos m3) (length ?d) = (Inr q :: (bc_error, nat) result)"
    and sw: "(if max_file_size (conf s3) < q then switch_merge_file B (m3\<lparr>merge_pos := q\<rparr>, s3)
       else (Inr (), m3\<lparr>merge_pos := q\<rparr>, s3)) = (Inr u, m', st')"
    by (auto simp: merge_entry_def Let_def assign_Inr split: prod.splits elim!: try_op_InrE)
  have same: "dir (files s2) = dir (files st)" "idata (files s2) = idata (files st)" "inext (files s2) = inext (files st)"
    using cp(3) s2 by (simp_all add: same_files_def)
  have fr2: "merge_frame D st0 s2" using merge_frame_stats[OF cp(2)] s2 by simp
  have w0: "merge_fileid m < 2 ^ 63 + inext (files st)" "active_fileid st0 < merge_fileid m"
    "map_of (dir (files st)) (datafile_name (merge_fileid m)) = Some (bw_file (m_data m))"
    "merge_pos m = length (idata (files st) (bw_file (m_data m))) + length (bw_buf (m_data m))"
    using wr by (simp_all add: merge_writers_def)
  have c2: "copied D st0 (flushed (files s2) (m_data ?m1)) (merge_fileid m) (m_entries ?m1)"
  proof -
    have "copied D st0 (flushed (files s2) (m_data m)) (merge_fileid m) (m_entries m)"
      by (rule copied_grows[OF c]) (use fr same in \<open>auto simp: merge_frame_def fs_ok_flushed grows_def\<close>)
    then show ?thesis
      using copied_step[of "files s2" D st0 "m_data m" "merge_fileid m" "m_entries m" k e x "merge_pos m"]
        fr2 k x w0 same fit len by (simp add: merge_frame_def)
  qed
  have wr2: "merge_writers st0 (?m1\<lparr>merge_pos := merge_pos m + length ?d\<rparr>, s2)"
    using wr same fit len by (simp add: merge_writers_def pos_ok_def)
  have ah: "append_hint B ?h (?m1\<lparr>merge_pos := merge_pos m + length ?d\<rparr>, s2) =
      (Inr u2, m3\<lparr>merge_pos := merge_pos m + length ?d\<rparr>, s3)"
    using r3 by (auto simp: append_hint_def split: prod.splits)
  note a = append_hint_ok[OF fr2 wr2 _ ah, of "merge_fileid m" "m_entries ?m1"]
  have m3: "merge_pos m3 = merge_pos m" "merge_fileid m3 = merge_fileid m" "m_data m3 = m_data ?m1" "m_entries m3 = m_entries ?m1"
    using r3 by (auto simp: append_hint_def split: prod.splits)
  have q: "q = merge_pos m + length ?d" using u64_add_Inr[OF pos] fit len m3(1) by simp
  let ?m4 = "m3\<lparr>merge_pos := q\<rparr>"
  have fin: "merge_frame D st0 s3" "merge_writers st0 (?m4, s3)"
    "copied D st0 (flushed (files s3) (m_data ?m4)) (merge_fileid ?m4) (m_entries ?m4)"
    using a c2 q m3 by simp_all
  have keys: "set (map fst (m_entries ?m4)) = insert k (set (map fst (m_entries m)))"
    using m3(4) by (simp add: dom_update)
  have ss3: "fst ` set (w_stats s3) \<subseteq> insert (merge_fileid m) (fst ` set (w_stats st))"
    using with_stats_keys[OF r2] cp(4) a(9) c2 by simp
  show ?thesis
  proof (cases "max_file_size (conf s3) < q")
    case True
    with sw have "switch_merge_file B (?m4, s3) = (Inr u, m', st')" by simp
    note sw' = switch_merge_file_ok[OF fin this]
    then have "merge_inv D st0 (m', st')" by (auto simp: merge_inv_def)
    moreover have "m_entries m' = m_entries ?m4" "merge_pos m' = 0" "merge_fileid ?m4 \<le> merge_fileid m'" "w_stats st' = w_stats s3"
      using sw' by (blast, blast, blast, blast)
    ultimately show ?thesis using keys ss3 m3(2) by simp
  next
    case False
    with sw have "m' = ?m4" "st' = s3" by simp_all
    with fin keys q len ss3 m3(2) show ?thesis by (simp add: merge_inv_def)
  qed
qed

end
