(* ===== verification/MergeStore.thy ===== *)
theory MergeStore
  imports MergeRefine Statistics
begin

section \<open>The whole merge\<close>

text \<open>
  From the choice of the files to the new active file: the copies are complete, the new entries
  override the old ones, the files that go hold nothing the keydir leads to, and the storage
  satisfies its invariant and stands for the same store.
\<close>

subsection \<open>Copying every entry\<close>

text \<open>The statistics know no file beyond \<open>lid\<close>.\<close>

definition known_files :: "nat \<Rightarrow> (nat \<times> log_statistics) list \<Rightarrow> bool" where
  "known_files lid ss \<longleftrightarrow> (\<forall>f \<in> fst ` set ss. f \<le> lid)"

lemma known_files_step: "known_files a ss \<Longrightarrow> fst ` set ss' \<subseteq> insert b (fst ` set ss) \<Longrightarrow> b \<le> c \<Longrightarrow> a \<le> c \<Longrightarrow> known_files c ss'"
  by (fastforce simp: known_files_def)

lemma merge_entries_ok:
  assumes D: "deps_laws D" and inv: "storage_inv D st0"
  shows "merge_inv D st0 (m, st) \<Longrightarrow> \<forall>(k, e) \<in> set kes. map_of (keydir st0) k = Some e \<Longrightarrow>
    merge_pos m + tally kd_len kes < 2 ^ 63 \<Longrightarrow> merge_entries D B kes (m, st) = (Inr u, m', st') \<Longrightarrow>
    merge_inv D st0 (m', st') \<and> set (map fst (m_entries m')) = fst ` set kes \<union> set (map fst (m_entries m)) \<and>
    (known_files (merge_fileid m) (w_stats st) \<longrightarrow> known_files (merge_fileid m') (w_stats st'))"
proof (induction kes arbitrary: m st)
  case (Cons ke kes)
  obtain k e where ke: "ke = (k, e)" by fastforce
  from Cons.prems(4) obtain u1 m1 s1 where one: "merge_entry D B (k, e) (m, st) = (Inr u1, m1, s1)"
    and rest: "merge_entries D B kes (m1, s1) = (Inr u, m', st')"
    using ke by (auto elim!: try_op_InrE)
  have k: "map_of (keydir st0) k = Some e" and fit: "merge_pos m + kd_len e + tally kd_len kes < 2 ^ 63"
    using Cons.prems(2,3) ke by (simp_all add: tally_def)
  from merge_entry_ok[OF D inv Cons.prems(1) k _ one] fit
  have m1: "merge_inv D st0 (m1, s1)" "set (map fst (m_entries m1)) = insert k (set (map fst (m_entries m)))"
    "merge_pos m1 \<le> merge_pos m + kd_len e" "merge_fileid m \<le> merge_fileid m1"
    "fst ` set (w_stats s1) \<subseteq> insert (merge_fileid m) (fst ` set (w_stats st))" by simp_all
  have "merge_pos m1 + tally kd_len kes < 2 ^ 63" using m1(3) fit by simp
  moreover have "\<forall>(k, e) \<in> set kes. map_of (keydir st0) k = Some e" using Cons.prems(2) by simp
  ultimately have "merge_inv D st0 (m', st') \<and> set (map fst (m_entries m')) = fst ` set kes \<union> set (map fst (m_entries m1)) \<and>
     (known_files (merge_fileid m1) (w_stats s1) \<longrightarrow> known_files (merge_fileid m') (w_stats st'))"
    using Cons.IH[OF m1(1) _ _ rest] by simp
  with m1(2) known_files_step[OF _ m1(5,4,4)] show ?case unfolding ke by simp
qed simp

lemma entries_of_set: "set (entries_of ids kd) = {(k, e) \<in> set kd. kd_fileid e \<in> set ids}"
  by (auto simp: entries_of_def)

lemma tally_insort: "tally w (insort_key f x xs) = w (snd x) + tally w xs"
  by (induction xs) (auto simp: tally_def)

lemma tally_sort: "tally w (sort_key f xs) = tally w xs"
  by (induction xs) (simp_all add: tally_insort, simp add: tally_def)

lemma entries_of_tally: "tally w (entries_of ids kd) \<le> tally w kd"
proof -
  have "tally w (entries_of ids kd) \<le> tally w (sort_key fst kd)"
    unfolding entries_of_def tally_def by (rule sum_list_filter_le_nat)
  then show ?thesis by (simp add: tally_sort)
qed

subsection \<open>The copies on disk\<close>

text \<open>Both writers are dropped: what the data writer held is on disk.\<close>

lemma drop_merge_writers_ok:
  assumes fr: "merge_frame D st0 st" and wr: "merge_writers st0 (m, st)"
    and c: "copied D st0 (flushed (files st) (m_data m)) lid kes"
  shows "merge_frame D st0 (drop_merge_writers m st)" and "copied D st0 (files (drop_merge_writers m st)) lid kes"
    and "inext (files (drop_merge_writers m st)) = inext (files st)"
proof -
  let ?fs = "files st" and ?fs1 = "bw_drop (m_hint m) (files st)" and ?fs2 = "bw_drop (m_data m) (bw_drop (m_hint m) (files st))"
  have ok: "fs_ok ?fs" "faults ?fs = []" using fr by (simp_all add: merge_frame_def)
  have ne: "bw_file (m_data m) \<noteq> bw_file (m_hint m)"
    using fs_ok_inj[OF ok(1), of "datafile_name (merge_fileid m)" "bw_file (m_data m)" "hintfile_name (merge_fileid m)"] wr
    by (auto simp: merge_writers_def)
  have same: "idata ?fs1 (bw_file (m_data m)) = idata ?fs (bw_file (m_data m))" using bw_drop_grows(5)[OF ne] .
  have "length (idata ?fs1 (bw_file (m_data m))) + length (bw_buf (m_data m)) < 2 ^ 63"
    using wr same by (simp add: merge_writers_def)
  from bw_drop_flushed[OF bw_drop_faults[OF ok(2)] this] have fs2: "?fs2 = flushed ?fs1 (m_data m)" .
  have "grows (flushed ?fs (m_data m)) ?fs2"
    unfolding fs2 by (rule grows_flushed[OF bw_drop_grows(1) same refl, of "[]"]) simp
  from copied_grows[OF c _ this order_refl] ok(1)
  show "copied D st0 (files (drop_merge_writers m st)) lid kes" by (simp add: fs_ok_flushed drop_merge_writers_def)
  show "merge_frame D st0 (drop_merge_writers m st)"
    by (rule merge_frame_step[OF fr]) (use ok bw_drop_faults grows_trans[OF bw_drop_grows(1) bw_drop_grows(1)] in
        \<open>simp_all add: drop_merge_writers_def bw_drop_grows old_names_same\<close>)
  show "inext (files (drop_merge_writers m st)) = inext (files st)" by (simp add: drop_merge_writers_def bw_drop_grows)
qed

lemma merge_frame_start:
  assumes "storage_inv D st" and "faults (files st) = []"
  shows "merge_frame D st st"
  using assms storage_invD(1)[OF assms(1)] storage_invD(4)[OF assms(1), of "w_readers st"]
  by (simp add: merge_frame_def old_names_same)

text \<open>The two files of the merge, and nothing copied yet.\<close>

lemma merge_start_ok:
  assumes inv: "storage_inv D st" and nf: "faults (files st) = []"
    and fid: "active_fileid st < f" "f \<le> 2 ^ 63 + inext (files st)"
    and d: "on_files (create_merge_data f) st = (Inr wd, s1)"
    and h: "on_files (log_create (hintfile_name f)) s1 = (Inr wh, s2)"
  shows "merge_inv D st (\<lparr>merge_fileid = f, merge_pos = 0, m_data = wd, m_hint = wh, m_entries = []\<rparr>, s2)"
proof -
  obtain fs1 where d': "create_merge_data f (files st) = (Inr wd, fs1)" and s1: "s1 = st\<lparr>files := fs1\<rparr>"
    using d by (auto simp: on_files_def split: prod.splits)
  obtain fs2 where h': "log_create (hintfile_name f) fs1 = (Inr wh, fs2)" and s2: "s2 = st\<lparr>files := fs2\<rparr>"
    using h s1 by (auto simp: on_files_def split: prod.splits)
  note d1 = create_merge_data_Inr[OF d' storage_invD(1)[OF inv] nf]
  note h1 = log_create_Inr[OF h' d1(3)]
  have "merge_frame D st s2"
    by (rule merge_frame_step[OF merge_frame_start[OF inv nf]])
      (use s2 h1 d1 log_create_faults[OF h' d1(4)] grows_trans[OF d1(2) h1(2)] fid(1) in \<open>simp_all add: old_names_def\<close>)
  moreover have "idata fs2 (inext (files st)) = []" using h1(9)[of "inext (files st)"] d1(6,7) by simp
  ultimately show ?thesis
    using s2 h1 d1 fid by (simp add: merge_inv_def merge_writers_def copied_def pos_ok_def)
qed

lemma on_files_stats: "on_files op st = (r, st') \<Longrightarrow> w_stats st' = w_stats st"
  by (auto simp: on_files_def split: prod.splits)

lemma merge_copy_ok:
  assumes D: "deps_laws D" and inv: "storage_inv D st" and nf: "faults (files st) = []"
    and fid: "active_fileid st < f" "f \<le> 2 ^ 63 + inext (files st)" and fit: "tally kd_len (keydir st) < 2 ^ 63"
    and run: "merge_copy D B f ids st = (Inr (lid, kes), st')"
  shows "merge_frame D st st'" and "copied D st (files st') lid kes" and "lid < 2 ^ 63 + inext (files st')"
    and "active_fileid st < lid"
    and "set (map fst kes) = fst ` {(k, e) \<in> set (keydir st). kd_fileid e \<in> set ids}"
    and "known_files (active_fileid st) (w_stats st) \<Longrightarrow> known_files lid (w_stats st')"
proof -
  from run obtain wd s1 wh s2 m s3 u where d: "on_files (create_merge_data f) st = (Inr wd, s1)"
    and h: "on_files (log_create (hintfile_name f)) s1 = (Inr wh, s2)"
    and es: "merge_entries D B (entries_of ids (keydir s2))
       (\<lparr>merge_fileid = f, merge_pos = 0, m_data = wd, m_hint = wh, m_entries = []\<rparr>, s2) = (Inr u, m, s3)"
    and out: "lid = merge_fileid m" "kes = m_entries m" "st' = drop_merge_writers m s3"
    by (auto simp: merge_copy_def res_simps split: prod.splits sum.splits elim!: try_op_InrE)
  note start = merge_start_ok[OF inv nf fid d h]
  have kd: "keydir s2 = keydir st" using start by (simp add: merge_inv_def merge_frame_def)
  have all: "\<forall>(k, e) \<in> set (entries_of ids (keydir st)). map_of (keydir st) k = Some e"
    using keydir_okD(1)[OF storage_invD(2)[OF inv]] by (auto simp: entries_of_set)
  have "tally kd_len (entries_of ids (keydir st)) < 2 ^ 63" using entries_of_tally fit le_less_trans by blast
  from merge_entries_ok[OF D inv start _ _ es] all this
  have fin: "merge_inv D st (m, s3)" "set (map fst (m_entries m)) = fst ` set (entries_of ids (keydir st))"
    "known_files f (w_stats s2) \<longrightarrow> known_files (merge_fileid m) (w_stats s3)"
    by (simp_all add: kd)
  have s2: "w_stats s2 = w_stats st" using on_files_stats[OF d] on_files_stats[OF h] by simp
  show "known_files lid (w_stats st')" if "known_files (active_fileid st) (w_stats st)"
  proof -
    have "known_files f (w_stats s2)" using that fid(1) s2 by (fastforce simp: known_files_def)
    with fin(3) out show ?thesis by (simp add: drop_merge_writers_def)
  qed
  from fin(1) have "merge_frame D st s3" "merge_writers st (m, s3)" "copied D st (flushed (files s3) (m_data m)) lid kes"
    using out by (simp_all add: merge_inv_def)
  note dr = drop_merge_writers_ok[OF this]
  show "merge_frame D st st'" "copied D st (files st') lid kes" using dr out by simp_all
  show "lid < 2 ^ 63 + inext (files st')" "active_fileid st < lid"
    using fin(1) out dr(3) by (simp_all add: merge_inv_def merge_writers_def)
  show "set (map fst kes) = fst ` {(k, e) \<in> set (keydir st). kd_fileid e \<in> set ids}"
    using fin(2) out(2) by (simp add: entries_of_set)
qed

subsection \<open>The new entries\<close>

lemma install_entries_eq:
  assumes "distinct (map fst kes)"
  shows "\<exists>kd. install_entries kes st = st\<lparr>keydir := kd\<rparr> \<and>
    map_of kd = map_of (keydir st) ++ map_of kes \<and> set kd \<subseteq> set (keydir st) \<union> set kes \<and>
    (distinct (map fst (keydir st)) \<longrightarrow> distinct (map fst kd))"
  using assms
proof (induction kes arbitrary: st)
  case (Cons ke kes)
  obtain k e where ke: "ke = (k, e)" by fastforce
  let ?st = "st\<lparr>keydir := AList.update k e (keydir st)\<rparr>"
  from Cons.IH[of ?st] Cons.prems obtain kd where kd: "install_entries kes ?st = ?st\<lparr>keydir := kd\<rparr>"
    "map_of kd = map_of (AList.update k e (keydir st)) ++ map_of kes"
    "set kd \<subseteq> set (AList.update k e (keydir st)) \<union> set kes"
    "distinct (map fst (AList.update k e (keydir st))) \<longrightarrow> distinct (map fst kd)" by auto
  have "map_of kes k = None" using Cons.prems ke by (simp add: map_of_eq_None_iff)
  then have "map_of kd = map_of (keydir st) ++ map_of (ke # kes)"
    unfolding kd(2) ke by (intro ext) (auto simp: map_add_def update_conv' split: option.split)
  moreover have "set kd \<subseteq> set (keydir st) \<union> set (ke # kes)"
    using kd(3) set_AList_update[of k e "keydir st"] ke by auto
  moreover have "install_entries (ke # kes) st = st\<lparr>keydir := kd\<rparr>" using kd(1) ke by (simp add: keydir_set_def)
  moreover have "distinct (map fst (keydir st)) \<longrightarrow> distinct (map fst kd)" using kd(4) by (simp add: distinct_update)
  ultimately show ?case by blast
next
  case Nil
  show ?case by (rule exI[of _ "keydir st"]) simp
qed

text \<open>
  \<open>settled\<close>: the invariant but for the active file, whose data file may be gone; \<open>lid\<close> is the
  largest id. A new active file restores the invariant.
\<close>

definition settled :: "'l deps \<Rightarrow> nat \<Rightarrow> 'l storage \<Rightarrow> bool" where
  "settled D lid st \<longleftrightarrow> fs_ok (files st) \<and> keydir_ok D (keydir st) (files st) lid \<and>
     bw_file (w_log st) < inext (files st) \<and> (\<forall>l \<in> set (w_readers st # pool st). cache_ok D (keydir st) (files st) lid l) \<and>
     lid < 2 ^ 63 + inext (files st) \<and> (\<forall>t. Some t \<in> set (clock st) \<longrightarrow> in_i64 t)"

lemma settled_new_file:
  assumes D: "deps_laws D" and st: "settled D lid st"
    and n: "u64_add B lid 1 = (Inr n :: (bc_error, nat) result)" and run: "new_active_datafile n st = (Inr u, st')"
  shows "storage_inv D st'" and "abs_store D st' = abs_store D st"
proof -
  let ?st = "st\<lparr>active_fileid := lid\<rparr>"
  have run': "new_active_datafile n ?st = (Inr u, st')"
    using run by (auto simp: new_active_datafile_def split: prod.splits sum.splits)
  obtain fs w where "log_create (datafile_name n) (files st) = (Inr w, fs)" using new_active_datafile_Inr[OF run] .
  from log_create_limit[OF this] have lim: "inext (files st) < 2 ^ 63" .
  with st have "Suc lid < 2 ^ 64" by (simp add: settled_def)
  with u64_add_Inr[OF n] have n': "n = Suc lid" by simp
  have ok: "fs_ok (files ?st)" "bw_file (w_log ?st) < inext (files ?st)" "active_fileid ?st < n" "n \<le> 2 ^ 63 + inext (files ?st)"
    using st n' by (simp_all add: settled_def)
  note step = new_active_datafile_step(1)[OF run' ok]
  have g: "grows (files st) (files st')" "old_names lid (files st) (files st')"
    "lid \<le> active_fileid st'" "keydir st' = keydir st" "w_readers st' = w_readers st" "pool st' = pool st" "clock st' = clock st"
    using step by (simp_all add: writer_step_def same_rest_def)
  have kd: "keydir_ok D (keydir st) (files st) lid" and fs: "fs_ok (files st)" using st by (simp_all add: settled_def)
  show "storage_inv D st'"
  proof (rule storage_invI[OF writer_step_ready[OF step]])
    show "keydir_ok D (keydir st') (files st') (active_fileid st')" using keydir_ok_grows[OF kd fs g(1,3)] g(4) by simp
    show "cache_ok D (keydir st') (files st') (active_fileid st') l" if "l \<in> set (w_readers st' # pool st')" for l
      using cache_ok_grows[OF _ g(1-3), of D "keydir st" l] that st g(4-6) by (auto simp: settled_def)
  qed (use st g in \<open>simp_all add: settled_def\<close>)
  show "abs_store D st' = abs_store D st"
    using stored_grows[OF D kd fs g(1)] g(4) by (auto simp: abs_store_def fun_eq_iff split: option.split)
qed

subsection \<open>Removing what was merged\<close>

text \<open>\<open>removed ids\<close>: the data and hint files of these ids are gone and nothing else changed.\<close>

definition removed :: "nat list \<Rightarrow> fs \<Rightarrow> fs \<Rightarrow> bool" where
  "removed ids fs fs' \<longleftrightarrow> idata fs' = idata fs \<and> inext fs' = inext fs \<and>
     (faults fs = [] \<longrightarrow> faults fs' = []) \<and>
     dir fs' = filter (\<lambda>(name, i). name \<notin> datafile_name ` set ids \<and> name \<notin> hintfile_name ` set ids) (dir fs)"

lemma remove_if_present_ok:
  assumes "remove_if_present name st = (r, st')" and "faults (files st) = []"
  shows "r = Inr ()" and "st' = st\<lparr>files := (files st)\<lparr>dir := AList.delete name (dir (files st))\<rparr>\<rparr>"
proof -
  have "AList.delete name (dir (files st)) = dir (files st)" if "map_of (dir (files st)) name = None"
    using that by (simp add: delete_id map_of_eq_None_iff)
  then show "r = Inr ()" "st' = st\<lparr>files := (files st)\<lparr>dir := AList.delete name (dir (files st))\<rparr>\<rparr>"
    using assms by (auto simp: remove_file_def res_simps split: if_splits)
qed

lemma set_stats_delete: "set (AList.delete f ss) \<subseteq> set ss"
  by (simp add: AList.delete_eq)

lemma remove_merged_ok:
  "remove_merged ids st = (r, st') \<Longrightarrow> faults (files st) = [] \<Longrightarrow>
   r = Inr () \<and> (\<exists>ss fs. st' = st\<lparr>w_stats := ss, files := fs\<rparr> \<and> removed ids (files st) fs \<and> set ss \<subseteq> set (w_stats st))"
proof (induction ids arbitrary: st)
  case (Cons f ids)
  let ?s0 = "st\<lparr>w_stats := AList.delete f (w_stats st)\<rparr>"
  let ?fs = "(files st)\<lparr>dir := AList.delete (datafile_name f) (AList.delete (hintfile_name f) (dir (files st)))\<rparr>"
  obtain r1 s1 where one: "remove_if_present (hintfile_name f) ?s0 = (r1, s1)" by fastforce
  note o = remove_if_present_ok[OF one]
  obtain r2 s2 where two: "remove_if_present (datafile_name f) s1 = (r2, s2)" by fastforce
  note t = remove_if_present_ok[OF two]
  have s2: "s2 = ?s0\<lparr>files := ?fs\<rparr>" "r1 = Inr ()" "r2 = Inr ()" using o t Cons.prems(2) by simp_all
  with Cons.prems(1) one two have "remove_merged ids s2 = (r, st')" by (simp add: Let_def)
  from Cons.IH[OF this] Cons.prems(2) s2(1) obtain ss fs where
    "r = Inr ()" "st' = s2\<lparr>w_stats := ss, files := fs\<rparr>" "removed ids ?fs fs" "set ss \<subseteq> set (w_stats st)" using set_stats_delete[of f "w_stats st"] by auto
  moreover from this(3) have "removed (f # ids) (files st) fs"
    by (auto simp: removed_def AList.delete_eq filter_filter intro!: filter_cong)
  ultimately show ?case using s2(1) by (intro conjI exI[of _ ss] exI[of _ fs]) simp_all
qed (auto simp: removed_def intro!: exI[of _ "w_stats st'"] exI[of _ "files st'"])

lemma removed_map_of:
  assumes "removed ids fs fs'" and "fs_ok fs"
  shows "map_of (dir fs') name =
    (if name \<in> datafile_name ` set ids \<or> name \<in> hintfile_name ` set ids then None else map_of (dir fs) name)"
proof -
  have "map_of (filter (\<lambda>(name, i). P name) xs) name = (if P name then map_of xs name else None)" for P and xs :: "(bytes \<times> nat) list"
    by (induction xs) auto
  from this[of "\<lambda>name. name \<notin> datafile_name ` set ids \<and> name \<notin> hintfile_name ` set ids"] assms(1)
  show ?thesis by (simp add: removed_def)
qed

lemma removed_fs_ok: "removed ids fs fs' \<Longrightarrow> fs_ok fs \<Longrightarrow> fs_ok fs'"
  by (auto simp: removed_def fs_ok_def distinct_map inj_on_def)

lemma removed_located:
  assumes "removed ids fs fs'" and "fs_ok fs" and "kd_fileid e \<notin> set ids"
  shows "located D fs' e x = located D fs e x"
proof -
  have "map_of (dir fs') (datafile_name (kd_fileid e)) = map_of (dir fs) (datafile_name (kd_fileid e))"
    using removed_map_of[OF assms(1,2)] assms(3) by auto
  with assms(1) show ?thesis by (simp add: located_def removed_def)
qed

lemma removed_reader_ok:
  assumes "removed ids fs fs'" and "fs_ok fs" and "reader_ok kd fs f rd"
  shows "reader_ok kd fs' f rd"
  using assms(3) removed_map_of[OF assms(1,2), of "datafile_name f"] assms(1)
  by (auto simp: reader_ok_def removed_def split: if_splits)

subsection \<open>Which files are chosen\<close>

lemma select_files_ok:
  "select_files B ss ids st = (Inr out, st') \<Longrightarrow>
     set out \<subseteq> fst ` set ss \<union> set ids \<and> (\<exists>fs. st' = st\<lparr>files := fs\<rparr> \<and> same_files (files st) fs)"
proof (induction B ss ids st rule: select_files.induct)
  case (2 B f s rest ids st)
  from 2(2) obtain n s1 ch s2 where
    len: "on_files (\<lambda>fs. let (r, fs) = metadata_len (datafile_name f) fs in (map_err BcIo r, fs)) st = (Inr n, s1)"
    and pick: "(if threshold_dead_bytes (conf s1) < dead_bytes s then (Inr True, s1)
             else (and_then (fragmentation B s) (\<lambda>f.
                     Inr (threshold_fragmentation (conf s1) < f \<or> n < threshold_small_file (conf s1))), s1)) = (Inr ch, s2)"
    and rest: "select_files B rest (if ch then f # ids else ids) s2 = (Inr out, st')"
    by (auto elim!: try_op_InrE)
  obtain fs1 where s1: "s1 = st\<lparr>files := fs1\<rparr>" "same_files (files st) fs1"
    using len by (auto simp: on_files_def dest: metadata_len_same split: prod.splits)
  have "s2 = s1" using pick by (simp split: if_splits)
  from 2(1)[OF rest] s1 this show ?case
    by (auto split: if_splits intro: same_files_trans)
qed (auto intro: exI[of _ "files st'"])

subsection \<open>Merging\<close>

text \<open>The new entries lie in new files, the others in files that stay.\<close>

lemma merged_keydir_ok:
  assumes D: "deps_laws D" and inv: "storage_inv D st0" and g: "grows (files st0) fs" and ok: "fs_ok fs"
    and c: "copied D st0 fs lid kes" and keys: "set (map fst kes) = fst ` {(k, e) \<in> set (keydir st0). kd_fileid e \<in> set ids}"
    and ids: "\<forall>f \<in> set ids. f \<le> active_fileid st0" and lid: "active_fileid st0 < lid"
    and m: "map_of kd = map_of (keydir st0) ++ map_of kes" and dis: "distinct (map fst kd)" and rm: "removed ids fs fs'"
  shows "keydir_ok D kd fs' lid" and "map_of kd k = Some e \<Longrightarrow> \<exists>e0. map_of (keydir st0) k = Some e0 \<and>
      stored D fs' e = stored D (files st0) e0"
    and "map_of (keydir st0) k \<noteq> None \<Longrightarrow> map_of kd k \<noteq> None"
proof -
  have main: "kd_fileid e \<le> lid \<and> (\<exists>e0 x. map_of (keydir st0) k = Some e0 \<and> located D (files st0) e0 x \<and>
      located D fs' e x \<and> d_key x = k \<and> d_value x \<noteq> None)" if e: "map_of kd k = Some e" for k e
  proof (cases "map_of kes k")
    case None
    with e m have e0: "map_of (keydir st0) k = Some e" by (simp add: map_add_Some_iff)
    from keydir_okD(2)[OF storage_invD(2)[OF inv] map_of_SomeD[OF e0]] obtain x where
      x: "kd_fileid e \<le> active_fileid st0" "located D (files st0) e x" "d_key x = k" "d_value x \<noteq> None" by blast
    have "k \<notin> set (map fst kes)" using None by (simp add: map_of_eq_None_iff)
    then have "kd_fileid e \<notin> set ids" using keys map_of_SomeD[OF e0] by force
    with removed_located[OF rm ok] located_grows[OF storage_invD(1)[OF inv] g x(2)] have "located D fs' e x" by blast
    with e0 x lid show ?thesis by (intro conjI exI[of _ e] exI[of _ x]) simp_all
  next
    case (Some e')
    with e m have [simp]: "e' = e" by (simp add: map_add_Some_iff)
    from c map_of_SomeD[OF Some] obtain e0 x where
      x: "active_fileid st0 < kd_fileid e" "kd_fileid e \<le> lid" "map_of (keydir st0) k = Some e0"
        "located D (files st0) e0 x" "located D fs e x" unfolding copied_def \<open>e' = e\<close> by blast
    from keydir_okD(2)[OF storage_invD(2)[OF inv] map_of_SomeD[OF x(3)]] obtain y where
      y: "located D (files st0) e0 y" "d_key y = k" "d_value y \<noteq> None" by blast
    have "x = y" using located_unique[OF D x(4) y(1)] .
    have "kd_fileid e \<notin> set ids" using ids x(1) by force
    with removed_located[OF rm ok] x(5) have "located D fs' e x" by blast
    with x y \<open>x = y\<close> show ?thesis by blast
  qed
  show "keydir_ok D kd fs' lid"
  proof (rule keydir_okI[OF dis])
    fix k e assume "(k, e) \<in> set kd"
    from main[OF map_of_is_SomeI[OF dis this]]
    show "kd_fileid e \<le> lid \<and> (\<exists>x. located D fs' e x \<and> d_key x = k \<and> d_value x \<noteq> None)" by blast
  qed
  show "\<exists>e0. map_of (keydir st0) k = Some e0 \<and> stored D fs' e = stored D (files st0) e0" if "map_of kd k = Some e"
    using main[OF that] stored_located[OF D] by metis
  show "map_of kd k \<noteq> None" if "map_of (keydir st0) k \<noteq> None" using that m by (auto simp: map_add_def split: option.split)
qed

lemma merged_cache_ok:
  assumes c: "cache_ok D kd0 fs a l" and sub: "set kd \<subseteq> set kd0 \<union> set kes"
    and new: "\<forall>(k, e) \<in> set kes. a < kd_fileid e" and rm: "removed ids fs fs'" and ok: "fs_ok fs" and le: "a \<le> lid"
  shows "cache_ok D kd fs' lid l"
proof -
  have "f \<le> lid \<and> reader_ok kd fs' f rd" if "lru_get D f l = Some rd" for f rd
  proof -
    from c that have f: "f \<le> a" and r: "reader_ok kd0 fs f rd" by (auto simp: cache_ok_def)
    have "reader_ok kd fs f rd" using r sub new f unfolding reader_ok_def by fastforce
    from removed_reader_ok[OF rm ok this] f le show ?thesis by simp
  qed
  then show ?thesis by (simp add: cache_ok_def)
qed

lemma merge_ok:
  assumes D: "deps_laws D" and inv: "storage_inv D st" and nf: "faults (files st) = []"
    and known: "known_files (active_fileid st) (w_stats st)" and fit: "tally kd_len (keydir st) < 2 ^ 63"
    and run: "merge D B st = (Inr u, st')"
  shows "storage_inv D st' \<and> abs_store D st' = abs_store D st \<and> faults (files st') = [] \<and> closed st' = closed st \<and>
    known_files (active_fileid st') (w_stats st')"
proof -
  from run obtain f ids s1 lid kes s2 s3 u' n where f: "u64_add B (active_fileid st) 1 = (Inr f :: (bc_error, nat) result)"
    and sel: "fileids_to_merge B st = (Inr ids, s1)" and copy: "merge_copy D B f ids s1 = (Inr (lid, kes), s2)"
    and rm: "remove_merged ids (install_entries kes s2) = (Inr u', s3)"
    and n: "u64_add B lid 1 = (Inr n :: (bc_error, nat) result)" and new: "new_active_datafile n s3 = (Inr u, st')"
    by (auto simp: merge_def split: sum.splits elim!: try_op_InrE)
  from select_files_ok[OF sel[unfolded fileids_to_merge_def]] obtain fs1 where
    ids: "set ids \<subseteq> fst ` set (w_stats st)" and s1: "s1 = st\<lparr>files := fs1\<rparr>" "same_files (files st) fs1" by auto
  note i1 = inv_same_files[OF inv s1(2), folded s1(1)]
  have nf1: "faults (files s1) = []" using s1 nf by (simp add: same_files_def)
  have fit1: "tally kd_len (keydir s1) < 2 ^ 63" and act: "active_fileid s1 = active_fileid st" using fit s1(1) by simp_all
  obtain fsx wx where "create_merge_data f (files s1) = (Inr wx, fsx)"
    using copy by (auto simp: merge_copy_def on_files_def split: prod.splits elim!: try_op_InrE)
  from create_merge_data_Inr(8)[OF this storage_invD(1)[OF i1(1)] nf1] have lim: "inext (files s1) < 2 ^ 63" .
  with storage_invD(5)[OF i1(1)] u64_add_Inr[OF f] act have f': "f = Suc (active_fileid s1)" by simp
  with storage_invD(5)[OF i1(1)] have "active_fileid s1 < f" "f \<le> 2 ^ 63 + inext (files s1)" by simp_all
  note c = merge_copy_ok[OF D i1(1) nf1 this fit1 copy]
  have fr: "keydir s2 = keydir s1" "w_log s2 = w_log s1" "pool s2 = pool s1" "clock s2 = clock s1"
    "fs_ok (files s2)" "grows (files s1) (files s2)" "old_names (active_fileid s1) (files s1) (files s2)"
    "faults (files s2) = []" "cache_ok D (keydir s1) (files s2) (active_fileid s1) (w_readers s2)"
    using c(1) by (simp_all add: merge_frame_def)
  have "distinct (map fst kes)" using c(2) by (simp add: copied_def)
  from install_entries_eq[OF this, of s2] obtain kd where ie: "install_entries kes s2 = s2\<lparr>keydir := kd\<rparr>"
    and kd: "map_of kd = map_of (keydir s1) ++ map_of kes" "set kd \<subseteq> set (keydir s1) \<union> set kes"
      "distinct (map fst (keydir s1)) \<longrightarrow> distinct (map fst kd)" using fr(1) by auto
  from remove_merged_ok[OF rm] fr(8) ie obtain ss fs3 where
    s3: "s3 = s2\<lparr>keydir := kd, w_stats := ss, files := fs3\<rparr>" and rmd: "removed ids (files s2) fs3"
    and sub: "set ss \<subseteq> set (w_stats s2)" by auto
  have dis: "distinct (map fst kd)" using kd(3) keydir_okD(1)[OF storage_invD(2)[OF i1(1)]] by simp
  have ids': "\<forall>f \<in> set ids. f \<le> active_fileid s1" using ids known act by (auto simp: known_files_def)
  note k = merged_keydir_ok[OF D i1(1) fr(6,5) c(2,5) ids' c(4) kd(1) dis rmd]
  have newer: "\<forall>(k, e) \<in> set kes. active_fileid s1 < kd_fileid e" using c(2) by (auto simp: copied_def)
  have "cache_ok D kd fs3 lid l" if l: "l \<in> set (w_readers s2 # pool s2)" for l
  proof (rule merged_cache_ok[OF _ kd(2) newer rmd fr(5) less_imp_le[OF c(4)]])
    show "cache_ok D (keydir s1) (files s2) (active_fileid s1) l"
      using l fr(3,9) cache_ok_grows[OF storage_invD(4)[OF i1(1)] fr(6,7) order_refl] by auto
  qed
  moreover have "bw_file (w_log s1) < inext (files s2)"
    using ready_inode[OF storage_inv_ready[OF i1(1)]] fr(6) by (simp add: grows_def)
  ultimately have "settled D lid s3"
    using k(1) removed_fs_ok[OF rmd fr(5)] rmd c(3) fr storage_invD(6)[OF i1(1)] s3
    by (simp add: settled_def removed_def)
  note fin = settled_new_file[OF D this n new]
  have "abs_store D s3 = abs_store D s1"
  proof
    fix q
    show "abs_store D s3 q = abs_store D s1 q"
    proof (cases "map_of kd q")
      case None
      with k(3)[of q] s3 show ?thesis by (auto simp: abs_store_def split: option.split)
    next
      case (Some e)
      with k(2)[OF Some] s3 show ?thesis by (auto simp: abs_store_def)
    qed
  qed
  moreover obtain fs4 w where new': "log_create (datafile_name n) (files s3) = (Inr w, fs4)"
    "st' = s3\<lparr>active_fileid := n, w_log := w, files := bw_drop (w_log s3) fs4, written_bytes := 0\<rparr>"
    using new_active_datafile_Inr[OF new] .
  moreover have "faults (files s3) = []" using rmd s3 fr(8) by (simp add: removed_def)
  moreover have "known_files n (w_stats s3)"
  proof -
    have "known_files lid (w_stats s2)" using c(6) known s1(1) act by simp
    moreover have "lid \<le> n"
      using u64_add_Inr[OF n] c(3) log_create_limit[OF new'(1)] rmd s3 by (simp add: removed_def)
    ultimately show ?thesis using sub s3 by (fastforce simp: known_files_def)
  qed
  moreover have "closed s3 = closed st" using s3 s1 c(1) by (simp add: merge_frame_def)
  ultimately show ?thesis using fin i1(2) log_create_faults[OF new'(1)] bw_drop_faults by simp
qed

end
