(* ===== verification/Background.thy ===== *)
theory Background
  imports MergeStore Reopen
begin

section \<open>Background tasks (bitcask.rs)\<close>

text \<open>
  The two tasks that \<open>Bitcask::open\<close> starts on a thread of their own, next to the clients: a step
  relation on the storage, the state of each task and the shutdown channel. Each operation is one
  step, and the tasks sleep between their steps. A task ends when the storage is dropped or when its operation panicked; it goes
  on after an error. Delays are exact numbers of milliseconds.
\<close>

datatype task = Waiting | Stopped

record 'l engine =
  store_of :: "'l storage"
  merge_task :: task
  sync_task :: task
  notified :: bool

text \<open>
  The delays of \<open>merge_on_interval\<close>: \<open>mul_f64\<close> panics on a negative factor and the subtraction
  of durations on a negative difference.
\<close>

definition merge_delays :: "config \<Rightarrow> (bc_error, rat \<times> rat) result" where
  "merge_delays c =
     (let interval = of_nat (check_interval_ms c); jitter = interval * check_jitter c in
      if jitter < 0 \<or> interval < jitter then Inl Panic else Inr (interval - jitter, interval + jitter))"

definition background_tasks :: "'l storage \<Rightarrow> 'l engine" where
  "background_tasks st =
     \<lparr>store_of = st,
      merge_task = (if policy (conf st) = MergeNever then Stopped
                    else case merge_delays (conf st) of Inl e \<Rightarrow> Stopped | Inr d \<Rightarrow> Waiting),
      sync_task = (case sync (conf st) of SyncIntervalMs d \<Rightarrow> Waiting | _ \<Rightarrow> Stopped),
      notified = False\<rparr>"

text \<open>An operation of a client that succeeds.\<close>

fun client_op :: "'l deps \<Rightarrow> build \<Rightarrow> engine_op \<Rightarrow> 'l storage \<Rightarrow> 'l storage option" where
  "client_op D B (OpPut k v) st = (case handle_put D B k v st of (Inr u, st') \<Rightarrow> Some st' | (Inl e, st') \<Rightarrow> None)"
| "client_op D B (OpDelete k) st = (case handle_delete D B k st of (Inr b, st') \<Rightarrow> Some st' | (Inl e, st') \<Rightarrow> None)"
| "client_op D B (OpGet k) st = map_option snd (handle_get D B k st)"
| "client_op D B OpSync st = Some (snd (handle_sync st))"

datatype event =
  Client engine_op | MergeTick "(bc_error, unit) result" | SyncTick "(bc_error, unit) result" | StopMerge | StopSync | DropBitcask

definition after_tick :: "(bc_error, unit) result \<Rightarrow> task" where
  "after_tick r = (if r = Inl Panic then Stopped else Waiting)"

text \<open>
  Operations of the clients, ticks of the two tasks and the end of the storage follow each other,
  each as one step. Writers and merges exclude each other by the mutex. \<open>Handle::get\<close> does not
  take the mutex and can overlap all of them: here it is one step too, and Concurrent cuts it and
  the writer into the steps that can interleave.
\<close>

inductive engine_step :: "'l deps \<Rightarrow> build \<Rightarrow> event \<Rightarrow> 'l engine \<Rightarrow> 'l engine \<Rightarrow> bool"
  for D :: "'l deps" and B :: build where
  client: "client_op D B op (store_of e) = Some st' \<Longrightarrow> engine_step D B (Client op) e (e\<lparr>store_of := st'\<rparr>)"
| merge_on_interval: "merge_task e = Waiting \<Longrightarrow> handle_merge D B (store_of e) = (r, st') \<Longrightarrow>
    engine_step D B (MergeTick r) e (e\<lparr>store_of := st', merge_task := after_tick r\<rparr>)"
| sync_on_interval: "sync_task e = Waiting \<Longrightarrow> handle_sync (store_of e) = (r, st') \<Longrightarrow>
    engine_step D B (SyncTick r) e (e\<lparr>store_of := st', sync_task := after_tick r\<rparr>)"
| stop_merge: "merge_task e = Waiting \<Longrightarrow> notified e \<Longrightarrow> engine_step D B StopMerge e (e\<lparr>merge_task := Stopped\<rparr>)"
| stop_sync: "sync_task e = Waiting \<Longrightarrow> notified e \<Longrightarrow> engine_step D B StopSync e (e\<lparr>sync_task := Stopped\<rparr>)"
| drop_bitcask: "engine_step D B DropBitcask e (e\<lparr>store_of := close_storage (store_of e), notified := True\<rparr>)"

inductive_cases engine_stepE: "engine_step D B ev e e'"

text \<open>A path lists the events with the states behind them.\<close>

fun engine_path :: "'l deps \<Rightarrow> build \<Rightarrow> 'l engine \<Rightarrow> (event \<times> 'l engine) list \<Rightarrow> bool" where
  "engine_path D B e [] \<longleftrightarrow> True"
| "engine_path D B e ((ev, e') # path) \<longleftrightarrow> engine_step D B ev e e' \<and> engine_path D B e' path"

definition last_state :: "'l engine \<Rightarrow> (event \<times> 'l engine) list \<Rightarrow> 'l engine" where
  "last_state e path = last (e # map snd path)"

fun client_ops :: "(event \<times> 'l engine) list \<Rightarrow> engine_op list" where
  "client_ops [] = []"
| "client_ops ((Client op, e) # path) = op # client_ops path"
| "client_ops ((ev, e) # path) = client_ops path"

subsection \<open>Without failing system calls\<close>

text \<open>\<open>calm\<close>: no call will fail, and the statistics are of files up to the active one.\<close>

definition calm :: "'l storage \<Rightarrow> bool" where
  "calm st \<longleftrightarrow> faults (files st) = [] \<and> known_files (active_fileid st) (w_stats st)"

lemma calm_same:
  assumes "calm st" and "same_files (files st) (files st')" and "w_stats st' = w_stats st" and "active_fileid st' = active_fileid st"
  shows "calm st'"
  using assms by (simp add: calm_def same_files_def)

lemma log_append_faults: "log_append B d w fs = (r, w', fs') \<Longrightarrow> faults fs = [] \<Longrightarrow> faults fs' = []"
  by (auto simp: log_append_def bw_write_all_def bw_flush_def write_file_def append_bytes_def Let_def
      split: prod.splits sum.splits if_splits)

lemma after_append_keys:
  assumes "after_append B v ix st = (r, st')"
  shows "fst ` set (w_stats st') \<subseteq> insert (active_fileid st) (fst ` set (w_stats st))"
proof -
  have "w_stats s = w_stats st \<and> active_fileid s = active_fileid st"
    if "(if sync (conf st) = SyncAlways then on_files (log_sync (w_log st)) st else (Inr (), st)) = (q, s)" for q s
    using that by (auto simp: on_files_def split: if_splits prod.splits)
  moreover have "w_stats s' = w_stats s \<and> active_fileid s' = active_fileid s"
    if "assign (u64_add B x y) (\<lambda>n st. st\<lparr>written_bytes := n\<rparr>) s = (q :: (bc_error, unit) result, s')" for x y q and s s' :: "'a storage"
    using that by (cases "u64_add B x y :: (bc_error, nat) result") auto
  ultimately show ?thesis using assms unfolding after_append_def
    by (elim try_opE) (metis subset_insertI with_stats_keys)+
qed

lemma write_entry_calm:
  assumes w: "write_entry D B t k v st = (Inr e, st')" and step: "writer_step st st'" and c: "calm st"
  shows "calm st'"
proof -
  let ?w3 = "\<lambda>s. if max_file_size (conf s) < written_bytes s then next_active_datafile B s else (Inr (), s)"
  from w obtain ix s1 s2 u2 u3 where
    1: "append_active B (enc_data D \<lparr>d_tstamp = t, d_key = k, d_value = v\<rparr>) st = (Inr ix, s1)"
    and 2: "after_append B v ix s1 = (Inr u2, s2)" and 3: "?w3 s2 = (Inr u3, st')"
    unfolding write_entry_after by (auto elim!: try_op_InrE)
  have s1: "w_stats s1 = w_stats st" "active_fileid s1 = active_fileid st" "faults (files s1) = []"
    using 1 c log_append_faults by (auto simp: append_active_def calm_def split: prod.splits)
  have "faults (files s2) = []" using after_append_quiet[OF 2] s1(3) by (simp add: quiet_def same_files_def)
  have keys: "fst ` set (w_stats s2) \<subseteq> insert (active_fileid st) (fst ` set (w_stats st))"
    using after_append_keys[OF 2] s1 by simp
  have fin: "w_stats st' = w_stats s2 \<and> faults (files st') = []"
  proof (cases "max_file_size (conf s2) < written_bytes s2")
    case True
    with 3 obtain n where "new_active_datafile n s2 = (Inr u3, st')" by (auto simp: next_active_datafile_def split: sum.splits)
    from new_active_datafile_Inr[OF this] show ?thesis
      using log_create_faults \<open>faults (files s2) = []\<close> bw_drop_faults by (metis storage.select_convs(6,10) storage.surjective storage.update_convs(5,7,8,10))
  qed (use 3 \<open>faults (files s2) = []\<close> in auto)
  have le: "active_fileid st \<le> active_fileid st'" using step by (simp add: writer_step_def)
  have "known_files (active_fileid st) (w_stats st)" using c by (simp add: calm_def)
  from known_files_step[OF this keys le le] fin show ?thesis by (simp add: calm_def)
qed

lemma timestamp_calm: "timestamp st = (r, st') \<Longrightarrow> calm st \<Longrightarrow> calm st'"
  by (rule calm_same) (simp_all add: timestamp_fields)

lemma overwrite_calm:
  assumes "with_stats f op st = (r, st')" and "calm st" and "f \<le> active_fileid st"
  shows "calm st'"
proof -
  have "files st' = files st" "active_fileid st' = active_fileid st"
    using assms(1) by (auto simp: with_stats_def split: prod.splits)
  moreover have "known_files (active_fileid st) (w_stats st')"
    using known_files_step[OF _ with_stats_keys[OF assms(1)] assms(3) order_refl] assms(2) by (simp add: calm_def)
  ultimately show ?thesis using assms(2) by (simp add: calm_def)
qed

lemma calm_keydir [simp]: "calm (st\<lparr>keydir := kd\<rparr>) = calm st"
  by (simp add: calm_def)

text \<open>What \<open>put\<close> and \<open>delete\<close> have in common: the entry they replace lies in a file that is known.\<close>

lemma prev_known:
  assumes "storage_inv D st" and "writer_step st s1" and "map_of (keydir s1) k = Some p"
  shows "kd_fileid p \<le> active_fileid s1"
proof -
  have "keydir s1 = keydir st" "active_fileid st \<le> active_fileid s1" using assms(2) by (simp_all add: writer_step_def)
  with keydir_okD(2)[OF storage_invD(2)[OF assms(1)], of k p] map_of_SomeD[OF assms(3)] show ?thesis by auto
qed

lemma put_calm:
  assumes D: "deps_laws D" and inv: "storage_inv D st" and c: "calm st" and p: "put D B k v st = (Inr u, st')"
  shows "calm st'"
proof -
  from p obtain t s0 e s1 where t: "timestamp st = (Inr t, s0)" and w: "write_entry D B t k (Some v) s0 = (Inr e, s1)"
    and rest: "(case keydir_set k e s1 of
       (Some prev, st) \<Rightarrow> with_stats (kd_fileid prev) (overwrite B (kd_len prev)) st
     | (None, st) \<Rightarrow> (Inr (), st)) = (Inr u, st')"
    unfolding put_def by (elim try_op_InrE) (rule that; assumption)
  note s0 = inv_timestamp[OF inv t]
  note step = write_entry_Inr(1)[OF D storage_inv_ready[OF s0(1)] s0(4)[OF refl] w]
  have s1: "calm s1" using write_entry_calm[OF w step timestamp_calm[OF t c]] .
  show ?thesis
  proof (cases "map_of (keydir s1) k")
    case None
    with rest s1 show ?thesis by (auto simp: keydir_set_def)
  next
    case (Some q)
    with rest overwrite_calm[of "kd_fileid q" _ "s1\<lparr>keydir := AList.update k e (keydir s1)\<rparr>" "Inr u" st'] s1 prev_known[OF s0(1) step Some]
    show ?thesis by (auto simp: keydir_set_def)
  qed
qed

lemma delete_calm:
  assumes D: "deps_laws D" and inv: "storage_inv D st" and c: "calm st" and p: "delete D B k st = (Inr b, st')"
  shows "calm st'"
proof -
  from p obtain t s0 e s1 where t: "timestamp st = (Inr t, s0)" and w: "write_entry D B t k None s0 = (Inr e, s1)"
    and rest: "(case keydir_remove k s1 of
       (Some prev, st) \<Rightarrow>
         try_op (with_stats (kd_fileid prev) (overwrite B (kd_len prev)) st) (\<lambda>_ st. (Inr True, st))
     | (None, st) \<Rightarrow> (Inr False, st)) = (Inr b, st')"
    unfolding delete_def by (elim try_op_InrE) (rule that; assumption)
  note s0 = inv_timestamp[OF inv t]
  note step = write_entry_Inr(1)[OF D storage_inv_ready[OF s0(1)] s0(4)[OF refl] w]
  have s1: "calm s1" using write_entry_calm[OF w step timestamp_calm[OF t c]] .
  show ?thesis
  proof (cases "map_of (keydir s1) k")
    case None
    with rest s1 show ?thesis by (auto simp: keydir_remove_def)
  next
    case (Some q)
    with rest obtain u where "with_stats (kd_fileid q) (overwrite B (kd_len q)) (s1\<lparr>keydir := AList.delete k (keydir s1)\<rparr>) = (Inr u, st')"
      by (auto simp: keydir_remove_def elim!: try_op_InrE)
    from overwrite_calm[OF this] s1 prev_known[OF s0(1) step Some] show ?thesis by simp
  qed
qed

lemma handle_sync_ok:
  assumes D: "deps_laws D" and inv: "storage_inv D st" and c: "calm st" and s: "handle_sync st = (r, st')"
  shows "storage_inv D st' \<and> abs_store D st' = abs_store D st \<and> calm st'"
proof -
  have q: "quiet st st'" using s sync_quiet[of "w_log st" st] by (auto simp: handle_sync_def guarded_def writer_sync_def split: if_splits)
  moreover have "w_stats st' = w_stats st"
    using s on_files_stats by (auto simp: handle_sync_def guarded_def writer_sync_def split: if_splits)
  ultimately show ?thesis using inv_quiet[OF D inv q] calm_same[OF c, of st'] by (simp add: quiet_def)
qed

lemma client_op_ok:
  assumes D: "deps_laws D" and inv: "storage_inv D st" and c: "calm st" and op: "client_op D B op st = Some st'"
  shows "storage_inv D st' \<and> abs_store D st' = op_effect op (abs_store D st) \<and> calm st'"
proof (cases op)
  case (OpPut k v)
  with op obtain u where "put D B k v st = (Inr u, st')"
    by (auto simp: handle_put_def guarded_def split: if_splits prod.splits sum.splits)
  with put_ok[OF D inv this] put_calm[OF D inv c this] OpPut show ?thesis by simp
next
  case (OpDelete k)
  with op obtain b where "delete D B k st = (Inr b, st')"
    by (auto simp: handle_delete_def guarded_def split: if_splits prod.splits sum.splits)
  with delete_ok[OF D inv this] delete_calm[OF D inv c this] OpDelete show ?thesis by simp
next
  case (OpGet k)
  with op obtain r where g: "handle_get D B k st = Some (r, st')" by auto
  show ?thesis
  proof (cases "closed st")
    case True
    with g inv c OpGet show ?thesis by (simp add: handle_get_def)
  next
    case False
    from handle_get_some[OF D inv g this] have "storage_inv D st'" "abs_store D st' = abs_store D st"
      "same_files (files st) (files st')" by auto
    with calm_same[OF c] handle_get_fields[OF g] OpGet show ?thesis by simp
  qed
next
  case OpSync
  with op have "handle_sync st = (fst (handle_sync st), st')" by (simp add: prod_eq_iff)
  from handle_sync_ok[OF D inv c this] OpSync show ?thesis by simp
qed

lemma handle_merge_ok:
  assumes D: "deps_laws D" and inv: "storage_inv D st" and c: "calm st" and fit: "tally kd_len (keydir st) < 2 ^ 63"
    and m: "handle_merge D B st = (r, st')" and r: "r = Inr () \<or> closed st"
  shows "storage_inv D st' \<and> abs_store D st' = abs_store D st \<and> calm st'"
proof (cases "closed st")
  case True
  with m inv c show ?thesis by (simp add: handle_merge_def guarded_def)
next
  case False
  with r m have "handle_merge D B st = (Inr (), st')" by simp
  with False have "st' = st \<or> merge D B st = (Inr (), st')"
    by (simp add: handle_merge_def guarded_def split: if_splits sum.splits)
  then show ?thesis using merge_ok[OF D inv _ _ fit, of B "()" st'] inv c by (auto simp: calm_def)
qed

subsection \<open>Paths\<close>

text \<open>A closed storage does not change any more.\<close>

lemma closed_client: "client_op D B op st = Some st' \<Longrightarrow> closed st \<Longrightarrow> st' = st"
  by (cases op) (auto simp: handle_put_def handle_delete_def handle_get_def handle_sync_def guarded_def)

lemma closed_step:
  assumes "engine_step D B ev e e'" and "closed (store_of e)"
  shows "store_of e' = store_of e"
  using assms by (auto elim!: engine_stepE dest: closed_client
      simp: handle_merge_def handle_sync_def guarded_def close_storage_def)

definition engine_ok :: "'l deps \<Rightarrow> 'l engine \<Rightarrow> bool" where
  "engine_ok D e \<longleftrightarrow> storage_inv D (store_of e) \<and> calm (store_of e) \<and> (notified e \<longrightarrow> closed (store_of e))"

text \<open>The merges of a path succeed, unless the storage was dropped, and have less than \<open>2 ^ 63\<close> bytes to copy.\<close>

definition path_ok :: "'l engine \<Rightarrow> (event \<times> 'l engine) list \<Rightarrow> bool" where
  "path_ok e path \<longleftrightarrow> (\<forall>s \<in> set (e # map snd path). tally kd_len (keydir (store_of s)) < 2 ^ 63) \<and>
     (\<forall>(ev, s) \<in> set path. \<forall>r. ev = MergeTick r \<longrightarrow> r = Inr () \<or> notified s)"

lemma engine_step_ok:
  assumes D: "deps_laws D" and ok: "engine_ok D e" and step: "engine_step D B ev e e'"
    and fit: "tally kd_len (keydir (store_of e)) < 2 ^ 63" and m: "\<And>r. ev = MergeTick r \<Longrightarrow> r = Inr () \<or> notified e'"
  shows "engine_ok D e' \<and> abs_store D (store_of e') =
    (case ev of Client op \<Rightarrow> op_effect op | _ \<Rightarrow> id) (abs_store D (store_of e))"
proof -
  have inv: "storage_inv D (store_of e)" and c: "calm (store_of e)" and n: "notified e \<longrightarrow> closed (store_of e)"
    using ok by (simp_all add: engine_ok_def)
  from step show ?thesis
  proof (cases rule: engine_step.cases)
    case (client op st')
    have "notified e \<longrightarrow> closed st'" using closed_client[OF client(3)] n by blast
    with client client_op_ok[OF D inv c client(3)] show ?thesis by (simp add: engine_ok_def)
  next
    case (merge_on_interval r st')
    have "r = Inr () \<or> closed (store_of e)" using m[of r] merge_on_interval n by auto
    from handle_merge_ok[OF D inv c fit merge_on_interval(4) this]
    have "storage_inv D st' \<and> abs_store D st' = abs_store D (store_of e) \<and> calm st'" .
    moreover have "notified e \<longrightarrow> closed st'"
      using closed_step[OF step] n merge_on_interval by auto
    ultimately show ?thesis using merge_on_interval by (simp add: engine_ok_def)
  next
    case (sync_on_interval r st')
    have "notified e \<longrightarrow> closed st'" using closed_step[OF step] n sync_on_interval by auto
    with sync_on_interval handle_sync_ok[OF D inv c sync_on_interval(4)] show ?thesis by (simp add: engine_ok_def)
  next
    case drop_bitcask
    have "abs_store D (close_storage (store_of e)) = abs_store D (store_of e)" "storage_inv D (close_storage (store_of e))"
      using inv by (auto simp: abs_store_def close_storage_def storage_inv_def fun_eq_iff split: option.split)
    with drop_bitcask c show ?thesis by (simp add: engine_ok_def calm_def close_storage_def)
  qed (use ok in \<open>simp_all add: engine_ok_def\<close>)
qed

lemma engine_path_ok:
  assumes D: "deps_laws D"
  shows "engine_path D B e path \<Longrightarrow> engine_ok D e \<Longrightarrow> path_ok e path \<Longrightarrow>
    engine_ok D (last_state e path) \<and>
    abs_store D (store_of (last_state e path)) = fold op_effect (client_ops path) (abs_store D (store_of e))"
proof (induction path arbitrary: e)
  case (Cons p path)
  obtain ev e' where p: "p = (ev, e')" by fastforce
  have step: "engine_step D B ev e e'" using Cons.prems(1) p by simp
  have fit: "tally kd_len (keydir (store_of e)) < 2 ^ 63" and m: "\<And>r. ev = MergeTick r \<Longrightarrow> r = Inr () \<or> notified e'"
    and rest: "path_ok e' path"
    using Cons.prems(3) p by (auto simp: path_ok_def)
  note one = engine_step_ok[OF D Cons.prems(2) step fit m]
  with Cons.IH[of e'] Cons.prems(1) rest p
  have "engine_ok D (last_state e' path) \<and>
    abs_store D (store_of (last_state e' path)) = fold op_effect (client_ops path) (abs_store D (store_of e'))" by simp
  with one p show ?case by (cases ev) (simp_all add: last_state_def)
qed (simp add: last_state_def)

end
