(* ===== verification/Server.thy ===== *)
theory Server
  imports CommandFacts
begin

section \<open>The server (src/net/server.rs, src/shutdown.rs)\<close>

text \<open>
  The loop that accepts connections, the handler that serves one of them, and the state the
  listener, its handlers and \<open>Server::run\<close> share: the permits of the semaphore and the
  number of handlers that hold a sender of the shutdown-complete channel.
\<close>

subsection \<open>Listener::accept\<close>

text \<open>
  \<open>attempts\<close> are the outcomes of the calls of the socket's \<open>accept\<close>, in order. The result
  comes with the milliseconds slept; \<open>None\<close> is a call that still waits for the next outcome.
  \<open><<=\<close> drops the highest bit.
\<close>

fun accept :: "nat \<Rightarrow> nat \<Rightarrow> (io_error + 'sock) list \<Rightarrow> ((io_error + 'sock) \<times> nat list) option" where
  "accept max_backoff backoff [] = None"
| "accept max_backoff backoff (Inr socket # attempts) = Some (Inr socket, [])"
| "accept max_backoff backoff (Inl err # attempts) =
     (if backoff > max_backoff then Some (Inl err, [])
      else map_option (\<lambda>(r, sleeps). (r, backoff # sleeps))
             (accept max_backoff (backoff * 2 mod 2 ^ 64) attempts))"

subsection \<open>Handler::run\<close>

text \<open>\<open>shutdown\<close> is the flag of src/shutdown.rs. \<open>recv\<close> sets it once the signal is in.\<close>

record ('s, 'st) handler =
  storage :: 'st
  conn :: "'s connection"
  shutdown :: bool

definition shutdown_recv :: "('s, 'st) handler \<Rightarrow> ('s, 'st) handler" where
  "shutdown_recv h = h\<lparr>shutdown := True\<rparr>"

text \<open>
  Each round of the loop races the next frame against the shutdown signal. \<open>rounds\<close> is the
  number of rounds the frame wins before the signal does, or \<open>None\<close> without a signal. The result is
  \<open>None\<close> when a read waits forever or a command never ends.
\<close>

partial_function (option) handler_run ::
    "build \<Rightarrow> 's stream_ops \<Rightarrow> ('st, 'e) kv_ops \<Rightarrow> nat option \<Rightarrow> ('s, 'st) handler \<Rightarrow>
     ((net_error, unit) result \<times> ('s, 'st) handler) option" where
  "handler_run B W KV rounds h =
     (if shutdown h then Some (Inr (), h)
      else if rounds = Some 0 then Some (Inr (), shutdown_recv h)
      else Option.bind (read_frame W B (conn h)) (\<lambda>(r, c).
        case r of
          Inl e \<Rightarrow> Some (Inl e, h\<lparr>conn := c\<rparr>)
        | Inr None \<Rightarrow> Some (Inr (), h\<lparr>conn := c\<rparr>)
        | Inr (Some frame) \<Rightarrow>
            (case command_try_from frame of
               Inl e \<Rightarrow> Some (map_err Command (Inl e), h\<lparr>conn := c\<rparr>)
             | Inr cmd \<Rightarrow>
                 Option.bind (command_apply B W KV cmd (storage h) c) (\<lambda>x.
                 case x of
                    (Inl e, st, c) \<Rightarrow> Some (Inl e, h\<lparr>storage := st, conn := c\<rparr>)
                  | (Inr u, st, c) \<Rightarrow>
                      handler_run B W KV (map_option (\<lambda>n. n - 1) rounds) (h\<lparr>storage := st, conn := c\<rparr>)))))"

declare handler_run.simps [code]

subsection \<open>Server::run\<close>

text \<open>
  \<open>Acquiring\<close> waits for a permit, \<open>Accepting b\<close> is inside \<open>accept\<close> with the backoff \<open>b\<close>,
  \<open>Draining\<close> waits for the handlers, \<open>Exited\<close> is after \<open>run\<close>.
\<close>

datatype phase = Acquiring | Accepting nat | Draining | Exited

record server =
  permits :: nat
  phase :: phase
  handlers :: nat

record server_config =
  min_backoff_ms :: nat
  max_backoff_ms :: nat
  max_connections :: nat

definition server_new :: "server_config \<Rightarrow> server" where
  "server_new conf = \<lparr>permits = max_connections conf, phase = Acquiring, handlers = 0\<rparr>"

text \<open>
  A permit is taken and forgotten before \<open>accept\<close>; the handler that is then spawned gives it
  back when it is dropped, however it ended. \<open>Server::run\<close> leaves \<open>listen\<close> when \<open>accept\<close>
  gives up or the shutdown future is ready, drops its own senders and waits until no handler
  holds one.
\<close>

inductive server_step :: "server_config \<Rightarrow> server \<Rightarrow> server \<Rightarrow> bool" for conf where
  acquire: "phase s = Acquiring \<Longrightarrow> 0 < permits s \<Longrightarrow>
    server_step conf s (s\<lparr>permits := permits s - 1, phase := Accepting (min_backoff_ms conf)\<rparr>)"
| spawn: "phase s = Accepting b \<Longrightarrow>
    server_step conf s (s\<lparr>phase := Acquiring, handlers := handlers s + 1\<rparr>)"
| retry: "phase s = Accepting b \<Longrightarrow> b \<le> max_backoff_ms conf \<Longrightarrow>
    server_step conf s (s\<lparr>phase := Accepting (b * 2 mod 2 ^ 64)\<rparr>)"
| give_up: "phase s = Accepting b \<Longrightarrow> max_backoff_ms conf < b \<Longrightarrow>
    server_step conf s (s\<lparr>phase := Draining\<rparr>)"
| shut: "phase s = Acquiring \<or> phase s = Accepting b \<Longrightarrow>
    server_step conf s (s\<lparr>phase := Draining\<rparr>)"
| drop_handler: "0 < handlers s \<Longrightarrow>
    server_step conf s (s\<lparr>handlers := handlers s - 1, permits := permits s + 1\<rparr>)"
| exit: "phase s = Draining \<Longrightarrow> handlers s = 0 \<Longrightarrow>
    server_step conf s (s\<lparr>phase := Exited\<rparr>)"

inductive_cases server_stepE: "server_step conf s s'"

definition server_steps :: "server_config \<Rightarrow> server \<Rightarrow> server \<Rightarrow> bool" where
  "server_steps conf = (server_step conf)\<^sup>*\<^sup>*"

subsection \<open>Permits\<close>

definition accepting :: "phase \<Rightarrow> nat" where
  "accepting p = (case p of Accepting b \<Rightarrow> 1 | _ \<Rightarrow> 0)"

definition running :: "server \<Rightarrow> bool" where
  "running s \<longleftrightarrow> phase s \<noteq> Draining \<and> phase s \<noteq> Exited"

text \<open>
  While the server listens every permit is free, held by a handler, or with the connection
  that is being accepted. The one in flight when it stops is lost.
\<close>

definition server_inv :: "server_config \<Rightarrow> server \<Rightarrow> bool" where
  "server_inv conf s \<longleftrightarrow>
     permits s + handlers s + accepting (phase s) \<le> max_connections conf \<and>
     (running s \<longrightarrow> permits s + handlers s + accepting (phase s) = max_connections conf) \<and>
     max_connections conf \<le> permits s + handlers s + 1 \<and>
     (phase s = Exited \<longrightarrow> handlers s = 0)"

lemma server_inv_new: "server_inv conf (server_new conf)"
  by (simp add: server_inv_def server_new_def accepting_def)

lemma server_inv_step: "server_step conf s s' \<Longrightarrow> server_inv conf s \<Longrightarrow> server_inv conf s'"
  by (erule server_stepE) (auto simp: server_inv_def accepting_def running_def)

lemma server_inv_steps: "server_steps conf s s' \<Longrightarrow> server_inv conf s \<Longrightarrow> server_inv conf s'"
  unfolding server_steps_def by (induction rule: rtranclp_induct) (auto intro: server_inv_step)

lemma drained_exits:
  assumes "phase s = Draining"
  shows "\<exists>s'. server_steps conf s s' \<and> phase s' = Exited \<and> handlers s' = 0"
  using assms
proof (induction "handlers s" arbitrary: s)
  case 0
  then have "server_step conf s (s\<lparr>phase := Exited\<rparr>)" by (intro server_step.exit) auto
  with 0 show ?case unfolding server_steps_def by (metis (no_types, lifting)
    r_into_rtranclp server.ext_inject server.surjective server.update_convs(2))
next
  case (Suc n)
  let ?t = "s\<lparr>handlers := handlers s - 1, permits := permits s + 1\<rparr>"
  have step: "server_step conf s ?t" using Suc by (intro server_step.drop_handler) simp
  have "\<exists>s'. server_steps conf ?t s' \<and> phase s' = Exited \<and> handlers s' = 0"
    using Suc by (intro Suc.hyps(1)) auto
  with step show ?case unfolding server_steps_def by (meson converse_rtranclp_into_rtranclp)
qed

text \<open>No step leads out of \<open>Draining\<close> and \<open>Exited\<close> back to listening: no new handler.\<close>

lemma stopped_step:
  "server_step conf s s' \<Longrightarrow> \<not> running s \<Longrightarrow> \<not> running s' \<and> handlers s' \<le> handlers s"
  by (erule server_stepE) (auto simp: running_def)

subsection \<open>Backing off\<close>

text \<open>With a positive start below \<open>2 ^ 63\<close> the backoff doubles until it passes the maximum.\<close>

lemma accept_fails:
  assumes "0 < b" and "m < 2 ^ 63" and "m < b * 2 ^ k" and "b < 2 ^ 64" and "length errs = k + 1"
  shows "\<exists>n \<le> k. \<exists>e. accept m b (map Inl errs) = Some (Inl e :: io_error + 'sock, map (\<lambda>i. b * 2 ^ i) [0..<n])"
  using assms
proof (induction k arbitrary: b errs)
  case 0
  then obtain e where "errs = [e]" by (cases errs) auto
  with 0 show ?case by simp
next
  case (Suc k)
  then obtain e es where es: "errs = e # es" "length es = k + 1" by (cases errs) auto
  show ?case
  proof (cases "m < b")
    case False
    then have b2: "b * 2 mod 2 ^ 64 = b * 2" "b * 2 < 2 ^ 64" using Suc.prems(2) by simp_all
    have "m < b * 2 * 2 ^ k" using Suc.prems(3) by simp
    from Suc.IH[of "b * 2" es, OF _ Suc.prems(2) this b2(2) es(2)] Suc.prems(1) obtain n f where
      n: "n \<le> k" "accept m (b * 2) (map Inl es) = Some (Inl f :: io_error + 'sock, map (\<lambda>i. b * 2 * 2 ^ i) [0..<n])"
      by auto
    have "b # map (\<lambda>i. b * 2 * 2 ^ i) [0..<n] = map (\<lambda>i. b * 2 ^ i) [0..<Suc n]"
      by (simp add: upt_rec[of 0 "Suc n"] map_Suc_upt[symmetric] del: upt_Suc)
    with n es False b2 show ?thesis by (intro exI[of _ "Suc n"]) auto
  qed (use es in auto)
qed

lemma accept_zero: "accept m 0 (map Inl errs) = None"
  by (induction errs) simp_all

lemma accept_sleeps:
  "accept m b as = Some (r, sleeps) \<Longrightarrow> list_all (\<lambda>t. t \<le> m) sleeps"
  by (induction m b as arbitrary: sleeps rule: accept.induct) (auto split: if_splits)

end
