(* ===== verification/Serving.thy ===== *)
theory Serving
  imports Server
begin

section \<open>A handler serves a sequence of commands\<close>

text \<open>
  \<open>Handler::run\<close> of src/net/server.rs over an engine that keeps the promises of
  \<open>KeyValueStorage\<close> and a stream that keeps those of its kind: the commands a client sends,
  in whatever pieces they arrive, take effect in order on the abstract store, and the
  replies come back in that order.
\<close>

fun replies :: "command list \<Rightarrow> store \<Rightarrow> frame list" where
  "replies [] m = []"
| "replies (c # cs) m = reply c m # replies cs (effect c m)"

definition requests :: "command list \<Rightarrow> bytes" where
  "requests cs = concat (map (\<lambda>c. encode (frame_from c)) cs)"

text \<open>Values and commands of the sizes that a \<open>Bytes\<close> and a \<open>Vec\<close> can have.\<close>

definition store_fits :: "store \<Rightarrow> bool" where
  "store_fits m \<longleftrightarrow> (\<forall>v \<in> ran m. in_i64 (int (length v)))"

definition command_fits :: "build \<Rightarrow> command \<Rightarrow> bool" where
  "command_fits B c \<longleftrightarrow> command_ok c \<and> frame_fits B (frame_from c)"

lemma store_fits_effect: "store_fits m \<Longrightarrow> frame_fits B (frame_from c) \<Longrightarrow> store_fits (effect c m)"
  by (cases c) (auto simp: store_fits_def ran_def restrict_map_def split: if_splits)

lemma length_keys_fits: "frame_fits B (frame_from (Del keys)) \<Longrightarrow> length keys < 2 ^ 63"
  by (simp add: in_i64_def)

lemma reply_fits: "store_fits m \<Longrightarrow> frame_fits B (reply c m)"
  by (cases c) (auto simp: store_fits_def ran_def split: option.split)

lemma reply_ok:
  assumes "frame_fits B (frame_from c)"
  shows "frame_ok (reply c m)"
proof (cases c)
  case (Del keys)
  have "length (filter (\<lambda>k. m k \<noteq> None) (remdups keys)) \<le> length keys"
    using length_filter_le length_remdups_leq order_trans by blast
  with assms show ?thesis by (simp add: Del in_i64_def)
next
  case (Set k v)
  have "valid_utf8 (ascii ''OK'')" by (rule valid_utf8_ascii) (simp add: ascii_def)
  with Set show ?thesis by (simp add: line_string_def) (simp add: ascii_def)
qed (simp split: option.split)

lemma reply_flat: "flat (reply c m)"
  by (cases c) (simp_all split: option.split)

lemma safe_splits_suffix: "safe_splits (x @ b) cs \<Longrightarrow> safe_splits b cs"
proof (induction cs arbitrary: b)
  case (Cons c cs)
  then have "safe_end b" by (auto simp: safe_end_def)
  moreover have "safe_splits (b @ c) cs" using Cons.IH[of "b @ c"] Cons.prems by simp
  ultimately show ?case by simp
qed simp

lemma safe_splits_drop: "safe_splits b cs \<Longrightarrow> safe_splits (b @ concat (take k cs)) (drop k cs)"
proof (induction k arbitrary: b cs)
  case (Suc k)
  show ?case
  proof (cases cs)
    case (Cons c ds)
    with Suc.IH[of "b @ c" ds] Suc.prems show ?thesis by simp
  qed simp
qed simp

text \<open>What is left in the buffer after a frame is the end of what was received.\<close>

lemma safe_splits_rest:
  assumes "safe_splits b cs" and "b @ concat cs = x @ rest" and "b1 @ concat (drop k cs) = rest"
  shows "safe_splits b1 (drop k cs)"
proof -
  have "(b @ concat (take k cs)) @ concat (drop k cs) = (x @ b1) @ concat (drop k cs)"
    using assms(2,3) by (metis append.assoc append_take_drop_id concat_append)
  then have "b @ concat (take k cs) = x @ b1" by simp
  with safe_splits_drop[OF assms(1), of k] show ?thesis by (simp add: safe_splits_suffix)
qed

text \<open>The bytes a handler has buffered or will still receive; an error of the engine or the stream.\<close>

definition received :: "('s \<Rightarrow> bytes list) \<Rightarrow> ('s, 'st) handler \<Rightarrow> bytes" where
  "received incoming h = buffer (conn h) @ concat (incoming (stream (conn h)))"

definition failed :: "(net_error, unit) result \<Rightarrow> bool" where
  "failed r \<longleftrightarrow>
     (case r of Inl (Err (Storage t)) \<Rightarrow> True | Inl (Err AsyncTask) \<Rightarrow> True | Inl (Err (Io i)) \<Rightarrow> True
      | _ \<Rightarrow> False)"

lemma failed_simps [simp]:
  "failed (Inl (Err (Storage t)))" "failed (Inl (Err AsyncTask))" "failed (Inl (Err (Io i)))"
  "\<not> failed (Inr u)"
  by (simp_all add: failed_def)

lemma failed_Inl: "failed r \<Longrightarrow> \<exists>e. r = Inl e"
  by (cases r) auto

text \<open>The engine does not carry the command out: it gives an error, panics or does not return.\<close>

definition engine_fails :: "build \<Rightarrow> ('st, 'e) kv_ops \<Rightarrow> command \<Rightarrow> 'st \<Rightarrow> bool" where
  "engine_fails B KV c st \<longleftrightarrow> \<not> (\<exists>f st'. run_blocking B KV c st = Some (Inr f, st'))"

text \<open>The rounds left before the signal, and the commands that are served until then.\<close>

definition next_rounds :: "nat option \<Rightarrow> nat option" where
  "next_rounds rounds = map_option (\<lambda>n. n - 1) rounds"

definition served :: "nat option \<Rightarrow> command list \<Rightarrow> command list" where
  "served rounds cs = (case rounds of None \<Rightarrow> cs | Some n \<Rightarrow> take n cs)"

lemma served_simps [simp]: "served None cs = cs" "served (Some 0) cs = []" "served rounds [] = []"
  by (simp_all add: served_def split: option.split)

lemma served_Cons: "rounds \<noteq> Some 0 \<Longrightarrow> served rounds (c # cs) = c # served (next_rounds rounds) cs"
  by (auto simp: served_def next_rounds_def take_Cons split: option.split nat.split)

locale serving = kv_store KV inv abs + duplex_stream W queued wire incoming
  for KV :: "('st, 'e) kv_ops" and inv abs and W :: "'s stream_ops" and queued wire incoming
begin

text \<open>One command: its effect and its reply, or an error of the engine or the stream.\<close>

lemma command_apply_ok:
  assumes st: "inv st" "store_fits (abs st)" and c: "frame_fits B (frame_from c)"
    and app: "command_apply B W KV c st cn = Some (r, st', cn')"
  shows "incoming (stream cn') = incoming (stream cn) \<and> buffer cn' = buffer cn \<and>
    (failed r \<and> engine_fails B KV c st \<or> (\<exists>x. r = Inl (Err (Io x))) \<or>
     r = Inr () \<and> inv st' \<and> abs st' = effect c (abs st) \<and>
       queued (stream cn') = queued (stream cn) @ encode (reply c (abs st)) \<and>
       wire (stream cn') = queued (stream cn') \<and> (\<exists>f. run_blocking B KV c st = Some (Inr f, st')))"
proof -
  from app obtain x st1 where run: "run_blocking B KV c st = Some (x, st1)" by (auto simp: command_apply_def)
  show ?thesis
  proof (cases x)
    case (Inl e)
    with run run_blocking_no_panic[of B KV c st st1] run_blocking_errors[of B KV c st _ st1] app show ?thesis
      by (cases e) (auto simp: command_apply_def engine_fails_def)
  next
    case (Inr f)
    have "length keys < 2 ^ 63" if "c = Del keys" for keys 
      using length_keys_fits[OF c[unfolded that]] .
    with run_blocking_ok[OF st(1), of B c f st1] run[unfolded Inr]
    have ok: "inv st1" "abs st1 = effect c (abs st)" "f = reply c (abs st)" by simp_all
    from app run Inr obtain w where w: "write_frame W f cn = (w, cn')" "r = w" "st' = st1"
      by (auto simp: command_apply_def split: prod.splits)
    have io: "fst (write_frame W f cn) \<noteq> Inl Panic"
      using write_flat_no_panic[of W f cn] io_returns reply_flat ok(3) by blast
    have keeps: "incoming (stream cn') = incoming (stream cn)" "buffer cn' = buffer cn"
      using write_frame_keeps[of f cn] write_frame_buffer[of W f cn] w by simp_all
    show ?thesis
    proof (cases w)
      case (Inl e)
      with io w write_frame_error[of W f cn] keeps show ?thesis
        by (cases e) auto
    next
      case (Inr u)
      have "frame_ok f" "frame_fits B f" using reply_ok[OF c] reply_fits[OF st(2)] ok(3) by simp_all
      from write_frame_wire[OF _ this, of cn u cn'] w Inr ok keeps run[unfolded \<open>x = Inr f\<close>] show ?thesis by simp
    qed
  qed
qed

lemma handler_run_command:
  assumes "\<not> shutdown h" and "rounds \<noteq> Some 0" and "read_frame W B (conn h) = Some (Inr (Some (frame_from c)), cn)"
    and "command_ok c"
  shows "handler_run B W KV rounds h = Option.bind (command_apply B W KV c (storage h) cn) (\<lambda>x.
     case x of
       (Inl e, st, cn') \<Rightarrow> Some (Inl e, h\<lparr>storage := st, conn := cn'\<rparr>)
     | (Inr _, st, cn') \<Rightarrow> handler_run B W KV (next_rounds rounds) (h\<lparr>storage := st, conn := cn'\<rparr>))"
proof -
  have "command_try_from (frame_from c) = Inr c" using assms(4) by (simp add: command_try_from_iff)
  with assms show ?thesis unfolding next_rounds_def by (subst handler_run.simps) simp
qed

lemma handler_run_closed:
  assumes "\<not> shutdown h" and "rounds \<noteq> Some 0" and "read_frame W B (conn h) = Some (Inr None, cn)"
  shows "handler_run B W KV rounds h = Some (Inr (), h\<lparr>conn := cn\<rparr>)"
  using assms by (subst handler_run.simps) simp

text \<open>Reading a frame where the bytes of a command come next, and where the connection ends.\<close>

lemma read_command:
  assumes rel: "\<not> overflow_checks B" and c: "command_fits B c"
    and bytes: "buffer cn @ concat (incoming (stream cn)) = encode (frame_from c) @ rest"
    and safe: "safe_splits (buffer cn) (incoming (stream cn))"
  obtains cn' where "read_frame W B cn = Some (Inr (Some (frame_from c)), cn')"
    and "buffer cn' @ concat (incoming (stream cn')) = rest" and "safe_splits (buffer cn') (incoming (stream cn'))"
    and "queued (stream cn') = queued (stream cn)" and "wire (stream cn') = wire (stream cn)"
proof -
  let ?s = "stream cn" and ?b = "buffer cn" and ?f = "frame_from c"
  have fits: "frame_fits B ?f" using c by (simp add: command_fits_def)
  obtain s' where s': "delivers W ?s (incoming ?s) s'" using delivers_incoming by blast
  from read_frame_pieces[OF frame_from_ok fits rel s' safe bytes] obtain k s1 b1 where
    k: "delivers W ?s (take k (incoming ?s)) s1" "b1 @ concat (drop k (incoming ?s)) = rest"
    and "read_frame W B \<lparr>stream = ?s, buffer = ?b\<rparr> = Some (Inr (Some ?f), \<lparr>stream = s1, buffer = b1\<rparr>)"
    by blast
  then have "read_frame W B cn = Some (Inr (Some ?f), \<lparr>stream = s1, buffer = b1\<rparr>)"
    by (metis (full_types) connection.surjective unit.exhaust)
  then show thesis
    using that k delivers_take[OF k(1)] delivers_queued[OF k(1)] safe_splits_rest[OF safe bytes k(2)] by simp
qed

lemma read_closed:
  assumes "buffer cn @ concat (incoming (stream cn)) = []"
  obtains cn' where "read_frame W B cn = Some (Inr None, cn')"
    and "queued (stream cn') = queued (stream cn)" and "wire (stream cn') = wire (stream cn)"
proof -
  let ?s = "stream cn"
  from assms have b: "buffer cn = []" and "concat (incoming ?s) = []" by simp_all
  then have "incoming ?s = []" using read_piece by (cases "incoming ?s") auto
  from read_end[OF this] obtain t where t: "read_buf W ?s = (Inr [], t)" by (metis prod.collapse)
  have "parse_frame B (buffer cn) = (Inr None, [])" by (simp add: b parse_frame_def check_at_end)
  from read_frame_eof[OF this t] have "read_frame W B cn = Some (Inr None, \<lparr>stream = t, buffer = []\<rparr>)" by simp
  then show thesis using that read_buf_keeps[OF t] by simp
qed

text \<open>One round on the bytes of a command, and what the next round starts from.\<close>

lemma handler_round:
  assumes rel: "\<not> overflow_checks B" and c: "command_fits B c" and n: "rounds \<noteq> Some 0"
    and h: "\<not> shutdown h" "inv (storage h)" "store_fits (abs (storage h))"
    and bytes: "received incoming h = encode (frame_from c) @ rest"
    and safe: "safe_splits (buffer (conn h)) (incoming (stream (conn h)))"
  obtains (engine) "engine_fails B KV c (storage h)"
      and "handler_run B W KV rounds h = None \<or> (\<exists>r h'. handler_run B W KV rounds h = Some (r, h') \<and> failed r)"
  | (stream) x h' where "handler_run B W KV rounds h = Some (Inl (Err (Io x)), h')"
  | (served) f h' where "run_blocking B KV c (storage h) = Some (Inr f, storage h')"
      and "handler_run B W KV rounds h = handler_run B W KV (next_rounds rounds) h'"
      and "\<not> shutdown h'" and "inv (storage h')" and "abs (storage h') = effect c (abs (storage h))"
      and "received incoming h' = rest" and "safe_splits (buffer (conn h')) (incoming (stream (conn h')))"
      and "queued (stream (conn h')) = queued (stream (conn h)) @ encode (reply c (abs (storage h)))"
      and "wire (stream (conn h')) = queued (stream (conn h'))"
proof -
  have ok: "command_ok c" "frame_fits B (frame_from c)" using c by (simp_all add: command_fits_def)
  from read_command[OF rel c _ safe] bytes obtain cn' where
    rd: "read_frame W B (conn h) = Some (Inr (Some (frame_from c)), cn')"
    and cn': "buffer cn' @ concat (incoming (stream cn')) = rest" "safe_splits (buffer cn') (incoming (stream cn'))"
      "queued (stream cn') = queued (stream (conn h))" by (metis received_def)
  note run = handler_run_command[OF h(1) n rd ok(1)]
  show thesis
  proof (cases "command_apply B W KV c (storage h) cn'")
    case None
    then have "run_blocking B KV c (storage h) = None" by (simp add: command_apply_def)
    then have "engine_fails B KV c (storage h)" by (simp add: engine_fails_def)
    moreover from None run have "handler_run B W KV rounds h = None" by simp
    ultimately show thesis by (blast intro: engine)
  next
    case (Some x)
    obtain r st cn where x: "x = (r, st, cn)" by (metis prod_cases3)
    with Some have app: "command_apply B W KV c (storage h) cn' = Some (r, st, cn)" by simp
    from command_apply_ok[OF h(2,3) ok(2) app]
    have cn: "incoming (stream cn) = incoming (stream cn')" "buffer cn = buffer cn'"
      and res: "failed r \<and> engine_fails B KV c (storage h) \<or> (\<exists>x. r = Inl (Err (Io x))) \<or>
         r = Inr () \<and> inv st \<and> abs st = effect c (abs (storage h)) \<and>
         queued (stream cn) = queued (stream cn') @ encode (reply c (abs (storage h))) \<and> wire (stream cn) = queued (stream cn) \<and>
         (\<exists>f. run_blocking B KV c (storage h) = Some (Inr f, st))"
      by auto
    from res consider "failed r" "engine_fails B KV c (storage h)" | x where "r = Inl (Err (Io x))"
      | f where "r = Inr ()" "inv st" "abs st = effect c (abs (storage h))"
        "queued (stream cn) = queued (stream cn') @ encode (reply c (abs (storage h)))" "wire (stream cn) = queued (stream cn)"
        "run_blocking B KV c (storage h) = Some (Inr f, st)" by blast
    then show thesis
    proof cases
      case 1
      from failed_Inl[OF 1(1)] obtain e where "r = Inl e" by blast
      with run app have "handler_run B W KV rounds h = Some (r, h\<lparr>storage := st, conn := cn\<rparr>)" by simp
      with 1 show thesis by (blast intro: engine)
    next
      case (2 x)
      with run app have "handler_run B W KV rounds h = Some (Inl (Err (Io x)), h\<lparr>storage := st, conn := cn\<rparr>)" by simp
      then show thesis by (rule stream)
    next
      case (3 f)
      let ?h = "h\<lparr>storage := st, conn := cn\<rparr>"
      show thesis
        by (rule served[of f ?h]) (use run app h 3 cn cn' in \<open>simp_all add: received_def\<close>)
    qed
  qed
qed

text \<open>
  With a shutdown signal after \<open>n\<close> rounds the handler has served the first \<open>n\<close> commands, if there
  are as many, and none by half; \<open>None\<close> is a command that the engine never ends.
\<close>

definition rounds_served ::
    "build \<Rightarrow> nat option \<Rightarrow> command list \<Rightarrow> ('s, 'st) handler \<Rightarrow> (net_error, unit) result \<Rightarrow> ('s, 'st) handler \<Rightarrow> bool" where
  "rounds_served B rounds cs h r h' \<longleftrightarrow>
     r = Inr () \<and> inv (storage h') \<and> abs (storage h') = fold effect (served rounds cs) (abs (storage h)) \<and>
     wire (stream (conn h')) = wire (stream (conn h)) @ concat (map encode (replies (served rounds cs) (abs (storage h))))"

definition serving_start :: "build \<Rightarrow> command list \<Rightarrow> ('s, 'st) handler \<Rightarrow> bool" where
  "serving_start B cs h \<longleftrightarrow> list_all (command_fits B) cs \<and> \<not> shutdown h \<and> inv (storage h) \<and> store_fits (abs (storage h)) \<and>
     received incoming h = requests cs \<and> safe_splits (buffer (conn h)) (incoming (stream (conn h))) \<and>
     wire (stream (conn h)) = queued (stream (conn h))"

text \<open>At the end of the input or of the rounds.\<close>

lemma handler_stops:
  assumes "serving_start B cs h" and "cs = [] \<or> rounds = Some 0"
  shows "\<exists>r h'. handler_run B W KV rounds h = Some (r, h') \<and> rounds_served B rounds cs h r h'"
proof (cases "rounds = Some 0")
  case True
  with assms show ?thesis
    by (subst handler_run.simps) (simp add: shutdown_recv_def rounds_served_def serving_start_def)
next
  case False
  with assms have cs: "cs = []" by simp
  from assms(1) have "buffer (conn h) @ concat (incoming (stream (conn h))) = []" "\<not> shutdown h"
    by (simp_all add: serving_start_def cs received_def requests_def)
  from read_closed[OF this(1)] obtain t where "read_frame W B (conn h) = Some (Inr None, t)"
    and "wire (stream t) = wire (stream (conn h))" by metis
  with handler_run_closed[OF \<open>\<not> shutdown h\<close> False] assms(1) cs show ?thesis
    by (simp add: rounds_served_def serving_start_def)
qed

text \<open>One command, and what the rest of them start from.\<close>

lemma handler_serves_one:
  assumes rel: "\<not> overflow_checks B" and st: "serving_start B (c # cs) h" and n: "rounds \<noteq> Some 0"
  obtains (engine) "engine_fails B KV c (storage h)"
      and "handler_run B W KV rounds h = None \<or> (\<exists>r h'. handler_run B W KV rounds h = Some (r, h') \<and> failed r)"
  | (stream) x h' where "handler_run B W KV rounds h = Some (Inl (Err (Io x)), h')"
  | (served) f h' where "run_blocking B KV c (storage h) = Some (Inr f, storage h')"
      and "handler_run B W KV rounds h = handler_run B W KV (next_rounds rounds) h'" and "serving_start B cs h'"
      and "\<And>r h''. rounds_served B (next_rounds rounds) cs h' r h'' \<Longrightarrow> rounds_served B rounds (c # cs) h r h''"
proof -
  have s: "command_fits B c" "list_all (command_fits B) cs" "\<not> shutdown h" "inv (storage h)" "store_fits (abs (storage h))"
    "received incoming h = encode (frame_from c) @ requests cs" "safe_splits (buffer (conn h)) (incoming (stream (conn h)))"
    "wire (stream (conn h)) = queued (stream (conn h))"
    using st by (simp_all add: serving_start_def requests_def)
  show thesis
  proof (rule handler_round[OF rel s(1) n s(3-7)])
    assume "engine_fails B KV c (storage h)"
      "handler_run B W KV rounds h = None \<or> (\<exists>r h'. handler_run B W KV rounds h = Some (r, h') \<and> failed r)"
    then show thesis by (rule engine)
  next
    fix x h' assume "handler_run B W KV rounds h = Some (Inl (Err (Io x)), h')"
    then show thesis by (rule stream)
  next
    fix f h' assume h': "run_blocking B KV c (storage h) = Some (Inr f, storage h')"
      "handler_run B W KV rounds h = handler_run B W KV (next_rounds rounds) h'"
      "\<not> shutdown h'" "inv (storage h')" "abs (storage h') = effect c (abs (storage h))"
      "received incoming h' = requests cs" "safe_splits (buffer (conn h')) (incoming (stream (conn h')))"
      "queued (stream (conn h')) = queued (stream (conn h)) @ encode (reply c (abs (storage h)))"
      "wire (stream (conn h')) = queued (stream (conn h'))"
    have "store_fits (abs (storage h'))"
      using store_fits_effect[OF s(5), of B c] s(1) h'(5) by (simp add: command_fits_def)
    then have "serving_start B cs h'" using s(2) h' by (simp add: serving_start_def)
    with h'(1,2) show thesis
      by (rule served) (use h' s(8) n in \<open>simp add: rounds_served_def served_Cons\<close>)
  qed
qed

lemma handler_serves_rounds:
  assumes "\<not> overflow_checks B" and "serving_start B cs h" and "handler_run B W KV rounds h = Some (r, h')"
  shows "failed r \<or> rounds_served B rounds cs h r h'"
  using assms(2,3)
proof (induction cs arbitrary: h rounds)
  case Nil
  from handler_stops[OF Nil(1), of rounds] Nil(2) show ?case by simp
next
  case (Cons c cs)
  show ?case
  proof (cases "rounds = Some 0")
    case True
    from handler_stops[OF Cons.prems(1), of rounds] True Cons.prems(2) show ?thesis by simp
  next
    case False
    show ?thesis
      by (rule handler_serves_one[OF assms(1) Cons.prems(1) False]) (use Cons in auto)
  qed
qed

lemma handler_serves:
  assumes "\<not> overflow_checks B" and "list_all (command_fits B) cs"
    and "\<not> shutdown h" and "inv (storage h)" and "store_fits (abs (storage h))"
    and "received incoming h = requests cs"
    and "safe_splits (buffer (conn h)) (incoming (stream (conn h)))"
    and "wire (stream (conn h)) = queued (stream (conn h))"
    and "handler_run B W KV None h = Some (r, h')"
  shows "failed r \<or> r = Inr () \<and> inv (storage h') \<and> abs (storage h') = fold effect cs (abs (storage h)) \<and>
       wire (stream (conn h')) = wire (stream (conn h)) @ concat (map encode (replies cs (abs (storage h))))"
  using handler_serves_rounds[OF assms(1) _ assms(9), of cs] assms(2-8) by (simp add: serving_start_def rounds_served_def)

end

text \<open>Over an engine that does not fail every run returns, and only the stream can go wrong.\<close>

locale reliable_serving = reliable_store KV inv abs able room + duplex_stream W queued wire incoming
  for KV :: "('st, 'e) kv_ops" and inv abs able room and W :: "'s stream_ops" and queued wire incoming

sublocale reliable_serving \<subseteq> serving KV inv abs W queued wire incoming
  by unfold_locales

context reliable_serving
begin

lemma handler_serves_reliably:
  assumes "\<not> overflow_checks B" and "serving_start B cs h" and "list_all (command_room room) cs"
    and "able (sum_list (map command_ops cs) + n) (storage h)"
  shows "\<exists>r h'. handler_run B W KV rounds h = Some (r, h') \<and> ((\<exists>x. r = Inl (Err (Io x))) \<or> rounds_served B rounds cs h r h')"
  using assms(2-4)
proof (induction cs arbitrary: h rounds)
  case Nil
  with handler_stops[of B "[]" h rounds] show ?case by blast
next
  case (Cons c cs)
  show ?case
  proof (cases "rounds = Some 0")
    case True
    with handler_stops[OF Cons.prems(1), of rounds] show ?thesis by blast
  next
    case False
    have "command_fits B c" using Cons.prems(1) by (simp add: serving_start_def)
    then have "length keys < 2 ^ 63" if "c = Del keys" for keys using length_keys_fits that unfolding command_fits_def by blast
    moreover have "command_room room c" "able (command_ops c + (sum_list (map command_ops cs) + n)) (storage h)"
      using Cons.prems(2,3) by (simp_all add: add.assoc)
    ultimately obtain f st where f: "run_blocking B KV c (storage h) = Some (Inr f, st)" "able (sum_list (map command_ops cs) + n) st"
      using run_blocking_succeeds[of c _ "storage h" B] by blast
    show ?thesis
    proof (rule handler_serves_one[OF assms(1) Cons.prems(1) False])
      fix g h' assume h': "run_blocking B KV c (storage h) = Some (Inr g, storage h')"
        "handler_run B W KV rounds h = handler_run B W KV (next_rounds rounds) h'" "serving_start B cs h'"
        "\<And>r h''. rounds_served B (next_rounds rounds) cs h' r h'' \<Longrightarrow> rounds_served B rounds (c # cs) h r h''"
      have "able (sum_list (map command_ops cs) + n) (storage h')" using f h'(1) by simp
      from Cons.IH[OF h'(3) _ this, of "next_rounds rounds"] Cons.prems(2) h'(2,4) show ?thesis by auto
    qed (use f in \<open>auto simp: engine_fails_def\<close>)
  qed
qed

lemma handler_serves_exactly:
  assumes "\<not> overflow_checks B" and "list_all (command_fits B) cs" and "list_all (command_room room) cs"
    and "\<not> shutdown h" and "able (sum_list (map command_ops cs)) (storage h)" and "store_fits (abs (storage h))"
    and "received incoming h = requests cs"
    and "safe_splits (buffer (conn h)) (incoming (stream (conn h)))"
    and "wire (stream (conn h)) = queued (stream (conn h))"
  shows "\<exists>r h'. handler_run B W KV rounds h = Some (r, h') \<and>
    ((\<exists>x. r = Inl (Err (Io x))) \<or>
     r = Inr () \<and> inv (storage h') \<and> abs (storage h') = fold effect (served rounds cs) (abs (storage h)) \<and>
       wire (stream (conn h')) = wire (stream (conn h)) @ concat (map encode (replies (served rounds cs) (abs (storage h)))))"
proof -
  have "serving_start B cs h" using assms able_inv by (simp add: serving_start_def)
  from handler_serves_reliably[OF assms(1) this assms(3), of 0 rounds] assms(5) show ?thesis
    by (simp add: rounds_served_def)
qed

end

end
