(* ===== verification/Client.thy ===== *)
theory Client
  imports CommandFacts
begin

section \<open>The client (src/net/client.rs)\<close>

text \<open>
  Each request writes the frame of a command and reads one frame back. A \<open>Frame::Error\<close> of
  the server becomes a storage error that carries its text. \<open>None\<close> is a call that waits forever for the answer.
\<close>

definition read_response ::
    "'s stream_ops \<Rightarrow> build \<Rightarrow> 's connection \<Rightarrow> ((net_error, frame) result \<times> 's connection) option" where
  "read_response W B c =
     map_option (\<lambda>(r, c). (and_then r (\<lambda>frame. case frame of
         Some (Error err) \<Rightarrow> Inl (Err (Storage err))
       | Some f \<Rightarrow> Inr f
       | None \<Rightarrow> Inl (Err (Io ConnectionReset))), c)) (read_frame W B c)"

text \<open>The shape the three requests share: write, read, look at the answer.\<close>

definition request ::
    "'s stream_ops \<Rightarrow> build \<Rightarrow> command \<Rightarrow> (frame \<Rightarrow> (net_error, 'a) result) \<Rightarrow> 's connection \<Rightarrow>
     ((net_error, 'a) result \<times> 's connection) option" where
  "request W B cmd answer c =
     (case write_frame W (frame_from cmd) c of
        (Inl e, c) \<Rightarrow> Some (Inl e, c)
      | (Inr _, c) \<Rightarrow> map_option (\<lambda>(r, c). (and_then r answer, c)) (read_response W B c))"

fun del_answer :: "frame \<Rightarrow> (net_error, int) result" where
  "del_answer (Integer n) = Inr n"
| "del_answer f = Inl (Err (Command (BadFrame f)))"

fun get_answer :: "frame \<Rightarrow> (net_error, bytes option) result" where
  "get_answer (BulkString s) = Inr (Some s)"
| "get_answer Null = Inr None"
| "get_answer f = Inl (Err (Command (BadFrame f)))"

definition set_answer :: "frame \<Rightarrow> (net_error, unit) result" where
  "set_answer f = (if f = SimpleString (ascii ''OK'') then Inr () else Inl (Err (Command (BadFrame f))))"

definition client_del ::
    "'s stream_ops \<Rightarrow> build \<Rightarrow> bytes list \<Rightarrow> 's connection \<Rightarrow> ((net_error, int) result \<times> 's connection) option" where
  "client_del W B keys c = request W B (Del keys) del_answer c"

definition client_get ::
    "'s stream_ops \<Rightarrow> build \<Rightarrow> bytes \<Rightarrow> 's connection \<Rightarrow> ((net_error, bytes option) result \<times> 's connection) option" where
  "client_get W B key c = request W B (Get key) get_answer c"

definition client_set ::
    "'s stream_ops \<Rightarrow> build \<Rightarrow> bytes \<Rightarrow> bytes \<Rightarrow> 's connection \<Rightarrow> ((net_error, unit) result \<times> 's connection) option" where
  "client_set W B key value c = request W B (Set key value) set_answer c"

subsection \<open>What a request returns\<close>

lemma read_response_frame:
  "read_frame W B c = Some (Inr (Some f), c') \<Longrightarrow>
   read_response W B c = Some (case f of Error e \<Rightarrow> Inl (Err (Storage e)) | _ \<Rightarrow> Inr f, c')"
  by (cases f) (simp_all add: read_response_def)

lemma request_answered:
  assumes "write_frame W (frame_from cmd) c = (Inr u, c1)"
    and "read_frame W B c1 = Some (Inr (Some f), c2)"
  shows "request W B cmd answer c =
     Some (case f of Error e \<Rightarrow> Inl (Err (Storage e)) | _ \<Rightarrow> answer f, c2)"
  using assms by (cases f) (simp_all add: request_def read_response_frame)

lemma del_answer_reply: "del_answer (reply (Del keys) m)
    = Inr (int (length (filter (\<lambda>k. m k \<noteq> None) (remdups keys))))"
  by simp

lemma get_answer_reply: "get_answer (reply (Get key) m) = Inr (m key)"
  by (cases "m key") simp_all

lemma set_answer_reply: "set_answer (reply (Set key v) m) = Inr ()"
  by (simp add: set_answer_def)

text \<open>A request whose answer arrives, on a stream of the promised kind.\<close>

context duplex_stream
begin

lemma request_reply:
  assumes f: "frame_ok f" "frame_fits B f" and rel: "\<not> overflow_checks B"
    and sent: "write_frame W (frame_from cmd) c = (Inr u, c1)"
    and safe: "safe_splits (buffer c) (incoming (stream c))"
    and bytes: "buffer c @ concat (incoming (stream c)) = encode f @ rest"
  shows "\<exists>c2. request W B cmd answer c =
       Some (case f of Error e \<Rightarrow> Inl (Err (Storage e)) | _ \<Rightarrow> answer f, c2) \<and>
     buffer c2 @ concat (incoming (stream c2)) = rest"
proof -
  have "buffer c1 = buffer c" "incoming (stream c1) = incoming (stream c)"
    using write_frame_buffer[of W "frame_from cmd" c] write_frame_keeps[of "frame_from cmd" c] sent
    by simp_all
  with safe bytes obtain c2 where c2: "read_frame W B c1 = Some (Inr (Some f), c2)"
    and rest: "buffer c2 @ concat (incoming (stream c2)) = rest"
    using read_frame_incoming[OF f rel, of c1 rest] by auto
  from request_answered[OF sent c2] rest show ?thesis by blast
qed

end

end
