(* ===== verification/MemStream.thy ===== *)
theory MemStream
  imports Serving Client
begin

section \<open>An in-memory stream\<close>

text \<open>
  The stream the tests of src/net/connection.rs run on, in place of a socket: bytes to be
  read, in the pieces they arrive in, and a sink behind a \<open>BufWriter\<close>. \<open>room\<close> is the number
  of bytes the sink accepts before it fails, so that failing writes are covered too. A
  \<open>BufWriter\<close> may pass its buffer on at any time; this one does at \<open>flush\<close>.
\<close>

record mem_stream =
  inbox :: "bytes list"
  pending :: bytes
  outbox :: bytes
  room :: nat

definition mem_write_all :: "mem_stream \<Rightarrow> bytes \<Rightarrow> (io_error, unit) result \<times> mem_stream" where
  "mem_write_all s d = (Inr (), s\<lparr>pending := pending s @ d\<rparr>)"

definition mem_flush :: "mem_stream \<Rightarrow> (io_error, unit) result \<times> mem_stream" where
  "mem_flush s =
     (let n = length (pending s); s' = s\<lparr>outbox := outbox s @ take (room s) (pending s),
            pending := drop (room s) (pending s), room := room s - n\<rparr>
      in (if n \<le> room s then Inr () else Inl (Err ConnectionReset), s'))"

definition mem_read_buf :: "mem_stream \<Rightarrow> (io_error, bytes) result \<times> mem_stream" where
  "mem_read_buf s =
     (case dropWhile (\<lambda>c. c = []) (inbox s) of
        [] \<Rightarrow> (Inr [], s\<lparr>inbox := []\<rparr>)
      | c # cs \<Rightarrow> (Inr c, s\<lparr>inbox := cs\<rparr>))"

definition mem_ops :: "mem_stream stream_ops" where
  "mem_ops = \<lparr>write_all = mem_write_all, flush = mem_flush, read_buf = mem_read_buf\<rparr>"

definition mem_queued :: "mem_stream \<Rightarrow> bytes" where
  "mem_queued s = outbox s @ pending s"

definition mem_stream :: "bytes list \<Rightarrow> mem_stream" where
  "mem_stream cs = \<lparr>inbox = cs, pending = [], outbox = [], room = 200\<rparr>"

definition mem_incoming :: "mem_stream \<Rightarrow> bytes list" where
  "mem_incoming s = filter (\<lambda>c. c \<noteq> []) (inbox s)"

lemma filter_dropWhile:
  "filter P xs = (case dropWhile (\<lambda>x. \<not> P x) xs of [] \<Rightarrow> [] | y # ys \<Rightarrow> y # filter P ys)"
  by (induction xs) auto

lemma dropWhile_head: "dropWhile P xs = y # ys \<Longrightarrow> \<not> P y"
  using hd_dropWhile[of P xs] by (metis list.distinct(1) list.sel(1))

interpretation mem: duplex_stream mem_ops mem_queued outbox mem_incoming
proof
  fix s d u s' assume "write_all mem_ops s d = (Inr u, s')"
  then show "mem_queued s' = mem_queued s @ d"
    by (auto simp: mem_ops_def mem_write_all_def mem_queued_def)
next
  fix s u s' assume "flush mem_ops s = (Inr u, s')"
  then show "outbox s' = mem_queued s \<and> mem_queued s' = mem_queued s"
    by (auto simp: mem_ops_def mem_flush_def mem_queued_def Let_def split: if_splits)
next
  fix s r s' assume "read_buf mem_ops s = (r, s')"
  then show "mem_queued s' = mem_queued s \<and> outbox s' = outbox s"
    by (auto simp: mem_ops_def mem_queued_def mem_read_buf_def split: list.splits)
next
  fix s d e s' assume "write_all mem_ops s d = (Inl e, s')"
  then show "\<exists>n. mem_queued s' = mem_queued s @ take n d"
    by (simp add: mem_ops_def mem_write_all_def)
next
  fix s e s' assume "flush mem_ops s = (Inl e, s')"
  then show "mem_queued s' = mem_queued s"
    by (auto simp: mem_ops_def mem_flush_def mem_queued_def Let_def)
next
  fix s d
  show "fst (write_all mem_ops s d) \<noteq> Inl Panic" "fst (flush mem_ops s) \<noteq> Inl Panic"
    "fst (read_buf mem_ops s) \<noteq> Inl Panic"
    by (auto simp: mem_ops_def mem_write_all_def mem_flush_def mem_read_buf_def Let_def split: list.splits)
next
  fix s c cs assume "mem_incoming s = c # cs"
  then show "c \<noteq> [] \<and> fst (read_buf mem_ops s) = Inr c \<and> mem_incoming (snd (read_buf mem_ops s)) = cs"
    unfolding mem_incoming_def filter_dropWhile[of "\<lambda>c. c \<noteq> []" "inbox s"]
    by (auto simp: mem_ops_def mem_read_buf_def split: list.splits dest: dropWhile_head
        simp del: dropWhile_eq_Nil_conv)
next
  fix s assume "mem_incoming s = []"
  then show "fst (read_buf mem_ops s) = Inr [] \<and> mem_incoming (snd (read_buf mem_ops s)) = []"
    unfolding mem_incoming_def filter_dropWhile[of "\<lambda>c. c \<noteq> []" "inbox s"]
    by (auto simp: mem_ops_def mem_read_buf_def split: list.splits simp del: dropWhile_eq_Nil_conv)
next
  fix s d show "mem_incoming (snd (write_all mem_ops s d)) = mem_incoming s"
    "mem_incoming (snd (flush mem_ops s)) = mem_incoming s"
    by (simp_all add: mem_ops_def mem_write_all_def mem_flush_def mem_incoming_def Let_def)
qed

subsection \<open>An engine without a disk\<close>

text \<open>The trait \<open>KeyValueStorage\<close> on the abstract store itself, and a server over it.\<close>

definition map_kv :: "(store, unit) kv_ops" where
  "map_kv = \<lparr>kv_set = (\<lambda>k v m. (Inr (), m(k \<mapsto> v))), kv_get = (\<lambda>k m. Some (Inr (m k), m)),
     kv_del = (\<lambda>k m. (Inr (m k \<noteq> None), m(k := None))), kv_text = (\<lambda>_. [])\<rparr>"

interpretation mem_serving: reliable_serving map_kv "\<lambda>m. True" "\<lambda>m. m" "\<lambda>n m. True" "\<lambda>k v. True"
    mem_ops mem_queued outbox mem_incoming
  by unfold_locales (auto simp: map_kv_def)

definition release_build :: build where
  "release_build = \<lparr>overflow_checks = False, max_vec_frames = 64\<rparr>"

definition dev_build :: build where
  "dev_build = \<lparr>overflow_checks = True, max_vec_frames = 64\<rparr>"

end
