(* ===== verification/Binaries.thy ===== *)
theory Binaries
  imports Background MemStream
begin

section \<open>The binaries (src/bin/cli.rs, src/bin/svr.rs, src/conf.rs)\<close>

text \<open>
  What the two programs do once clap has parsed their arguments: the client that sends one command
  and prints the answer, and the daemon that opens the storage and starts the server. What the
  configuration crate reads, the outcome of connecting and of binding a socket, and the text that
  \<open>Debug\<close> of the crate bytes gives for a value are arguments.
\<close>

subsection \<open>The client\<close>

datatype cli_command = CliSet bytes bytes | CliGet bytes | CliDel "bytes list"

definition client_connect :: "io_error + 's \<Rightarrow> (net_error, 's connection) result" where
  "client_connect tcp = (case tcp of Inl e \<Rightarrow> Inl (Err (Io e)) | Inr s \<Rightarrow> Inr (connection_new s))"

definition println :: "bytes \<Rightarrow> bytes" where
  "println line = line @ [LF]"

text \<open>A value is printed between quotes when it is UTF-8, and as \<open>Debug\<close> shows it otherwise.\<close>

definition show_value :: "(bytes \<Rightarrow> bytes) \<Rightarrow> bytes \<Rightarrow> bytes" where
  "show_value debug val = (case from_utf8 val of Inr s \<Rightarrow> [34] @ s @ [34] | Inl _ \<Rightarrow> debug val)"

definition show_get :: "(bytes \<Rightarrow> bytes) \<Rightarrow> bytes option \<Rightarrow> bytes" where
  "show_get debug v = (case v of Some val \<Rightarrow> show_value debug val | None \<Rightarrow> ascii ''(nil)'')"

definition show_del :: "int \<Rightarrow> bytes" where
  "show_del n = ascii ''(integer) '' @ dec_int n"

text \<open>The match on the command: what the program prints, or the error it ends with.\<close>

fun cli_run ::
    "'s stream_ops \<Rightarrow> build \<Rightarrow> (bytes \<Rightarrow> bytes) \<Rightarrow> cli_command \<Rightarrow> 's connection \<Rightarrow>
     ((net_error, bytes) result \<times> 's connection) option" where
  "cli_run W B debug (CliSet key value) client =
     map_option (\<lambda>(r, client). (and_then r (\<lambda>_. Inr (println (34 # ascii ''OK'' @ [34]))), client))
       (client_set W B key value client)"
| "cli_run W B debug (CliGet key) client =
     map_option (\<lambda>(r, client). (and_then r (\<lambda>v. Inr (println (show_get debug v))), client))
       (client_get W B key client)"
| "cli_run W B debug (CliDel keys) client =
     map_option (\<lambda>(r, client). (and_then r (\<lambda>n. Inr (println (show_del n))), client))
       (client_del W B keys client)"

definition cli_main ::
    "'s stream_ops \<Rightarrow> build \<Rightarrow> (bytes \<Rightarrow> bytes) \<Rightarrow> io_error + 's \<Rightarrow> cli_command \<Rightarrow> (net_error, bytes) result option" where
  "cli_main W B debug tcp cmd =
     (case client_connect tcp of
        Inl e \<Rightarrow> Some (Inl e)
      | Inr client \<Rightarrow> map_option fst (cli_run W B debug cmd client))"

text \<open>The command a line stands for and, over a store, the line that answers it.\<close>

fun cli_request :: "cli_command \<Rightarrow> command" where
  "cli_request (CliSet key value) = Set key value"
| "cli_request (CliGet key) = Get key"
| "cli_request (CliDel keys) = Del keys"

fun cli_output :: "(bytes \<Rightarrow> bytes) \<Rightarrow> cli_command \<Rightarrow> store \<Rightarrow> bytes" where
  "cli_output debug (CliSet key value) m = [34, 79, 75, 34, 10]"
| "cli_output debug (CliGet key) m =
     (case m key of
        None \<Rightarrow> ascii ''(nil)''
      | Some v \<Rightarrow> if valid_utf8 v then 34 # v @ [34] else debug v) @ [10]"
| "cli_output debug (CliDel keys) m =
     ascii ''(integer) '' @ dec_nat (card {k \<in> set keys. m k \<noteq> None}) @ [10]"

lemma show_get_cases:
  "show_get debug v = (case v of None \<Rightarrow> ascii ''(nil)'' | Some x \<Rightarrow> if valid_utf8 x then 34 # x @ [34] else debug x)"
  by (auto simp: show_get_def show_value_def from_utf8_def valid_utf8_def split: option.split)

text \<open>A frame that answers the command with the reply of the abstract store is printed as the line of the specification.\<close>

context duplex_stream
begin

lemma cli_run_reply:
  assumes rel: "\<not> overflow_checks B" and cmd: "command_fits B (cli_request cmd)" and m: "store_fits m"
    and sent: "write_frame W (frame_from (cli_request cmd)) c = (Inr u, c1)"
    and safe: "safe_splits (buffer c) (incoming (stream c))"
    and bytes: "buffer c @ concat (incoming (stream c)) = encode (reply (cli_request cmd) m) @ rest"
  shows "\<exists>c2. cli_run W B debug cmd c = Some (Inr (cli_output debug cmd m), c2)"
proof -
  have f: "frame_ok (reply (cli_request cmd) m)" "frame_fits B (reply (cli_request cmd) m)"
    using reply_ok reply_fits[OF m] cmd by (auto simp: command_fits_def)
  note req = request_reply[OF f rel sent safe bytes]
  show ?thesis
  proof (cases cmd)
    case (CliSet key val)
    with req[of set_answer] show ?thesis by (auto simp: client_set_def set_answer_def println_def) (simp add: ascii_def)
  next
    case (CliGet key)
    with req[of get_answer] show ?thesis by (auto simp: client_get_def println_def show_get_cases split: option.splits)
  next
    case (CliDel keys)
    with req[of del_answer] show ?thesis
      by (auto simp: client_del_def println_def show_del_def dec_int_def length_filter_remdups)
  qed
qed

end

subsection \<open>The daemon\<close>

text \<open>
  The configuration of both parts, what \<open>main\<close> can end with before the server runs, and what runs
  from then on. A storage is dropped when the server cannot be made.
\<close>

record configuration =
  net_conf :: server_config
  storage_conf :: config

datatype svr_error = SvrConfig string | SvrIo io_error | SvrStorage bc_error | SvrNet net_error | SvrPanic

record 'l daemon =
  engine :: "'l engine"
  listener :: server

definition svr_main ::
    "'l deps \<Rightarrow> build \<Rightarrow> string + configuration \<Rightarrow> io_error + unit \<Rightarrow> int option list \<Rightarrow> nat \<Rightarrow> fs \<Rightarrow>
     ((svr_error + 'l daemon) \<times> fs) option" where
  "svr_main D B configured bound readings h fs =
     (case configured of
        Inl e \<Rightarrow> Some (Inl (SvrConfig e), fs)
      | Inr c \<Rightarrow>
          (case sys_call fs (\<lambda>fs. (Inr (), fs)) of
             (Inl Panic, fs) \<Rightarrow> Some (Inl SvrPanic, fs)
           | (Inl (Err e), fs) \<Rightarrow> Some (Inl (SvrIo e), fs)
           | (Inr _, fs) \<Rightarrow>
               map_option (\<lambda>(r, fs).
                 case r of
                   Inl Panic \<Rightarrow> (Inl SvrPanic, fs)
                 | Inl (Err e) \<Rightarrow> (Inl (SvrStorage e), fs)
                 | Inr st \<Rightarrow>
                     (case bound of
                        Inl e \<Rightarrow> (Inl (SvrNet (Io e)), bitcask_drop st)
                      | Inr _ \<Rightarrow> (Inr \<lparr>engine = background_tasks st, listener = server_new (net_conf c)\<rparr>, fs)))
                 (bitcask_open D B (storage_conf c) readings h fs)))"

text \<open>\<open>Config::default\<close> of src/net/config.rs.\<close>

definition default_server_config :: server_config where
  "default_server_config = \<lparr>min_backoff_ms = 500, max_backoff_ms = 64000, max_connections = 128\<rparr>"

lemma svr_main_ready:
  assumes "faults fs = []" and "bitcask_open D B (storage_conf c) readings h fs = Some (Inr st, fs')"
  shows "svr_main D B (Inr c) (Inr u) readings h fs
       = Some (Inr \<lparr>engine = background_tasks st, listener = server_new (net_conf c)\<rparr>, fs')"
  using assms by (simp add: svr_main_def sys_call_def next_fault_def)

lemma svr_main_unbound:
  assumes "faults fs = []" and "bitcask_open D B (storage_conf c) readings h fs = Some (Inr st, fs')"
  shows "svr_main D B (Inr c) (Inl e) readings h fs = Some (Inl (SvrNet (Io e)), bitcask_drop st)"
  using assms by (simp add: svr_main_def sys_call_def next_fault_def)

text \<open>
  The operations of a handle keep a storage durable as well as its invariant, so a durable engine
  is a \<open>kv_store\<close> of its own: what a handler leaves behind can be opened again.
\<close>

lemma durable_kv:
  assumes D: "deps_laws D"
  shows "kv_store (bitcask_kv D B err) (durable D) (abs_store D)"
proof
  fix st k v u st' assume st: "durable D st" and r: "kv_set (bitcask_kv D B err) k v st = (Inr u, st')"
  then have "engine_run D B st ([] @ [OpPut k v]) st'"
    by (intro engine_run.put[OF engine_run.start]) (simp add: bitcask_kv_def)
  from engine_run_durable[OF this D st] show "durable D st' \<and> abs_store D st' = (abs_store D st)(k \<mapsto> v)" by simp
next
  fix st k r st' assume st: "durable D st" and r: "kv_get (bitcask_kv D B err) k st = Some (Inr r, st')"
  then have g: "handle_get D B k st = Some (Inr r, st')" by (simp add: bitcask_kv_def)
  then have "engine_run D B st ([] @ [OpGet k]) st'" by (rule engine_run.get[OF engine_run.start])
  moreover have "r = abs_store D st k"
    using kv_store.get_ok[OF bitcask_refines[OF D] _ r] st by (simp add: durable_def)
  ultimately show "durable D st' \<and> abs_store D st' = abs_store D st \<and> r = abs_store D st k"
    using engine_run_durable[OF _ D st] by auto
next
  fix st k b st' assume st: "durable D st" and r: "kv_del (bitcask_kv D B err) k st = (Inr b, st')"
  then have "engine_run D B st ([] @ [OpDelete k]) st'"
    by (intro engine_run.delete[OF engine_run.start]) (simp add: bitcask_kv_def)
  from engine_run_durable[OF this D st]
  have "durable D st' \<and> abs_store D st' = (abs_store D st)(k := None)" by simp
  moreover have "b = (abs_store D st k \<noteq> None)"
    using kv_store.del_ok[OF bitcask_refines[OF D] _ r] st by (simp add: durable_def)
  ultimately show "durable D st' \<and> abs_store D st' = (abs_store D st)(k := None) \<and> b = (abs_store D st k \<noteq> None)" by simp
qed

end
