(* ===== verification/Sessions.thy ===== *)
theory Sessions
  imports CommandFacts
begin

section \<open>Commands of several clients at once\<close>

text \<open>
  Each handler runs its command on a blocking thread, so the operations of several commands on
  the engine come in any order. GET and SET are one operation, DEL is one for each key
  (src/net/command/del.rs). A schedule says which command makes the next step.
\<close>

datatype job = Submitted command | Deleting "bytes list" int | Answered "(net_error, frame) result"

text \<open>\<open>None\<close>: the operation does not return now; its thread goes on spinning.\<close>

fun job_step :: "build \<Rightarrow> ('st, 'e) kv_ops \<Rightarrow> job \<Rightarrow> 'st \<Rightarrow> (job \<times> 'st) option" where
  "job_step B KV (Submitted (Get key)) st = map_option (\<lambda>(r, st). (Answered r, st)) (get_response KV key st)"
| "job_step B KV (Submitted (Set key val)) st = (let (r, st) = set_response KV key val st in Some (Answered r, st))"
| "job_step B KV (Submitted (Del keys)) st = Some (Deleting keys 0, st)"
| "job_step B KV (Deleting [] count) st = Some (Answered (Inr (Integer count)), st)"
| "job_step B KV (Deleting (key # keys) count) st =
     Some (case kv_del KV key st of
        (Inl e, st) \<Rightarrow> (Answered (and_then (join (kv_text KV) (Inl e)) (\<lambda>count. Inr (Integer count))), st)
      | (Inr removed, st) \<Rightarrow>
          if removed then
            (case i64_arith B (count + 1) of
               Inl e \<Rightarrow> (Answered (and_then (join (kv_text KV) (Inl e)) (\<lambda>count. Inr (Integer count))), st)
             | Inr count' \<Rightarrow> (Deleting keys count', st))
          else (Deleting keys count, st))"
| "job_step B KV (Answered r) st = Some (Answered r, st)"

fun jobs_run :: "build \<Rightarrow> ('st, 'e) kv_ops \<Rightarrow> nat list \<Rightarrow> job list \<Rightarrow> 'st \<Rightarrow> job list \<times> 'st" where
  "jobs_run B KV [] ts st = (ts, st)"
| "jobs_run B KV (i # schedule) ts st =
     (if i < length ts then
        (case job_step B KV (ts ! i) st of
           None \<Rightarrow> jobs_run B KV schedule ts st
         | Some (t, st) \<Rightarrow> jobs_run B KV schedule (ts[i := t]) st)
      else jobs_run B KV schedule ts st)"

text \<open>A turn of no one, or of a call that spins.\<close>

lemma blocked_turn:
  "\<not> (i < length ts \<and> job_step B KV (ts ! i) st \<noteq> None) \<Longrightarrow>
   jobs_run B KV (i # schedule) ts st = jobs_run B KV schedule ts st"
  by (cases "job_step B KV (ts ! i) st") auto

text \<open>A command that runs alone does what \<open>run_blocking\<close> says.\<close>

lemma job_finished: "jobs_run B KV (replicate n 0) [Answered r] st = ([Answered r], st)"
  by (induction n) simp_all

lemma job_deleting:
  "length keys < n \<Longrightarrow> jobs_run B KV (replicate n 0) [Deleting keys count] st =
     (let (r, st) = del_all B KV keys count st in
      ([Answered (and_then (join (kv_text KV) r) (\<lambda>count. Inr (Integer count)))], st))"
proof (induction keys arbitrary: n count st)
  case Nil
  then show ?case by (cases n) (simp_all add: job_finished)
next
  case (Cons key keys)
  then obtain m where n: "n = Suc m" "length keys < m" by (cases n) auto
  obtain r st1 where d: "kv_del KV key st = (r, st1)" by fastforce
  show ?case
  proof (cases r)
    case (Inl e)
    with d n show ?thesis by (cases e) (simp_all add: job_finished)
  next
    case (Inr removed)
    show ?thesis
    proof (cases "i64_arith B (count + 1) :: ('b, int) result")
      case (Inl e)
      with d n Inr Cons.IH[OF n(2), of count st1] show ?thesis by (cases removed; cases e) (simp_all add: job_finished)
    next
      case (Inr c)
      with d n \<open>r = Inr removed\<close> Cons.IH[OF n(2), of count st1] Cons.IH[OF n(2), of c st1] show ?thesis
        by (cases removed) simp_all
    qed
  qed
qed

lemma job_alone:
  assumes "case c of Del keys \<Rightarrow> length keys + 1 < n | _ \<Rightarrow> 0 < n" and "run_blocking B KV c st = Some (r, st')"
  shows "jobs_run B KV (replicate n 0) [Submitted c] st = ([Answered r], st')"
proof -
  obtain m where n: "n = Suc m" using assms(1) by (cases n) (auto split: command.splits)
  show ?thesis
  proof (cases c)
    case (Del keys)
    with assms n job_deleting[of keys m B KV 0 st] show ?thesis by (simp add: split_def Let_def)
  next
    case (Get key)
    then have "job_step B KV (Submitted c) st = Some (Answered r, st')" using assms(2) by simp
    then show ?thesis by (simp add: n job_finished)
  qed (use assms(2) in \<open>simp_all add: n job_finished split_def Let_def\<close>)
qed

subsection \<open>What happened to the store\<close>

text \<open>The operation the next step of a command makes, the operations of a schedule, their effects.\<close>

datatype kv_event = Stored bytes bytes | Looked bytes | Removed bytes

fun job_event :: "job \<Rightarrow> kv_event list" where
  "job_event (Submitted (Get key)) = [Looked key]"
| "job_event (Submitted (Set key val)) = [Stored key val]"
| "job_event (Deleting (key # keys) count) = [Removed key]"
| "job_event t = []"

fun history :: "build \<Rightarrow> ('st, 'e) kv_ops \<Rightarrow> nat list \<Rightarrow> job list \<Rightarrow> 'st \<Rightarrow> kv_event list" where
  "history B KV [] ts st = []"
| "history B KV (i # schedule) ts st =
     (if i < length ts then
        (case job_step B KV (ts ! i) st of
           None \<Rightarrow> history B KV schedule ts st
         | Some (t, st) \<Rightarrow> job_event (ts ! i) @ history B KV schedule (ts[i := t]) st)
      else history B KV schedule ts st)"

lemma blocked_history:
  "\<not> (i < length ts \<and> job_step B KV (ts ! i) st \<noteq> None) \<Longrightarrow>
   history B KV (i # schedule) ts st = history B KV schedule ts st"
  by (cases "job_step B KV (ts ! i) st") auto

fun kv_effect :: "kv_event \<Rightarrow> store \<Rightarrow> store" where
  "kv_effect (Stored k v) m = m(k \<mapsto> v)"
| "kv_effect (Looked k) m = m"
| "kv_effect (Removed k) m = m(k := None)"

text \<open>What the next step of a job sees in the store, and the job after it when the engine gives no error.\<close>

fun event_key :: "kv_event \<Rightarrow> bytes" where
  "event_key (Stored k v) = k"
| "event_key (Looked k) = k"
| "event_key (Removed k) = k"

definition job_sees :: "job \<Rightarrow> store \<Rightarrow> bytes option" where
  "job_sees t m = (case job_event t of [] \<Rightarrow> None | e # es \<Rightarrow> m (event_key e))"

fun job_next :: "job \<Rightarrow> bytes option \<Rightarrow> job" where
  "job_next (Submitted (Get key)) v = Answered (Inr (case v of Some val \<Rightarrow> BulkString val | None \<Rightarrow> Null))"
| "job_next (Submitted (Set key val)) v = Answered (Inr (SimpleString (ascii ''OK'')))"
| "job_next (Submitted (Del keys)) v = Deleting keys 0"
| "job_next (Deleting [] count) v = Answered (Inr (Integer count))"
| "job_next (Deleting (key # keys) count) v = Deleting keys (if v \<noteq> None then count + 1 else count)"
| "job_next (Answered r) v = Answered r"

text \<open>The keys that were not there before, and the keys that the commands say they removed.\<close>

fun fresh :: "kv_event \<Rightarrow> store \<Rightarrow> nat" where
  "fresh (Stored k v) m = (if m k = None then 1 else 0)"
| "fresh e m = 0"

fun created :: "kv_event list \<Rightarrow> store \<Rightarrow> nat" where
  "created [] m = 0"
| "created (e # es) m = fresh e m + created es (kv_effect e m)"

fun counted :: "job \<Rightarrow> int" where
  "counted (Deleting keys count) = count"
| "counted (Answered (Inr (Integer count))) = count"
| "counted t = 0"

fun no_error :: "job \<Rightarrow> bool" where
  "no_error (Answered (Inl e)) = False"
| "no_error t = True"

fun job_fits :: "job \<Rightarrow> bool" where
  "job_fits (Submitted (Del keys)) = (int (length keys) < 2 ^ 63)"
| "job_fits (Deleting keys count) = (0 \<le> count \<and> count + int (length keys) < 2 ^ 63)"
| "job_fits t = True"

lemma created_append: "created (es @ fs) m = created es m + created fs (fold kv_effect es m)"
  by (induction es arbitrary: m) simp_all

lemma card_dom_remove:
  assumes "finite (dom m)"
  shows "int (card (dom (m(k := None)))) + (if m k \<noteq> None then 1 else 0) = int (card (dom m))"
proof (cases "m k")
  case None
  then have "dom m - {k} = dom m" by auto
  with None show ?thesis by simp
next
  case (Some v)
  then have "Suc (card (dom m - {k})) = card (dom m)" using assms by (intro card_Suc_Diff1) auto
  with Some show ?thesis by simp
qed

lemma card_dom_insert:
  "finite (dom m) \<Longrightarrow> card (dom (m(k \<mapsto> v))) = card (dom m) + (if m k = None then 1 else 0)"
  by (simp add: card_insert_if domIff)

lemma job_next_fits: "job_fits t \<Longrightarrow> job_fits (job_next t v)"
  by (cases "(t, v)" rule: job_next.cases) auto

lemma job_next_card:
  "finite (dom m) \<Longrightarrow>
   int (card (dom (fold kv_effect (job_event t) m))) + counted (job_next t (job_sees t m)) =
     int (card (dom m)) + counted t + int (created (job_event t) m)"
proof (cases t rule: job_event.cases)
  case (2 key val)
  then show "finite (dom m) \<Longrightarrow> ?thesis" using card_dom_insert[of m key val] by (simp del: dom_fun_upd)
next
  case (3 key keys count)
  then show "finite (dom m) \<Longrightarrow> ?thesis"
    using card_dom_remove[of m key] by (cases "m key") (simp_all add: job_sees_def del: dom_fun_upd)
qed (auto simp: job_sees_def split: option.splits)

lemma no_error_step: "\<not> no_error t \<Longrightarrow> job_step B KV t st = Some (t, st)"
  by (cases t rule: no_error.cases) simp_all

lemma no_error_join [simp]: "\<not> no_error (Answered (and_then (join into (Inl e)) f))"
  by (cases e) simp_all

lemma sum_counted_update:
  "i < length ts \<Longrightarrow> sum_list (map counted (ts[i := t])) = sum_list (map counted ts) + counted t - counted (ts ! i)"
  by (induction ts arbitrary: i) (auto split: nat.split)

text \<open>An error stays, so a run that ends without one never had one.\<close>

lemma error_stays:
  "jobs_run B KV schedule ts st = (ts', st') \<Longrightarrow> list_all no_error ts' \<Longrightarrow> list_all no_error ts"
proof (induction schedule arbitrary: ts st)
  case (Cons i schedule)
  show ?case
  proof (cases "i < length ts \<and> job_step B KV (ts ! i) st \<noteq> None")
    case True
    then obtain t st1 where t: "job_step B KV (ts ! i) st = Some (t, st1)" by auto
    from Cons True t have all: "list_all no_error (ts[i := t])" by simp
    from all True have "no_error t" by (auto simp: list_all_length dest: spec[of _ i])
    with t have "no_error (ts ! i)" using no_error_step[of "ts ! i" B KV st] by auto
    with all True show ?thesis by (metis list_all_length length_list_update nth_list_update_neq)
  next
    case False
    then have "jobs_run B KV (i # schedule) ts st = jobs_run B KV schedule ts st" by (rule blocked_turn)
    with Cons show ?thesis by (simp del: jobs_run.simps)
  qed
qed simp

lemma finished_stays:
  "jobs_run B KV schedule ts st = (ts', st') \<Longrightarrow> i < length ts \<Longrightarrow> ts ! i = Answered r \<Longrightarrow> ts' ! i = Answered r"
proof (induction schedule arbitrary: ts st)
  case (Cons j schedule)
  show ?case
  proof (cases "j < length ts \<and> job_step B KV (ts ! j) st \<noteq> None")
    case True
    then obtain t st1 where t: "job_step B KV (ts ! j) st = Some (t, st1)" by auto
    with Cons.prems(1) True have run: "jobs_run B KV schedule (ts[j := t]) st1 = (ts', st')" by simp
    have "ts[j := t] ! i = Answered r" using Cons.prems(3) t True by (cases "j = i") auto
    with Cons.IH[OF run] Cons.prems(2) show ?thesis by simp
  next
    case False
    then have "jobs_run B KV (j # schedule) ts st = jobs_run B KV schedule ts st" by (rule blocked_turn)
    with Cons show ?thesis by (simp del: jobs_run.simps)
  qed
qed simp

context kv_store
begin

lemma job_step_next:
  assumes st: "inv st" and fits: "job_fits t" and t': "job_step B KV t st = Some (t', st')" "no_error t'"
  shows "inv st' \<and> abs st' = fold kv_effect (job_event t) (abs st) \<and> t' = job_next t (job_sees t (abs st))"
proof (cases t)
  case (Submitted c)
  show ?thesis
  proof (cases c)
    case (Get key)
    from t'(1) Submitted Get obtain r s where g: "kv_get KV key st = Some (r, s)" by auto
    with t' Submitted Get obtain v where "r = Inr v" by (cases r) auto
    with g get_ok[OF st(1), of key v s] t' Submitted Get show ?thesis by (auto simp: job_sees_def)
  next
    case (Set key val)
    obtain r s where g: "kv_set KV key val st = (r, s)" by fastforce
    with t' Submitted Set obtain u where "r = Inr u" by (cases r) auto
    with g set_ok[OF st(1), of key val u s] t' Submitted Set show ?thesis by auto
  qed (use t' st fits Submitted in auto)
next
  case (Deleting keys count)
  show ?thesis
  proof (cases keys)
    case (Cons key rest)
    obtain r s where g: "kv_del KV key st = (r, s)" by fastforce
    with t' Deleting Cons obtain b where r: "r = Inr b" by (cases r) auto
    note d = del_ok[OF st(1) g[unfolded r]]
    have "in_i64 (count + 1)" using fits Deleting Cons by (simp add: in_i64_def)
    with t' g r Deleting Cons have "st' = s" "t' = Deleting rest (if b then count + 1 else count)" by (auto split: if_splits)
    with d Deleting Cons show ?thesis by (auto simp: job_sees_def)
  qed (use t' st fits Deleting in auto)
qed (use t' st fits in auto)

lemma job_step_ok:
  assumes "inv st" and "finite (dom (abs st))" and "job_fits t" and "job_step B KV t st = Some (t', st')" and "no_error t'"
  shows "inv st' \<and> abs st' = fold kv_effect (job_event t) (abs st) \<and> job_fits t' \<and>
    int (card (dom (abs st'))) + counted t' = int (card (dom (abs st))) + counted t + int (created (job_event t) (abs st))"
  using job_step_next[OF assms(1,3-5)] job_next_fits[OF assms(3)] job_next_card[OF assms(2), of t] by simp

text \<open>A whole schedule, in any order of the steps.\<close>

lemma jobs_run_ok:
  assumes "jobs_run B KV schedule ts st = (ts', st')" and "list_all no_error ts'"
    and "inv st" and "finite (dom (abs st))" and "list_all job_fits ts"
  shows "inv st' \<and> abs st' = fold kv_effect (history B KV schedule ts st) (abs st) \<and>
    int (card (dom (abs st'))) + sum_list (map counted ts') =
      int (card (dom (abs st))) + sum_list (map counted ts) + int (created (history B KV schedule ts st) (abs st))"
  using assms
proof (induction schedule arbitrary: ts st)
  case (Cons i schedule)
  show ?case
  proof (cases "i < length ts \<and> job_step B KV (ts ! i) st \<noteq> None")
    case True
    then obtain t st1 where t: "job_step B KV (ts ! i) st = Some (t, st1)" and True: "i < length ts" by auto
    with Cons.prems(1) True have run: "jobs_run B KV schedule (ts[i := t]) st1 = (ts', st')" by simp
    from error_stays[OF run Cons.prems(2)] True have "no_error t" by (auto simp: list_all_length dest: spec[of _ i])
    moreover have "job_fits (ts ! i)" using Cons.prems(5) True by (simp add: list_all_length)
    ultimately have s: "inv st1" "abs st1 = fold kv_effect (job_event (ts ! i)) (abs st)" "job_fits t"
      "int (card (dom (abs st1))) + counted t = int (card (dom (abs st))) + counted (ts ! i) + int (created (job_event (ts ! i)) (abs st))"
      using job_step_ok[OF Cons.prems(3,4) _ t] by auto
    have fin: "finite (dom (abs st1))" unfolding s(2)
      using Cons.prems(4) by (cases "ts ! i" rule: job_event.cases) simp_all
    have fits: "list_all job_fits (ts[i := t])" using Cons.prems(5) s(3) True
      by (auto simp: list_all_length nth_list_update)
    let ?H = "history B KV schedule (ts[i := t]) st1"
    have h: "history B KV (i # schedule) ts st = job_event (ts ! i) @ ?H" using t True by simp
    from Cons.IH[OF run Cons.prems(2) s(1) fin fits] have ih: "inv st'" "abs st' = fold kv_effect ?H (abs st1)"
      "int (card (dom (abs st'))) + sum_list (map counted ts') =
       int (card (dom (abs st1))) + sum_list (map counted (ts[i := t])) + int (created ?H (abs st1))" by auto
    from ih s(4) sum_counted_update[OF True, of t] show ?thesis
      unfolding h fold_append comp_apply created_append of_nat_add s(2)[symmetric]
      by (intro conjI) (assumption | linarith)+
  next
    case False
    then have h: "history B KV (i # schedule) ts st = history B KV schedule ts st" by (rule blocked_history)
    from blocked_turn[OF False, of schedule] Cons.prems(1) have "jobs_run B KV schedule ts st = (ts', st')" by simp
    from Cons.IH[OF this Cons.prems(2-5)] show ?thesis unfolding h .
  qed
qed simp

lemma simple_step:
  assumes "inv st" and "job_step B KV (Submitted c) st = Some (t, st')" and "no_error t" and "\<forall>keys. c \<noteq> Del keys"
  shows "t = Answered (Inr (reply c (abs st)))"
proof (cases c)
  case (Get key)
  from assms(2) Get obtain r s where g: "kv_get KV key st = Some (r, s)" by auto
  with assms(2,3) Get obtain v where "r = Inr v" by (cases r) auto
  with g get_ok[OF assms(1), of key v s] assms(2) Get show ?thesis by auto
next
  case (Set key val)
  obtain r s where g: "kv_set KV key val st = (r, s)" by fastforce
  with assms(2,3) Set obtain u where "r = Inr u" by (cases r) auto
  with g assms(2) Set show ?thesis by auto
qed (use assms in auto)

lemma jobs_run_answers:
  assumes "jobs_run B KV schedule ts st = (ts', st')" and "list_all no_error ts'"
    and "inv st" and "finite (dom (abs st))" and "list_all job_fits ts"
    and "i < length ts" and "ts ! i = Submitted c" and "\<forall>keys. c \<noteq> Del keys" and "ts' ! i = Answered r"
  shows "\<exists>before later. history B KV schedule ts st = before @ later \<and>
    r = Inr (reply c (fold kv_effect before (abs st)))"
  using assms(1-7)
proof (induction schedule arbitrary: ts st)
  case Nil
  with assms(9) show ?case by simp
next
  case (Cons j schedule)
  show ?case
  proof (cases "j < length ts \<and> job_step B KV (ts ! j) st \<noteq> None")
    case True
    then obtain t st1 where t: "job_step B KV (ts ! j) st = Some (t, st1)" and True: "j < length ts" by auto
    with Cons.prems(1) True have run: "jobs_run B KV schedule (ts[j := t]) st1 = (ts', st')" by simp
    from error_stays[OF run Cons.prems(2)] True have ne: "no_error t" by (auto simp: list_all_length dest: spec[of _ j])
    let ?H = "history B KV schedule (ts[j := t]) st1"
    have h: "history B KV (j # schedule) ts st = job_event (ts ! j) @ ?H" using t True by simp
    show ?thesis
    proof (cases "j = i")
      case True
      have "t = Answered (Inr (reply c (abs st)))"
        using simple_step[OF Cons.prems(3) _ ne assms(8)] t Cons.prems(7) True by simp
      with finished_stays[OF run, of i] Cons.prems(6) True assms(9)
      have "r = Inr (reply c (fold kv_effect [] (abs st)))" by simp
      then show ?thesis by (metis append_Nil)
    next
      case False
      have "job_fits (ts ! j)" using Cons.prems(5) True by (simp add: list_all_length)
      then have s: "inv st1" "abs st1 = fold kv_effect (job_event (ts ! j)) (abs st)" "job_fits t"
        using job_step_ok[OF Cons.prems(3,4) _ t ne] by auto
      have fin: "finite (dom (abs st1))" unfolding s(2)
        using Cons.prems(4) by (cases "ts ! j" rule: job_event.cases) simp_all
      have fits: "list_all job_fits (ts[j := t])" using Cons.prems(5) s(3) True
        by (auto simp: list_all_length nth_list_update)
      from Cons.IH[OF run Cons.prems(2) s(1) fin fits] Cons.prems(6,7) False obtain p q where
        p: "?H = p @ q" "r = Inr (reply c (fold kv_effect p (abs st1)))" by auto
      show ?thesis
        by (rule exI[of _ "job_event (ts ! j) @ p"], rule exI[of _ q]) (simp add: h p s(2) del: history.simps)
    qed
  next
    case False
    then have "history B KV (j # schedule) ts st = history B KV schedule ts st"
      "jobs_run B KV (j # schedule) ts st = jobs_run B KV schedule ts st" by (rule blocked_history, rule blocked_turn)
    with Cons show ?thesis by (simp del: history.simps jobs_run.simps)
  qed
qed

end

end
