(* ===== verification/ManyClients.thy ===== *)
theory ManyClients
  imports Serving Sessions
begin

section \<open>Handlers of several connections on one engine (server.rs, command.rs)\<close>

text \<open>
  Every connection has a handler; all of them share the engine. A handler is cut where others can
  be seen: after it read a command, at every operation of the command on the engine, and when it
  has written the reply. A shutdown signal is seen while a handler waits for a frame.
\<close>

datatype 's session =
    Awaiting "'s connection"
  | Working job "'s connection"
  | Done "(net_error, unit) result" "'s connection"

text \<open>
  One step of \<open>Handler::run\<close>. \<open>None\<close> is a read that waits forever, an operation that spins in the
  engine, or a handler that is done.
\<close>

fun session_step ::
    "build \<Rightarrow> 's stream_ops \<Rightarrow> ('st, 'e) kv_ops \<Rightarrow> 's session \<Rightarrow> 'st \<Rightarrow> ('s session \<times> 'st) option" where
  "session_step B W KV (Awaiting c) st =
     map_option (\<lambda>(r, c).
       (case r of
          Inl e \<Rightarrow> Done (Inl e) c
        | Inr None \<Rightarrow> Done (Inr ()) c
        | Inr (Some frame) \<Rightarrow>
            (case command_try_from frame of
               Inl e \<Rightarrow> Done (map_err Command (Inl e)) c
             | Inr cmd \<Rightarrow> Working (Submitted cmd) c), st)) (read_frame W B c)"
| "session_step B W KV (Working (Answered (Inl e)) c) st = Some (Done (Inl e) c, st)"
| "session_step B W KV (Working (Answered (Inr response)) c) st =
     (let (r, c) = write_frame W response c in
      Some (case r of Inl e \<Rightarrow> Done (Inl e) c | Inr u \<Rightarrow> Awaiting c, st))"
| "session_step B W KV (Working j c) st = map_option (\<lambda>(j, st). (Working j c, st)) (job_step B KV j st)"
| "session_step B W KV (Done r c) st = None"

datatype serve_event = Serve nat | Signal nat

fun serve_step ::
    "build \<Rightarrow> 's stream_ops \<Rightarrow> ('st, 'e) kv_ops \<Rightarrow> serve_event \<Rightarrow> 's session list \<Rightarrow> 'st \<Rightarrow> ('s session list \<times> 'st) option" where
  "serve_step B W KV (Serve i) ss st =
     (if i < length ss then map_option (\<lambda>(s, st). (ss[i := s], st)) (session_step B W KV (ss ! i) st) else None)"
| "serve_step B W KV (Signal i) ss st =
     (if i < length ss then (case ss ! i of Awaiting c \<Rightarrow> Some (ss[i := Done (Inr ()) c], st) | _ \<Rightarrow> None) else None)"

fun serve ::
    "build \<Rightarrow> 's stream_ops \<Rightarrow> ('st, 'e) kv_ops \<Rightarrow> serve_event list \<Rightarrow> 's session list \<Rightarrow> 'st \<Rightarrow> ('s session list \<times> 'st) option" where
  "serve B W KV [] ss st = Some (ss, st)"
| "serve B W KV (ev # evs) ss st = Option.bind (serve_step B W KV ev ss st) (\<lambda>(ss, st). serve B W KV evs ss st)"

lemma serve_append:
  "serve B W KV (xs @ ys) ss st = Option.bind (serve B W KV xs ss st) (\<lambda>(ss, st). serve B W KV ys ss st)"
  by (induction xs arbitrary: ss st) (auto simp: bind_eq_None_conv split: bind_splits)

subsection \<open>A handler that nobody disturbs\<close>

text \<open>Its steps in a row are \<open>handler_run\<close>.\<close>

definition alone :: "build \<Rightarrow> 's stream_ops \<Rightarrow> ('st, 'e) kv_ops \<Rightarrow> 's session \<Rightarrow> 'st \<Rightarrow> 's session \<Rightarrow> 'st \<Rightarrow> bool" where
  "alone B W KV s st s' st' \<longleftrightarrow> (\<exists>n. serve B W KV (replicate n (Serve 0)) [s] st = Some ([s'], st'))"

lemma alone_refl: "alone B W KV s st s st"
  unfolding alone_def by (intro exI[of _ 0]) simp

lemma alone_step:
  assumes "session_step B W KV s st = Some (s1, st1)" and "alone B W KV s1 st1 s' st'"
  shows "alone B W KV s st s' st'"
proof -
  from assms(2) obtain n where "serve B W KV (replicate n (Serve 0)) [s1] st1 = Some ([s'], st')"
    unfolding alone_def by blast
  with assms(1) have "serve B W KV (replicate (Suc n) (Serve 0)) [s] st = Some ([s'], st')" by simp
  then show ?thesis unfolding alone_def by blast
qed

lemma alone_trans: "alone B W KV s st s1 st1 \<Longrightarrow> alone B W KV s1 st1 s2 st2 \<Longrightarrow> alone B W KV s st s2 st2"
proof -
  assume "alone B W KV s st s1 st1" and b: "alone B W KV s1 st1 s2 st2"
  then obtain n where "serve B W KV (replicate n (Serve 0)) [s] st = Some ([s1], st1)" unfolding alone_def by blast
  moreover obtain m where "serve B W KV (replicate m (Serve 0)) [s1] st1 = Some ([s2], st2)" using b unfolding alone_def by blast
  ultimately have "serve B W KV (replicate (n + m) (Serve 0)) [s] st = Some ([s2], st2)"
    by (simp add: replicate_add serve_append)
  then show ?thesis unfolding alone_def by blast
qed

lemma deleting_alone:
  fixes KV :: "('st, 'e) kv_ops"
  shows "alone B W KV (Working (Deleting keys count) c) st
     (Working (Answered (and_then (join (kv_text KV) (fst (del_all B KV keys count st))) (\<lambda>n. Inr (Integer n)))) c)
     (snd (del_all B KV keys count st))"
proof (induction keys arbitrary: count st)
  case Nil
  show ?case by (rule alone_step[OF _ alone_refl]) simp
next
  case (Cons key keys)
  obtain r st1 where d: "kv_del KV key st = (r, st1)" by fastforce
  show ?case
  proof (cases r)
    case (Inl e)
    with d show ?thesis by (intro alone_step[OF _ alone_refl]) (cases e; simp)
  next
    case (Inr removed)
    show ?thesis
    proof (cases "i64_arith B (count + 1) :: ('e, int) result")
      case (Inl e)
      with d \<open>r = Inr removed\<close> Cons.IH[of count st1] show ?thesis
        by (cases removed; cases e) (auto intro: alone_step alone_refl)
    next
      case (Inr n)
      with d \<open>r = Inr removed\<close> Cons.IH[of count st1] Cons.IH[of n st1] show ?thesis
        by (cases removed) (auto intro: alone_step)
    qed
  qed
qed

lemma command_alone:
  assumes "run_blocking B KV cmd st = Some (r, st')"
  shows "alone B W KV (Working (Submitted cmd) c) st (Working (Answered r) c) st'"
proof (cases cmd)
  case (Del keys)
  show ?thesis
    by (rule alone_step[where ?s1.0 = "Working (Deleting keys 0) c" and ?st1.0 = st])
      (use assms Del deleting_alone[of B W KV keys 0 c st] in \<open>simp_all add: split_def Let_def\<close>)
qed (use assms in \<open>auto simp: split_def Let_def intro!: alone_step[OF _ alone_refl]\<close>)

lemma session_alone:
  assumes "handler_run B W KV rounds h = Some (r, h')" and "rounds = None" and "\<not> shutdown h"
  shows "alone B W KV (Awaiting (conn h)) (storage h) (Done r (conn h')) (storage h')"
proof -
  have "rounds = None \<longrightarrow> \<not> shutdown h \<longrightarrow>
      alone B W KV (Awaiting (conn h)) (storage h) (Done (fst x) (conn (snd x))) (storage (snd x))"
    if "handler_run B W KV rounds h = Some x" for x
    using that
  proof (induction rule: handler_run.raw_induct[rotated, consumes 1, case_names run])
    case (run run B W KV rounds h x)
    show ?case
    proof (intro impI)
      assume n: "rounds = None" "\<not> shutdown h"
      with run(2) obtain rd c where rd: "read_frame W B (conn h) = Some (rd, c)" by (auto split: bind_splits)
      note body = run(2)[simplified n rd, simplified]
      show "alone B W KV (Awaiting (conn h)) (storage h) (Done (fst x) (conn (snd x))) (storage (snd x))"
      proof (cases "\<exists>frame cmd. rd = Inr (Some frame) \<and> command_try_from frame = Inr cmd")
        case False
        with body rd show ?thesis
          by (intro alone_step[OF _ alone_refl]) (auto split: sum.splits option.splits)
      next
        case True
        then obtain frame cmd where f: "rd = Inr (Some frame)" "command_try_from frame = Inr cmd" by blast
        from body f obtain r0 st0 where b: "run_blocking B KV cmd (storage h) = Some (r0, st0)"
          by (auto simp: command_apply_def split: bind_splits)
        have start: "alone B W KV (Awaiting (conn h)) (storage h) (Working (Answered r0) c) st0"
          by (rule alone_step[where ?s1.0 = "Working (Submitted cmd) c" and ?st1.0 = "storage h"])
            (use rd f command_alone[OF b] in simp_all)
        show ?thesis
        proof (cases r0)
          case (Inl e)
          with body f b have "x = (Inl e, h\<lparr>storage := st0, conn := c\<rparr>)" by (simp add: command_apply_def)
          with Inl show ?thesis by (intro alone_trans[OF start]) (simp add: alone_step[OF _ alone_refl])
        next
          case (Inr response)
          obtain w c1 where w: "write_frame W response c = (w, c1)" by fastforce
          show ?thesis
          proof (cases w)
            case (Inl e)
            with body f b w \<open>r0 = Inr response\<close> have "x = (Inl e, h\<lparr>storage := st0, conn := c1\<rparr>)"
              by (simp add: command_apply_def)
            with Inl w \<open>r0 = Inr response\<close> show ?thesis
              by (intro alone_trans[OF start]) (simp add: alone_step[OF _ alone_refl])
          next
            case (Inr u)
            let ?h = "h\<lparr>storage := st0, conn := c1\<rparr>"
            from body f b w \<open>r0 = Inr response\<close> Inr have "run B W KV None ?h = Some x"
              by (simp add: command_apply_def)
            from run(1)[OF this] n have "alone B W KV (Awaiting c1) st0 (Done (fst x) (conn (snd x))) (storage (snd x))" by simp
            moreover have "session_step B W KV (Working (Answered r0) c) st0 = Some (Awaiting c1, st0)"
              using w \<open>r0 = Inr response\<close> Inr by simp
            ultimately show ?thesis by (blast intro: alone_trans[OF start] alone_step)
          qed
        qed
      qed
    qed
  qed
  with assms show ?thesis by fastforce
qed

end
