(* ===== verification/ManyServed.thy ===== *)
theory ManyServed
  imports ManyClients
begin

section \<open>What the clients of a shared engine are told\<close>

text \<open>
  The operations on the engine, of all connections, in the order they were made, are a log. What
  connection \<open>i\<close> is told is determined by its own part of the log and by what each operation in
  it saw in the store.
\<close>

fun session_event :: "'s session \<Rightarrow> kv_event list" where
  "session_event (Working j c) = job_event j"
| "session_event s = []"

fun step_log :: "serve_event \<Rightarrow> 's session list \<Rightarrow> (nat \<times> kv_event) list" where
  "step_log (Serve i) ss = map (Pair i) (session_event (ss ! i))"
| "step_log (Signal i) ss = []"

fun serve_log ::
    "build \<Rightarrow> 's stream_ops \<Rightarrow> ('st, 'e) kv_ops \<Rightarrow> serve_event list \<Rightarrow> 's session list \<Rightarrow> 'st \<Rightarrow> (nat \<times> kv_event) list" where
  "serve_log B W KV [] ss st = []"
| "serve_log B W KV (ev # evs) ss st =
     (case serve_step B W KV ev ss st of
        None \<Rightarrow> []
      | Some (ss', st') \<Rightarrow> step_log ev ss @ serve_log B W KV evs ss' st')"

fun seen :: "nat \<Rightarrow> (nat \<times> kv_event) list \<Rightarrow> store \<Rightarrow> (kv_event \<times> bytes option) list" where
  "seen i [] m = []"
| "seen i ((j, e) # log) m = (if j = i then [(e, m (event_key e))] else []) @ seen i log (kv_effect e m)"

text \<open>The operations of a command and its answer, given what they saw.\<close>

fun events_of :: "command \<Rightarrow> kv_event list" where
  "events_of (Del keys) = map Removed keys"
| "events_of (Get key) = [Looked key]"
| "events_of (Set key val) = [Stored key val]"

fun answer :: "command \<Rightarrow> bytes option list \<Rightarrow> frame" where
  "answer (Del keys) vs = Integer (int (length (filter (\<lambda>v. v \<noteq> None) vs)))"
| "answer (Get key) vs = (case vs of Some val # _ \<Rightarrow> BulkString val | _ \<Rightarrow> Null)"
| "answer (Set key val) vs = SimpleString (ascii ''OK'')"

fun answers :: "command list \<Rightarrow> bytes option list \<Rightarrow> frame list" where
  "answers [] vs = []"
| "answers (c # cs) vs =
     answer c (take (length (events_of c)) vs) # answers cs (drop (length (events_of c)) vs)"

lemma seen_append: "seen i (xs @ ys) m = seen i xs m @ seen i ys (fold kv_effect (map snd xs) m)"
  by (induction i xs m rule: seen.induct) simp_all

lemma seen_step:
  "length es \<le> 1 \<Longrightarrow> seen i (map (Pair j) es) m = (if j = i then map (\<lambda>e. (e, m (event_key e))) es else [])"
  by (cases es) auto

lemma seen_absent: "\<forall>x \<in> set log. fst x \<noteq> i \<Longrightarrow> seen i log m = []"
  by (induction i log m rule: seen.induct) auto

lemma serve_step_length: "serve_step B W KV ev ss st = Some (ss', st') \<Longrightarrow> length ss' = length ss"
  by (cases ev) (auto split: if_splits session.splits)

lemma serve_length: "serve B W KV evs ss st = Some (ss', st') \<Longrightarrow> length ss' = length ss"
  by (induction evs arbitrary: ss st) (auto split: bind_splits dest!: serve_step_length)

lemma job_event_short: "length (job_event j) \<le> 1"
  by (cases j rule: job_event.cases) simp_all

lemma answers_append:
  "length vs = length (concat (map events_of cs)) \<Longrightarrow> answers (cs @ [c]) (vs @ ws) = answers cs vs @ [answer c (take (length (events_of c)) ws)]"
proof (induction cs arbitrary: vs)
  case (Cons d cs)
  then have "length (events_of d) \<le> length vs" "length (drop (length (events_of d)) vs) = length (concat (map events_of cs))"
    by simp_all
  with Cons.IH[of "drop (length (events_of d)) vs"] show ?case by simp
qed simp

lemma answer_flat: "flat (answer c vs)"
  by (cases c) (auto split: list.split option.split)

subsection \<open>The invariant of a session\<close>

text \<open>
  \<open>caught_up n\<close>: the first \<open>n\<close> commands are done and answered, \<open>xs\<close> being what their operations
  saw. \<open>input_left n\<close>: the others are still to be read.
\<close>

definition caught_up ::
    "('s \<Rightarrow> bytes) \<Rightarrow> ('s \<Rightarrow> bytes) \<Rightarrow> command list \<Rightarrow> bytes \<Rightarrow> nat \<Rightarrow> (kv_event \<times> bytes option) list \<Rightarrow> 's connection \<Rightarrow> bool" where
  "caught_up queued wire cs w0 n xs c \<longleftrightarrow>
     n \<le> length cs \<and> map fst xs = concat (map events_of (take n cs)) \<and>
     wire (stream c) = w0 @ concat (map encode (answers (take n cs) (map snd xs))) \<and>
     queued (stream c) = wire (stream c)"

definition input_left :: "('s \<Rightarrow> bytes list) \<Rightarrow> command list \<Rightarrow> nat \<Rightarrow> 's connection \<Rightarrow> bool" where
  "input_left incoming cs n c \<longleftrightarrow>
     buffer c @ concat (incoming (stream c)) = requests (drop n cs) \<and> safe_splits (buffer c) (incoming (stream c))"

text \<open>How far a command is, given what its operations saw.\<close>

fun job_ok :: "build \<Rightarrow> command \<Rightarrow> (kv_event \<times> bytes option) list \<Rightarrow> job \<Rightarrow> bool" where
  "job_ok B c zs (Submitted d) \<longleftrightarrow> d = c \<and> zs = []"
| "job_ok B c zs (Deleting rest count) \<longleftrightarrow>
     (\<exists>keys. c = Del (keys @ rest) \<and> map fst zs = map Removed keys \<and>
        count = int (length (filter (\<lambda>v. v \<noteq> None) (map snd zs))))"
| "job_ok B c zs (Answered (Inr f)) \<longleftrightarrow>
     map fst zs = events_of c \<and> f = answer c (map snd zs) \<and> frame_ok f \<and> frame_fits B f"
| "job_ok B c zs (Answered (Inl e)) \<longleftrightarrow> False"

fun session_ok ::
    "('s \<Rightarrow> bytes) \<Rightarrow> ('s \<Rightarrow> bytes) \<Rightarrow> ('s \<Rightarrow> bytes list) \<Rightarrow> build \<Rightarrow> bool \<Rightarrow> command list \<Rightarrow> bytes \<Rightarrow>
     (kv_event \<times> bytes option) list \<Rightarrow> 's session \<Rightarrow> bool" where
  "session_ok queued wire incoming B stop cs w0 xs (Awaiting c) \<longleftrightarrow>
     (\<exists>n. caught_up queued wire cs w0 n xs c \<and> input_left incoming cs n c)"
| "session_ok queued wire incoming B stop cs w0 xs (Working j c) \<longleftrightarrow>
     (\<exists>n ys zs. n < length cs \<and> xs = ys @ zs \<and> caught_up queued wire cs w0 n ys c \<and>
        input_left incoming cs (Suc n) c \<and> job_ok B (cs ! n) zs j)"
| "session_ok queued wire incoming B stop cs w0 xs (Done r c) \<longleftrightarrow>
     failed r \<or> r = Inr () \<and> (\<exists>n. caught_up queued wire cs w0 n xs c \<and> (stop \<or> n = length cs))"

text \<open>An error of the engine, which its promises say nothing about; it stays.\<close>

fun engine_error :: "net_error \<Rightarrow> bool" where
  "engine_error (Storage t) \<longleftrightarrow> True"
| "engine_error AsyncTask \<longleftrightarrow> True"
| "engine_error e \<longleftrightarrow> False"

fun engine_failed :: "'s session \<Rightarrow> bool" where
  "engine_failed (Working (Answered (Inl (Err e))) c) \<longleftrightarrow> engine_error e"
| "engine_failed (Done (Inl (Err e)) c) \<longleftrightarrow> engine_error e"
| "engine_failed s \<longleftrightarrow> False"

lemma engine_failed_step:
  "session_step B W KV s st = Some (s', st') \<Longrightarrow> engine_failed s \<Longrightarrow> engine_failed s'"
  by (cases s rule: engine_failed.cases) auto

lemma engine_failed_serve_step:
  assumes "serve_step B W KV ev ss st = Some (ss', st')" and "\<not> list_ex engine_failed ss'"
  shows "\<not> list_ex engine_failed ss"
proof -
  obtain i where i: "ev = Serve i \<or> ev = Signal i" by (cases ev) auto
  with assms(1) have len: "i < length ss" "length ss' = length ss" and other: "\<And>j. j \<noteq> i \<Longrightarrow> ss' ! j = ss ! j"
    by (auto split: if_splits session.splits)
  have "\<not> engine_failed (ss ! i)"
  proof
    assume f: "engine_failed (ss ! i)"
    with i assms(1) engine_failed_step[OF _ f] len have "engine_failed (ss' ! i)" by (auto split: if_splits session.splits)
    with assms(2) len show False by (auto simp: list_ex_length)
  qed
  with assms(2) len other show ?thesis by (metis list_ex_length)
qed

lemma engine_failed_serve:
  "serve B W KV evs ss st = Some (ss', st') \<Longrightarrow> \<not> list_ex engine_failed ss' \<Longrightarrow> \<not> list_ex engine_failed ss"
proof (induction evs arbitrary: ss st)
  case (Cons ev evs)
  from Cons.prems(1) obtain ss1 st1 where "serve_step B W KV ev ss st = Some (ss1, st1)" "serve B W KV evs ss1 st1 = Some (ss', st')"
    by (auto split: bind_splits)
  with Cons engine_failed_serve_step show ?case by metis
qed simp

text \<open>What a session that is between two commands, or done, has told its client.\<close>

lemma session_told:
  assumes "session_ok queued wire incoming B stop cs w0 xs s" and "\<not> engine_failed s"
  shows "(s = Awaiting c \<or> s = Done (Inr ()) c \<longrightarrow>
      (\<exists>n \<le> length cs. map fst xs = concat (map events_of (take n cs)) \<and>
         wire (stream c) = w0 @ concat (map encode (answers (take n cs) (map snd xs))) \<and>
         (s = Awaiting c \<or> stop \<or> n = length cs))) \<and>
    (\<forall>e. s = Done (Inl e) c \<longrightarrow> (\<exists>x. e = Err (Io x)))"
proof (cases s)
  case (Done r d)
  show ?thesis
  proof (cases r)
    case (Inl e)
    with assms Done show ?thesis by (cases e) (auto simp: failed_def split: net_error.splits)
  next
    case (Inr u)
    with assms Done show ?thesis by (auto simp: caught_up_def)
  qed
qed (use assms in \<open>auto simp: caught_up_def\<close>)

lemma job_step_failed:
  assumes "job_step B KV j st = Some (j', st')" and "no_error j" and "\<not> no_error j'"
  shows "engine_failed (Working j' c)"
proof -
  obtain e where j': "j' = Answered (Inl e)" using assms(3) by (cases j' rule: no_error.cases) auto
  have "(\<exists>t. e = Err (Storage t)) \<or> e = Err AsyncTask"
    using assms j' by (cases "(B, KV, j, st)" rule: job_step.cases)
      (auto simp: res_simps split: prod.splits sum.splits if_splits dest: join_Err elim!: join.elims)
  with j' show ?thesis by auto
qed

text \<open>A step of a command.\<close>

lemma job_ok_fits:
  assumes "job_ok B c zs j" and "command_fits B c"
  shows "job_fits j"
proof (cases j)
  case (Submitted d)
  with assms length_keys_fits show ?thesis by (cases d) (auto simp: command_fits_def simp del: frame_from.simps frame_fits.simps)
next
  case (Deleting rest count)
  with assms obtain keys where c: "c = Del (keys @ rest)" and z: "map fst zs = map Removed keys"
    and n: "count = int (length (filter (\<lambda>v. v \<noteq> None) (map snd zs)))" and fits: "frame_fits B (frame_from c)"
    by (auto simp: command_fits_def)
  have "length zs = length keys" using z by (metis length_map)
  then have "length (filter (\<lambda>v. v \<noteq> None) (map snd zs)) \<le> length keys" by (metis length_filter_le length_map)
  moreover have "length (keys @ rest) < 2 ^ 63" using length_keys_fits fits c by blast
  ultimately show ?thesis using Deleting n by simp
qed simp

lemma job_ok_next:
  assumes "job_ok B c zs j" and "command_fits B c" and "store_fits m"
  shows "job_ok B c (zs @ map (\<lambda>e. (e, m (event_key e))) (job_event j)) (job_next j (job_sees j m))"
proof (cases j)
  case (Submitted d)
  show ?thesis
  proof (cases d)
    case (Get key)
    have "in_i64 (int (length v))" if "m key = Some v" for v using assms(3) that by (auto simp: store_fits_def ran_def)
    with assms Submitted Get show ?thesis by (auto simp: job_sees_def split: option.split)
  next
    case (Set key val)
    have "valid_utf8 (ascii ''OK'')" by (rule valid_utf8_ascii) (simp add: ascii_def)
    then have "frame_ok (SimpleString (ascii ''OK''))" by (simp add: line_string_def) (simp add: ascii_def)
    with assms Submitted Set show ?thesis by auto
  qed (use assms Submitted in auto)
next
  case (Deleting rest count)
  with assms(1) obtain keys where keys: "c = Del (keys @ rest)" "map fst zs = map Removed keys"
    "count = int (length (filter (\<lambda>v. v \<noteq> None) (map snd zs)))" by auto
  show ?thesis
  proof (cases rest)
    case Nil
    have "0 \<le> count \<and> count < 2 ^ 63" using job_ok_fits[OF assms(1,2)] Deleting Nil by simp
    with keys Deleting Nil show ?thesis by (simp add: in_i64_def)
  next
    case (Cons key rest')
    with keys Deleting show ?thesis
      by (auto simp: job_sees_def intro!: exI[of _ "keys @ [key]"])
  qed
next
  case (Answered r)
  with assms show ?thesis by (cases r) auto
qed

lemma store_fits_event:
  assumes "job_ok B c zs j" and "command_fits B c" and "store_fits m"
  shows "store_fits (fold kv_effect (job_event j) m)"
proof (cases j rule: job_event.cases)
  case (2 key val)
  then have "store_fits (effect (Set key val) m)"
    using assms by (intro store_fits_effect) (auto simp: command_fits_def)
  with 2 show ?thesis by simp
next
  case (3 key keys count)
  have "ran (m(key := None)) \<subseteq> ran m" by (auto simp: ran_def)
  with 3 assms(3) show ?thesis by (auto simp: store_fits_def)
qed (use assms in auto)

context serving
begin

abbreviation ok :: "build \<Rightarrow> bool \<Rightarrow> command list \<Rightarrow> bytes \<Rightarrow> (kv_event \<times> bytes option) list \<Rightarrow> 's session \<Rightarrow> bool" where
  "ok \<equiv> session_ok queued wire incoming"

text \<open>A handler that waits reads its next command, or finds the end.\<close>

lemma awaiting_step:
  assumes rel: "\<not> overflow_checks B" and cs: "list_all (command_fits B) cs"
    and s: "ok B stop cs w0 xs (Awaiting c)" and step: "session_step B W KV (Awaiting c) st = Some (s', st')"
  shows "st' = st \<and> ok B stop cs w0 xs s'"
proof -
  from s obtain n where n: "caught_up queued wire cs w0 n xs c" "input_left incoming cs n c" by auto
  show ?thesis
  proof (cases "n < length cs")
    case True
    then have d: "drop n cs = cs ! n # drop (Suc n) cs" by (simp add: Cons_nth_drop_Suc)
    have fits: "command_fits B (cs ! n)" using cs True by (simp add: list_all_length)
    have "buffer c @ concat (incoming (stream c)) = encode (frame_from (cs ! n)) @ requests (drop (Suc n) cs)"
      using n(2) by (simp add: input_left_def d requests_def)
    from read_command[OF rel fits this] n(2) obtain c' where
      rd: "read_frame W B c = Some (Inr (Some (frame_from (cs ! n))), c')"
      and c': "input_left incoming cs (Suc n) c'" "queued (stream c') = queued (stream c)" "wire (stream c') = wire (stream c)"
      unfolding input_left_def by metis
    have "command_try_from (frame_from (cs ! n)) = Inr (cs ! n)" using fits by (simp add: command_try_from_iff command_fits_def)
    with step rd have "s' = Working (Submitted (cs ! n)) c'" "st' = st" by simp_all
    moreover have "caught_up queued wire cs w0 n xs c'" using n(1) c' by (simp add: caught_up_def)
    ultimately show ?thesis using True c' by simp blast
  next
    case False
    then have "buffer c @ concat (incoming (stream c)) = []" using n(2) by (simp add: input_left_def requests_def)
    from read_closed[OF this, of B] obtain c' where "read_frame W B c = Some (Inr None, c')"
      "queued (stream c') = queued (stream c)" "wire (stream c') = wire (stream c)" by metis
    moreover have "n = length cs" using False n(1) by (simp add: caught_up_def)
    ultimately show ?thesis using step n(1) by (auto simp: caught_up_def intro!: exI[of _ n])
  qed
qed

text \<open>A handler writes a reply.\<close>

lemma responding_step:
  assumes cs: "list_all (command_fits B) cs" and s: "ok B stop cs w0 xs (Working (Answered (Inr f)) c)"
    and step: "session_step B W KV (Working (Answered (Inr f)) c) st = Some (s', st')"
  shows "st' = st \<and> ok B stop cs w0 xs s'"
proof -
  from s obtain n ys zs where n: "n < length cs" "xs = ys @ zs" "caught_up queued wire cs w0 n ys c"
    "input_left incoming cs (Suc n) c" and j: "map fst zs = events_of (cs ! n)" "f = answer (cs ! n) (map snd zs)" "frame_ok f" "frame_fits B f"
    by auto
  obtain r c' where w: "write_frame W f c = (r, c')" by fastforce
  have keeps: "incoming (stream c') = incoming (stream c)" "buffer c' = buffer c"
    using write_frame_keeps[of f c] write_frame_buffer[of W f c] w by simp_all
  show ?thesis
  proof (cases r)
    case (Inl e)
    have "fst (write_frame W f c) \<noteq> Inl Panic"
      using write_flat_no_panic[of W f c] io_returns answer_flat[of "cs ! n"] j(2) by blast
    with Inl w write_frame_error[of W f c] step show ?thesis by (cases e) auto
  next
    case (Inr u)
    from write_frame_wire[OF _ j(3,4), of c u c'] w Inr
    have q: "wire (stream c') = queued (stream c) @ encode f" "queued (stream c') = wire (stream c')" by simp_all
    have "length (map snd ys) = length (concat (map events_of (take n cs)))"
      using n(3) by (metis caught_up_def length_map)
    from answers_append[OF this, of "cs ! n" "map snd zs"] j(1)
    have a: "answers (take (Suc n) cs) (map snd xs) = answers (take n cs) (map snd ys) @ [f]"
      using n(1,2) j(2) by (metis length_map map_append take_Suc_conv_app_nth take_all order_refl)
    have "caught_up queued wire cs w0 (Suc n) xs c'"
      using n j(1) q a by (simp add: caught_up_def take_Suc_conv_app_nth)
    moreover have "input_left incoming cs (Suc n) c'" using n(4) keeps by (simp add: input_left_def)
    ultimately show ?thesis using step w Inr by auto
  qed
qed

text \<open>A handler makes one operation of its command.\<close>

lemma working_step:
  assumes cs: "list_all (command_fits B) cs" and st: "inv st" "store_fits (abs st)"
    and s: "ok B stop cs w0 xs (Working j c)" and j: "no_error j"
    and step: "job_step B KV j st = Some (j', st')" and fine: "\<not> engine_failed (Working j' c)"
  shows "inv st' \<and> abs st' = fold kv_effect (job_event j) (abs st) \<and> store_fits (abs st') \<and>
    ok B stop cs w0 (xs @ map (\<lambda>e. (e, abs st (event_key e))) (job_event j)) (Working j' c)"
proof -
  from s obtain n ys zs where n: "n < length cs" "xs = ys @ zs" "caught_up queued wire cs w0 n ys c"
    "input_left incoming cs (Suc n) c" and ok: "job_ok B (cs ! n) zs j" by auto
  have fits: "command_fits B (cs ! n)" using cs n(1) by (simp add: list_all_length)
  have "no_error j'" using job_step_failed[OF step j] fine by blast
  from job_step_next[OF st(1) job_ok_fits[OF ok fits] step this]
  have j': "inv st'" "abs st' = fold kv_effect (job_event j) (abs st)" "j' = job_next j (job_sees j (abs st))" by auto
  from job_ok_next[OF ok fits st(2)] n have
    "ok B stop cs w0 (xs @ map (\<lambda>e. (e, abs st (event_key e))) (job_event j)) (Working j' c)"
    unfolding j'(3) session_ok.simps
    by (intro exI[of _ n] exI[of _ ys] exI[of _ "zs @ map (\<lambda>e. (e, abs st (event_key e))) (job_event j)"]) simp
  with j' store_fits_event[OF ok fits st(2)] show ?thesis by simp
qed

lemma session_step_ok:
  assumes rel: "\<not> overflow_checks B" and cs: "list_all (command_fits B) cs" and st: "inv st" "store_fits (abs st)"
    and s: "ok B stop cs w0 xs s" and step: "session_step B W KV s st = Some (s', st')" and fine: "\<not> engine_failed s'"
  shows "inv st' \<and> abs st' = fold kv_effect (session_event s) (abs st) \<and> store_fits (abs st') \<and>
    ok B stop cs w0 (xs @ map (\<lambda>e. (e, abs st (event_key e))) (session_event s)) s'"
proof (cases s)
  case (Awaiting c)
  with awaiting_step[OF rel cs s[unfolded Awaiting] step[unfolded Awaiting]] st show ?thesis by simp
next
  case (Working j c)
  show ?thesis
  proof (cases "\<exists>r. j = Answered r")
    case True
    then obtain r where r: "j = Answered r" by blast
    with s Working obtain f where f: "r = Inr f" by (cases r) auto
    with responding_step[OF cs, of stop w0 xs f c st s' st'] s step Working r st show ?thesis by simp
  next
    case False
    then have "no_error j" by (cases j) auto
    from step Working False obtain j' st1 where j': "job_step B KV j st = Some (j', st1)" and s': "s' = Working j' c" "st' = st1"
      by (cases j) auto
    from working_step[OF cs st s[unfolded Working] \<open>no_error j\<close> j'] fine
    show ?thesis unfolding s' Working session_event.simps by blast
  qed
qed (use step in simp)

text \<open>All connections, for any schedule.\<close>

definition all_ok :: "build \<Rightarrow> (nat \<Rightarrow> bool) \<Rightarrow> command list list \<Rightarrow> bytes list \<Rightarrow> store \<Rightarrow> (nat \<times> kv_event) list \<Rightarrow> 's session list \<Rightarrow> bool" where
  "all_ok B stop css ws m log ss \<longleftrightarrow>
     length ss \<le> length css \<and> list_all (\<lambda>(i, e). i < length ss) log \<and>
     (\<forall>i < length ss. ok B (stop i) (css ! i) (ws ! i) (seen i log m) (ss ! i))"

lemma serve_step_ok:
  assumes rel: "\<not> overflow_checks B" and css: "list_all (list_all (command_fits B)) css"
    and st: "inv st" "store_fits (abs st)" "abs st = fold kv_effect (map snd log) m"
    and stop: "\<And>i. ev = Signal i \<Longrightarrow> stop i" and ok: "all_ok B stop css ws m log ss"
    and step: "serve_step B W KV ev ss st = Some (ss', st')" and fine: "\<not> list_ex engine_failed ss'"
  shows "inv st' \<and> store_fits (abs st') \<and> abs st' = fold kv_effect (map snd (log @ step_log ev ss)) m \<and>
    all_ok B stop css ws m (log @ step_log ev ss) ss'"
proof (cases ev)
  case (Serve i)
  with step obtain s where i: "i < length ss" and s: "session_step B W KV (ss ! i) st = Some (s, st')" "ss' = ss[i := s]"
    by (auto split: if_splits)
  have len: "length ss \<le> length css" "list_all (\<lambda>(i, e). i < length ss) log" using ok by (simp_all add: all_ok_def)
  have "\<not> engine_failed s" using fine s(2) i by (auto simp: list_ex_length)
  moreover have "ok B (stop i) (css ! i) (ws ! i) (seen i log m) (ss ! i)" using ok i by (simp add: all_ok_def)
  moreover have "list_all (command_fits B) (css ! i)" using css i len(1) by (simp add: list_all_length)
  ultimately have new: "inv st'" "abs st' = fold kv_effect (session_event (ss ! i)) (abs st)" "store_fits (abs st')"
    "ok B (stop i) (css ! i) (ws ! i) (seen i log m @ map (\<lambda>e. (e, abs st (event_key e))) (session_event (ss ! i))) s"
    using session_step_ok[OF rel _ st(1,2) _ s(1)] by blast+
  have short: "length (session_event (ss ! i)) \<le> 1" by (cases "ss ! i") (use job_event_short in simp_all)
  have "ok B (stop j) (css ! j) (ws ! j) (seen j (log @ step_log ev ss) m) (ss' ! j)" if "j < length ss" for j
    using that ok new(4) len i
    by (cases "j = i") (simp_all add: Serve s(2) seen_append seen_step[OF short] st(3)[symmetric] all_ok_def)
  moreover have "list_all (\<lambda>(j, e). j < length ss) (log @ step_log ev ss)" using len(2) i by (auto simp: list_all_iff Serve)
  ultimately show ?thesis using new st(3) len(1) by (simp add: all_ok_def Serve s(2) comp_def)
next
  case (Signal i)
  with step obtain c where i: "i < length ss" and c: "ss ! i = Awaiting c" "ss' = ss[i := Done (Inr ()) c]" "st' = st"
    by (auto split: if_splits session.splits)
  have len: "length ss \<le> length css" "list_all (\<lambda>(i, e). i < length ss) log" using ok by (simp_all add: all_ok_def)
  have "ok B (stop i) (css ! i) (ws ! i) (seen i log m) (ss ! i)" using ok i by (simp add: all_ok_def)
  then have "ok B (stop i) (css ! i) (ws ! i) (seen i log m) (Done (Inr ()) c)" using c(1) stop[OF Signal] by auto
  then have "ok B (stop j) (css ! j) (ws ! j) (seen j log m) (ss' ! j)" if "j < length ss" for j
    using that ok len by (cases "j = i") (simp_all add: c(2) all_ok_def)
  with st len c show ?thesis by (simp add: all_ok_def Signal)
qed

text \<open>A new connection.\<close>

lemma all_ok_accept:
  assumes "all_ok B stop css ws m log ss" and "length ss < length css" and "input_left incoming (css ! length ss) 0 c"
    and "wire (stream c) = ws ! length ss" and "queued (stream c) = wire (stream c)"
  shows "all_ok B stop css ws m log (ss @ [Awaiting c])"
proof -
  have "seen (length ss) log m = []" using assms(1) by (intro seen_absent) (auto simp: all_ok_def list_all_iff)
  moreover have "caught_up queued wire (css ! length ss) (ws ! length ss) 0 [] c" using assms(4,5) by (simp add: caught_up_def)
  ultimately show ?thesis
    using assms(1-3) by (auto simp: all_ok_def nth_append less_Suc_eq list_all_iff)
qed

lemma serve_ok:
  assumes rel: "\<not> overflow_checks B" and css: "list_all (list_all (command_fits B)) css"
    and "inv st" and "store_fits (abs st)" and "abs st = fold kv_effect (map snd log) m" and "all_ok B stop css ws m log ss"
    and "\<And>i. Signal i \<in> set evs \<Longrightarrow> stop i" and "serve B W KV evs ss st = Some (ss', st')" and "\<not> list_ex engine_failed ss'"
  shows "inv st' \<and> abs st' = fold kv_effect (map snd (log @ serve_log B W KV evs ss st)) m \<and>
    all_ok B stop css ws m (log @ serve_log B W KV evs ss st) ss'"
  using assms(3-9)
proof (induction evs arbitrary: ss st log)
  case (Cons ev evs)
  from Cons.prems(6) obtain ss1 st1 where step: "serve_step B W KV ev ss st = Some (ss1, st1)"
    and rest: "serve B W KV evs ss1 st1 = Some (ss', st')" by (auto split: bind_splits)
  note fine = engine_failed_serve[OF rest Cons.prems(7)]
  from serve_step_ok[OF rel css Cons.prems(1-3) Cons.prems(5) Cons.prems(4) step fine] Cons.IH[OF _ _ _ _ _ rest Cons.prems(7), of "log @ step_log ev ss"] Cons.prems(5) step
  show ?case by auto
qed simp

end

end
