(* ===== verification/WholeServer.thy ===== *)
theory WholeServer
  imports ManyServed
begin

section \<open>The accept loop with its handlers (src/net/server.rs)\<close>

text \<open>
  \<open>Server::run\<close> with everything it starts: the loop that takes a permit and accepts a connection,
  the handlers of the connections accepted so far, each at its own place, the engine they share,
  and the end: no more connections, the signal to the handlers, waiting for all of them. An event
  is one step of one of these tasks. \<open>live\<close> says which handlers have not been dropped; those hold
  a permit and a sender of the shutdown-complete channel.
\<close>

record ('s, 'st) whole =
  slots :: nat
  stage :: phase
  sessions :: "'s session list"
  live :: "bool list"
  kv_state :: 'st

datatype 's whole_event =
    Acquire
  | Accepted 's
  | Refused
  | Interrupt
  | Run nat
  | Notified nat
  | Dropped nat
  | Quit

fun is_done :: "'s session \<Rightarrow> bool" where
  "is_done (Done r c) \<longleftrightarrow> True"
| "is_done s \<longleftrightarrow> False"

definition is_live :: "('s, 'st) whole \<Rightarrow> nat \<Rightarrow> bool" where
  "is_live w i \<longleftrightarrow> i < length (live w) \<and> live w ! i"

definition handle_event ::
    "build \<Rightarrow> 's stream_ops \<Rightarrow> ('st, 'e) kv_ops \<Rightarrow> serve_event \<Rightarrow> ('s, 'st) whole \<Rightarrow> ('s, 'st) whole option" where
  "handle_event B W KV ev w =
     map_option (\<lambda>(ss, st). w\<lparr>sessions := ss, kv_state := st\<rparr>) (serve_step B W KV ev (sessions w) (kv_state w))"

text \<open>\<open>Drop\<close> of a handler, which gives its permit back.\<close>

definition handler_drop :: "nat \<Rightarrow> ('s, 'st) whole \<Rightarrow> ('s, 'st) whole" where
  [simp]: "handler_drop i w = w\<lparr>slots := slots w + 1, live := (live w)[i := False]\<rparr>"

fun whole_step ::
    "server_config \<Rightarrow> build \<Rightarrow> 's stream_ops \<Rightarrow> ('st, 'e) kv_ops \<Rightarrow> 's whole_event \<Rightarrow> ('s, 'st) whole \<Rightarrow>
     ('s, 'st) whole option" where
  "whole_step conf B W KV Acquire w =
     (if stage w = Acquiring \<and> 0 < slots w
      then Some (w\<lparr>slots := slots w - 1, stage := Accepting (min_backoff_ms conf)\<rparr>) else None)"
| "whole_step conf B W KV (Accepted socket) w =
     (case stage w of
        Accepting b \<Rightarrow> Some (w\<lparr>stage := Acquiring, sessions := sessions w @ [Awaiting (connection_new socket)],
                              live := live w @ [True]\<rparr>)
      | _ \<Rightarrow> None)"
| "whole_step conf B W KV Refused w =
     (case stage w of
        Accepting b \<Rightarrow> Some (w\<lparr>stage := (if max_backoff_ms conf < b then Draining else Accepting (b * 2 mod 2 ^ 64))\<rparr>)
      | _ \<Rightarrow> None)"
| "whole_step conf B W KV Interrupt w =
     (case stage w of
        Acquiring \<Rightarrow> Some (w\<lparr>stage := Draining\<rparr>)
      | Accepting b \<Rightarrow> Some (w\<lparr>stage := Draining\<rparr>)
      | _ \<Rightarrow> None)"
| "whole_step conf B W KV (Run i) w = (if is_live w i then handle_event B W KV (Serve i) w else None)"
| "whole_step conf B W KV (Notified i) w =
     (if stage w = Draining \<and> is_live w i then handle_event B W KV (Signal i) w else None)"
| "whole_step conf B W KV (Dropped i) w =
     (if is_live w i \<and> is_done (sessions w ! i) then Some (handler_drop i w) else None)"
| "whole_step conf B W KV Quit w =
     (if stage w = Draining \<and> True \<notin> set (live w) then Some (w\<lparr>stage := Exited\<rparr>) else None)"

definition whole_start :: "server_config \<Rightarrow> 'st \<Rightarrow> ('s, 'st) whole" where
  "whole_start conf st =
     \<lparr>slots = max_connections conf, stage = Acquiring, sessions = [], live = [], kv_state = st\<rparr>"

fun whole_run ::
    "server_config \<Rightarrow> build \<Rightarrow> 's stream_ops \<Rightarrow> ('st, 'e) kv_ops \<Rightarrow> 's whole_event list \<Rightarrow> ('s, 'st) whole \<Rightarrow>
     ('s, 'st) whole option" where
  "whole_run conf B W KV [] w = Some w"
| "whole_run conf B W KV (ev # evs) w = Option.bind (whole_step conf B W KV ev w) (whole_run conf B W KV evs)"

lemma whole_run_append:
  "whole_run conf B W KV (xs @ ys) w = Option.bind (whole_run conf B W KV xs w) (whole_run conf B W KV ys)"
  by (induction xs arbitrary: w) (auto split: bind_splits)

subsection \<open>It refines the accept loop on its own\<close>

text \<open>What \<open>server_step\<close> sees: how many handlers there are, not what they do.\<close>

definition outline :: "('s, 'st) whole \<Rightarrow> server" where
  "outline w = \<lparr>permits = slots w, phase = stage w, handlers = length (filter id (live w))\<rparr>"

lemma length_filter_drop:
  "i < length bs \<Longrightarrow> bs ! i \<Longrightarrow> length (filter id bs) = Suc (length (filter id (bs[i := False])))"
  by (induction bs arbitrary: i) (auto split: nat.splits)

lemma handle_event_outline: "handle_event B W KV ev w = Some w' \<Longrightarrow> outline w' = outline w"
  by (auto simp: handle_event_def outline_def)

lemma whole_step_outline:
  assumes "whole_step conf B W KV ev w = Some w'"
  shows "server_step conf (outline w) (outline w') \<or> outline w' = outline w"
proof (cases ev)
  case Acquire
  with assms show ?thesis
    using server_step.acquire[of "outline w" conf] by (auto simp: outline_def split: if_splits)
next
  case (Accepted socket)
  with assms show ?thesis
    using server_step.spawn[of "outline w"] by (auto simp: outline_def split: phase.splits)
next
  case Refused
  with assms show ?thesis
    using server_step.retry[of "outline w"] server_step.give_up[of "outline w"]
    by (auto simp: outline_def not_less split: phase.splits if_splits)
next
  case Interrupt
  with assms show ?thesis
    using server_step.shut[of "outline w"] by (auto simp: outline_def split: phase.splits)
next
  case (Dropped i)
  with assms have i: "i < length (live w)" "live w ! i" and w': "w' = w\<lparr>slots := slots w + 1, live := (live w)[i := False]\<rparr>"
    by (auto simp: is_live_def split: if_splits)
  from length_filter_drop[OF i] have n: "handlers (outline w) = Suc (length (filter id ((live w)[i := False])))"
    by (simp add: outline_def)
  then have "server_step conf (outline w)
      ((outline w)\<lparr>handlers := handlers (outline w) - 1, permits := permits (outline w) + 1\<rparr>)"
    by (intro server_step.drop_handler) simp
  moreover have "(outline w)\<lparr>handlers := handlers (outline w) - 1, permits := permits (outline w) + 1\<rparr> = outline w'"
    using n by (simp add: outline_def w')
  ultimately show ?thesis by simp
next
  case Quit
  have "filter id (live w) = []" if "True \<notin> set (live w)" using that by (auto simp: filter_empty_conv)
  with Quit assms show ?thesis
    using server_step.exit[of "outline w" conf] by (auto simp: outline_def split: if_splits)
qed (use assms in \<open>auto dest: handle_event_outline split: if_splits\<close>)

lemma whole_run_outline: "whole_run conf B W KV evs w = Some w' \<Longrightarrow> server_steps conf (outline w) (outline w')"
proof (induction evs arbitrary: w)
  case (Cons ev evs)
  from Cons.prems obtain w1 where "whole_step conf B W KV ev w = Some w1" "whole_run conf B W KV evs w1 = Some w'"
    by (auto split: bind_splits)
  with whole_step_outline Cons.IH show ?case
    unfolding server_steps_def by (metis converse_rtranclp_into_rtranclp)
qed (simp add: server_steps_def)

lemma outline_start: "outline (whole_start conf st) = server_new conf"
  by (simp add: outline_def whole_start_def server_new_def)

text \<open>Every handler has a session.\<close>

lemma handle_event_length:
  "handle_event B W KV ev w = Some w' \<Longrightarrow>
   length (sessions w') = length (sessions w) \<and> live w' = live w \<and> stage w' = stage w \<and> slots w' = slots w"
  by (auto simp: handle_event_def dest: serve_step_length)

lemma whole_step_length:
  "whole_step conf B W KV ev w = Some w' \<Longrightarrow> length (live w) = length (sessions w) \<Longrightarrow> length (live w') = length (sessions w')"
  by (cases ev) (auto split: if_splits phase.splits dest: handle_event_length)

lemma whole_run_length:
  "whole_run conf B W KV evs w = Some w' \<Longrightarrow> length (live w) = length (sessions w) \<Longrightarrow> length (live w') = length (sessions w')"
  by (induction evs arbitrary: w) (auto split: bind_splits dest: whole_step_length)

text \<open>A handler is told to stop only when the server has stopped listening.\<close>

lemma stage_stopped:
  assumes "whole_run conf B W KV evs w = Some w'" and "\<not> running (outline w)"
  shows "\<not> running (outline w')"
  using whole_run_outline[OF assms(1)] assms(2) unfolding server_steps_def
  by (induction rule: rtranclp_induct) (auto dest: stopped_step)

lemma notified_stopped:
  "whole_run conf B W KV evs w = Some w' \<Longrightarrow> Notified i \<in> set evs \<Longrightarrow> \<not> running (outline w')"
proof (induction evs arbitrary: w)
  case (Cons ev evs)
  from Cons.prems obtain w1 where w1: "whole_step conf B W KV ev w = Some w1" "whole_run conf B W KV evs w1 = Some w'"
    by (auto split: bind_splits)
  show ?case
  proof (cases "ev = Notified i")
    case True
    with w1(1) have "stage w1 = Draining" by (auto split: if_splits dest: handle_event_length)
    then have "\<not> running (outline w1)" by (simp add: running_def outline_def)
    with w1(2) show ?thesis by (rule stage_stopped)
  qed (use Cons w1 in auto)
qed simp

end
