(* ===== verification/WholeServed.thy ===== *)
theory WholeServed
  imports WholeServer
begin

section \<open>What the whole server promises\<close>

text \<open>
  Two things: every client is told what the one order of operations says, whenever its connection
  was accepted; and a server that stopped listening can always finish.
\<close>

subsection \<open>The log of a run\<close>

fun event_log :: "'s whole_event \<Rightarrow> ('s, 'st) whole \<Rightarrow> (nat \<times> kv_event) list" where
  "event_log (Run i) w = step_log (Serve i) (sessions w)"
| "event_log ev w = []"

fun whole_log ::
    "server_config \<Rightarrow> build \<Rightarrow> 's stream_ops \<Rightarrow> ('st, 'e) kv_ops \<Rightarrow> 's whole_event list \<Rightarrow> ('s, 'st) whole \<Rightarrow>
     (nat \<times> kv_event) list" where
  "whole_log conf B W KV [] w = []"
| "whole_log conf B W KV (ev # evs) w =
     (case whole_step conf B W KV ev w of
        None \<Rightarrow> []
      | Some w' \<Rightarrow> event_log ev w @ whole_log conf B W KV evs w')"

text \<open>The sockets that were accepted, in order.\<close>

fun sockets :: "'s whole_event list \<Rightarrow> 's list" where
  "sockets [] = []"
| "sockets (Accepted s # evs) = s # sockets evs"
| "sockets (ev # evs) = sockets evs"

lemma sessions_accepted:
  "whole_run conf B W KV evs w = Some w' \<Longrightarrow> length (sessions w') = length (sessions w) + length (sockets evs)"
proof (induction evs arbitrary: w)
  case (Cons ev evs)
  from Cons.prems obtain w1 where w1: "whole_step conf B W KV ev w = Some w1" "whole_run conf B W KV evs w1 = Some w'"
    by (auto split: bind_splits)
  have "length (sessions w1) = length (sessions w) + length (sockets [ev])"
    using w1(1) by (cases ev) (auto split: if_splits phase.splits dest: handle_event_length)
  moreover have "length (sockets (ev # evs)) = length (sockets [ev]) + length (sockets evs)" by (cases ev) simp_all
  ultimately show ?case using Cons.IH[OF w1(2)] by simp
qed simp

text \<open>An engine that failed for some session did so for good.\<close>

lemma handle_event_failed:
  "handle_event B W KV ev w = Some w' \<Longrightarrow> \<not> list_ex engine_failed (sessions w') \<Longrightarrow> \<not> list_ex engine_failed (sessions w)"
  by (auto simp: handle_event_def dest: engine_failed_serve_step)

lemma whole_step_failed:
  "whole_step conf B W KV ev w = Some w' \<Longrightarrow> \<not> list_ex engine_failed (sessions w') \<Longrightarrow> \<not> list_ex engine_failed (sessions w)"
  by (cases ev) (auto split: if_splits phase.splits dest: handle_event_failed)

lemma whole_run_failed:
  "whole_run conf B W KV evs w = Some w' \<Longrightarrow> \<not> list_ex engine_failed (sessions w') \<Longrightarrow> \<not> list_ex engine_failed (sessions w)"
  by (induction evs arbitrary: w) (auto split: bind_splits dest: whole_step_failed)

context serving
begin

text \<open>
  The invariant: the engine is what the log made of the store, and every session is where the log
  and its client's commands say. \<open>stop i\<close>: the handler may have been told to stop.
\<close>

definition explains :: "store \<Rightarrow> (nat \<times> kv_event) list \<Rightarrow> 'st \<Rightarrow> bool" where
  "explains m log st \<longleftrightarrow> inv st \<and> store_fits (abs st) \<and> abs st = fold kv_effect (map snd log) m"

definition whole_ok :: "build \<Rightarrow> (nat \<Rightarrow> bool) \<Rightarrow> command list list \<Rightarrow> store \<Rightarrow> (nat \<times> kv_event) list \<Rightarrow> ('s, 'st) whole \<Rightarrow> bool" where
  "whole_ok B stop css m log w \<longleftrightarrow>
     explains m log (kv_state w) \<and> all_ok B stop css (replicate (length css) []) m log (sessions w)"

lemma handle_event_ok:
  assumes rel: "\<not> overflow_checks B" and css: "list_all (list_all (command_fits B)) css" and ok: "whole_ok B stop css m log w"
    and stop: "\<And>i. ev = Signal i \<Longrightarrow> stop i" and ev: "handle_event B W KV ev w = Some w'" and fine: "\<not> list_ex engine_failed (sessions w')"
  shows "whole_ok B stop css m (log @ step_log ev (sessions w)) w'"
proof -
  from ev obtain ss st where step: "serve_step B W KV ev (sessions w) (kv_state w) = Some (ss, st)"
    and w': "w' = w\<lparr>sessions := ss, kv_state := st\<rparr>" by (auto simp: handle_event_def)
  have st: "inv (kv_state w)" "store_fits (abs (kv_state w))" "abs (kv_state w) = fold kv_effect (map snd log) m"
    and all: "all_ok B stop css (replicate (length css) []) m log (sessions w)"
    using ok unfolding whole_ok_def explains_def by blast+
  have fine': "\<not> list_ex engine_failed ss" using fine w' by simp
  have "explains m (log @ step_log ev (sessions w)) st \<and>
      all_ok B stop css (replicate (length css) []) m (log @ step_log ev (sessions w)) ss"
    using serve_step_ok[OF rel css st stop all step fine'] unfolding explains_def by blast
  then show ?thesis by (simp add: whole_ok_def w')
qed

lemma whole_step_ok:
  assumes rel: "\<not> overflow_checks B" and css: "list_all (list_all (command_fits B)) css"
    and w: "whole_ok B stop css m log w" and stop: "\<And>i. ev = Notified i \<Longrightarrow> stop i"
    and new: "\<And>s. ev = Accepted s \<Longrightarrow> length (sessions w) < length css \<and>
        concat (incoming s) = requests (css ! length (sessions w)) \<and> safe_splits [] (incoming s) \<and> wire s = [] \<and> queued s = []"
    and step: "whole_step conf B W KV ev w = Some w'" and fine: "\<not> list_ex engine_failed (sessions w')"
  shows "whole_ok B stop css m (log @ event_log ev w) w'"
proof (cases ev)
  case (Accepted s)
  with step have w': "sessions w' = sessions w @ [Awaiting (connection_new s)]" "kv_state w' = kv_state w"
    by (auto split: phase.splits)
  have "all_ok B stop css (replicate (length css) []) m log (sessions w @ [Awaiting (connection_new s)])"
    using w new[OF Accepted] by (intro all_ok_accept) (auto simp: whole_ok_def input_left_def connection_new_def)
  with w w' Accepted show ?thesis by (simp add: whole_ok_def)
next
  case (Run i)
  with step have "handle_event B W KV (Serve i) w = Some w'" by (auto split: if_splits)
  from handle_event_ok[OF rel css w _ this fine] Run show ?thesis by simp
next
  case (Notified i)
  with step have "handle_event B W KV (Signal i) w = Some w'" by (auto split: if_splits)
  from handle_event_ok[OF rel css w _ this fine] stop[OF Notified] Notified show ?thesis by simp
qed (use step w in \<open>auto simp: whole_ok_def split: if_splits phase.splits\<close>)

lemma whole_run_ok:
  assumes rel: "\<not> overflow_checks B" and css: "list_all (list_all (command_fits B)) css"
    and "whole_ok B stop css m log w" and "\<And>i. Notified i \<in> set evs \<Longrightarrow> stop i"
    and "length css = length (sessions w) + length (sockets evs)"
    and "\<And>i. i < length (sockets evs) \<Longrightarrow> (let s = sockets evs ! i in
        concat (incoming s) = requests (css ! (length (sessions w) + i)) \<and> safe_splits [] (incoming s) \<and> wire s = [] \<and> queued s = [])"
    and "whole_run conf B W KV evs w = Some w'" and "\<not> list_ex engine_failed (sessions w')"
  shows "whole_ok B stop css m (log @ whole_log conf B W KV evs w) w'"
  using assms(3-8)
proof (induction evs arbitrary: w log)
  case (Cons ev evs)
  from Cons.prems(5) obtain w1 where step: "whole_step conf B W KV ev w = Some w1" and rest: "whole_run conf B W KV evs w1 = Some w'"
    by (auto split: bind_splits)
  note fine = whole_run_failed[OF rest Cons.prems(6)]
  have n: "length (sessions w1) = length (sessions w) + length (sockets [ev])"
    using sessions_accepted[of conf B W KV "[ev]" w w1] step by simp
  have new: "length (sessions w) < length css \<and> concat (incoming s) = requests (css ! length (sessions w)) \<and>
      safe_splits [] (incoming s) \<and> wire s = [] \<and> queued s = []" if "ev = Accepted s" for s
    using Cons.prems(3) Cons.prems(4)[of 0] that by simp
  have stop: "\<And>i. ev = Notified i \<Longrightarrow> stop i" using Cons.prems(2) by simp
  note ok = whole_step_ok[OF rel css Cons.prems(1) stop new step fine]
  have len: "length css = length (sessions w1) + length (sockets evs)" using Cons.prems(3) n by (cases ev) simp_all
  have later: "let s = sockets evs ! i in concat (incoming s) = requests (css ! (length (sessions w1) + i)) \<and>
      safe_splits [] (incoming s) \<and> wire s = [] \<and> queued s = []" if "i < length (sockets evs)" for i
    using Cons.prems(4)[of "i + length (sockets [ev])"] that n by (cases ev) (simp_all add: Let_def)
  have "\<And>i. Notified i \<in> set evs \<Longrightarrow> stop i" using Cons.prems(2) by simp
  from Cons.IH[OF ok this len later rest Cons.prems(6)] step show ?case by simp
qed simp

end

subsection \<open>Shutting down\<close>

text \<open>The steps a handler needs until it waits for a frame or is done.\<close>

fun job_size :: "job \<Rightarrow> nat" where
  "job_size (Submitted (Del keys)) = length keys + 3"
| "job_size (Submitted c) = 2"
| "job_size (Deleting keys count) = length keys + 2"
| "job_size (Answered r) = 1"

fun session_size :: "'s session \<Rightarrow> nat" where
  "session_size (Working j c) = job_size j"
| "session_size s = 0"

text \<open>A GET that the engine does not end.\<close>

definition spins :: "('st, 'e) kv_ops \<Rightarrow> 's session \<Rightarrow> 'st \<Rightarrow> bool" where
  "spins KV s st \<longleftrightarrow> (\<exists>key c. s = Working (Submitted (Get key)) c \<and> kv_get KV key st = None)"

lemma working_progress:
  assumes "\<not> spins KV (Working j c) st"
  shows "\<exists>s' st'. session_step B W KV (Working j c) st = Some (s', st') \<and> session_size s' < session_size (Working j c)"
proof (cases "\<exists>r. j = Answered r")
  case True
  then obtain r where "j = Answered r" by blast
  then show ?thesis by (cases r) (auto split: prod.split sum.split)
next
  case False
  have "job_step B KV j st \<noteq> None"
    using assms by (cases "(B, KV, j, st)" rule: job_step.cases) (auto simp: spins_def split: prod.splits)
  then obtain j' st' where j': "job_step B KV j st = Some (j', st')" by auto
  with False have "session_step B W KV (Working j c) st = Some (Working j' c, st')" by (cases j) auto
  moreover have "job_size j' < job_size j" using j' False
    by (cases "(B, KV, j, st)" rule: job_step.cases) (auto split: prod.splits sum.splits if_splits)
  ultimately show ?thesis by auto
qed

text \<open>
  \<open>ends w w' i\<close>: handler \<open>i\<close> has ended and is dropped, without a new connection and with the others
  where they were; if it waited for a frame it ended without reading one.
\<close>

definition ends :: "('s, 'st) whole \<Rightarrow> ('s, 'st) whole \<Rightarrow> nat \<Rightarrow> bool" where
  "ends w w' i \<longleftrightarrow> stage w' = stage w \<and> live w' = (live w)[i := False] \<and>
     length (sessions w') = length (sessions w) \<and> (\<forall>j. j \<noteq> i \<longrightarrow> sessions w' ! j = sessions w ! j) \<and>
     (\<forall>c. sessions w ! i = Awaiting c \<longrightarrow> sessions w' ! i = Done (Inr ()) c)"

lemma handler_ends:
  assumes "stage w = Draining" and "is_live w i" and "length (live w) = length (sessions w)"
  shows "\<exists>evs w'. whole_run conf B W KV evs w = Some w' \<and>
    (ends w w' i \<or> (\<exists>j c. sessions w ! i = Working j c) \<and> spins KV (sessions w' ! i) (kv_state w'))"
  using assms
proof (induction "session_size (sessions w ! i)" arbitrary: w rule: less_induct)
  case less
  have i: "i < length (live w)" "live w ! i" "i < length (sessions w)" using less.prems by (simp_all add: is_live_def)
  show ?case
  proof (cases "sessions w ! i")
    case (Done r c)
    then have "whole_run conf B W KV [Dropped i] w = Some (w\<lparr>slots := slots w + 1, live := (live w)[i := False]\<rparr>)"
      using less.prems by simp
    then show ?thesis using Done by (intro exI conjI) (assumption, simp add: ends_def)
  next
    case (Awaiting c)
    then have "whole_run conf B W KV [Notified i, Dropped i] w =
        Some (w\<lparr>slots := slots w + 1, sessions := (sessions w)[i := Done (Inr ()) c], live := (live w)[i := False]\<rparr>)"
      using less.prems i by (simp add: handle_event_def is_live_def)
    then show ?thesis using Awaiting i by (intro exI conjI) (assumption, simp add: ends_def)
  next
    case (Working j c)
    show ?thesis
    proof (cases "spins KV (Working j c) (kv_state w)")
      case True
      with Working show ?thesis by (intro exI[of _ "[]"] exI[of _ w]) simp
    next
      case False
      from working_progress[OF False, of B W] obtain s' st' where
        s': "session_step B W KV (Working j c) (kv_state w) = Some (s', st')"
        and small: "session_size s' < session_size (Working j c)" by blast
      let ?w = "w\<lparr>sessions := (sessions w)[i := s'], kv_state := st'\<rparr>"
      have step: "whole_step conf B W KV (Run i) w = Some ?w"
        using less.prems(2) Working s' i by (simp add: handle_event_def)
      have "\<exists>evs w'. whole_run conf B W KV evs ?w = Some w' \<and>
          (ends ?w w' i \<or> (\<exists>j c. sessions ?w ! i = Working j c) \<and> spins KV (sessions w' ! i) (kv_state w'))"
        using less.prems small Working i by (intro less.hyps) (simp_all add: is_live_def)
      then obtain evs w' where run: "whole_run conf B W KV evs ?w = Some w'"
        and e: "ends ?w w' i \<or> spins KV (sessions w' ! i) (kv_state w')" by blast
      from run step have "whole_run conf B W KV (Run i # evs) w = Some w'" by simp
      moreover have "ends w w' i \<or> spins KV (sessions w' ! i) (kv_state w')" using e Working by (auto simp: ends_def)
      ultimately show ?thesis using Working by blast
    qed
  qed
qed

text \<open>The server comes to its end, or a handler that was in the middle of a command spins.\<close>

definition all_ended :: "('s, 'st) whole \<Rightarrow> ('s, 'st) whole \<Rightarrow> bool" where
  "all_ended w w' \<longleftrightarrow> stage w' = Exited \<and> True \<notin> set (live w') \<and> length (sessions w') = length (sessions w) \<and>
    (\<forall>i c. is_live w i \<longrightarrow> sessions w ! i = Awaiting c \<longrightarrow> sessions w' ! i = Done (Inr ()) c) \<and>
    (\<forall>i. \<not> is_live w i \<longrightarrow> sessions w' ! i = sessions w ! i)"

definition one_spins :: "('st, 'e) kv_ops \<Rightarrow> ('s, 'st) whole \<Rightarrow> ('s, 'st) whole \<Rightarrow> bool" where
  "one_spins KV w w' \<longleftrightarrow>
     (\<exists>i j c. is_live w i \<and> sessions w ! i = Working j c \<and> spins KV (sessions w' ! i) (kv_state w'))"

lemma all_ended_trans:
  assumes e: "ends w w1 i" and i: "is_live w i" and a: "all_ended w1 w'"
  shows "all_ended w w'"
  unfolding all_ended_def
proof (intro conjI allI impI)
  show "stage w' = Exited" "True \<notin> set (live w')" "length (sessions w') = length (sessions w)"
    using e a by (simp_all add: ends_def all_ended_def)
  fix j c assume j: "is_live w j" "sessions w ! j = Awaiting c"
  show "sessions w' ! j = Done (Inr ()) c"
  proof (cases "j = i")
    case True
    with e i j have "\<not> is_live w1 j" "sessions w1 ! j = Done (Inr ()) c" by (auto simp: ends_def is_live_def)
    with a show ?thesis by (simp add: all_ended_def)
  next
    case False
    with e j have "is_live w1 j" "sessions w1 ! j = Awaiting c" by (auto simp: ends_def is_live_def)
    with a show ?thesis by (simp add: all_ended_def)
  qed
next
  fix j assume "\<not> is_live w j"
  with e i have "\<not> is_live w1 j" "sessions w1 ! j = sessions w ! j" by (auto simp: ends_def is_live_def nth_list_update)
  with a show "sessions w' ! j = sessions w ! j" by (simp add: all_ended_def)
qed

lemma whole_exits:
  assumes "stage w = Draining" and "length (live w) = length (sessions w)"
  shows "\<exists>evs w'. whole_run conf B W KV evs w = Some w' \<and> (all_ended w w' \<or> one_spins KV w w')"
  using assms
proof (induction "length (filter id (live w))" arbitrary: w rule: less_induct)
  case less
  show ?case
  proof (cases "True \<in> set (live w)")
    case False
    then have "whole_run conf B W KV [Quit] w = Some (w\<lparr>stage := Exited\<rparr>)" using less.prems by simp
    moreover have "\<not> is_live w i" for i using False by (auto simp: is_live_def in_set_conv_nth)
    ultimately show ?thesis using False by (intro exI conjI) (assumption, simp add: all_ended_def)
  next
    case True
    then obtain i where i: "is_live w i" by (auto simp: is_live_def in_set_conv_nth)
    from handler_ends[OF less.prems(1) i less.prems(2), of conf B W KV] obtain evs w1 where
      run1: "whole_run conf B W KV evs w = Some w1"
      and e: "ends w w1 i \<or> (\<exists>j c. sessions w ! i = Working j c) \<and> spins KV (sessions w1 ! i) (kv_state w1)" by blast
    show ?thesis
    proof (cases "ends w w1 i")
      case False
      with e i have "one_spins KV w w1" by (auto simp: one_spins_def)
      with run1 show ?thesis by blast
    next
      case True
      have "length (filter id (live w1)) < length (filter id (live w))"
        using True i length_filter_drop[of i "live w"] by (simp add: ends_def is_live_def)
      moreover have "stage w1 = Draining" "length (live w1) = length (sessions w1)" using True less.prems by (simp_all add: ends_def)
      ultimately obtain evs' w' where run2: "whole_run conf B W KV evs' w1 = Some w'" "all_ended w1 w' \<or> one_spins KV w1 w'"
        using less.hyps by blast
      have "whole_run conf B W KV (evs @ evs') w = Some w'" using run1 run2(1) by (simp add: whole_run_append)
      moreover have "one_spins KV w w'" if s: "one_spins KV w1 w'"
      proof -
        from s obtain j q c where j: "is_live w1 j" "sessions w1 ! j = Working q c" "spins KV (sessions w' ! j) (kv_state w')"
          by (auto simp: one_spins_def)
        with True i have "j \<noteq> i" by (auto simp: ends_def is_live_def)
        with j True have "is_live w j" "sessions w ! j = Working q c" by (auto simp: ends_def is_live_def)
        with j(3) show ?thesis by (auto simp: one_spins_def)
      qed
      ultimately show ?thesis using run2(2) all_ended_trans[OF True i] by blast
    qed
  qed
qed

text \<open>From any state: an interruption first, if the server still listens.\<close>

lemma whole_drains:
  assumes "length (live w) = length (sessions w)" and "server_inv conf (outline w)"
  shows "\<exists>evs w'. whole_run conf B W KV evs w = Some w' \<and> (all_ended w w' \<or> one_spins KV w w')"
proof (cases "stage w = Exited")
  case True
  with assms(2) have "filter id (live w) = []" by (simp add: server_inv_def outline_def)
  then have "True \<notin> set (live w)" by (auto simp: filter_empty_conv)
  moreover from this have "\<not> is_live w i" for i by (auto simp: is_live_def in_set_conv_nth)
  ultimately have "all_ended w w" using True by (simp add: all_ended_def)
  then show ?thesis by (intro exI[of _ "[]"] exI[of _ w]) simp
next
  case False
  obtain evs0 w0 where w0: "whole_run conf B W KV evs0 w = Some w0" "sessions w0 = sessions w" "live w0 = live w"
    "stage w0 = Draining"
  proof (cases "stage w")
    case Draining then show ?thesis using that[of "[]" w] by simp
  qed (use False that[of "[Interrupt]" "w\<lparr>stage := Draining\<rparr>"] in simp_all)
  have "length (live w0) = length (sessions w0)" using assms(1) w0 by simp
  from whole_exits[OF w0(4) this, of conf B W KV] obtain evs w' where
    run: "whole_run conf B W KV evs w0 = Some w'" and e: "all_ended w0 w' \<or> one_spins KV w0 w'" by blast
  have "whole_run conf B W KV (evs0 @ evs) w = Some w'" using w0(1) run by (simp add: whole_run_append)
  moreover have "all_ended w w' \<or> one_spins KV w w'" using e w0 by (simp add: all_ended_def one_spins_def is_live_def)
  ultimately show ?thesis by blast
qed

end
