(* ===== verification/Concurrent.thy ===== *)
theory Concurrent
  imports Background
begin

section \<open>Gets that overlap the writer (bitcask.rs, reader.rs, log.rs, writer.rs)\<close>

text \<open>
  The writer is behind a mutex; a \<open>get\<close> holds nothing but a reader of its own. What they share
  is the keydir, the directory with its files, the pool of readers and the closed flag. Here a
  \<open>get\<close> is cut at every access to what is shared, and so is the writer: an entry is appended
  before it is indexed, and a merge copies, moves the keydir entries one by one, removes the
  files one by one and starts a new active file. Each step is one access of the keydir or one
  system call on a file that readers can see. The keydir is a \<open>SkipMap\<close>: a lookup and a removal
  are one step each, but \<open>insert\<close> with a key that is there first removes the old entry and then
  inserts the new one (context.rs:36), which is two. An append is one \<open>write\<close>; \<open>TornWrites\<close> is
  about an append in two.
\<close>

subsection \<open>A get, step by step\<close>

text \<open>
  What a call of \<open>Handle::get\<close> is about to do. \<open>Reading\<close> has a log reader, taken from the cache
  when the flag says so and otherwise new.
\<close>

datatype 'l get_at =
    Checking
  | Popping
  | Looking 'l
  | Opening 'l keydir_entry
  | Mapping 'l keydir_entry nat
  | Reading 'l keydir_entry log_reader bool
  | Returning 'l "(bc_error, bytes option) result"
  | Finished "(bc_error, bytes option) result"

text \<open>A reader is given back unless the thread panicked.\<close>

definition give_back :: "'l \<Rightarrow> (bc_error, bytes option) result \<Rightarrow> 'l get_at" where
  "give_back l r = (if r = Inl Panic then Finished r else Returning l r)"

text \<open>
  \<open>u\<close> is the key whose entry is being replaced, if there is one: its old entry has been removed and
  the new one is not inserted yet. No lookup finds it; the list \<open>keydir\<close> still has the old one.
\<close>

definition keydir_lookup :: "bytes option \<Rightarrow> bytes \<Rightarrow> 'l storage \<Rightarrow> keydir_entry option" where
  "keydir_lookup u k st = (if u = Some k then None else map_of (keydir st) k)"

lemma keydir_lookup_None [simp]: "keydir_lookup None k st = map_of (keydir st) k"
  by (simp add: keydir_lookup_def)

text \<open>\<open>None\<close>: the pool is empty and the loop goes round, or the call has returned.\<close>

fun get_step ::
    "'l deps \<Rightarrow> build \<Rightarrow> bytes option \<Rightarrow> bytes \<Rightarrow> 'l get_at \<Rightarrow> 'l storage \<Rightarrow> ('l get_at \<times> 'l storage) option" where
  "get_step D B u k Checking st = Some (if closed st then Finished (Inl (Err Closed)) else Popping, st)"
| "get_step D B u k Popping st =
     (case pool st of [] \<Rightarrow> None | l # rest \<Rightarrow> Some (Looking l, st\<lparr>pool := rest\<rparr>))"
| "get_step D B u k (Looking l) st =
     Some (case keydir_lookup u k st of
             None \<Rightarrow> Returning l (Inr None)
           | Some e \<Rightarrow>
               (case lru_get D (kd_fileid e) l of None \<Rightarrow> Opening l e | Some rd \<Rightarrow> Reading l e rd True), st)"
| "get_step D B u k (Opening l e) st =
     (case open_read (datafile_name (kd_fileid e)) (files st) of
        (r, fs) \<Rightarrow> Some (case r of Inl err \<Rightarrow> give_back l (map_err BcIo (Inl err)) | Inr i \<Rightarrow> Mapping l e i,
                       st\<lparr>files := fs\<rparr>))"
| "get_step D B u k (Mapping l e i) st =
     (case map_file i (files st) of
        (r, fs) \<Rightarrow> Some (case r of Inl err \<Rightarrow> give_back l (map_err BcIo (Inl err))
                             | Inr n \<Rightarrow> Reading l e \<lparr>rd_file = i, mmap_len = n\<rparr> False,
                       st\<lparr>files := fs\<rparr>))"
| "get_step D B u k (Reading l e rd hit) st =
     (case reader_at D B rd (kd_len e) (kd_pos e) (files st) of
        (r, rd, fs) \<Rightarrow>
          Some (give_back (if hit then lru_store D (kd_fileid e) rd l else lru_put D (kd_fileid e) rd l)
                  (and_then r (\<lambda>entry. Inr (d_value entry))), st\<lparr>files := fs\<rparr>))"
| "get_step D B u k (Returning l r) st = Some (Finished r, st\<lparr>pool := pool st @ [l]\<rparr>)"
| "get_step D B u k (Finished r) st = None"

text \<open>A call that nothing interrupts, for at most \<open>n\<close> steps.\<close>

fun get_run ::
    "'l deps \<Rightarrow> build \<Rightarrow> bytes \<Rightarrow> nat \<Rightarrow> 'l get_at \<Rightarrow> 'l storage \<Rightarrow> 'l get_at \<times> 'l storage" where
  "get_run D B k 0 pc st = (pc, st)"
| "get_run D B k (Suc n) pc st =
     (case get_step D B None k pc st of None \<Rightarrow> (pc, st) | Some (pc', st') \<Rightarrow> get_run D B k n pc' st')"

subsection \<open>The writer, step by step\<close>

definition put_append :: "'l deps \<Rightarrow> build \<Rightarrow> bytes \<Rightarrow> bytes \<Rightarrow> ('l, keydir_entry) action" where
  "put_append D B k v st = try_op (timestamp st) (\<lambda>t st. write_entry D B t k (Some v) st)"

text \<open>
  What \<open>Context::keydir_set\<close> and the statistics do when no \<open>get\<close> comes between. In the system below
  the removal of the old entry is a step of its own, before this one.
\<close>

definition put_index :: "build \<Rightarrow> bytes \<Rightarrow> keydir_entry \<Rightarrow> ('l, unit) action" where
  "put_index B k entry st =
     (case keydir_set k entry st of
        (Some prev, st) \<Rightarrow> with_stats (kd_fileid prev) (overwrite B (kd_len prev)) st
      | (None, st) \<Rightarrow> (Inr (), st))"

definition delete_append :: "'l deps \<Rightarrow> build \<Rightarrow> bytes \<Rightarrow> ('l, keydir_entry) action" where
  "delete_append D B k st = try_op (timestamp st) (\<lambda>t st. write_entry D B t k None st)"

definition delete_index :: "build \<Rightarrow> bytes \<Rightarrow> ('l, bool) action" where
  "delete_index B k st =
     (case keydir_remove k st of
        (Some prev, st) \<Rightarrow>
          try_op (with_stats (kd_fileid prev) (overwrite B (kd_len prev)) st) (\<lambda>_ st. (Inr True, st))
      | (None, st) \<Rightarrow> (Inr False, st))"

text \<open>The part of a merge up to the new keydir entries: the last merge file, the ids and the entries.\<close>

definition merge_files :: "'l deps \<Rightarrow> build \<Rightarrow> ('l, nat \<times> nat list \<times> keydir) action" where
  "merge_files D B st =
     (case u64_add B (active_fileid st) 1 of
        Inl e \<Rightarrow> (Inl e, st)
      | Inr f \<Rightarrow>
          try_op (fileids_to_merge B st) (\<lambda>ids st.
          try_op (merge_copy D B f ids st) (\<lambda>(lid, entries) st. (Inr (lid, ids, entries), st))))"

definition merge_finish :: "build \<Rightarrow> nat \<Rightarrow> ('l, unit) action" where
  "merge_finish B lid st = (case u64_add B lid 1 of Inl e \<Rightarrow> (Inl e, st) | Inr n \<Rightarrow> new_active_datafile n st)"

lemma put_cut: "put D B k v st = try_op (put_append D B k v st) (put_index B k)"
  by (simp add: put_def put_append_def put_index_def[abs_def] try_op_assoc)

lemma delete_cut: "delete D B k st = try_op (delete_append D B k st) (\<lambda>_. delete_index B k)"
  by (simp add: delete_def delete_append_def delete_index_def[abs_def] try_op_assoc)

lemma merge_cut:
  "merge D B st = try_op (merge_files D B st) (\<lambda>(lid, ids, kes) st.
     try_op (remove_merged ids (install_entries kes st)) (\<lambda>_. merge_finish B lid))"
  by (simp add: merge_def merge_files_def merge_finish_def[abs_def] try_op_assoc split_def split: sum.split)

subsection \<open>The system\<close>

text \<open>
  Where the writer is: what is appended and not yet indexed, or the last merge file, the files
  left to remove and the entries left to move.
\<close>

datatype writer_at =
    Ready
  | Indexing bytes bytes keydir_entry
  | Removing bytes
  | Merging nat "nat list" keydir

record 'l system =
  shared :: "'l storage"
  writer_at :: writer_at
  unlinked :: "bytes option"
  gets :: "(bytes \<times> 'l get_at) list"

definition system_start :: "'l storage \<Rightarrow> 'l system" where
  "system_start st = \<lparr>shared = st, writer_at = Ready, unlinked = None, gets = []\<rparr>"

text \<open>An insertion has to remove the old entry first, if there is one.\<close>

definition insertable :: "bytes \<Rightarrow> 'l system \<Rightarrow> bool" where
  "insertable k s \<longleftrightarrow> (map_of (keydir (shared s)) k \<noteq> None \<longrightarrow> unlinked s = Some k)"

datatype system_event =
    PutAppend bytes bytes
  | PutUnlink bytes
  | PutIndex bytes bytes
  | DeleteAppend bytes
  | DeleteIndex bytes
  | Sync
  | MergeFiles
  | MergeUnlink bytes
  | MergeInstall
  | MergeRemove
  | MergeFinish
  | CloseStorage
  | GetCalled bytes
  | GetStep nat

text \<open>
  The closed flag is read before the mutex is taken, so the writer may run on a storage that was
  closed meanwhile. The steps of the writer here are those that succeed.
\<close>

inductive system_step :: "'l deps \<Rightarrow> build \<Rightarrow> system_event \<Rightarrow> 'l system \<Rightarrow> 'l system \<Rightarrow> bool"
  for D :: "'l deps" and B :: build where
  put_append: "writer_at s = Ready \<Longrightarrow> put_append D B k v (shared s) = (Inr e, st') \<Longrightarrow>
    system_step D B (PutAppend k v) s (s\<lparr>shared := st', writer_at := Indexing k v e\<rparr>)"
| put_unlink: "writer_at s = Indexing k v e \<Longrightarrow> unlinked s = None \<Longrightarrow> map_of (keydir (shared s)) k \<noteq> None \<Longrightarrow>
    system_step D B (PutUnlink k) s (s\<lparr>unlinked := Some k\<rparr>)"
| put_index: "writer_at s = Indexing k v e \<Longrightarrow> insertable k s \<Longrightarrow> put_index B k e (shared s) = (Inr u, st') \<Longrightarrow>
    system_step D B (PutIndex k v) s (s\<lparr>shared := st', writer_at := Ready, unlinked := None\<rparr>)"
| delete_append: "writer_at s = Ready \<Longrightarrow> delete_append D B k (shared s) = (Inr e, st') \<Longrightarrow>
    system_step D B (DeleteAppend k) s (s\<lparr>shared := st', writer_at := Removing k\<rparr>)"
| delete_index: "writer_at s = Removing k \<Longrightarrow> delete_index B k (shared s) = (Inr b, st') \<Longrightarrow>
    system_step D B (DeleteIndex k) s (s\<lparr>shared := st', writer_at := Ready\<rparr>)"
| sync: "writer_at s = Ready \<Longrightarrow> writer_sync (shared s) = (Inr u, st') \<Longrightarrow>
    system_step D B Sync s (s\<lparr>shared := st'\<rparr>)"
| merge_files: "writer_at s = Ready \<Longrightarrow> can_merge B (shared s) = Inr True \<Longrightarrow>
    merge_files D B (shared s) = (Inr (lid, ids, kes), st') \<Longrightarrow>
    system_step D B MergeFiles s (s\<lparr>shared := st', writer_at := Merging lid ids kes\<rparr>)"
| merge_unlink: "writer_at s = Merging lid ids ((k, e) # kes) \<Longrightarrow> unlinked s = None \<Longrightarrow>
    map_of (keydir (shared s)) k \<noteq> None \<Longrightarrow>
    system_step D B (MergeUnlink k) s (s\<lparr>unlinked := Some k\<rparr>)"
| merge_install: "writer_at s = Merging lid ids ((k, e) # kes) \<Longrightarrow> insertable k s \<Longrightarrow>
    system_step D B MergeInstall s
      (s\<lparr>shared := snd (keydir_set k e (shared s)), writer_at := Merging lid ids kes, unlinked := None\<rparr>)"
| merge_remove: "writer_at s = Merging lid (f # ids) [] \<Longrightarrow> remove_merged [f] (shared s) = (Inr u, st') \<Longrightarrow>
    system_step D B MergeRemove s (s\<lparr>shared := st', writer_at := Merging lid ids []\<rparr>)"
| merge_finish: "writer_at s = Merging lid [] [] \<Longrightarrow> merge_finish B lid (shared s) = (Inr u, st') \<Longrightarrow>
    system_step D B MergeFinish s (s\<lparr>shared := st', writer_at := Ready\<rparr>)"
| close: "system_step D B CloseStorage s (s\<lparr>shared := close_storage (shared s)\<rparr>)"
| get_called: "system_step D B (GetCalled k) s (s\<lparr>gets := gets s @ [(k, Checking)]\<rparr>)"
| get_step: "i < length (gets s) \<Longrightarrow> gets s ! i = (k, pc) \<Longrightarrow> get_step D B (unlinked s) k pc (shared s) = Some (pc', st') \<Longrightarrow>
    system_step D B (GetStep i) s (s\<lparr>shared := st', gets := (gets s)[i := (k, pc')]\<rparr>)"

inductive_cases system_stepE: "system_step D B ev s s'"

text \<open>A path lists the events with the states behind them.\<close>

fun system_path :: "'l deps \<Rightarrow> build \<Rightarrow> 'l system \<Rightarrow> (system_event \<times> 'l system) list \<Rightarrow> bool" where
  "system_path D B s [] \<longleftrightarrow> True"
| "system_path D B s ((ev, s') # path) \<longleftrightarrow> system_step D B ev s s' \<and> system_path D B s' path"

definition end_state :: "'l system \<Rightarrow> (system_event \<times> 'l system) list \<Rightarrow> 'l system" where
  "end_state s path = last (s # map snd path)"

text \<open>
  The writes take effect when their entries are indexed, and the deletes when they are removed from the
  keydir.
\<close>

fun event_effect :: "system_event \<Rightarrow> store \<Rightarrow> store" where
  "event_effect (PutIndex k v) s = op_effect (OpPut k v) s"
| "event_effect (DeleteIndex k) s = op_effect (OpDelete k) s"
| "event_effect ev s = s"

lemma end_state_append: "end_state s (p @ q) = end_state (end_state s p) q"
  by (cases q) (simp_all add: end_state_def)

text \<open>The key that is being replaced behind a path.\<close>

fun event_window :: "system_event \<Rightarrow> bytes option \<Rightarrow> bytes option" where
  "event_window (PutUnlink k) u = Some k"
| "event_window (MergeUnlink k) u = Some k"
| "event_window (PutIndex k v) u = None"
| "event_window MergeInstall u = None"
| "event_window ev u = u"

definition replacing :: "(system_event \<times> 'l system) list \<Rightarrow> bytes option" where
  "replacing path = fold event_window (map fst path) None"

lemma replacing_simps [simp]:
  "replacing [] = None" "replacing (p @ [(ev, s)]) = event_window ev (replacing p)"
  by (simp_all add: replacing_def)

text \<open>What a lookup at this moment leads to.\<close>

definition visible :: "'l deps \<Rightarrow> 'l system \<Rightarrow> store" where
  "visible D s k = (case keydir_lookup (unlinked s) k (shared s) of None \<Rightarrow> None | Some e \<Rightarrow> stored D (files (shared s)) e)"

text \<open>Only the writer, between two of its steps, has a key that is being replaced.\<close>

definition window_ok :: "'l system \<Rightarrow> bool" where
  "window_ok s \<longleftrightarrow> (unlinked s \<noteq> None \<longrightarrow>
     (\<exists>k v e. writer_at s = Indexing k v e) \<or> (\<exists>lid ids k e kes. writer_at s = Merging lid ids ((k, e) # kes)))"

lemma window_step:
  assumes "system_step D B ev s s'" and "window_ok s"
  shows "window_ok s' \<and> unlinked s' = event_window ev (unlinked s)"
  using assms by (cases rule: system_step.cases) (auto simp: window_ok_def)

lemma visible_at:
  "visible D s k = (if unlinked s = Some k then None else abs_store D (shared s) k)"
  by (simp add: visible_def keydir_lookup_def abs_store_def)

lemma system_path_append:
  "system_path D B s (p @ q) \<longleftrightarrow> system_path D B s p \<and> system_path D B (end_state s p) q"
  by (induction p arbitrary: s) (auto simp: end_state_def)

lemma end_state_simps [simp]: "end_state s [] = s" "end_state s (p @ [(ev, s')]) = s'"
  by (simp_all add: end_state_def)

subsection \<open>Steps in a row\<close>

lemma reader_at_cut:
  "log_dir_read D B f len pos l fs =
     (case lru_get D f l of
        Some rd \<Rightarrow> (case reader_at D B rd len pos fs of (r, rd, fs) \<Rightarrow> (r, lru_store D f rd l, fs))
      | None \<Rightarrow>
          (case open_read (datafile_name f) fs of
             (Inl e, fs) \<Rightarrow> (map_err BcIo (Inl e), l, fs)
           | (Inr i, fs) \<Rightarrow>
               (case map_file i fs of
                  (Inl e, fs) \<Rightarrow> (map_err BcIo (Inl e), l, fs)
                | (Inr n, fs) \<Rightarrow>
                    (case reader_at D B \<lparr>rd_file = i, mmap_len = n\<rparr> len pos fs of
                       (Inl Panic, rd, fs) \<Rightarrow> (Inl Panic, l, fs)
                     | (r, rd, fs) \<Rightarrow> (r, lru_put D f rd l, fs)))))"
  by (auto simp: log_dir_read_def log_dir_def reader_new_def split: option.split prod.split sum.split)

text \<open>A \<open>get\<close> whose steps follow each other is \<open>Handle::get\<close>. It takes at most seven of them.\<close>

lemma get_run_finished [simp]: "get_run D B k n (Finished r) st = (Finished r, st)"
  by (cases n) simp_all

lemma get_run_Suc: "get_step D B None k pc st = Some (pc', st') \<Longrightarrow> get_run D B k (Suc n) pc st = get_run D B k n pc' st'"
  by simp

lemma map_err_Inl_Panic [simp]: "map_err f (Inl x) = Inl Panic \<longleftrightarrow> x = Panic"
  by (cases x) auto

lemma and_then_map_err_Inl [simp]: "and_then (map_err f (Inl x)) g = map_err f (Inl x)"
  by (cases x) auto

text \<open>What is left of a \<open>get\<close> from the moment it has looked up its key.\<close>

definition put_back :: "(bc_error, bytes option) result \<times> 'l \<times> fs \<Rightarrow> 'l storage \<Rightarrow> 'l get_at \<times> 'l storage" where
  "put_back = (\<lambda>(r, l, fs) st. (Finished r, st\<lparr>pool := (if r = Inl Panic then pool st else pool st @ [l]), files := fs\<rparr>))"

lemma give_back_run: "get_run D B k (Suc n) (give_back l r) (st\<lparr>files := fs\<rparr>) = put_back (r, l, fs) st"
  by (simp add: give_back_def put_back_def)

lemma reading_run:
  assumes "reader_at D B rd (kd_len e) (kd_pos e) (files st) = (r, rd', fs)"
  shows "get_run D B k (Suc (Suc n)) (Reading l e rd hit) st =
    put_back (and_then r (\<lambda>entry. Inr (d_value entry)),
      if hit then lru_store D (kd_fileid e) rd' l else lru_put D (kd_fileid e) rd' l, fs) st"
  by (cases hit) (use assms in \<open>simp_all add: get_run_Suc give_back_run del: get_run.simps(2)\<close>)

lemma mapping_run:
  assumes "map_file i (files st) = (r, fs)"
  shows "get_run D B k (Suc (Suc (Suc n))) (Mapping l e i) st =
    (case r of
       Inl err \<Rightarrow> put_back (map_err BcIo (Inl err), l, fs) st
     | Inr m \<Rightarrow> get_run D B k (Suc (Suc n)) (Reading l e \<lparr>rd_file = i, mmap_len = m\<rparr> False) (st\<lparr>files := fs\<rparr>))"
  by (cases r) (use assms in \<open>simp_all add: get_run_Suc give_back_run del: get_run.simps(2)\<close>)

lemma opening_run:
  assumes "open_read (datafile_name (kd_fileid e)) (files st) = (r, fs)"
  shows "get_run D B k (Suc (Suc (Suc (Suc n)))) (Opening l e) st =
    (case r of
       Inl err \<Rightarrow> put_back (map_err BcIo (Inl err), l, fs) st
     | Inr i \<Rightarrow> get_run D B k (Suc (Suc (Suc n))) (Mapping l e i) (st\<lparr>files := fs\<rparr>))"
  by (cases r) (use assms in \<open>simp_all add: get_run_Suc give_back_run del: get_run.simps(2)\<close>)

lemma put_back_files [simp]: "put_back (r, l, fs) (st\<lparr>files := fs'\<rparr>) = put_back (r, l, fs) st"
  by (simp add: put_back_def)

lemma put_back_panic: "put_back (Inl Panic, l, fs) st = put_back (Inl Panic, l', fs) st"
  by (simp add: put_back_def)

text \<open>After a miss, and after the lookup.\<close>

lemma miss_run:
  assumes "lru_get D (kd_fileid e) l = None"
    and "log_dir_read D B (kd_fileid e) (kd_len e) (kd_pos e) l (files st) = (r, l', fs)"
  shows "get_run D B k 4 (Opening l e) st = put_back (and_then r (\<lambda>entry. Inr (d_value entry)), l', fs) st"
proof -
  obtain q fs1 where q: "open_read (datafile_name (kd_fileid e)) (files st) = (q, fs1)" by fastforce
  show ?thesis
  proof (cases q)
    case (Inl err)
    with assms q opening_run[OF q, of D B k 0 l] show ?thesis by (auto simp: reader_at_cut numeral_eq_Suc)
  next
    case (Inr i)
    obtain m fs2 where m: "map_file i fs1 = (m, fs2)" by fastforce
    note mr = mapping_run[of i "st\<lparr>files := fs1\<rparr>" m fs2 D B k 0 l e]
    show ?thesis
    proof (cases m)
      case (Inl err)
      with assms q Inr m mr opening_run[OF q, of D B k 0 l] show ?thesis by (auto simp: reader_at_cut numeral_eq_Suc)
    next
      case (Inr n)
      obtain r3 rd3 fs3 where a: "reader_at D B \<lparr>rd_file = i, mmap_len = n\<rparr> (kd_len e) (kd_pos e) fs2 = (r3, rd3, fs3)"
        by (metis prod_cases3)
      have "get_run D B k 4 (Opening l e) st =
        put_back (and_then r3 (\<lambda>entry. Inr (d_value entry)), lru_put D (kd_fileid e) rd3 l, fs3) st"
        using q m mr a opening_run[OF q, of D B k 0 l] reading_run[of D B _ e "st\<lparr>files := fs2\<rparr>" r3 rd3 fs3 k 0 l False] \<open>q = Inr i\<close> Inr
        by (simp add: numeral_eq_Suc)
      moreover have "r = r3 \<and> fs = fs3 \<and> (r3 = Inl Panic \<or> l' = lru_put D (kd_fileid e) rd3 l)"
        using assms q m a \<open>q = Inr i\<close> Inr by (auto simp: reader_at_cut split: sum.splits fault.splits)
      ultimately show ?thesis using put_back_panic by auto
    qed
  qed
qed

lemma handle_get_put_back:
  "\<not> closed st \<Longrightarrow> pool st = l # rest \<Longrightarrow> handle_get D B k st = Some (r, st') \<Longrightarrow>
     put_back (reader_get D B k (keydir st) l (files st)) (st\<lparr>pool := rest\<rparr>) = (Finished r, st')"
  by (auto simp: handle_get_def put_back_def split: prod.splits sum.splits fault.splits)

lemma lookup_run:
  assumes "reader_get D B k (keydir st) l (files st) = (r, l', fs)"
  shows "get_run D B k 5 (Looking l) st = put_back (r, l', fs) st"
proof (cases "map_of (keydir st) k")
  case None
  with assms show ?thesis by (auto simp: reader_get_def put_back_def numeral_eq_Suc)
next
  case (Some e)
  obtain q l1 fs1 where q: "log_dir_read D B (kd_fileid e) (kd_len e) (kd_pos e) l (files st) = (q, l1, fs1)"
    by (metis prod_cases3)
  with assms Some have r: "r = and_then q (\<lambda>entry. Inr (d_value entry))" "l' = l1" "fs = fs1"
    by (simp_all add: reader_get_def)
  show ?thesis
  proof (cases "lru_get D (kd_fileid e) l")
    case None
    have "get_run D B k 5 (Looking l) st = get_run D B k 4 (Opening l e) st"
      using Some None get_run_Suc[of D B k "Looking l" st "Opening l e" st 4] by simp
    with miss_run[OF None q] r show ?thesis by simp
  next
    case (Some rd)
    obtain q1 rd1 fs2 where a: "reader_at D B rd (kd_len e) (kd_pos e) (files st) = (q1, rd1, fs2)" by (metis prod_cases3)
    have "get_run D B k 5 (Looking l) st = get_run D B k 4 (Reading l e rd True) st"
      using Some \<open>map_of (keydir st) k = Some e\<close> get_run_Suc[of D B k "Looking l" st "Reading l e rd True" st 4] by simp
    moreover have "q = q1" "l1 = lru_store D (kd_fileid e) rd1 l" "fs1 = fs2" using q a Some by (simp_all add: reader_at_cut)
    ultimately show ?thesis using reading_run[OF a, of k 2 l True] r by (simp add: numeral_eq_Suc)
  qed
qed

text \<open>A \<open>get\<close> that is not interrupted takes at most seven steps and is \<open>Handle::get\<close>.\<close>

lemma get_run_handle_get:
  assumes "handle_get D B k st = Some (r, st')"
  shows "get_run D B k 7 Checking st = (Finished r, st')"
proof (cases "closed st")
  case True
  with assms show ?thesis by (simp add: handle_get_def numeral_eq_Suc)
next
  case False
  with assms obtain l rest where p: "pool st = l # rest" by (cases "pool st") (auto simp: handle_get_def)
  let ?st = "st\<lparr>pool := rest\<rparr>"
  obtain q l' fs where g: "reader_get D B k (keydir ?st) l (files ?st) = (q, l', fs)" by (metis prod_cases3)
  have "get_run D B k 7 Checking st = get_run D B k 5 (Looking l) ?st"
    using False p get_run_Suc[of D B k Checking st Popping st 6] get_run_Suc[of D B k Popping st "Looking l" ?st 5]
    by (simp del: get_run.simps(2))
  with lookup_run[OF g] handle_get_put_back[OF False p assms] g show ?thesis by simp
qed

end
