(* ===== verification/ConcurrentGets.thy ===== *)
theory ConcurrentGets
  imports Concurrent
begin

section \<open>What a get relies on\<close>

text \<open>
  A \<open>get\<close> relies on what the others do between its steps: files only grow, a name that is gone
  is not given to another file, and an entry enters the keydir behind what any reader may
  already have mapped. The lemmas show that what a \<open>get\<close> knows is stable under such steps and
  that its own steps turn it into the value it looked up. System calls do not fail here.
\<close>

subsection \<open>What the others may do\<close>

text \<open>
  \<open>kd\<close> are the entries in the keydir or about to enter it, \<open>hi\<close> is the largest file id.
  Files vanish only when \<open>rm\<close> is set.
\<close>

definition entries_ok :: "'l deps \<Rightarrow> keydir \<Rightarrow> fs \<Rightarrow> nat \<Rightarrow> bool" where
  "entries_ok D kd fs hi \<longleftrightarrow> (\<forall>(k, e) \<in> set kd. kd_fileid e \<le> hi \<and> (\<exists>x. located D fs e x))"

definition rely :: "bool \<Rightarrow> keydir \<Rightarrow> fs \<Rightarrow> nat \<Rightarrow> keydir \<Rightarrow> fs \<Rightarrow> nat \<Rightarrow> bool" where
  "rely rm kd fs hi kd' fs' hi' \<longleftrightarrow>
     inext fs \<le> inext fs' \<and> (\<forall>i < inext fs. \<exists>z. idata fs' i = idata fs i @ z) \<and>
     old_names hi fs fs' \<and> hi \<le> hi' \<and>
     (rm \<or> (\<forall>name i. map_of (dir fs) name = Some i \<longrightarrow> map_of (dir fs') name = Some i)) \<and>
     (\<forall>(k, e) \<in> set kd' - set kd. hi < kd_fileid e \<or>
        (\<exists>i. map_of (dir fs) (datafile_name (kd_fileid e)) = Some i \<and> length (idata fs i) \<le> kd_pos e))"

lemma rely_grows: "grows fs fs' \<Longrightarrow> old_names hi fs fs' \<Longrightarrow> hi \<le> hi' \<Longrightarrow> set kd' \<subseteq> set kd \<Longrightarrow> rely rm kd fs hi kd' fs' hi'"
  by (auto simp: rely_def grows_def)

lemma rely_keydir: "set kd' \<subseteq> set kd \<Longrightarrow> rely rm kd fs hi kd' fs hi"
  by (rule rely_grows) (simp_all add: old_names_def)

lemma reader_ok_rely:
  assumes rd: "reader_ok kd fs f rd" and f: "f \<le> hi" and r: "rely rm kd fs hi kd' fs' hi'"
  shows "reader_ok kd' fs' f rd"
  unfolding reader_ok_def
proof (intro conjI allI impI)
  have i: "rd_file rd < inext fs" and n: "mmap_len rd \<le> length (idata fs (rd_file rd))"
    using rd by (simp_all add: reader_ok_def)
  with r show "rd_file rd < inext fs'" by (simp add: rely_def)
  from r i obtain z where "idata fs' (rd_file rd) = idata fs (rd_file rd) @ z" unfolding rely_def by blast
  with n show "mmap_len rd \<le> length (idata fs' (rd_file rd))" by simp
  show "rd_file rd = j" if "map_of (dir fs') (datafile_name f) = Some j" for j
    using that rd r f by (auto simp: rely_def old_names_def reader_ok_def)
  show "\<forall>(k, e) \<in> set kd'. kd_fileid e = f \<longrightarrow> kd_pos e < mmap_len rd \<longrightarrow> kd_pos e + kd_len e \<le> mmap_len rd"
  proof (intro ballI, clarify)
    fix k e assume e: "(k, e) \<in> set kd'" "f = kd_fileid e" "kd_pos e < mmap_len rd"
    show "kd_pos e + kd_len e \<le> mmap_len rd"
    proof (cases "(k, e) \<in> set kd")
      case True
      with rd e show ?thesis by (auto simp: reader_ok_def)
    next
      case False
      with e have new: "(k, e) \<in> set kd' - set kd" by simp
      from r have "\<forall>(k, e) \<in> set kd' - set kd. hi < kd_fileid e \<or>
        (\<exists>i. map_of (dir fs) (datafile_name (kd_fileid e)) = Some i \<and> length (idata fs i) \<le> kd_pos e)"
        by (simp add: rely_def)
      from bspec[OF this new] e(2) f obtain j where
        j: "map_of (dir fs) (datafile_name f) = Some j" "length (idata fs j) \<le> kd_pos e" by auto
      with rd have "rd_file rd = j" by (simp add: reader_ok_def)
      with j n e show ?thesis by simp
    qed
  qed
qed

lemma cache_ok_rely:
  assumes "cache_ok D kd fs hi l" and "rely rm kd fs hi kd' fs' hi'"
  shows "cache_ok D kd' fs' hi' l"
  using assms reader_ok_rely[OF _ _ assms(2)] unfolding cache_ok_def by (auto simp: rely_def intro: order_trans)

subsection \<open>What a get knows\<close>

text \<open>The bytes of an entry in a file that may have lost its name.\<close>

definition pinned :: "'l deps \<Rightarrow> fs \<Rightarrow> nat \<Rightarrow> bool \<Rightarrow> keydir_entry \<Rightarrow> data_entry \<Rightarrow> nat \<Rightarrow> bool" where
  "pinned D fs hi rm e x i \<longleftrightarrow>
     kd_fileid e \<le> hi \<and> i < inext fs \<and>
     (map_of (dir fs) (datafile_name (kd_fileid e)) = Some i \<or>
        rm \<and> map_of (dir fs) (datafile_name (kd_fileid e)) = None) \<and>
     entry_ok x \<and> kd_len e = length (enc_data D x) \<and> kd_pos e + kd_len e \<le> length (idata fs i) \<and>
     kd_pos e + kd_len e < 2 ^ 63 \<and> sub_slice (idata fs i) (kd_pos e) (kd_pos e + kd_len e) = enc_data D x"

lemma located_pinned:
  "fs_ok fs \<Longrightarrow> located D fs e x \<Longrightarrow> kd_fileid e \<le> hi \<Longrightarrow> \<exists>i. pinned D fs hi rm e x i"
  by (auto simp: located_def pinned_def intro: fs_ok_inode)

lemma pinned_rely:
  assumes p: "pinned D fs hi rm e x i" and r: "rely rm' kd fs hi kd' fs' hi'" and "rm \<or> rm' \<longrightarrow> rm''"
  shows "pinned D fs' hi' rm'' e x i"
proof -
  have i: "i < inext fs" and f: "kd_fileid e \<le> hi" using p by (simp_all add: pinned_def)
  from r i obtain z where z: "idata fs' i = idata fs i @ z" unfolding rely_def by blast
  have "kd_pos e + kd_len e \<le> length (idata fs i)" using p by (simp add: pinned_def)
  from sub_slice_prefix[OF this z] this z have d: "kd_pos e + kd_len e \<le> length (idata fs' i)"
    "sub_slice (idata fs' i) (kd_pos e) (kd_pos e + kd_len e) = sub_slice (idata fs i) (kd_pos e) (kd_pos e + kd_len e)"
    by simp_all
  let ?name = "datafile_name (kd_fileid e)"
  have "map_of (dir fs') ?name = Some i \<or> rm'' \<and> map_of (dir fs') ?name = None"
  proof (cases "map_of (dir fs) ?name")
    case None
    have "map_of (dir fs') ?name \<noteq> None \<longrightarrow> map_of (dir fs') ?name = map_of (dir fs) ?name"
      using r f by (simp add: rely_def old_names_def)
    moreover have "rm" using p None by (simp add: pinned_def)
    ultimately show ?thesis using None assms(3) by (cases "map_of (dir fs') ?name") simp_all
  next
    case (Some j)
    with p have "j = i" by (simp add: pinned_def)
    have "map_of (dir fs') ?name \<noteq> None \<longrightarrow> map_of (dir fs') ?name = map_of (dir fs) ?name"
      using r f by (simp add: rely_def old_names_def)
    moreover have "rm' \<or> map_of (dir fs') ?name = Some i" using r Some \<open>j = i\<close> by (simp add: rely_def) blast
    ultimately show ?thesis using Some \<open>j = i\<close> assms(3) by (cases "map_of (dir fs') ?name") simp_all
  qed
  with p d r f i show ?thesis unfolding pinned_def rely_def by (metis order_trans less_le_trans)
qed

text \<open>What the call returns: \<open>v\<close>, or an error when the file it needed had been removed.\<close>

definition outcome :: "bytes option \<Rightarrow> bool \<Rightarrow> (bc_error, bytes option) result \<Rightarrow> bool" where
  "outcome v rm r \<longleftrightarrow> r = Inr v \<or> v \<noteq> None \<and> rm \<and> r = Inl (Err (BcIo NotFound))"

fun get_ok :: "'l deps \<Rightarrow> keydir \<Rightarrow> fs \<Rightarrow> nat \<Rightarrow> bytes option \<Rightarrow> bool \<Rightarrow> 'l get_at \<Rightarrow> bool" where
  "get_ok D kd fs hi v rm (Looking l) = False"
| "get_ok D kd fs hi v rm Checking = False"
| "get_ok D kd fs hi v rm Popping = False"
| "get_ok D kd fs hi v rm (Opening l e) \<longleftrightarrow> cache_ok D kd fs hi l \<and> v \<noteq> None \<and>
     (\<exists>x i. pinned D fs hi rm e x i \<and> d_value x = v)"
| "get_ok D kd fs hi v rm (Mapping l e i) \<longleftrightarrow> cache_ok D kd fs hi l \<and> v \<noteq> None \<and>
     (\<exists>x. pinned D fs hi rm e x i \<and> d_value x = v)"
| "get_ok D kd fs hi v rm (Reading l e rd hit) \<longleftrightarrow> cache_ok D kd fs hi l \<and> v \<noteq> None \<and>
     (\<exists>x. pinned D fs hi rm e x (rd_file rd) \<and> d_value x = v) \<and>
     reader_ok kd fs (kd_fileid e) rd \<and> (hit \<longrightarrow> lru_get D (kd_fileid e) l \<noteq> None) \<and>
     (kd_pos e < mmap_len rd \<longrightarrow> kd_pos e + kd_len e \<le> mmap_len rd)"
| "get_ok D kd fs hi v rm (Returning l r) \<longleftrightarrow> cache_ok D kd fs hi l \<and> outcome v rm r"
| "get_ok D kd fs hi v rm (Finished r) \<longleftrightarrow> outcome v rm r"

text \<open>Before the lookup.\<close>

fun get_early :: "'l deps \<Rightarrow> keydir \<Rightarrow> fs \<Rightarrow> nat \<Rightarrow> 'l get_at \<Rightarrow> bool" where
  "get_early D kd fs hi (Looking l) \<longleftrightarrow> cache_ok D kd fs hi l"
| "get_early D kd fs hi Checking = True"
| "get_early D kd fs hi Popping = True"
| "get_early D kd fs hi (Finished r) \<longleftrightarrow> r = Inl (Err Closed)"
| "get_early D kd fs hi pc = False"

lemma get_early_rely:
  assumes "get_early D kd fs hi pc" and "rely rm kd fs hi kd' fs' hi'"
  shows "get_early D kd' fs' hi' pc"
  using assms cache_ok_rely by (cases pc) auto

lemma outcome_mono: "outcome v rm r \<Longrightarrow> rm \<or> rm' \<longrightarrow> rm'' \<Longrightarrow> outcome v rm'' r"
  by (auto simp: outcome_def)

lemma get_ok_rely:
  assumes g: "get_ok D kd fs hi v rm pc" and r: "rely rm' kd fs hi kd' fs' hi'" and m: "rm \<or> rm' \<longrightarrow> rm''"
  shows "get_ok D kd' fs' hi' v rm'' pc"
proof -
  have c: "cache_ok D kd fs hi l \<longrightarrow> cache_ok D kd' fs' hi' l" for l by (intro impI cache_ok_rely[OF _ r])
  have p: "pinned D fs hi rm e x i \<longrightarrow> pinned D fs' hi' rm'' e x i" for e x i by (intro impI pinned_rely[OF _ r m])
  have o: "outcome v rm q \<longrightarrow> outcome v rm'' q" for q by (intro impI outcome_mono[OF _ m])
  show ?thesis
  proof (cases pc)
    case (Opening l e)
    show ?thesis using g c p unfolding Opening get_ok.simps by blast
  next
    case (Mapping l e i)
    show ?thesis using g c p unfolding Mapping get_ok.simps by blast
  next
    case (Reading l e rd hit)
    with g have "kd_fileid e \<le> hi" by (auto simp: pinned_def)
    show ?thesis using g c p reader_ok_rely[OF _ \<open>kd_fileid e \<le> hi\<close> r] unfolding Reading get_ok.simps by blast
  qed (use g c o in simp_all)
qed

subsection \<open>The steps of a get\<close>

lemma same_no_faults: "same_files fs fs' \<Longrightarrow> faults fs = [] \<Longrightarrow> fs' = fs"
  by (cases fs; cases fs') (simp add: same_files_def)

lemma reader_slice_same: "reader_slice B rd len pos fs = (r, rd', fs') \<Longrightarrow> same_files fs fs' \<and> rd_file rd' = rd_file rd"
  by (auto simp: reader_slice_def and_then_Inr_iff elim!: try_opE split: if_splits prod.splits sum.splits dest!: map_file_cases(1))

text \<open>A \<open>get\<close> changes the pool and nothing else.\<close>

lemma get_step_frame:
  assumes "get_step D B u k pc st = Some (pc', st')" and nf: "faults (files st) = []"
  shows "st' = st\<lparr>pool := pool st'\<rparr>"
proof -
  have "st\<lparr>files := fs\<rparr> = st" if "same_files (files st) fs" for fs
    using same_no_faults[OF that nf] by simp
  with assms show ?thesis
    by (cases pc) (auto dest!: open_read_same map_file_cases(1) reader_slice_same simp: reader_at_def split: list.splits prod.splits)
qed

text \<open>The pool's readers stay in order, whoever holds them.\<close>

lemma fresh_reader_ok:
  assumes kd: "entries_ok D kd fs hi" and p: "pinned D fs hi rm e x i" and ok: "fs_ok fs"
  shows "reader_ok kd fs (kd_fileid e) \<lparr>rd_file = i, mmap_len = length (idata fs i)\<rparr>"
proof -
  have "kd_pos e' + kd_len e' \<le> length (idata fs i)" if e': "(k', e') \<in> set kd" "kd_fileid e' = kd_fileid e" for k' e'
  proof -
    from kd e'(1) obtain y where "located D fs e' y" unfolding entries_ok_def by blast
    then obtain j where "map_of (dir fs) (datafile_name (kd_fileid e)) = Some j" "kd_pos e' + kd_len e' \<le> length (idata fs j)"
      using e'(2) by (auto simp: located_def)
    with p show ?thesis by (auto simp: pinned_def)
  qed
  with p show ?thesis by (auto simp: reader_ok_def pinned_def)
qed

lemma pinned_slice:
  assumes kd: "entries_ok D kd fs hi" and ok: "fs_ok fs" and nf: "faults fs = []"
    and p: "pinned D fs hi rm e x (rd_file rd)" and rd: "reader_ok kd fs (kd_fileid e) rd"
    and b: "kd_pos e < mmap_len rd \<longrightarrow> kd_pos e + kd_len e \<le> mmap_len rd"
  shows "\<exists>rd'. reader_slice B rd (kd_len e) (kd_pos e) fs = (Inr (enc_data D x), rd', fs) \<and> reader_ok kd fs (kd_fileid e) rd'"
proof (cases "mmap_len rd \<le> kd_pos e")
  case True
  let ?rd = "rd\<lparr>mmap_len := length (idata fs (rd_file rd))\<rparr>"
  have "reader_ok kd fs (kd_fileid e) ?rd" using fresh_reader_ok[OF kd p ok] by (cases rd) simp
  with True p nf show ?thesis by (auto simp: reader_slice_def map_file_def pinned_def)
next
  case False
  with p rd b show ?thesis by (auto simp: reader_slice_def pinned_def)
qed

lemma reading_ok:
  assumes D: "deps_laws D" and kd: "entries_ok D kd fs hi" and ok: "fs_ok fs" and nf: "faults fs = []"
    and g: "get_ok D kd fs hi v rm (Reading l e rd hit)" and st: "files st = fs"
  shows "\<exists>l'. get_step D B u k (Reading l e rd hit) st = Some (Returning l' (Inr v), st) \<and> cache_ok D kd fs hi l'"
proof -
  from g obtain x where p: "pinned D fs hi rm e x (rd_file rd)" "d_value x = v" by auto
  from pinned_slice[OF kd ok nf p(1), of B] g obtain rd' where
    sl: "reader_slice B rd (kd_len e) (kd_pos e) fs = (Inr (enc_data D x), rd', fs)" "reader_ok kd fs (kd_fileid e) rd'" by auto
  have "decode_entry D (enc_data D x) = Inr x"
    using p(1) deps_laws.dec_enc_data[OF D, of x "[]"] by (auto simp: decode_entry_def pinned_def)
  with sl have "reader_at D B rd (kd_len e) (kd_pos e) fs = (Inr x, rd', fs)" by (simp add: reader_at_def)
  moreover have "kd_fileid e \<le> hi" using p(1) by (simp add: pinned_def)
  ultimately show ?thesis
    using st g p(2) cache_ok_store[OF D _ sl(2), of hi l] by (auto simp: give_back_def)
qed

lemma get_ok_step:
  assumes D: "deps_laws D" and kd: "entries_ok D kd (files st) hi" and ok: "fs_ok (files st)" and nf: "faults (files st) = []"
    and g: "get_ok D kd (files st) hi v rm pc" and pool: "\<forall>l \<in> set (pool st). cache_ok D kd (files st) hi l"
    and step: "get_step D B u k pc st = Some (pc', st')"
  shows "get_ok D kd (files st) hi v rm pc' \<and> (\<forall>l \<in> set (pool st'). cache_ok D kd (files st) hi l)"
proof (cases pc)
  case (Opening l e)
  from g Opening obtain x i where p: "pinned D (files st) hi rm e x i" "d_value x = v" by auto
  show ?thesis
  proof (cases "map_of (dir (files st)) (datafile_name (kd_fileid e))")
    case None
    with p have "rm" by (auto simp: pinned_def)
    with None Opening step g pool nf show ?thesis by (auto simp: open_read_def give_back_def outcome_def)
  next
    case (Some j)
    with p(1) have "j = i" by (auto simp: pinned_def)
    with Some Opening step g pool nf p show ?thesis by (auto simp: open_read_def)
  qed
next
  case (Mapping l e i)
  from g Mapping obtain x where p: "pinned D (files st) hi rm e x i" "d_value x = v" by auto
  with Mapping step g pool nf fresh_reader_ok[OF kd p(1) ok] show ?thesis
    by (auto simp: map_file_def pinned_def)
next
  case (Reading l e rd hit)
  from reading_ok[OF D kd ok nf g[unfolded Reading] refl, of B u k] step Reading pool g
  show ?thesis by (auto simp: outcome_def)
next
  case (Returning l r)
  with step g pool show ?thesis by auto
qed (use g step in auto)

text \<open>The lookup is where the value is fixed. A key that is being replaced is not found.\<close>

lemma lookup_step:
  assumes D: "deps_laws D" and kd: "keydir_ok D (keydir st) (files st) hi" and ok: "fs_ok (files st)"
    and sub: "set (keydir st) \<subseteq> set kd" and l: "cache_ok D kd (files st) hi l"
    and step: "get_step D B u k (Looking l) st = Some (pc', st')"
  shows "get_ok D kd (files st) hi (if u = Some k then None else abs_store D st k) False pc' \<and> st' = st"
proof (cases "keydir_lookup u k st")
  case None
  with step l show ?thesis by (auto simp: abs_store_def outcome_def keydir_lookup_def split: if_splits)
next
  case (Some e')
  then have u: "u \<noteq> Some k" by (auto simp: keydir_lookup_def)
  with Some obtain e where Some: "map_of (keydir st) k = Some e" "keydir_lookup u k st = Some e" by (auto simp: keydir_lookup_def)
  from keydir_okD(2)[OF kd map_of_SomeD[OF Some(1)]] obtain x where
    x: "kd_fileid e \<le> hi" "located D (files st) e x" "d_value x \<noteq> None" by blast
  have v: "(if u = Some k then None else abs_store D st k) = d_value x" using u Some stored_located[OF D x(2)] by (simp add: abs_store_def)
  from located_pinned[OF ok x(2,1)] obtain i where p: "pinned D (files st) hi False e x i" by blast
  show ?thesis
  proof (cases "lru_get D (kd_fileid e) l")
    case None
    with \<open>keydir_lookup u k st = Some e\<close> step have "pc' = Opening l e" "st' = st" by simp_all
    with l v x(3) p show ?thesis by (simp, blast)
  next
    case (Some rd)
    with l have rd: "reader_ok kd (files st) (kd_fileid e) rd" by (simp add: cache_ok_def)
    have "(k, e) \<in> set kd" using map_of_SomeD[OF \<open>map_of (keydir st) k = Some e\<close>] sub by blast
    with rd have b: "kd_pos e < mmap_len rd \<longrightarrow> kd_pos e + kd_len e \<le> mmap_len rd" by (auto simp: reader_ok_def)
    from rd p have "rd_file rd = i" by (auto simp: reader_ok_def pinned_def)
    with p v x(3) rd b l Some \<open>keydir_lookup u k st = Some e\<close> step show ?thesis by auto
  qed
qed

lemma get_early_step:
  assumes "get_early D kd (files st) hi pc" and "\<And>l. pc \<noteq> Looking l"
    and pool: "\<forall>l \<in> set (pool st). cache_ok D kd (files st) hi l"
    and step: "get_step D B u k pc st = Some (pc', st')"
  shows "get_early D kd (files st) hi pc' \<and> set (pool st') \<subseteq> set (pool st)"
  using assms by (cases pc) (auto split: list.splits)

end
