(* ===== verification/ConcurrentWriter.thy ===== *)
theory ConcurrentWriter
  imports ConcurrentGets
begin

section \<open>What the writer guarantees\<close>

text \<open>
  The invariant of the system between any two steps of the writer, a merge included, and that
  each step of the writer keeps it, does to the store what its event says and is one that a
  \<open>get\<close> may rely on.
\<close>

subsection \<open>The invariant\<close>

fun pending :: "writer_at \<Rightarrow> keydir" where
  "pending (Indexing k v e) = [(k, e)]"
| "pending (Merging lid ids kes) = kes"
| "pending w = []"

definition promised :: "'l system \<Rightarrow> keydir" where
  "promised s = pending (writer_at s) @ keydir (shared s)"

definition highest :: "'l system \<Rightarrow> nat" where
  "highest s = (case writer_at s of Merging lid ids kes \<Rightarrow> lid | _ \<Rightarrow> active_fileid (shared s))"

text \<open>
  In a merge: an entry still to be moved has a copy in a file that stays, and what the keydir
  still has in a file that goes is to be moved.
\<close>

definition merging :: "'l deps \<Rightarrow> nat \<Rightarrow> nat list \<Rightarrow> keydir \<Rightarrow> 'l storage \<Rightarrow> bool" where
  "merging D lid ids kes st \<longleftrightarrow>
     settled D lid st \<and> faults (files st) = [] \<and> known_files lid (w_stats st) \<and>
     (\<forall>(k, e) \<in> set kes. kd_fileid e \<le> lid \<and> kd_fileid e \<notin> set ids \<and>
        (\<exists>e0 x. map_of (keydir st) k = Some e0 \<and> located D (files st) e0 x \<and> located D (files st) e x)) \<and>
     distinct (map fst kes) \<and>
     (\<forall>(k, e) \<in> set (keydir st). kd_fileid e \<in> set ids \<longrightarrow> k \<in> fst ` set kes)"

definition writer_inv :: "'l deps \<Rightarrow> writer_at \<Rightarrow> 'l storage \<Rightarrow> bool" where
  "writer_inv D w st \<longleftrightarrow>
     (case w of
        Merging lid ids kes \<Rightarrow> merging D lid ids kes st
      | Indexing k v e \<Rightarrow> storage_inv D st \<and> calm st \<and> kd_fileid e \<le> active_fileid st \<and>
          (\<exists>t. located D (files st) e \<lparr>d_tstamp = t, d_key = k, d_value = Some v\<rparr>)
      | _ \<Rightarrow> storage_inv D st \<and> calm st)"

definition caches_ok :: "'l deps \<Rightarrow> 'l system \<Rightarrow> bool" where
  "caches_ok D s \<longleftrightarrow> (\<forall>l \<in> set (w_readers (shared s) # pool (shared s)).
     cache_ok D (promised s) (files (shared s)) (highest s) l)"

definition sys_inv :: "'l deps \<Rightarrow> 'l system \<Rightarrow> bool" where
  "sys_inv D s \<longleftrightarrow> writer_inv D (writer_at s) (shared s) \<and> caches_ok D s"

lemma sys_invD:
  assumes "sys_inv D s"
  shows "fs_ok (files (shared s))" and "faults (files (shared s)) = []"
    and "keydir_ok D (keydir (shared s)) (files (shared s)) (highest s)"
    and "entries_ok D (promised s) (files (shared s)) (highest s)"
proof -
  have w: "writer_inv D (writer_at s) (shared s)" using assms by (simp add: sys_inv_def)
  show ok: "fs_ok (files (shared s))" "faults (files (shared s)) = []"
    and kd: "keydir_ok D (keydir (shared s)) (files (shared s)) (highest s)"
    using w by (auto simp: writer_inv_def highest_def merging_def settled_def calm_def dest: storage_invD(1,2) split: writer_at.splits)
  have "kd_fileid e \<le> highest s \<and> (\<exists>x. located D (files (shared s)) e x)" if "(k, e) \<in> set (pending (writer_at s))" for k e
    using w that by (cases "writer_at s") (auto simp: writer_inv_def highest_def merging_def)
  moreover have "kd_fileid e \<le> highest s \<and> (\<exists>x. located D (files (shared s)) e x)" if "(k, e) \<in> set (keydir (shared s))" for k e
    using keydir_okD(2)[OF kd that] by blast
  ultimately show "entries_ok D (promised s) (files (shared s)) (highest s)"
    unfolding entries_ok_def promised_def by auto
qed

text \<open>A step that is a \<open>rely\<close> step keeps the caches.\<close>

abbreviation step_rely :: "bool \<Rightarrow> 'l system \<Rightarrow> 'l system \<Rightarrow> bool" where
  "step_rely rm s s' \<equiv> rely rm (promised s) (files (shared s)) (highest s) (promised s') (files (shared s')) (highest s')"

lemma caches_ok_rely:
  assumes "caches_ok D s" and "step_rely rm s s'"
    and "set (w_readers (shared s') # pool (shared s')) \<subseteq> set (w_readers (shared s) # pool (shared s))"
  shows "caches_ok D s'"
  unfolding caches_ok_def
proof
  fix l assume "l \<in> set (w_readers (shared s') # pool (shared s'))"
  with assms(3) have "l \<in> set (w_readers (shared s) # pool (shared s))" by (rule subsetD)
  with assms(1) have "cache_ok D (promised s) (files (shared s)) (highest s) l" unfolding caches_ok_def by (rule bspec)
  then show "cache_ok D (promised s') (files (shared s')) (highest s') l" by (rule cache_ok_rely[OF _ assms(2)])
qed

text \<open>What is to be shown of a step.\<close>

definition step_ok :: "'l deps \<Rightarrow> system_event \<Rightarrow> 'l system \<Rightarrow> 'l system \<Rightarrow> bool" where
  "step_ok D ev s s' \<longleftrightarrow> sys_inv D s' \<and> step_rely (ev = MergeRemove) s s' \<and>
     abs_store D (shared s') = event_effect ev (abs_store D (shared s)) \<and>
     closed (shared s') = (closed (shared s) \<or> ev = CloseStorage)"

lemma step_okI:
  assumes "sys_inv D s" and "writer_inv D (writer_at s') (shared s')" and "step_rely (ev = MergeRemove) s s'"
    and "set (w_readers (shared s') # pool (shared s')) \<subseteq> set (w_readers (shared s) # pool (shared s))"
    and "abs_store D (shared s') = event_effect ev (abs_store D (shared s))"
    and "closed (shared s') = (closed (shared s) \<or> ev = CloseStorage)"
  shows "step_ok D ev s s'"
  using assms caches_ok_rely[OF _ assms(3,4)] by (simp add: step_ok_def sys_inv_def)

subsection \<open>put and delete\<close>

text \<open>An append: the writer steps, and the entry lies behind what there was.\<close>

lemma append_ok:
  assumes D: "deps_laws D" and inv: "storage_inv D st" and c: "calm st"
    and run: "try_op (timestamp st) (\<lambda>t st. write_entry D B t k v st) = (Inr e, st')"
  shows "storage_inv D st' \<and> calm st' \<and> abs_store D st' = abs_store D st \<and> kd_fileid e = active_fileid st \<and>
      (\<exists>t. located D (files st') e \<lparr>d_tstamp = t, d_key = k, d_value = v\<rparr>)"
    and "grows (files st) (files st')" and "old_names (active_fileid st) (files st) (files st')"
    and "active_fileid st \<le> active_fileid st'" and "keydir st' = keydir st"
    and "w_readers st' = w_readers st" and "pool st' = pool st" and "closed st' = closed st"
    and "\<exists>i. map_of (dir (files st)) (datafile_name (active_fileid st)) = Some i \<and> length (idata (files st) i) \<le> kd_pos e"
proof -
  from run obtain t s0 where t: "timestamp st = (Inr t, s0)" and w: "write_entry D B t k v s0 = (Inr e, st')"
    by (elim try_op_InrE)
  note s0 = inv_timestamp[OF inv t]
  obtain cl where cl: "s0 = st\<lparr>clock := cl\<rparr>" using timestamp_cases[OF t] by metis
  note we = write_entry_Inr[OF D storage_inv_ready[OF s0(1)] s0(4)[OF refl] w]
  note step = inv_step[OF D s0(1) we(1)] and calm = write_entry_calm[OF w we(1) timestamp_calm[OF t c]]
  show "storage_inv D st' \<and> calm st' \<and> abs_store D st' = abs_store D st \<and> kd_fileid e = active_fileid st \<and>
      (\<exists>t. located D (files st') e \<lparr>d_tstamp = t, d_key = k, d_value = v\<rparr>)"
    using step calm s0(2) we(2,3) cl by auto
  show "grows (files st) (files st')" "old_names (active_fileid st) (files st) (files st')"
    "active_fileid st \<le> active_fileid st'" "keydir st' = keydir st" "w_readers st' = w_readers st" "pool st' = pool st"
    "closed st' = closed st"
    using we(1) cl by (simp_all add: writer_step_def same_rest_def)
  show "\<exists>i. map_of (dir (files st)) (datafile_name (active_fileid st)) = Some i \<and> length (idata (files st) i) \<le> kd_pos e"
    using storage_invD(3)[OF inv] we(4) cl by (simp add: writer_ok_def)
qed

lemma put_append_ok:
  assumes D: "deps_laws D" and s: "sys_inv D s" "writer_at s = Ready" and run: "put_append D B k v (shared s) = (Inr e, st')"
  shows "step_ok D (PutAppend k v) s (s\<lparr>shared := st', writer_at := Indexing k v e\<rparr>)"
proof -
  have inv: "storage_inv D (shared s)" "calm (shared s)" using s by (simp_all add: sys_inv_def writer_inv_def)
  note a = append_ok[OF D inv run[unfolded put_append_def]]
  show ?thesis
  proof (rule step_okI[OF s(1)])
    show "step_rely (PutAppend k v = MergeRemove) s (s\<lparr>shared := st', writer_at := Indexing k v e\<rparr>)"
      using a s(2) by (auto simp: rely_def promised_def highest_def grows_def)
  qed (use a in \<open>auto simp: writer_inv_def\<close>)
qed

lemma delete_append_ok:
  assumes D: "deps_laws D" and s: "sys_inv D s" "writer_at s = Ready" and run: "delete_append D B k (shared s) = (Inr e, st')"
  shows "step_ok D (DeleteAppend k) s (s\<lparr>shared := st', writer_at := Removing k\<rparr>)"
proof -
  have inv: "storage_inv D (shared s)" "calm (shared s)" using s by (simp_all add: sys_inv_def writer_inv_def)
  note a = append_ok[OF D inv run[unfolded delete_append_def]]
  show ?thesis
  proof (rule step_okI[OF s(1)])
    show "step_rely (DeleteAppend k = MergeRemove) s (s\<lparr>shared := st', writer_at := Removing k\<rparr>)"
      using a s(2) by (auto simp: rely_def promised_def highest_def grows_def)
  qed (use a in \<open>auto simp: writer_inv_def\<close>)
qed

text \<open>Indexing: the new entry was promised.\<close>

lemma caches_okD:
  assumes "caches_ok D s" and "l \<in> set (w_readers (shared s) # pool (shared s))" and "set kd \<subseteq> set (promised s)"
  shows "cache_ok D kd (files (shared s)) (highest s) l"
  using cache_ok_subset[OF bspec[OF assms(1)[unfolded caches_ok_def] assms(2)] assms(3)] .

lemma quiet_fields:
  "quiet st st' \<Longrightarrow> same_files (files st) (files st') \<and> keydir st' = keydir st \<and> active_fileid st' = active_fileid st \<and>
    w_readers st' = w_readers st \<and> pool st' = pool st \<and> closed st' = closed st"
  by (simp add: quiet_def same_rest_def)

lemma rely_same:
  assumes "same_files fs fs'" and "set kd' \<subseteq> set kd"
  shows "rely rm kd fs hi kd' fs' hi"
  using assms by (intro rely_grows) (auto simp: same_files_grows old_names_def same_files_def)

lemma put_index_ok:
  assumes D: "deps_laws D" and s: "sys_inv D s" "writer_at s = Indexing k v e" and run: "put_index B k e (shared s) = (Inr u, st')"
  shows "step_ok D (PutIndex k v) s (s\<lparr>shared := st', writer_at := Ready, unlinked := None\<rparr>)"
proof -
  let ?st = "shared s" and ?st1 = "(shared s)\<lparr>keydir := AList.update k e (keydir (shared s))\<rparr>"
  have inv: "storage_inv D ?st" "calm ?st" "kd_fileid e \<le> active_fileid ?st"
    using s by (simp_all add: sys_inv_def writer_inv_def)
  obtain t where x: "located D (files ?st) e \<lparr>d_tstamp = t, d_key = k, d_value = Some v\<rparr>"
    using s by (auto simp: sys_inv_def writer_inv_def)
  have p: "promised s = (k, e) # keydir ?st" "highest s = active_fileid ?st" using s(2) by (simp_all add: promised_def highest_def)
  have sub: "set (AList.update k e (keydir ?st)) \<subseteq> set (promised s)" using set_AList_update[of k e] p(1) by auto
  have st1: "storage_inv D ?st1"
  proof (rule storage_invI)
    show "ready ?st1" using storage_inv_ready[OF inv(1)] by (simp add: ready_def)
    show "keydir_ok D (keydir ?st1) (files ?st1) (active_fileid ?st1)"
      using keydir_ok_update[OF storage_invD(2)[OF inv(1)] inv(3) x] by simp
    show "cache_ok D (keydir ?st1) (files ?st1) (active_fileid ?st1) l" if "l \<in> set (w_readers ?st1 # pool ?st1)" for l
      using caches_okD[OF _ _ sub] s(1) that p(2) by (simp add: sys_inv_def)
    show "in_i64 r" if "Some r \<in> set (clock ?st1)" for r using storage_invD(6)[OF inv(1)] that by simp
  qed
  have "abs_store D ?st1 = (abs_store D ?st)(k \<mapsto> v)"
    using stored_located[OF D x] by (auto simp: abs_store_def update_conv' fun_eq_iff split: option.split)
  moreover have q: "quiet ?st1 st'" using run with_stats_quiet by (auto simp: put_index_def keydir_set_def split: option.splits)
  moreover have "calm st'"
  proof (cases "map_of (keydir ?st) k")
    case None
    with run inv(2) show ?thesis by (auto simp: put_index_def keydir_set_def)
  next
    case (Some prev)
    with run have ws: "with_stats (kd_fileid prev) (overwrite B (kd_len prev)) ?st1 = (Inr u, st')"
      by (simp add: put_index_def keydir_set_def)
    have "kd_fileid prev \<le> active_fileid ?st"
      using keydir_okD(2)[OF storage_invD(2)[OF inv(1)] map_of_SomeD[OF Some]] by simp
    with overwrite_calm[OF ws] inv(2) show ?thesis by simp
  qed
  moreover have "rely False (promised s) (files ?st) (active_fileid ?st) (keydir st') (files st') (active_fileid ?st)"
    by (rule rely_same) (use quiet_fields[OF q] sub in simp_all)
  ultimately show ?thesis
    using inv_quiet[OF D st1 q] quiet_fields[OF q] p
    by (intro step_okI[OF s(1)]) (auto simp: writer_inv_def promised_def highest_def)
qed

lemma delete_index_ok:
  assumes D: "deps_laws D" and s: "sys_inv D s" "writer_at s = Removing k" and run: "delete_index B k (shared s) = (Inr b, st')"
  shows "step_ok D (DeleteIndex k) s (s\<lparr>shared := st', writer_at := Ready\<rparr>)"
proof -
  let ?st = "shared s" and ?st1 = "(shared s)\<lparr>keydir := AList.delete k (keydir (shared s))\<rparr>"
  have inv: "storage_inv D ?st" "calm ?st" using s by (simp_all add: sys_inv_def writer_inv_def)
  note rm = inv_remove[OF inv(1), of k]
  have q: "quiet ?st1 st'" using run with_stats_quiet
    by (auto simp: delete_index_def keydir_remove_def split: option.splits elim!: try_op_InrE)
  moreover have "calm st'"
  proof (cases "map_of (keydir ?st) k")
    case None
    with run inv(2) show ?thesis by (auto simp: delete_index_def keydir_remove_def)
  next
    case (Some prev)
    with run obtain u where ws: "with_stats (kd_fileid prev) (overwrite B (kd_len prev)) ?st1 = (Inr u, st')"
      by (auto simp: delete_index_def keydir_remove_def elim!: try_op_InrE)
    have "kd_fileid prev \<le> active_fileid ?st"
      using keydir_okD(2)[OF storage_invD(2)[OF inv(1)] map_of_SomeD[OF Some]] by simp
    with overwrite_calm[OF ws] inv(2) show ?thesis by simp
  qed
  ultimately show ?thesis
    using inv_quiet[OF D rm(1) q] rm(2) quiet_fields[OF q] set_AList_delete[of k "keydir ?st"] s(2)
    by (intro step_okI[OF s(1)]) (auto simp: writer_inv_def promised_def highest_def intro: rely_same)
qed

lemma sync_ok:
  assumes D: "deps_laws D" and s: "sys_inv D s" "writer_at s = Ready" and run: "writer_sync (shared s) = (Inr u, st')"
  shows "step_ok D Sync s (s\<lparr>shared := st'\<rparr>)"
proof -
  have inv: "storage_inv D (shared s)" "calm (shared s)" using s by (simp_all add: sys_inv_def writer_inv_def)
  have q: "quiet (shared s) st'" using run sync_quiet[of "w_log (shared s)"] by (simp add: writer_sync_def)
  moreover have "w_stats st' = w_stats (shared s)" using run on_files_stats by (auto simp: writer_sync_def)
  ultimately have "calm st'" using calm_same[OF inv(2), of st'] by (simp add: quiet_def)
  then show ?thesis
    using inv_quiet[OF D inv(1) q] quiet_fields[OF q] s(2)
    by (intro step_okI[OF s(1)]) (auto simp: writer_inv_def promised_def highest_def intro: rely_same)
qed

subsection \<open>Merging\<close>

lemma mergingD:
  assumes "merging D lid ids kes st"
  shows "settled D lid st" and "faults (files st) = []" and "known_files lid (w_stats st)" and "distinct (map fst kes)"
    and "(k, e) \<in> set kes \<Longrightarrow> kd_fileid e \<le> lid \<and> kd_fileid e \<notin> set ids \<and>
        (\<exists>e0 x. map_of (keydir st) k = Some e0 \<and> located D (files st) e0 x \<and> located D (files st) e x)"
    and "(k, e) \<in> set (keydir st) \<Longrightarrow> kd_fileid e \<in> set ids \<Longrightarrow> k \<in> fst ` set kes"
  using assms unfolding merging_def by blast+

lemma mergingI:
  assumes "settled D lid st" and "faults (files st) = []" and "known_files lid (w_stats st)" and "distinct (map fst kes)"
    and "\<And>k e. (k, e) \<in> set kes \<Longrightarrow> kd_fileid e \<le> lid \<and> kd_fileid e \<notin> set ids \<and>
        (\<exists>e0 x. map_of (keydir st) k = Some e0 \<and> located D (files st) e0 x \<and> located D (files st) e x)"
    and "\<And>k e. (k, e) \<in> set (keydir st) \<Longrightarrow> kd_fileid e \<in> set ids \<Longrightarrow> k \<in> fst ` set kes"
  shows "merging D lid ids kes st"
  using assms unfolding merging_def by blast

lemma settledI:
  assumes "fs_ok (files st)" and "keydir_ok D (keydir st) (files st) lid" and "bw_file (w_log st) < inext (files st)"
    and "\<And>l. l \<in> set (w_readers st # pool st) \<Longrightarrow> cache_ok D (keydir st) (files st) lid l"
    and "lid < 2 ^ 63 + inext (files st)" and "\<And>t. Some t \<in> set (clock st) \<Longrightarrow> in_i64 t"
  shows "settled D lid st"
  using assms unfolding settled_def by blast

lemma settledD:
  assumes "settled D lid st"
  shows "fs_ok (files st)" and "keydir_ok D (keydir st) (files st) lid" and "bw_file (w_log st) < inext (files st)"
    and "l \<in> set (w_readers st # pool st) \<Longrightarrow> cache_ok D (keydir st) (files st) lid l"
    and "lid < 2 ^ 63 + inext (files st)" and "Some t \<in> set (clock st) \<Longrightarrow> in_i64 t"
  using assms unfolding settled_def by blast+

text \<open>Copying: new files, and the entries that will move to them.\<close>

lemma merge_files_Inr:
  assumes D: "deps_laws D" and inv: "storage_inv D st" and c: "calm st" and fit: "tally kd_len (keydir st) < 2 ^ 63"
    and run: "merge_files D B st = (Inr (lid, ids, kes), st')"
  obtains s1 where "s1 = st\<lparr>files := files s1\<rparr>" and "same_files (files st) (files s1)" and "merge_frame D s1 st'"
    and "copied D s1 (files st') lid kes" and "lid < 2 ^ 63 + inext (files st')" and "active_fileid st < lid"
    and "set (map fst kes) = fst ` {(k, e) \<in> set (keydir st). kd_fileid e \<in> set ids}"
    and "known_files lid (w_stats st')" and "\<forall>f \<in> set ids. f \<le> active_fileid st"
proof -
  from run obtain f s1 where f: "u64_add B (active_fileid st) 1 = (Inr f :: (bc_error, nat) result)"
    and sel: "fileids_to_merge B st = (Inr ids, s1)" and copy: "merge_copy D B f ids s1 = (Inr (lid, kes), st')"
    by (auto simp: merge_files_def split: sum.splits elim!: try_op_InrE)
  from select_files_ok[OF sel[unfolded fileids_to_merge_def]] obtain fs1 where
    ids: "set ids \<subseteq> fst ` set (w_stats st)" and s1: "s1 = st\<lparr>files := fs1\<rparr>" "same_files (files st) fs1" by auto
  note i1 = inv_same_files[OF inv s1(2), folded s1(1)]
  have nf1: "faults (files s1) = []" using s1 c by (simp add: same_files_def calm_def)
  have s1': "tally kd_len (keydir s1) < 2 ^ 63" "active_fileid s1 = active_fileid st" "keydir s1 = keydir st" "w_stats s1 = w_stats st"
    using fit s1(1) by simp_all
  obtain fsx wx where "create_merge_data f (files s1) = (Inr wx, fsx)"
    using copy by (auto simp: merge_copy_def on_files_def split: prod.splits elim!: try_op_InrE)
  from create_merge_data_Inr(8)[OF this storage_invD(1)[OF i1(1)] nf1] have lim: "inext (files s1) < 2 ^ 63" .
  with storage_invD(5)[OF i1(1)] u64_add_Inr[OF f] s1'(2) have f': "f = Suc (active_fileid s1)" by simp
  with storage_invD(5)[OF i1(1)] have "active_fileid s1 < f" "f \<le> 2 ^ 63 + inext (files s1)" by simp_all
  note m = merge_copy_ok[OF D i1(1) nf1 this s1'(1) copy]
  have known: "known_files (active_fileid st) (w_stats st)" using c by (simp add: calm_def)
  with ids have "\<forall>f \<in> set ids. f \<le> active_fileid st" by (auto simp: known_files_def)
  with that[of s1] m s1 s1' known show thesis by simp
qed

lemma merge_files_ok:
  assumes D: "deps_laws D" and s: "sys_inv D s" "writer_at s = Ready" and fit: "tally kd_len (keydir (shared s)) < 2 ^ 63"
    and run: "merge_files D B (shared s) = (Inr (lid, ids, kes), st')"
  shows "step_ok D MergeFiles s (s\<lparr>shared := st', writer_at := Merging lid ids kes\<rparr>)" (is "step_ok D _ _ ?s'")
proof -
  let ?st = "shared s"
  have inv: "storage_inv D ?st" "calm ?st" using s by (simp_all add: sys_inv_def writer_inv_def)
  from merge_files_Inr[OF D inv fit run] obtain s1 where s1: "s1 = ?st\<lparr>files := files s1\<rparr>" "same_files (files ?st) (files s1)"
    and m: "merge_frame D s1 st'" "copied D s1 (files st') lid kes" "lid < 2 ^ 63 + inext (files st')" "active_fileid ?st < lid"
      "set (map fst kes) = fst ` {(k, e) \<in> set (keydir ?st). kd_fileid e \<in> set ids}"
      "known_files lid (w_stats st')" "\<forall>f \<in> set ids. f \<le> active_fileid ?st" .
  have i1: "storage_inv D s1" using inv_same_files(1)[OF inv(1) s1(2)] s1(1) by simp
  have e1: "keydir s1 = keydir ?st" "active_fileid s1 = active_fileid ?st" "w_log s1 = w_log ?st" "pool s1 = pool ?st"
    "clock s1 = clock ?st" "closed s1 = closed ?st"
    using s1(1) by (metis storage.select_convs storage.surjective storage.update_convs(10))+
  have fr: "keydir st' = keydir ?st" "w_log st' = w_log ?st" "pool st' = pool ?st" "clock st' = clock ?st"
    "fs_ok (files st')" "grows (files s1) (files st')" "old_names (active_fileid ?st) (files s1) (files st')"
    "faults (files st') = []" "cache_ok D (keydir ?st) (files st') (active_fileid ?st) (w_readers st')"
    "closed st' = closed ?st"
    using m(1) e1 by (simp_all add: merge_frame_def)
  have g: "grows (files ?st) (files st')" using grows_trans[OF same_files_grows[OF s1(2)] fr(6)] .
  have o: "old_names (active_fileid ?st) (files ?st) (files st')" using fr(7) s1(2) by (simp add: old_names_def same_files_def)
  have new: "\<forall>(k, e) \<in> set kes. active_fileid ?st < kd_fileid e" using m(2) e1 by (auto simp: copied_def)
  have r: "rely rm (keydir ?st) (files st') (active_fileid ?st) (kes @ keydir ?st) (files st') lid" for rm
    using new m(4) by (auto simp: rely_def old_names_def)
  have step: "step_rely False s ?s'"
    using g o new m(4) s(2) fr(1) by (auto simp: rely_def promised_def highest_def grows_def)
  have caches: "caches_ok D ?s'"
    unfolding caches_ok_def
  proof
    fix l assume l: "l \<in> set (w_readers (shared ?s') # pool (shared ?s'))"
    show "cache_ok D (promised ?s') (files (shared ?s')) (highest ?s') l"
    proof (cases "l = w_readers st'")
      case True
      with cache_ok_rely[OF fr(9) r] fr(1) show ?thesis by (simp add: promised_def highest_def)
    next
      case False
      with l fr(3) have "l \<in> set (w_readers ?st # pool ?st)" by simp
      from caches_okD[OF _ this order_refl] s(1) have "cache_ok D (promised s) (files ?st) (highest s) l" by (simp add: sys_inv_def)
      from cache_ok_rely[OF this step] show ?thesis .
    qed
  qed
  have "settled D lid st'"
  proof (rule settledI[OF fr(5) _ _ _ m(3)])
    show "keydir_ok D (keydir st') (files st') lid"
      using keydir_ok_grows[OF storage_invD(2,1)[OF inv(1)] g] m(4) fr(1) by simp
    show "bw_file (w_log st') < inext (files st')"
      using ready_inode[OF storage_inv_ready[OF inv(1)]] g fr(2) by (simp add: grows_def)
    show "cache_ok D (keydir st') (files st') lid l" if "l \<in> set (w_readers st' # pool st')" for l
      using caches_okD[OF caches, of l "keydir st'"] that by (simp add: promised_def highest_def)
    show "in_i64 t" if "Some t \<in> set (clock st')" for t using storage_invD(6)[OF inv(1)] that fr(4) by simp
  qed
  then have "merging D lid ids kes st'"
  proof (rule mergingI[OF _ fr(8) m(6)])
    show "distinct (map fst kes)" using m(2) by (simp add: copied_def)
    show "k \<in> fst ` set kes" if "(k, e) \<in> set (keydir st')" "kd_fileid e \<in> set ids" for k e
      using that m(5) fr(1) by (force simp: image_iff)
    show "kd_fileid e \<le> lid \<and> kd_fileid e \<notin> set ids \<and>
        (\<exists>e0 x. map_of (keydir st') k = Some e0 \<and> located D (files st') e0 x \<and> located D (files st') e x)"
      if ke: "(k, e) \<in> set kes" for k e
    proof -
      from m(2) ke e1 obtain e0 x where x: "active_fileid ?st < kd_fileid e" "kd_fileid e \<le> lid" "map_of (keydir ?st) k = Some e0"
        "located D (files s1) e0 x" "located D (files st') e x" unfolding copied_def by metis
      have "located D (files st') e0 x" using located_grows[OF storage_invD(1)[OF i1] fr(6) x(4)] .
      with x fr(1) m(7) show ?thesis by force
    qed
  qed
  moreover have "abs_store D st' = abs_store D ?st" using abs_store_grows[OF D inv(1) fr(1) g] .
  ultimately show ?thesis using step caches fr(10) by (simp add: step_ok_def sys_inv_def writer_inv_def)
qed

text \<open>Moving one entry: it has the bytes of the one it replaces.\<close>

lemma moved_entry:
  assumes D: "deps_laws D" and m: "merging D lid ids kes st" and ke: "(k, e) \<in> set kes"
  obtains e0 x where "map_of (keydir st) k = Some e0" and "located D (files st) e0 x" and "located D (files st) e x"
    and "d_key x = k" and "d_value x \<noteq> None"
proof -
  from mergingD(5)[OF m ke] obtain e0 x where x: "map_of (keydir st) k = Some e0" "located D (files st) e0 x"
    "located D (files st) e x" by blast
  from keydir_okD(2)[OF settledD(2)[OF mergingD(1)[OF m]] map_of_SomeD[OF x(1)]] obtain y where
    y: "located D (files st) e0 y" "d_key y = k" "d_value y \<noteq> None" by blast
  have "x = y" using located_unique[OF D x(2) y(1)] .
  with that x y show thesis by blast
qed

lemma merge_install_ok:
  assumes D: "deps_laws D" and s: "sys_inv D s" "writer_at s = Merging lid ids ((k, e) # kes)"
  shows "step_ok D MergeInstall s
    (s\<lparr>shared := snd (keydir_set k e (shared s)), writer_at := Merging lid ids kes, unlinked := None\<rparr>)"
proof -
  let ?st = "shared s" and ?st1 = "(shared s)\<lparr>keydir := AList.update k e (keydir (shared s))\<rparr>"
  let ?s' = "s\<lparr>shared := ?st1, writer_at := Merging lid ids kes, unlinked := None\<rparr>"
  have m: "merging D lid ids ((k, e) # kes) ?st" using s by (simp add: sys_inv_def writer_inv_def)
  note st = mergingD[OF m] and set = settledD[OF mergingD(1)[OF m]]
  obtain e0 x where x: "map_of (keydir ?st) k = Some e0" "located D (files ?st) e0 x" "located D (files ?st) e x"
    "d_key x = k" "d_value x \<noteq> None" using moved_entry[OF D m] by (metis list.set_intros(1))
  have hi: "highest s = lid" "promised s = (k, e) # kes @ keydir ?st" using s(2) by (simp_all add: highest_def promised_def)
  have sub: "set (AList.update k e (keydir ?st)) \<subseteq> set (promised s)" using set_AList_update[of k e] hi(2) by auto
  have e: "kd_fileid e \<le> lid" "kd_fileid e \<notin> set ids" using st(5)[of k e] by auto
  have fresh: "k \<notin> fst ` set kes" using st(4) by simp
  have "settled D lid ?st1"
  proof (rule settledI)
    show "keydir_ok D (keydir ?st1) (files ?st1) lid" using keydir_ok_update[OF set(2) e(1) x(3-5)] by simp
    show "cache_ok D (keydir ?st1) (files ?st1) lid l" if "l \<in> set (w_readers ?st1 # pool ?st1)" for l
      using caches_okD[OF _ _ sub] s(1) that hi(1) by (simp add: sys_inv_def)
    show "in_i64 t" if "Some t \<in> set (clock ?st1)" for t using set(6) that by simp
  qed (use set in simp_all)
  then have "merging D lid ids kes ?st1"
  proof (rule mergingI)
    show "k' \<in> fst ` set kes" if "(k', e') \<in> set (keydir ?st1)" "kd_fileid e' \<in> set ids" for k' e'
    proof -
      have dis: "distinct (map fst (keydir ?st))" using keydir_okD(1)[OF set(2)] .
      have "map_of (AList.update k e (keydir ?st)) k' = Some e'" using that(1) distinct_update[OF dis, of k e] by (simp add: map_of_is_SomeI)
      with that(2) e(2) have "k' \<noteq> k" "(k', e') \<in> set (keydir ?st)"
        by (auto simp: update_conv' dest: map_of_SomeD split: if_splits)
      with st(6)[OF this(2) that(2)] show ?thesis by simp
    qed
    show "kd_fileid e' \<le> lid \<and> kd_fileid e' \<notin> set ids \<and>
        (\<exists>e0 x. map_of (keydir ?st1) k' = Some e0 \<and> located D (files ?st1) e0 x \<and> located D (files ?st1) e' x)"
      if "(k', e') \<in> set kes" for k' e'
    proof -
      have "k' \<noteq> k" using fresh that by force
      with st(5)[of k' e'] that show ?thesis by (simp add: update_conv')
    qed
  qed (use st in simp_all)
  moreover have "stored D (files ?st) e = stored D (files ?st) e0" using stored_located[OF D] x(2,3) by metis
  with x(1) have "abs_store D ?st1 = abs_store D ?st" by (auto simp: abs_store_def update_conv' fun_eq_iff split: option.split)
  moreover have "step_rely False s ?s'"
    using sub s(2) by (auto simp: promised_def highest_def intro!: rely_keydir)
  ultimately show ?thesis by (intro step_okI[OF s(1)]) (simp_all add: writer_inv_def keydir_set_def)
qed

text \<open>Removing the files of one id.\<close>

lemma removed_rely:
  assumes "removed ids fs fs'" and "fs_ok fs"
  shows "rely True kd fs hi kd fs' hi"
  using assms(1) removed_map_of[OF assms] by (simp add: rely_def old_names_def removed_def)

lemma merge_remove_ok:
  assumes D: "deps_laws D" and s: "sys_inv D s" "writer_at s = Merging lid (f # ids) []"
    and run: "remove_merged [f] (shared s) = (Inr u, st')"
  shows "step_ok D MergeRemove s (s\<lparr>shared := st', writer_at := Merging lid ids []\<rparr>)" (is "step_ok D _ _ ?s'")
proof -
  let ?st = "shared s"
  have m: "merging D lid (f # ids) [] ?st" using s by (simp add: sys_inv_def writer_inv_def)
  note st = mergingD[OF m] and set = settledD[OF mergingD(1)[OF m]]
  from remove_merged_ok[OF run st(2)] obtain ss fs where st': "st' = ?st\<lparr>w_stats := ss, files := fs\<rparr>"
    and rm: "removed [f] (files ?st) fs" and sub: "set ss \<subseteq> set (w_stats ?st)" by blast
  have hi: "highest s = lid" "promised s = keydir ?st" using s(2) by (simp_all add: highest_def promised_def)
  have step: "step_rely True s ?s'" using removed_rely[OF rm set(1)] st' s(2) by (simp add: promised_def highest_def)
  have caches: "caches_ok D ?s'"
    by (rule caches_ok_rely[OF _ step]) (use s(1) st' in \<open>auto simp: sys_inv_def\<close>)
  have stay: "kd_fileid e \<noteq> f" if "(k, e) \<in> set (keydir ?st)" for k e using st(6)[OF that] by auto
  have loc: "located D fs e x = located D (files ?st) e x" if "(k, e) \<in> set (keydir ?st)" for k e x
    using removed_located[OF rm set(1)] stay[OF that] by simp
  have "settled D lid st'"
  proof (rule settledI)
    show "keydir_ok D (keydir st') (files st') lid"
    proof (rule keydir_okI)
      show "distinct (map fst (keydir st'))" using keydir_okD(1)[OF set(2)] st' by simp
      show "kd_fileid e \<le> lid \<and> (\<exists>x. located D (files st') e x \<and> d_key x = k \<and> d_value x \<noteq> None)"
        if "(k, e) \<in> set (keydir st')" for k e
        using keydir_okD(2)[OF set(2), of k e] loc[of k e] that st' by simp
    qed
    show "cache_ok D (keydir st') (files st') lid l" if "l \<in> set (w_readers st' # pool st')" for l
      using caches_okD[OF caches, of l "keydir st'"] that by (simp add: promised_def highest_def)
    show "in_i64 t" if "Some t \<in> set (clock st')" for t using set(6) that st' by simp
  qed (use set rm removed_fs_ok[OF rm set(1)] in \<open>simp_all add: st' removed_def\<close>)
  then have "merging D lid ids [] st'"
  proof (rule mergingI)
    show "faults (files st') = []" using rm st(2) st' by (simp add: removed_def)
    show "known_files lid (w_stats st')" using st(3) sub st' by (fastforce simp: known_files_def)
    show "k \<in> fst ` set []" if "(k, e) \<in> set (keydir st')" "kd_fileid e \<in> set ids" for k e
      using st(6)[of k e] that st' by simp
  qed simp_all
  moreover have "abs_store D st' = abs_store D ?st"
  proof
    fix k
    show "abs_store D st' k = abs_store D ?st k"
    proof (cases "map_of (keydir ?st) k")
      case (Some e)
      from keydir_okD(2)[OF set(2) map_of_SomeD[OF Some]] obtain x where "located D (files ?st) e x" by blast
      with loc[OF map_of_SomeD[OF Some]] stored_located[OF D] have "stored D fs e = stored D (files ?st) e" by metis
      with Some st' show ?thesis by (simp add: abs_store_def)
    qed (simp add: abs_store_def st')
  qed
  ultimately show ?thesis using step caches st' by (simp add: step_ok_def sys_inv_def writer_inv_def)
qed

lemma merge_finish_ok:
  assumes D: "deps_laws D" and s: "sys_inv D s" "writer_at s = Merging lid [] []"
    and run: "merge_finish B lid (shared s) = (Inr u, st')"
  shows "step_ok D MergeFinish s (s\<lparr>shared := st', writer_at := Ready\<rparr>)"
proof -
  let ?st = "shared s"
  have m: "merging D lid [] [] ?st" using s by (simp add: sys_inv_def writer_inv_def)
  note st = mergingD[OF m] and set = settledD[OF mergingD(1)[OF m]]
  from run obtain n where n: "u64_add B lid 1 = (Inr n :: (bc_error, nat) result)" and new: "new_active_datafile n ?st = (Inr u, st')"
    by (auto simp: merge_finish_def split: sum.splits)
  note fin = settled_new_file[OF D st(1) n new]
  obtain fs w where st': "log_create (datafile_name n) (files ?st) = (Inr w, fs)"
    "st' = ?st\<lparr>active_fileid := n, w_log := w, files := bw_drop (w_log ?st) fs, written_bytes := 0\<rparr>"
    using new_active_datafile_Inr[OF new] .
  have n': "n = Suc lid" using u64_add_Inr[OF n] set(5) log_create_limit[OF st'(1)] by simp
  have "known_files n (w_stats ?st)" using st(3) n' by (fastforce simp: known_files_def)
  with st' log_create_faults[OF st'(1) st(2)] bw_drop_faults have "calm st'" by (simp add: calm_def)
  moreover have "grows (files ?st) (files st')" "old_names lid (files ?st) (files st')"
    using grows_trans[OF log_create_Inr(2)[OF st'(1) set(1)] bw_drop_grows(1)] old_names_create[OF log_create_Inr(4)[OF st'(1) set(1)], of lid]
      n' st'(2) by (simp_all add: old_names_def bw_drop_grows)
  then have "step_rely False s (s\<lparr>shared := st', writer_at := Ready\<rparr>)"
    using s(2) st'(2) n' by (intro rely_grows) (simp_all add: promised_def highest_def)
  ultimately show ?thesis using fin st'(2) by (intro step_okI[OF s(1)]) (auto simp: writer_inv_def)
qed

subsection \<open>Any step\<close>

definition get_event :: "system_event \<Rightarrow> bool" where
  "get_event ev \<longleftrightarrow> (\<exists>k. ev = GetCalled k) \<or> (\<exists>i. ev = GetStep i)"

lemma close_ok:
  assumes "sys_inv D s"
  shows "step_ok D CloseStorage s (s\<lparr>shared := close_storage (shared s)\<rparr>)"
proof (rule step_okI[OF assms])
  have "storage_inv D (close_storage st) = storage_inv D st" "calm (close_storage st) = calm st"
    "merging D lid ids kes (close_storage st) = merging D lid ids kes st" for st :: "'a storage" and lid ids kes
    by (simp_all add: storage_inv_def calm_def merging_def settled_def close_storage_def)
  with assms show "writer_inv D (writer_at (s\<lparr>shared := close_storage (shared s)\<rparr>)) (shared (s\<lparr>shared := close_storage (shared s)\<rparr>))"
    by (auto simp: sys_inv_def writer_inv_def close_storage_def split: writer_at.splits)
qed (auto simp: close_storage_def promised_def highest_def abs_store_def fun_eq_iff intro!: rely_keydir split: writer_at.splits option.split)

text \<open>Removing the old entry of a key that is being replaced changes what lookups find, not what the writer
  has to keep in order.\<close>

lemma unlink_ok:
  assumes "sys_inv D s" and "ev = PutUnlink k \<or> ev = MergeUnlink k"
  shows "step_ok D ev s (s\<lparr>unlinked := Some k\<rparr>)"
  by (rule step_okI[OF assms(1)])
    (use assms in \<open>auto simp: sys_inv_def promised_def highest_def intro!: rely_keydir split: writer_at.split\<close>)

lemma writer_step_ok:
  assumes D: "deps_laws D" and inv: "sys_inv D s" and step: "system_step D B ev s s'" and ev: "\<not> get_event ev"
    and fit: "ev = MergeFiles \<Longrightarrow> tally kd_len (keydir (shared s)) < 2 ^ 63"
  shows "step_ok D ev s s' \<and> gets s' = gets s"
  using step
proof (cases rule: system_step.cases)
  case put_append then show ?thesis using put_append_ok[OF D inv] by simp
next
  case put_unlink then show ?thesis using unlink_ok[OF inv] by simp
next
  case put_index then show ?thesis using put_index_ok[OF D inv] by simp
next
  case delete_append then show ?thesis using delete_append_ok[OF D inv] by simp
next
  case delete_index then show ?thesis using delete_index_ok[OF D inv] by simp
next
  case sync then show ?thesis using sync_ok[OF D inv] by simp
next
  case merge_files then show ?thesis using merge_files_ok[OF D inv] fit by simp
next
  case merge_unlink then show ?thesis using unlink_ok[OF inv] by simp
next
  case merge_install then show ?thesis using merge_install_ok[OF D inv] by simp
next
  case merge_remove then show ?thesis using merge_remove_ok[OF D inv] by simp
next
  case merge_finish then show ?thesis using merge_finish_ok[OF D inv] by simp
next
  case close then show ?thesis using close_ok[OF inv] by simp
qed (use ev in \<open>auto simp: get_event_def\<close>)

end
