(* ===== verification/ConcurrentPaths.thy ===== *)
theory ConcurrentPaths
  imports ConcurrentWriter
begin

section \<open>Paths of the system\<close>

text \<open>
  Along any interleaving of the writer's steps with those of any number of gets the invariant
  holds, the store is what the index steps made of it, and a get returns the value its key had
  at its lookup, or that the key is absent if its entry was being replaced just then.
\<close>

definition effects :: "(system_event \<times> 'l system) list \<Rightarrow> store \<Rightarrow> store" where
  "effects path = fold event_effect (map fst path)"

lemma effects_simps [simp]: "effects [] = id" "effects (p @ [(ev, s)]) = event_effect ev \<circ> effects p"
  by (simp_all add: effects_def)

definition removals :: "(system_event \<times> 'l system) list \<Rightarrow> bool" where
  "removals path \<longleftrightarrow> MergeRemove \<in> fst ` set path"

lemma removals_simps [simp]: "\<not> removals []" "removals (p @ [(ev, s)]) \<longleftrightarrow> removals p \<or> ev = MergeRemove"
  by (auto simp: removals_def)

text \<open>No merge has more to copy than a position can express.\<close>

fun fitting :: "'l system \<Rightarrow> (system_event \<times> 'l system) list \<Rightarrow> bool" where
  "fitting s [] \<longleftrightarrow> True"
| "fitting s ((ev, s') # path) \<longleftrightarrow>
     (ev = MergeFiles \<longrightarrow> tally kd_len (keydir (shared s)) < 2 ^ 63) \<and> fitting s' path"

lemma fitting_append: "fitting s (p @ q) \<longleftrightarrow> fitting s p \<and> fitting (end_state s p) q"
  by (induction p arbitrary: s) (auto simp: end_state_def)

text \<open>What a lookup finds behind a path that began with the store \<open>m\<close>.\<close>

definition found :: "(system_event \<times> 'l system) list \<Rightarrow> store \<Rightarrow> bytes \<Rightarrow> bytes option" where
  "found path m k = (if replacing path = Some k then None else effects path m k)"

text \<open>Where a get is: before its lookup, or behind one that fixed the value.\<close>

definition looked_up :: "'l deps \<Rightarrow> store \<Rightarrow> (system_event \<times> 'l system) list \<Rightarrow> 'l system \<Rightarrow> nat \<Rightarrow> bytes \<Rightarrow> 'l get_at \<Rightarrow> bool" where
  "looked_up D m path s i k pc \<longleftrightarrow>
     (\<exists>p1 t p2. path = p1 @ (GetStep i, t) # p2 \<and>
        get_ok D (promised s) (files (shared s)) (highest s) (found p1 m k) (removals p2) pc)"

definition early :: "'l deps \<Rightarrow> 'l system \<Rightarrow> 'l get_at \<Rightarrow> bool" where
  "early D s pc \<longleftrightarrow> get_early D (promised s) (files (shared s)) (highest s) pc \<and>
     (pc = Finished (Inl (Err Closed)) \<longrightarrow> closed (shared s))"

definition gets_inv :: "'l deps \<Rightarrow> store \<Rightarrow> (system_event \<times> 'l system) list \<Rightarrow> 'l system \<Rightarrow> bool" where
  "gets_inv D m path s \<longleftrightarrow> (\<forall>i k pc. i < length (gets s) \<longrightarrow> gets s ! i = (k, pc) \<longrightarrow>
     early D s pc \<or> looked_up D m path s i k pc)"

lemma gets_invD:
  "gets_inv D m path s \<Longrightarrow> i < length (gets s) \<Longrightarrow> gets s ! i = (k, pc) \<Longrightarrow>
     early D s pc \<or> looked_up D m path s i k pc"
  unfolding gets_inv_def by blast

text \<open>What the others do leaves a get where it is.\<close>

lemma looked_up_rely:
  assumes l: "looked_up D m path s i k pc" and r: "step_rely (ev = MergeRemove) s s'"
  shows "looked_up D m (path @ [(ev, s')]) s' i k pc"
proof -
  from l obtain p1 t p2 where p: "path = p1 @ (GetStep i, t) # p2"
    and g: "get_ok D (promised s) (files (shared s)) (highest s) (found p1 m k) (removals p2) pc"
    unfolding looked_up_def by blast
  have "get_ok D (promised s') (files (shared s')) (highest s') (found p1 m k) (removals (p2 @ [(ev, s')])) pc"
    by (rule get_ok_rely[OF g r]) simp
  moreover have "path @ [(ev, s')] = p1 @ (GetStep i, t) # (p2 @ [(ev, s')])" using p by simp
  ultimately show ?thesis unfolding looked_up_def by blast
qed

lemma early_rely:
  assumes "early D s pc" and "step_rely rm s s'" and "closed (shared s) \<Longrightarrow> closed (shared s')"
  shows "early D s' pc"
  using assms(1,3) get_early_rely[OF _ assms(2)] by (auto simp: early_def)

lemma gets_inv_rely:
  assumes g: "gets_inv D m path s" and r: "step_rely (ev = MergeRemove) s s'" and same: "gets s' = gets s"
    and c: "closed (shared s) \<Longrightarrow> closed (shared s')"
  shows "gets_inv D m (path @ [(ev, s')]) s'"
  using gets_invD[OF g] early_rely[OF _ r c] looked_up_rely[OF _ r] same unfolding gets_inv_def by metis

subsection \<open>A step of a get\<close>

lemma writer_inv_pool:
  assumes "writer_inv D w st" and "\<And>l. l \<in> set p \<Longrightarrow>
    cache_ok D (keydir st) (files st) (case w of Merging lid ids kes \<Rightarrow> lid | _ \<Rightarrow> active_fileid st) l"
  shows "writer_inv D w (st\<lparr>pool := p\<rparr>)"
proof -
  have "storage_inv D st \<Longrightarrow> \<forall>l \<in> set p. cache_ok D (keydir st) (files st) (active_fileid st) l \<Longrightarrow> storage_inv D (st\<lparr>pool := p\<rparr>)"
    by (simp add: storage_inv_def)
  moreover have "merging D lid ids kes st \<Longrightarrow> \<forall>l \<in> set p. cache_ok D (keydir st) (files st) lid l \<Longrightarrow>
      merging D lid ids kes (st\<lparr>pool := p\<rparr>)" for lid ids kes
    by (simp add: merging_def settled_def)
  moreover have "calm (st\<lparr>pool := p\<rparr>) = calm st" by (simp add: calm_def)
  ultimately show ?thesis using assms by (cases w) (auto simp: writer_inv_def)
qed

lemma pool_fields:
  assumes "st' = st\<lparr>pool := p\<rparr>"
  shows "files st' = files st" "keydir st' = keydir st" "active_fileid st' = active_fileid st" "w_readers st' = w_readers st"
    "closed st' = closed st"
  unfolding assms by simp_all

lemma pool_step_inv:
  assumes inv: "sys_inv D s" and st': "st' = (shared s)\<lparr>pool := pool st'\<rparr>"
    and pool: "\<forall>l \<in> set (pool st'). cache_ok D (promised s) (files (shared s)) (highest s) l"
  shows "sys_inv D (s\<lparr>shared := st', gets := gs\<rparr>)"
proof -
  let ?s' = "s\<lparr>shared := st', gets := gs\<rparr>"
  have e: "promised ?s' = promised s" "highest ?s' = highest s" "files st' = files (shared s)" "w_readers st' = w_readers (shared s)"
    using pool_fields[OF st'] by (simp_all add: promised_def highest_def split: writer_at.split)
  have "writer_inv D (writer_at s) ((shared s)\<lparr>pool := pool st'\<rparr>)"
  proof (rule writer_inv_pool)
    show "writer_inv D (writer_at s) (shared s)" using inv by (simp add: sys_inv_def)
    show "cache_ok D (keydir (shared s)) (files (shared s))
        (case writer_at s of Merging lid ids kes \<Rightarrow> lid | _ \<Rightarrow> active_fileid (shared s)) l" if "l \<in> set (pool st')" for l
      using cache_ok_subset[OF bspec[OF pool that]] by (simp add: promised_def highest_def)
  qed
  then have "writer_inv D (writer_at s) st'" using st' by simp
  moreover have "caches_ok D ?s'"
    using inv pool e unfolding caches_ok_def sys_inv_def by simp
  ultimately show ?thesis by (simp add: sys_inv_def)
qed

text \<open>What a step of get \<open>i\<close> makes of it.\<close>

lemma own_step:
  assumes D: "deps_laws D" and inv: "sys_inv D s" and g: "gets_inv D m path s" and a: "abs_store D (shared s) = effects path m"
    and u: "unlinked s = replacing path"
    and i: "i < length (gets s)" "gets s ! i = (k, pc)" and step: "get_step D B (unlinked s) k pc (shared s) = Some (pc', st')"
  shows "((get_early D (promised s) (files (shared s)) (highest s) pc' \<and>
        (pc' = Finished (Inl (Err Closed)) \<longrightarrow> closed (shared s))) \<or>
      (\<exists>p1 t p2. path @ [(GetStep i, s')] = p1 @ (GetStep i, t) # p2 \<and>
        get_ok D (promised s) (files (shared s)) (highest s) (found p1 m k) (removals p2) pc')) \<and>
    (\<forall>l \<in> set (pool st'). cache_ok D (promised s) (files (shared s)) (highest s) l)"
proof -
  have pool: "\<forall>l \<in> set (pool (shared s)). cache_ok D (promised s) (files (shared s)) (highest s) l"
    using inv by (simp add: sys_inv_def caches_ok_def)
  from gets_invD[OF g i] show ?thesis
  proof
    assume "early D s pc"
    then have early: "get_early D (promised s) (files (shared s)) (highest s) pc" by (simp add: early_def)
    show ?thesis
    proof (cases "\<exists>l. pc = Looking l")
      case True
      then obtain l where pc: "pc = Looking l" by blast
      have sub: "set (keydir (shared s)) \<subseteq> set (promised s)" by (simp add: promised_def)
      have c: "cache_ok D (promised s) (files (shared s)) (highest s) l" using early pc by simp
      have v: "(if unlinked s = Some k then None else abs_store D (shared s) k) = found path m k" using a u by (simp add: found_def)
      from lookup_step[OF D sys_invD(3,1)[OF inv] sub c step[unfolded pc]]
      have "get_ok D (promised s) (files (shared s)) (highest s) (found path m k) False pc' \<and> st' = shared s" unfolding v .
      with pool show ?thesis by (metis append.right_neutral removals_simps(1))
    next
      case False
      moreover have "closed (shared s)" if "pc' = Finished (Inl (Err Closed))"
        using step early that False by (cases pc) (auto split: list.splits if_splits)
      ultimately show ?thesis using get_early_step[OF early _ pool step] pool by blast
    qed
  next
    assume "looked_up D m path s i k pc"
    then obtain p1 t p2 where p: "path = p1 @ (GetStep i, t) # p2"
      and ok: "get_ok D (promised s) (files (shared s)) (highest s) (found p1 m k) (removals p2) pc"
      unfolding looked_up_def by blast
    from get_ok_step[OF D sys_invD(4,1,2)[OF inv] ok pool step]
    have fin: "get_ok D (promised s) (files (shared s)) (highest s) (found p1 m k) (removals (p2 @ [(GetStep i, s')])) pc'"
      "\<forall>l \<in> set (pool st'). cache_ok D (promised s) (files (shared s)) (highest s) l" by simp_all
    have "path @ [(GetStep i, s')] = p1 @ (GetStep i, t) # (p2 @ [(GetStep i, s')])" using p by simp
    with fin show ?thesis by blast
  qed
qed

lemma get_event_ok:
  assumes D: "deps_laws D" and inv: "sys_inv D s" and g: "gets_inv D m path s" and a: "abs_store D (shared s) = effects path m"
    and u: "unlinked s = replacing path"
    and i: "i < length (gets s)" "gets s ! i = (k, pc)" and step: "get_step D B (unlinked s) k pc (shared s) = Some (pc', st')"
  shows "sys_inv D (s\<lparr>shared := st', gets := (gets s)[i := (k, pc')]\<rparr>) \<and>
    gets_inv D m (path @ [(GetStep i, s\<lparr>shared := st', gets := (gets s)[i := (k, pc')]\<rparr>)]) (s\<lparr>shared := st', gets := (gets s)[i := (k, pc')]\<rparr>) \<and>
    abs_store D st' = abs_store D (shared s) \<and> closed st' = closed (shared s)"
proof -
  let ?s' = "s\<lparr>shared := st', gets := (gets s)[i := (k, pc')]\<rparr>"
  have fr: "st' = (shared s)\<lparr>pool := pool st'\<rparr>" using get_step_frame[OF step sys_invD(2)[OF inv]] .
  note own = own_step[OF D inv g a u i step, of ?s']
  have inv': "sys_inv D ?s'" using pool_step_inv[OF inv fr] own by blast
  have f: "files st' = files (shared s)" "keydir st' = keydir (shared s)" "active_fileid st' = active_fileid (shared s)"
    "closed st' = closed (shared s)"
    using pool_fields[OF fr] by simp_all
  then have e: "promised ?s' = promised s" "highest ?s' = highest s"
    by (simp_all add: promised_def highest_def split: writer_at.split)
  have "gets_inv D m (path @ [(GetStep i, ?s')]) ?s'"
    unfolding gets_inv_def
  proof (intro allI impI)
    fix j k' pc2 assume j: "j < length (gets ?s')" "gets ?s' ! j = (k', pc2)"
    show "early D ?s' pc2 \<or> looked_up D m (path @ [(GetStep i, ?s')]) ?s' j k' pc2"
    proof (cases "j = i")
      case True
      with j i own e f show ?thesis unfolding looked_up_def early_def by simp
    next
      case False
      have r: "step_rely (GetStep i = MergeRemove) s ?s'" unfolding e by (simp add: f rely_keydir)
      from False j have "j < length (gets s)" "gets s ! j = (k', pc2)" by simp_all
      from gets_invD[OF g this] show ?thesis
        using early_rely[OF _ r] looked_up_rely[OF _ r] f by auto
    qed
  qed
  moreover have "abs_store D st' = abs_store D (shared s)" using f by (simp add: abs_store_def fun_eq_iff cong: option.case_cong)
  ultimately show ?thesis using inv' f(4) by blast
qed

text \<open>A call that begins.\<close>

lemma call_event_ok:
  assumes inv: "sys_inv D s" and g: "gets_inv D m path s"
  shows "sys_inv D (s\<lparr>gets := gets s @ [(k, Checking)]\<rparr>) \<and>
    gets_inv D m (path @ [(GetCalled k, s\<lparr>gets := gets s @ [(k, Checking)]\<rparr>)]) (s\<lparr>gets := gets s @ [(k, Checking)]\<rparr>)"
proof -
  let ?s' = "s\<lparr>gets := gets s @ [(k, Checking)]\<rparr>"
  have e: "promised ?s' = promised s" "highest ?s' = highest s"
    by (simp_all add: promised_def highest_def split: writer_at.split)
  have "sys_inv D ?s'" using inv e by (simp add: sys_inv_def caches_ok_def)
  moreover have "gets_inv D m (path @ [(GetCalled k, ?s')]) ?s'"
    unfolding gets_inv_def
  proof (intro allI impI)
    fix j k' pc assume j: "j < length (gets ?s')" "gets ?s' ! j = (k', pc)"
    have r: "step_rely (GetCalled k = MergeRemove) s ?s'" unfolding e by (simp add: rely_keydir)
    show "early D ?s' pc \<or> looked_up D m (path @ [(GetCalled k, ?s')]) ?s' j k' pc"
    proof (cases "j < length (gets s)")
      case True
      with j have "gets s ! j = (k', pc)" by (simp add: nth_append)
      from gets_invD[OF g True this] show ?thesis using early_rely[OF _ r] looked_up_rely[OF _ r] by auto
    next
      case False
      with j have "pc = Checking" by (auto simp: nth_append less_Suc_eq split: if_splits)
      then show ?thesis by (simp add: early_def)
    qed
  qed
  ultimately show ?thesis by blast
qed

subsection \<open>All steps\<close>

lemma system_path_ok:
  assumes D: "deps_laws D" and s0: "sys_inv D s0" "gets s0 = []" "unlinked s0 = None"
  shows "system_path D B s0 path \<Longrightarrow> fitting s0 path \<Longrightarrow>
    sys_inv D (end_state s0 path) \<and> abs_store D (shared (end_state s0 path)) = effects path (abs_store D (shared s0)) \<and>
    gets_inv D (abs_store D (shared s0)) path (end_state s0 path) \<and>
    closed (shared (end_state s0 path)) = (closed (shared s0) \<or> CloseStorage \<in> fst ` set path) \<and>
    window_ok (end_state s0 path) \<and> unlinked (end_state s0 path) = replacing path"
proof (induction path rule: rev_induct)
  case Nil
  then show ?case using s0 by (simp add: gets_inv_def window_ok_def)
next
  case (snoc x path)
  obtain ev s' where x: "x = (ev, s')" by fastforce
  let ?s = "end_state s0 path" and ?m = "abs_store D (shared s0)"
  have path: "system_path D B s0 path" and step: "system_step D B ev ?s s'"
    using snoc.prems(1) by (simp_all add: system_path_append x)
  have fit: "fitting s0 path" and one: "ev = MergeFiles \<Longrightarrow> tally kd_len (keydir (shared ?s)) < 2 ^ 63"
    using snoc.prems(2) by (simp_all add: fitting_append x)
  from snoc.IH[OF path fit] have inv: "sys_inv D ?s" and a: "abs_store D (shared ?s) = effects path ?m" and g: "gets_inv D ?m path ?s"
    and c: "closed (shared ?s) = (closed (shared s0) \<or> CloseStorage \<in> fst ` set path)"
    and w: "window_ok ?s" "unlinked ?s = replacing path"
    by blast+
  from window_step[OF step w(1)] w(2) have w': "window_ok s'" "unlinked s' = replacing (path @ [x])" by (simp_all add: x)
  show ?case
  proof (cases "get_event ev")
    case False
    from writer_step_ok[OF D inv step False one] have ok: "step_ok D ev ?s s'" "gets s' = gets ?s" by blast+
    then show ?thesis using gets_inv_rely[OF g] a c w' unfolding x step_ok_def by auto
  next
    case True
    from step show ?thesis
    proof (cases rule: system_step.cases)
      case (get_called k)
      with call_event_ok[OF inv g, of k] a c w' show ?thesis by (simp add: x)
    next
      case (get_step i k pc pc' st')
      from get_event_ok[OF D inv g a w(2) get_step(3-5)] a c get_step w' show ?thesis by (simp add: x)
    qed (use True in \<open>auto simp: get_event_def\<close>)
  qed
qed

lemma system_start_inv: "storage_inv D st \<Longrightarrow> calm st \<Longrightarrow> sys_inv D (system_start st)"
  unfolding sys_inv_def caches_ok_def
  by (auto simp: system_start_def writer_inv_def promised_def highest_def dest: storage_invD(4))

text \<open>A call that has returned.\<close>

lemma finished_get:
  assumes D: "deps_laws D" and st: "storage_inv D st" "calm st"
    and path: "system_path D B (system_start st) path" "fitting (system_start st) path"
    and i: "i < length (gets (end_state (system_start st) path))" "gets (end_state (system_start st) path) ! i = (k, Finished r)"
  shows "r = Inl (Err Closed) \<and> (closed st \<or> CloseStorage \<in> fst ` set path) \<or> (\<exists>p1 t p2. path = p1 @ (GetStep i, t) # p2 \<and> outcome (found p1 (abs_store D st) k) (removals p2) r)"
proof -
  have "gets (system_start st) = []" "shared (system_start st) = st" "unlinked (system_start st) = None" by (simp_all add: system_start_def)
  with system_path_ok[OF D system_start_inv[OF st] _ _ path] gets_invD[OF _ i] show ?thesis
    unfolding looked_up_def early_def by auto
qed

end
