(* ===== verification/ConcurrentRuns.thy ===== *)
theory ConcurrentRuns
  imports ConcurrentPaths
begin

section \<open>Runs of the system\<close>

text \<open>
  The steps of the system as a function of the event, which makes paths executable; the
  operations of the engine as paths without other steps in between; and an append that takes two
  system calls.
\<close>

subsection \<open>The step as a function\<close>

definition linked :: "'l system \<Rightarrow> 'l system" where
  [simp]: "linked s = s\<lparr>unlinked := None\<rparr>"

fun after :: "(bc_error, 'a) result \<times> 'l storage \<Rightarrow> ('a \<Rightarrow> writer_at) \<Rightarrow> 'l system \<Rightarrow> 'l system option" where
  "after (Inr x, st) w s = Some (s\<lparr>shared := st, writer_at := w x\<rparr>)"
| "after (Inl e, st) w s = None"

definition unlink :: "bytes \<Rightarrow> 'l system \<Rightarrow> 'l system option" where
  "unlink k s =
     (if unlinked s = None \<and> map_of (keydir (shared s)) k \<noteq> None then Some (s\<lparr>unlinked := Some k\<rparr>) else None)"

definition writer_next :: "'l deps \<Rightarrow> build \<Rightarrow> system_event \<Rightarrow> 'l system \<Rightarrow> 'l system option" where
  "writer_next D B ev s =
     (case (ev, writer_at s) of
        (PutAppend k v, Ready) \<Rightarrow> after (put_append D B k v (shared s)) (Indexing k v) s
      | (PutUnlink k, Indexing k' v e) \<Rightarrow> if k' = k then unlink k s else None
      | (PutIndex k v, Indexing k' v' e) \<Rightarrow>
          if k' = k \<and> v' = v \<and> insertable k s
          then map_option linked (after (put_index B k e (shared s)) (\<lambda>_. Ready) s) else None
      | (DeleteAppend k, Ready) \<Rightarrow> after (delete_append D B k (shared s)) (\<lambda>_. Removing k) s
      | (DeleteIndex k, Removing k') \<Rightarrow>
          if k' = k then after (delete_index B k (shared s)) (\<lambda>_. Ready) s else None
      | (Sync, Ready) \<Rightarrow> after (writer_sync (shared s)) (\<lambda>_. Ready) s
      | (MergeFiles, Ready) \<Rightarrow>
          if can_merge B (shared s) = Inr True
          then after (merge_files D B (shared s)) (\<lambda>(lid, ids, kes). Merging lid ids kes) s else None
      | (MergeUnlink k, Merging lid ids ((k', e) # kes)) \<Rightarrow> if k' = k then unlink k s else None
      | (MergeInstall, Merging lid ids ((k, e) # kes)) \<Rightarrow>
          if insertable k s
          then Some (s\<lparr>shared := snd (keydir_set k e (shared s)), writer_at := Merging lid ids kes, unlinked := None\<rparr>)
          else None
      | (MergeRemove, Merging lid (f # ids) []) \<Rightarrow> after (remove_merged [f] (shared s)) (\<lambda>_. Merging lid ids []) s
      | (MergeFinish, Merging lid [] []) \<Rightarrow> after (merge_finish B lid (shared s)) (\<lambda>_. Ready) s
      | _ \<Rightarrow> None)"

definition system_next :: "'l deps \<Rightarrow> build \<Rightarrow> system_event \<Rightarrow> 'l system \<Rightarrow> 'l system option" where
  "system_next D B ev s =
     (case ev of
        CloseStorage \<Rightarrow> Some (s\<lparr>shared := close_storage (shared s)\<rparr>)
      | GetCalled k \<Rightarrow> Some (s\<lparr>gets := gets s @ [(k, Checking)]\<rparr>)
      | GetStep i \<Rightarrow>
          if i < length (gets s)
          then (case gets s ! i of (k, pc) \<Rightarrow>
                  map_option (\<lambda>(pc', st'). s\<lparr>shared := st', gets := (gets s)[i := (k, pc')]\<rparr>) (get_step D B (unlinked s) k pc (shared s)))
          else None
      | _ \<Rightarrow> writer_next D B ev s)"

lemma after_Some: "after r w s = Some s' \<longleftrightarrow> (\<exists>x st. r = (Inr x, st) \<and> s' = s\<lparr>shared := st, writer_at := w x\<rparr>)"
  by (cases "(r, w, s)" rule: after.cases) auto

lemma same_writer: "s\<lparr>shared := st, writer_at := writer_at s\<rparr> = s\<lparr>shared := st\<rparr>"
  by (cases s) simp

lemma system_next_step:
  assumes "system_next D B ev s = Some s'"
  shows "system_step D B ev s s'"
proof (cases "get_event ev \<or> ev = CloseStorage")
  case True
  with assms show ?thesis
    by (auto simp: get_event_def system_next_def split: if_splits prod.splits intro: system_step.intros)
next
  case False
  then have w: "writer_next D B ev s = Some s'" using assms by (cases ev) (auto simp: system_next_def get_event_def)
  show ?thesis
  proof (cases ev)
    case Sync
    with w obtain u st where "writer_at s = Ready" "writer_sync (shared s) = (Inr u, st)" "s' = s\<lparr>shared := st, writer_at := Ready\<rparr>"
      by (auto simp: writer_next_def after_Some split: writer_at.splits)
    then have "s' = s\<lparr>shared := st\<rparr>" using same_writer[of s st] by simp
    with Sync system_step.sync[OF \<open>writer_at s = Ready\<close> \<open>writer_sync (shared s) = (Inr u, st)\<close>] show ?thesis by simp
  qed (use w False in \<open>auto simp: writer_next_def after_Some get_event_def unlink_def split: writer_at.splits list.splits prod.splits if_splits
         intro: system_step.intros\<close>)
qed

fun system_run :: "'l deps \<Rightarrow> build \<Rightarrow> 'l system \<Rightarrow> system_event list \<Rightarrow> (system_event \<times> 'l system) list option" where
  "system_run D B s [] = Some []"
| "system_run D B s (ev # evs) =
     (case system_next D B ev s of
        None \<Rightarrow> None
      | Some s' \<Rightarrow> map_option ((#) (ev, s')) (system_run D B s' evs))"

lemma system_run_path: "system_run D B s evs = Some path \<Longrightarrow> system_path D B s path \<and> map fst path = evs"
proof (induction evs arbitrary: s path)
  case (Cons ev evs)
  then obtain s' p where "system_next D B ev s = Some s'" "system_run D B s' evs = Some p" "path = (ev, s') # p"
    by (auto split: option.splits)
  with Cons.IH system_next_step show ?case by fastforce
qed simp

subsection \<open>The operations of the engine as paths\<close>

definition runs :: "'l deps \<Rightarrow> build \<Rightarrow> 'l system \<Rightarrow> system_event list \<Rightarrow> 'l system \<Rightarrow> bool" where
  "runs D B s evs s' \<longleftrightarrow> (\<exists>path. system_path D B s path \<and> map fst path = evs \<and> end_state s path = s')"

lemma runs_none: "runs D B s [] s"
  unfolding runs_def by (rule exI[of _ "[]"]) simp

lemma runs_step:
  assumes "system_step D B ev s s'" and "runs D B s' evs s''"
  shows "runs D B s (ev # evs) s''"
proof -
  from assms(2) obtain path where "system_path D B s' path" "map fst path = evs" "end_state s' path = s''" by (auto simp: runs_def)
  with assms(1) show ?thesis unfolding runs_def by (intro exI[of _ "(ev, s') # path"]) (simp add: end_state_def)
qed

lemma runs_append:
  assumes "runs D B s evs s'" and "runs D B s' evs' s''"
  shows "runs D B s (evs @ evs') s''"
proof -
  from assms obtain p q where p: "system_path D B s p" "map fst p = evs" "end_state s p = s'"
    and q: "system_path D B s' q" "map fst q = evs'" "end_state s' q = s''" unfolding runs_def by blast
  have "end_state s (p @ q) = s''" using p(3) q(3) by (cases q) (simp_all add: end_state_def)
  with p q show ?thesis unfolding runs_def by (intro exI[of _ "p @ q"]) (simp add: system_path_append)
qed

text \<open>A system whose writer is ready, next to the calls \<open>gs\<close>.\<close>

abbreviation ready_system :: "(bytes \<times> 'l get_at) list \<Rightarrow> 'l storage \<Rightarrow> 'l system" where
  "ready_system gs st \<equiv> \<lparr>shared = st, writer_at = Ready, unlinked = None, gets = gs\<rparr>"

text \<open>The removal of the entry that an insertion replaces, if there is one.\<close>

definition replaced :: "system_event \<Rightarrow> bytes \<Rightarrow> 'l storage \<Rightarrow> system_event list" where
  "replaced ev k st = (if map_of (keydir st) k = None then [] else [ev])"

fun install_events :: "keydir \<Rightarrow> 'l storage \<Rightarrow> system_event list" where
  "install_events [] st = []"
| "install_events ((k, e) # kes) st =
     replaced (MergeUnlink k) k st @ MergeInstall # install_events kes (snd (keydir_set k e st))"

lemma index_runs:
  assumes "put_index B k e st = (Inr u, st')"
  shows "runs D B \<lparr>shared = st, writer_at = Indexing k v e, unlinked = None, gets = gs\<rparr>
    (replaced (PutUnlink k) k st @ [PutIndex k v]) (ready_system gs st')"
proof (cases "map_of (keydir st) k")
  case None
  let ?s = "\<lparr>shared = st, writer_at = Indexing k v e, unlinked = None, gets = gs\<rparr>"
  have "system_step D B (PutIndex k v) ?s (ready_system gs st')"
    using system_step.put_index[of ?s k v e B u st' D] None assms by (simp add: insertable_def)
  with None show ?thesis by (simp add: replaced_def runs_step[OF _ runs_none])
next
  case (Some prev)
  let ?s = "\<lparr>shared = st, writer_at = Indexing k v e, unlinked = None, gets = gs\<rparr>"
  let ?t = "\<lparr>shared = st, writer_at = Indexing k v e, unlinked = Some k, gets = gs\<rparr>"
  have "system_step D B (PutUnlink k) ?s ?t" using system_step.put_unlink[of ?s k v e D B] Some by simp
  moreover have "system_step D B (PutIndex k v) ?t (ready_system gs st')"
    using system_step.put_index[of ?t k v e B u st' D] assms by (simp add: insertable_def)
  ultimately show ?thesis using Some by (simp add: replaced_def runs_step[OF _ runs_step[OF _ runs_none]])
qed

lemma append_runs:
  assumes "put_append D B k v st = (Inr e, st')"
  shows "system_step D B (PutAppend k v) (ready_system gs st)
    \<lparr>shared = st', writer_at = Indexing k v e, unlinked = None, gets = gs\<rparr>"
  using system_step.put_append[of "ready_system gs st" D B k v e st'] assms by simp

lemma put_runs:
  assumes "put D B k v st = (Inr u, st')"
  obtains e s1 where "put_append D B k v st = (Inr e, s1)"
    and "runs D B (ready_system gs st) (PutAppend k v # replaced (PutUnlink k) k s1 @ [PutIndex k v]) (ready_system gs st')"
proof -
  from assms obtain e s1 where "put_append D B k v st = (Inr e, s1)" "put_index B k e s1 = (Inr u, st')"
    unfolding put_cut by (elim try_op_InrE)
  with that runs_step[OF append_runs index_runs] show thesis by blast
qed

lemma delete_runs:
  assumes "delete D B k st = (Inr b, st')"
  shows "runs D B (ready_system gs st) [DeleteAppend k, DeleteIndex k] (ready_system gs st')"
proof -
  from assms obtain e s1 where "delete_append D B k st = (Inr e, s1)" "delete_index B k s1 = (Inr b, st')"
    unfolding delete_cut by (elim try_op_InrE)
  then show ?thesis
    using system_step.delete_append[of "ready_system gs st" D B k e s1]
      system_step.delete_index[of "\<lparr>shared = s1, writer_at = Removing k, unlinked = None, gets = gs\<rparr>" k B b st' D]
    by (intro runs_step[OF _ runs_step[OF _ runs_none]]) simp_all
qed

lemma install_runs:
  "runs D B \<lparr>shared = st, writer_at = Merging lid ids kes, unlinked = None, gets = gs\<rparr> (install_events kes st)
     \<lparr>shared = install_entries kes st, writer_at = Merging lid ids [], unlinked = None, gets = gs\<rparr>"
proof (induction kes arbitrary: st)
  case (Cons ke kes)
  obtain k e where ke: "ke = (k, e)" by fastforce
  let ?s = "\<lambda>u. \<lparr>shared = st, writer_at = Merging lid ids (ke # kes), unlinked = u, gets = gs\<rparr>"
  let ?s' = "\<lparr>shared = snd (keydir_set k e st), writer_at = Merging lid ids kes, unlinked = None, gets = gs\<rparr>"
  have unlink: "system_step D B (MergeUnlink k) (?s None) (?s (Some k))" if "map_of (keydir st) k \<noteq> None"
    using system_step.merge_unlink[of "?s None" lid ids k e kes D B] ke that by simp
  have install: "system_step D B MergeInstall (?s u) ?s'" if "map_of (keydir st) k \<noteq> None \<longrightarrow> u = Some k" for u
    using system_step.merge_install[of "?s u" lid ids k e kes D B] ke that by (simp add: insertable_def)
  have installed: "runs D B (?s u) [MergeInstall] ?s'" if "map_of (keydir st) k \<noteq> None \<longrightarrow> u = Some k" for u
    by (rule runs_step[OF install[OF that] runs_none])
  have "runs D B (?s None) (replaced (MergeUnlink k) k st @ [MergeInstall]) ?s'"
  proof (cases "map_of (keydir st) k = None")
    case True
    with installed[of None] show ?thesis by (simp add: replaced_def)
  next
    case False
    with runs_step[OF unlink installed[of "Some k"]] show ?thesis by (auto simp: replaced_def)
  qed
  from runs_append[OF this Cons.IH] ke show ?case by simp
qed (simp add: runs_none)

lemma remove_merged_Cons: "remove_merged (f # ids) st = try_op (remove_merged [f] st) (\<lambda>_. remove_merged ids)"
  by (simp add: Let_def try_op_assoc)

lemma remove_runs:
  "remove_merged ids st = (Inr u, st') \<Longrightarrow>
     runs D B \<lparr>shared = st, writer_at = Merging lid ids [], unlinked = None, gets = gs\<rparr> (replicate (length ids) MergeRemove)
       \<lparr>shared = st', writer_at = Merging lid [] [], unlinked = None, gets = gs\<rparr>"
proof (induction ids arbitrary: st)
  case (Cons f ids)
  from Cons.prems obtain v s1 where 1: "remove_merged [f] st = (Inr v, s1)" and 2: "remove_merged ids s1 = (Inr u, st')"
    unfolding remove_merged_Cons[of f ids] by (elim try_op_InrE)
  let ?s = "\<lparr>shared = st, writer_at = Merging lid (f # ids) [], unlinked = None, gets = gs\<rparr>"
  have "system_step D B MergeRemove ?s \<lparr>shared = s1, writer_at = Merging lid ids [], unlinked = None, gets = gs\<rparr>"
    using system_step.merge_remove[of ?s lid f ids v s1 D B] 1 by simp
  from runs_step[OF this Cons.IH[OF 2]] show ?case by simp
qed (simp add: runs_none)

text \<open>The events of a merge: none of them writes.\<close>

definition merge_event :: "system_event \<Rightarrow> bool" where
  "merge_event ev \<longleftrightarrow> ev = MergeFiles \<or> (\<exists>k. ev = MergeUnlink k) \<or> ev = MergeInstall \<or> ev = MergeRemove \<or> ev = MergeFinish"

lemma install_events_merge: "list_all merge_event (install_events kes st)"
  by (induction kes st rule: install_events.induct) (auto simp: replaced_def merge_event_def)

lemma merge_runs:
  assumes "merge D B st = (Inr u, st')" and "can_merge B st = Inr True"
  obtains evs where "runs D B (ready_system gs st) (MergeFiles # evs) (ready_system gs st')" and "list_all merge_event evs"
    and "MergeFiles \<notin> set evs"
proof -
  from assms(1) obtain lid ids kes s1 v s2 where 1: "merge_files D B st = (Inr (lid, ids, kes), s1)"
    and 2: "remove_merged ids (install_entries kes s1) = (Inr v, s2)" and 3: "merge_finish B lid s2 = (Inr u, st')"
    unfolding merge_cut by (auto elim!: try_op_InrE)
  let ?evs = "install_events kes s1 @ replicate (length ids) MergeRemove @ [MergeFinish]"
  have "system_step D B MergeFiles (ready_system gs st) \<lparr>shared = s1, writer_at = Merging lid ids kes, unlinked = None, gets = gs\<rparr>"
    using system_step.merge_files[of "ready_system gs st" B D lid ids kes s1] 1 assms(2) by simp
  moreover have "system_step D B MergeFinish \<lparr>shared = s2, writer_at = Merging lid [] [], unlinked = None, gets = gs\<rparr> (ready_system gs st')"
    using system_step.merge_finish[of "\<lparr>shared = s2, writer_at = Merging lid [] [], unlinked = None, gets = gs\<rparr>" lid B u st' D] 3 by simp
  ultimately have "runs D B (ready_system gs st) (MergeFiles # ?evs) (ready_system gs st')"
    using runs_step[OF _ runs_append[OF install_runs runs_append[OF remove_runs[OF 2] runs_step[OF _ runs_none]]]] by blast
  moreover have "list_all merge_event ?evs" using install_events_merge[of kes s1] by (auto simp: list_all_iff merge_event_def)
  moreover have "MergeFiles \<notin> set (install_events kes s1)"
    by (induction kes s1 rule: install_events.induct) (auto simp: replaced_def)
  ultimately show thesis using that[of ?evs] by simp
qed

end
