(* ===== verification/TornWrites.thy ===== *)
theory TornWrites
  imports Concurrent
begin

section \<open>Appends of more than one write (bufio.rs, log.rs)\<close>

text \<open>
  The \<open>BufWriter\<close> under a \<open>LogWriter\<close> has room for 8 KiB: an entry with a longer value reaches
  the file with more than one \<open>write\<close>, its header first, and so does an entry of any length of
  which the system takes only a part. A reader that maps the file in between
  maps a part of the entry. Here such a put is cut after the first \<open>n\<close> bytes of its entry. The
  cut alone changes nothing; but a reader that mapped the file there panics when it is asked for
  the entry, since \<open>LogReader::at\<close> maps the file again only when the entry begins behind the mapping.
\<close>

definition append_part :: "build \<Rightarrow> bytes \<Rightarrow> ('l, unit) action" where
  "append_part B d st =
     (case log_append B d (w_log st) (files st) of
        (r, w, fs) \<Rightarrow> (and_then r (\<lambda>_. Inr ()), st\<lparr>w_log := w, files := fs\<rparr>))"

text \<open>What follows the append in \<open>Writer::write\<close>.\<close>

definition finish_entry :: "build \<Rightarrow> int \<Rightarrow> bytes option \<Rightarrow> log_index \<Rightarrow> ('l, keydir_entry) action" where
  "finish_entry B t v ix st =
     try_op (after_append B v ix st) (\<lambda>_ st.
     try_op (if max_file_size (conf st) < written_bytes st then next_active_datafile B st else (Inr (), st)) (\<lambda>_ st'.
     (Inr \<lparr>kd_fileid = active_fileid st, kd_len = ix_len ix, kd_pos = ix_pos ix, kd_tstamp = t\<rparr>, st')))"

text \<open>
  The first \<open>n\<close> bytes of an entry, and the rest. The \<open>BufWriter\<close> under the writer passes an entry on
  in several writes when it has more bytes than the buffer, 8 KiB by default; and one \<open>write\<close> call
  may take only a part of what it is given, whatever its size, after which \<open>BufWriter\<close> and
  \<open>write_all\<close> call it again with the rest. So an entry can be cut behind any of its bytes.
\<close>

definition torn_begin :: "'l deps \<Rightarrow> build \<Rightarrow> nat \<Rightarrow> data_entry \<Rightarrow> ('l, unit) action" where
  "torn_begin D B n x = append_part B (take n (enc_data D x))"

definition torn_end :: "'l deps \<Rightarrow> build \<Rightarrow> nat \<Rightarrow> data_entry \<Rightarrow> ('l, keydir_entry) action" where
  "torn_end D B n x st =
     try_op (append_active B (drop n (enc_data D x)) st)
       (\<lambda>ix. finish_entry B (d_tstamp x) (d_value x) \<lparr>ix_len = n + ix_len ix, ix_pos = ix_pos ix - n\<rparr>)"

lemma write_entry_finish:
  "write_entry D B t k v st =
     try_op (append_active B (enc_data D \<lparr>d_tstamp = t, d_key = k, d_value = v\<rparr>) st) (finish_entry B t v)"
  by (simp add: write_entry_after finish_entry_def[abs_def])

text \<open>Without failures an append does what it should.\<close>

lemma u64_add_small: "a + b < 2 ^ 63 \<Longrightarrow> u64_add B a b = Inr (a + b)"
  by (simp add: u64_add_def in_u64_def)

lemma u64_sub_small: "b \<le> a \<Longrightarrow> a < 2 ^ 63 \<Longrightarrow> u64_sub B a b = Inr (a - b)"
  by (simp add: u64_sub_def in_u64_def)

lemma log_append_calm:
  assumes "bw_buf w = []" and "pos_ok w fs" and "faults fs = []" and "d \<noteq> []"
    and "length (idata fs (bw_file w)) + length d < 2 ^ 63"
  shows "log_append B d w fs =
    (Inr \<lparr>ix_len = length d, ix_pos = length (idata fs (bw_file w))\<rparr>,
     w\<lparr>bw_pos := length (idata fs (bw_file w)) + length d\<rparr>, append_bytes (bw_file w) d fs)"
proof -
  have p: "bw_pos w = length (idata fs (bw_file w))" using assms(1,2,5) by (simp add: pos_ok_def)
  have "int (length (idata fs (bw_file w)) + length d) < int (2 ^ 63)" using assms(5) by (simp only: of_nat_less_iff)
  then have "in_i64 (int (length (idata fs (bw_file w))) + int (length d))" by (simp add: in_i64_def)
  with assms p show ?thesis
    by (cases w) (simp add: log_append_def bw_write_all_def bw_flush_def write_file_def u64_add_small u64_sub_small Let_def)
qed

text \<open>A cut that nobody sees makes no difference.\<close>

lemma torn_is_whole:
  assumes D: "deps_laws D" and st: "ready st" "faults (files st) = []" "bw_buf (w_log st) = []"
    and n: "0 < n" "n < length (enc_data D x)"
    and fit: "length (idata (files st) (bw_file (w_log st))) + length (enc_data D x) < 2 ^ 63"
  shows "try_op (torn_begin D B n x st) (\<lambda>_. torn_end D B n x) = write_entry D B (d_tstamp x) (d_key x) (d_value x) st"
proof -
  let ?d = "enc_data D x" and ?i = "bw_file (w_log st)" and ?fs = "files st"
  let ?len = "length (idata ?fs ?i)"
  have ok: "pos_ok (w_log st) ?fs" using st(1) by (simp add: ready_def writer_ok_def)
  have d: "take n ?d \<noteq> []" "drop n ?d \<noteq> []" "?d \<noteq> []" using n by auto
  have lens: "length (take n ?d) = n" "length (drop n ?d) = length ?d - n" using n by simp_all
  let ?s1 = "st\<lparr>w_log := (w_log st)\<lparr>bw_pos := ?len + n\<rparr>, files := append_bytes ?i (take n ?d) ?fs\<rparr>"
  have 1: "torn_begin D B n x st = (Inr (), ?s1)"
    using log_append_calm[OF st(3) ok st(2) d(1), of B] fit n lens by (simp add: torn_begin_def append_part_def)
  have s1: "bw_buf (w_log ?s1) = []" "pos_ok (w_log ?s1) (files ?s1)" "faults (files ?s1) = []"
    "length (idata (files ?s1) (bw_file (w_log ?s1))) = ?len + n"
    using st n fit by (simp_all add: pos_ok_def append_bytes_def)
  have "append_active B (drop n ?d) ?s1 =
    (Inr \<lparr>ix_len = length ?d - n, ix_pos = ?len + n\<rparr>,
     ?s1\<lparr>w_log := (w_log ?s1)\<lparr>bw_pos := ?len + n + (length ?d - n)\<rparr>, files := append_bytes ?i (drop n ?d) (files ?s1)\<rparr>)"
    using log_append_calm[OF s1(1-3) d(2), of B] fit n lens s1(4) by (simp add: append_active_def)
  moreover have "append_bytes ?i (drop n ?d) (files ?s1) = append_bytes ?i ?d ?fs"
    by (simp add: append_bytes_def)
  ultimately have 2: "append_active B (drop n ?d) ?s1 =
    (Inr \<lparr>ix_len = length ?d - n, ix_pos = ?len + n\<rparr>,
     st\<lparr>w_log := (w_log st)\<lparr>bw_pos := ?len + length ?d\<rparr>, files := append_bytes ?i ?d ?fs\<rparr>)"
    using n by simp
  have 3: "append_active B ?d st = (Inr \<lparr>ix_len = length ?d, ix_pos = ?len\<rparr>,
     st\<lparr>w_log := (w_log st)\<lparr>bw_pos := ?len + length ?d\<rparr>, files := append_bytes ?i ?d ?fs\<rparr>)"
    using log_append_calm[OF st(3) ok st(2) d(3) fit, of B] by (simp add: append_active_def)
  have "\<lparr>d_tstamp = d_tstamp x, d_key = d_key x, d_value = d_value x\<rparr> = x" by simp
  with 1 2 3 n show ?thesis unfolding write_entry_finish torn_end_def by (simp only: try_op.simps) simp
qed

subsection \<open>The panic\<close>

text \<open>What a reader does with an entry that its mapping cuts.\<close>

lemma cut_slice_panics:
  assumes "kd_pos e < mmap_len rd" and "mmap_len rd < kd_pos e + kd_len e" and "kd_pos e + kd_len e < 2 ^ 63"
  shows "reader_slice B rd (kd_len e) (kd_pos e) fs = (Inl Panic, rd, fs)"
  using assms by (simp add: reader_slice_def u64_add_small)

lemma cached_get_panics:
  assumes "\<not> closed st" and "pool st = [l]" and "map_of (keydir st) k = Some e" and "lru_get D (kd_fileid e) l = Some rd"
    and "kd_pos e < mmap_len rd" and "mmap_len rd < kd_pos e + kd_len e" and "kd_pos e + kd_len e < 2 ^ 63"
  shows "\<exists>st'. handle_get D B k st = Some (Inl Panic, st')"
  using assms cut_slice_panics[OF assms(5-7), of B "files st"]
  by (simp add: handle_get_def reader_get_def log_dir_read_def log_dir_def reader_at_def)

text \<open>A get that finds no reader of its file in the cache maps the whole file as it is.\<close>

lemma miss_get:
  assumes D: "deps_laws D" and inv: "storage_inv D st" and nf: "faults (files st) = []" and o: "\<not> closed st"
    and p: "pool st = [l]" and k: "map_of (keydir st) k = Some e" and miss: "lru_get D (kd_fileid e) l = None"
    and i: "map_of (dir (files st)) (datafile_name (kd_fileid e)) = Some i"
  shows "handle_get D B k st = Some (Inr (abs_store D st k),
    st\<lparr>pool := [lru_put D (kd_fileid e) \<lparr>rd_file = i, mmap_len = length (idata (files st) i)\<rparr> l]\<rparr>)"
proof -
  let ?fs = "files st" and ?rd = "\<lparr>rd_file = i, mmap_len = length (idata (files st) i)\<rparr>"
  from keydir_okD(2)[OF storage_invD(2)[OF inv] map_of_SomeD[OF k]] obtain x where x: "located D ?fs e x" by blast
  then have loc: "entry_ok x" "kd_len e = length (enc_data D x)" "kd_pos e + kd_len e \<le> length (idata ?fs i)"
    "kd_pos e + kd_len e < 2 ^ 63" "sub_slice (idata ?fs i) (kd_pos e) (kd_pos e + kd_len e) = enc_data D x"
    using i by (auto simp: located_def)
  have "kd_len e \<noteq> 0" using deps_laws.enc_data_nonempty[OF D loc(1)] loc(2) by simp
  with loc(3) have "kd_pos e < length (idata ?fs i)" by linarith
  with loc have "reader_slice B ?rd (kd_len e) (kd_pos e) ?fs = (Inr (enc_data D x), ?rd, ?fs)"
    by (simp add: reader_slice_def u64_add_small)
  then have at: "reader_at D B ?rd (kd_len e) (kd_pos e) ?fs = (Inr x, ?rd, ?fs)"
    using decode_located[OF D x] by (simp add: reader_at_def)
  have "log_dir_read D B (kd_fileid e) (kd_len e) (kd_pos e) l ?fs = (Inr x, lru_put D (kd_fileid e) ?rd l, ?fs)"
    using at i miss nf by (simp add: reader_at_cut open_read_def map_file_def)
  moreover have "abs_store D st k = d_value x" using k stored_located[OF D x] by (simp add: abs_store_def)
  ultimately show ?thesis using o p k by (simp add: handle_get_def reader_get_def)
qed

text \<open>What finishing an entry leaves as it was.\<close>

lemma finish_entry_Inr:
  assumes run: "finish_entry B t v ix st = (Inr e, st')" and st: "ready st"
  shows "writer_step st st'" and "e = \<lparr>kd_fileid = active_fileid st, kd_len = ix_len ix, kd_pos = ix_pos ix, kd_tstamp = t\<rparr>"
proof -
  let ?m = "\<lambda>s. if max_file_size (conf s) < written_bytes s then next_active_datafile B s else (Inr (), s)"
  from run obtain u2 s2 u3 s3 where 2: "after_append B v ix st = (Inr u2, s2)" and 3: "?m s2 = (Inr u3, s3)"
    and out: "(Inr \<lparr>kd_fileid = active_fileid s2, kd_len = ix_len ix, kd_pos = ix_pos ix, kd_tstamp = t\<rparr>, s3) =
      (Inr e :: (bc_error, keydir_entry) result, st')"
    unfolding finish_entry_def by (elim try_op_InrE) (rule that; assumption)
  have q: "quiet st s2" using after_append_quiet[OF 2] .
  note s2 = quiet_step[OF q st]
  have "writer_step s2 s3"
    using 3 next_active_datafile_step(1)[of B s2 "Inr u3" s3 u3] writer_step_ready[OF s2] writer_step_refl
    by (auto split: if_splits)
  with writer_step_trans[OF s2] out show "writer_step st st'" by simp
  show "e = \<lparr>kd_fileid = active_fileid st, kd_len = ix_len ix, kd_pos = ix_pos ix, kd_tstamp = t\<rparr>"
    using out q by (simp add: quiet_def)
qed

lemma torn_begin_Inr:
  assumes st: "ready st" "faults (files st) = []" "bw_buf (w_log st) = []" and n: "0 < n" "n < length (enc_data D x)"
    and fit: "length (idata (files st) (bw_file (w_log st))) + length (enc_data D x) < 2 ^ 63"
    and begin1: "torn_begin D B n x st = (Inr u, s1)"
  shows "s1 = st\<lparr>w_log := (w_log st)\<lparr>bw_pos := length (idata (files st) (bw_file (w_log st))) + n\<rparr>,
      files := append_bytes (bw_file (w_log st)) (take n (enc_data D x)) (files st)\<rparr>"
proof -
  have ok: "pos_ok (w_log st) (files st)" using st(1) by (simp add: ready_def writer_ok_def)
  have d: "take n (enc_data D x) \<noteq> []" "length (take n (enc_data D x)) = n" using n by auto
  with begin1 log_append_calm[OF st(3) ok st(2) d(1), of B] fit n show ?thesis
    by (auto simp: torn_begin_def append_part_def)
qed

text \<open>Both halves of the append, with whatever happened to the pool in between.\<close>

lemma torn_halves:
  assumes D: "deps_laws D" and st: "ready st" "faults (files st) = []" "bw_buf (w_log st) = []"
    and n: "0 < n" "n < length (enc_data D x)" and x: "in_i64 (d_tstamp x)"
    and fit: "length (idata (files st) (bw_file (w_log st))) + length (enc_data D x) < 2 ^ 63"
    and begin1: "torn_begin D B n x st = (Inr u, s1)" and end1: "torn_end D B n x (s1\<lparr>pool := p\<rparr>) = (Inr e, s3)"
  shows "e = \<lparr>kd_fileid = active_fileid st, kd_len = length (enc_data D x),
      kd_pos = length (idata (files st) (bw_file (w_log st))), kd_tstamp = d_tstamp x\<rparr>"
    and "located D (files s3) e x" and "keydir s3 = keydir st" and "pool s3 = p" and "closed s3 = closed st"
proof -
  let ?d = "enc_data D x" and ?i = "bw_file (w_log st)" and ?fs = "files st"
  let ?len = "length (idata ?fs ?i)"
  have ok: "pos_ok (w_log st) ?fs" "map_of (dir ?fs) (datafile_name (active_fileid st)) = Some ?i" "fs_ok ?fs"
    "active_fileid st < 2 ^ 63 + inext ?fs"
    using st(1) by (simp_all add: ready_def writer_ok_def)
  have d: "take n ?d \<noteq> []" "drop n ?d \<noteq> []" using n by auto
  have lens: "length (take n ?d) = n" "length (drop n ?d) = length ?d - n" using n by simp_all
  note s1 = torn_begin_Inr[OF st n fit begin1]
  let ?s1 = "s1\<lparr>pool := p\<rparr>"
  let ?s2 = "?s1\<lparr>w_log := (w_log st)\<lparr>bw_pos := ?len + length ?d\<rparr>, files := append_bytes ?i ?d ?fs\<rparr>"
  have e1: "bw_buf (w_log ?s1) = []" "pos_ok (w_log ?s1) (files ?s1)" "faults (files ?s1) = []"
    "length (idata (files ?s1) (bw_file (w_log ?s1))) = ?len + n"
    using st n fit by (simp_all add: s1 pos_ok_def append_bytes_def)
  have "append_active B (drop n ?d) ?s1 =
    (Inr \<lparr>ix_len = length ?d - n, ix_pos = ?len + n\<rparr>,
     ?s1\<lparr>w_log := (w_log ?s1)\<lparr>bw_pos := ?len + n + (length ?d - n)\<rparr>, files := append_bytes ?i (drop n ?d) (files ?s1)\<rparr>)"
    using log_append_calm[OF e1(1-3) d(2), of B] fit n lens e1(4) s1 by (simp add: append_active_def)
  then have "append_active B (drop n ?d) ?s1 = (Inr \<lparr>ix_len = length ?d - n, ix_pos = ?len + n\<rparr>, ?s2)"
    using n by (simp add: s1 append_bytes_def)
  with end1 n have fin: "finish_entry B (d_tstamp x) (d_value x) \<lparr>ix_len = length ?d, ix_pos = ?len\<rparr> ?s2 = (Inr e, s3)"
    by (simp add: torn_end_def)
  have g: "grown ?fs ?i ([] @ ?d) (files ?s2)" by (simp add: grown_def append_bytes_def)
  have ready2: "ready ?s2"
    using ok fit grown_fs_ok[OF g] by (simp add: s1 ready_def writer_ok_def pos_ok_def append_bytes_def st(3))
  note f = finish_entry_Inr[OF fin ready2]
  show e: "e = \<lparr>kd_fileid = active_fileid st, kd_len = length ?d, kd_pos = ?len, kd_tstamp = d_tstamp x\<rparr>"
    using f(2) s1 by simp
  have "entry_ok x" using entry_ok_small[OF D x] fit by simp
  from grown_located[OF g ok(2) this] fit e have "located D (files ?s2) e x" by simp
  moreover have "grows (files ?s2) (files s3)" using f(1) by (simp add: writer_step_def)
  ultimately show "located D (files s3) e x" using located_grows ready2 by (auto simp: ready_def)
  show "keydir s3 = keydir st" "pool s3 = p" "closed s3 = closed st"
    using f(1) s1 by (simp_all add: writer_step_def same_rest_def)
qed

end
