(* ===== verification/Healthy.thy ===== *)
theory Healthy
  imports Progress
begin

section \<open>Storages in good health\<close>

text \<open>
  A storage whose system calls do not fail, with room for \<open>n\<close> more writes: its operations
  succeed, do what they should, and leave room for one write less; it can be dropped and opened
  again. The statistics of such a storage count its keys and its entries.
\<close>

subsection \<open>Good health\<close>

definition healthy :: "'l deps \<Rightarrow> nat \<Rightarrow> 'l storage \<Rightarrow> data_entry list \<Rightarrow> bool" where
  "healthy D n st xs \<longleftrightarrow> logged D st xs \<and> \<not> closed st \<and> pool st \<noteq> [] \<and> faults (files st) = [] \<and> None \<notin> set (clock st) \<and>
     active_fileid st + n < 2 ^ 63 \<and> inext (files st) + n < 2 ^ 63 \<and>
     written_bytes st \<le> max_file_size (conf st) \<and> max_file_size (conf st) < 2 ^ 62"

text \<open>An entry for \<open>k\<close> and \<open>v\<close> has a size a file can take.\<close>

definition fits :: "'l deps \<Rightarrow> bytes \<Rightarrow> bytes option \<Rightarrow> bool" where
  "fits D k v \<longleftrightarrow> (\<forall>t. length (enc_data D \<lparr>d_tstamp = t, d_key = k, d_value = v\<rparr>) < 2 ^ 62)"

lemma healthyD:
  assumes "healthy D n st xs"
  shows "logged D st xs" "durable D st" "storage_inv D st" "\<not> closed st" "pool st \<noteq> []" "faults (files st) = []"
    "abs_store D st = replay xs (\<lambda>_. None)"
  using assms logged_store[of D st xs] by (auto simp: healthy_def durable_logged logged_def)

lemma healthy_less: "healthy D n st xs \<Longrightarrow> m \<le> n \<Longrightarrow> healthy D m st xs"
  by (auto simp: healthy_def)

lemma healthy_room:
  assumes "healthy D n st xs" and "fits D k v"
  shows "length (idata (files st) (bw_file (w_log st))) + length (enc_data D \<lparr>d_tstamp = t, d_key = k, d_value = v\<rparr>) < 2 ^ 63"
proof -
  have "length (idata (files st) (bw_file (w_log st))) < 2 ^ 62"
    using assms(1) by (auto simp: healthy_def logged_def durable_at_def on_disk_def)
  moreover have "length (enc_data D \<lparr>d_tstamp = t, d_key = k, d_value = v\<rparr>) < 2 ^ 62" using assms(2) by (simp add: fits_def)
  ultimately show ?thesis by simp
qed

lemma healthy_write:
  assumes "healthy D (Suc n) st xs" and "one_write st st'" and "set (clock st') \<subseteq> set (clock st)" and "logged D st' ys"
  shows "healthy D n st' ys" and "conf st' = conf st"
  using assms by (auto simp: healthy_def one_write_def same_rest_def)

lemma healthy_put:
  assumes D: "deps_laws D" and st: "healthy D (Suc n) st xs" and v: "fits D k (Some v)"
  shows "\<exists>t st'. handle_put D B k v st = (Inr (), st') \<and> healthy D n st' (xs @ [\<lparr>d_tstamp = t, d_key = k, d_value = Some v\<rparr>]) \<and>
    conf st' = conf st"
proof -
  note h = healthyD[OF st]
  have none: "None \<notin> set (clock st)" and small: "active_fileid st < 2 ^ 63" "inext (files st) < 2 ^ 63"
    using st by (simp_all add: healthy_def)
  from timestamp_succeeds[OF none] obtain t ts where ts: "timestamp st = (Inr t, st\<lparr>clock := ts\<rparr>)" "set ts \<subseteq> set (clock st)" by blast
  from put_can_run[OF D h(2) ts(1) h(6) small healthy_room[OF st v], of B] obtain st' where
    p: "put D B k v st = (Inr (), st')" "one_write st st'" "clock st' = ts" by blast
  from put_logged[OF D h(1) p(1)] obtain t' where "logged D st' (xs @ [\<lparr>d_tstamp = t', d_key = k, d_value = Some v\<rparr>])" ..
  from healthy_write[OF st p(2) _ this] p(1,3) ts(2) h(4) show ?thesis by (auto simp: handle_put_def guarded_def)
qed

lemma healthy_delete:
  assumes D: "deps_laws D" and st: "healthy D (Suc n) st xs" and v: "fits D k None"
  shows "\<exists>t st'. handle_delete D B k st = (Inr (replay xs (\<lambda>_. None) k \<noteq> None), st') \<and>
    healthy D n st' (xs @ [\<lparr>d_tstamp = t, d_key = k, d_value = None\<rparr>]) \<and> conf st' = conf st"
proof -
  note h = healthyD[OF st]
  have none: "None \<notin> set (clock st)" and small: "active_fileid st < 2 ^ 63" "inext (files st) < 2 ^ 63"
    using st by (simp_all add: healthy_def)
  from timestamp_succeeds[OF none] obtain t ts where ts: "timestamp st = (Inr t, st\<lparr>clock := ts\<rparr>)" "set ts \<subseteq> set (clock st)" by blast
  from delete_can_run[OF D h(2) ts(1) h(6) small healthy_room[OF st v], of B] obtain b st' where
    p: "delete D B k st = (Inr b, st')" "one_write st st'" "clock st' = ts" by blast
  from delete_logged[OF D h(1) p(1)] obtain t' where "logged D st' (xs @ [\<lparr>d_tstamp = t', d_key = k, d_value = None\<rparr>])" ..
  moreover have "b = (replay xs (\<lambda>_. None) k \<noteq> None)" using delete_ok[OF D h(3) p(1)] h(7) by simp
  ultimately show ?thesis using healthy_write[OF st p(2)] p(1,3) ts(2) h(4) by (auto simp: handle_delete_def guarded_def)
qed

text \<open>Without failing calls, reading makes no call fail either.\<close>

lemma reader_at_calm: "reader_at D B rd len pos fs = (r, rd', fs') \<Longrightarrow> faults fs = [] \<Longrightarrow> fs' = fs"
  by (auto simp: reader_at_def reader_slice_def map_file_def try_op_case split: if_splits)

lemma reader_get_calm:
  assumes "reader_get D B k kd l fs = (r, l', fs')" and "faults fs = []"
  shows "fs' = fs"
proof -
  have open_calm: "try_op (open_read name fs) reader_new = (q, fs1) \<Longrightarrow> fs1 = fs" for name q fs1
    using assms(2) by (auto simp: open_read_def reader_new_def map_file_def elim!: try_opE split: option.splits)
  from assms show ?thesis
    by (auto simp: reader_get_def log_dir_read_def log_dir_def dest!: open_calm reader_at_calm
        split: option.splits prod.splits sum.splits fault.splits)
qed

lemma handle_get_calm:
  assumes "handle_get D B k st = Some (r, st')" and "faults (files st) = []"
  shows "files st' = files st" and "conf st' = conf st" and "clock st' = clock st"
  using assms by (auto simp: handle_get_def dest: reader_get_calm split: if_splits list.splits prod.splits sum.splits fault.splits)

lemma healthy_get:
  assumes D: "deps_laws D" and st: "healthy D n st xs"
  shows "\<exists>st'. handle_get D B k st = Some (Inr (replay xs (\<lambda>_. None) k), st') \<and> healthy D n st' xs \<and> conf st' = conf st"
proof -
  note h = healthyD[OF st]
  from handle_get_ok[OF D h(3-5), of B k] obtain r st' where g: "handle_get D B k st = Some (r, st')"
    "io_or (files st) (abs_store D st k) r" "length (pool st') = length (pool st)" by blast
  have r: "r = Inr (replay xs (\<lambda>_. None) k)" using g(2) h(6,7) by (auto simp: io_or_def)
  note f = handle_get_fields[OF g(1)] handle_get_calm[OF g(1) h(6)]
  have "pool st' \<noteq> []" using g(3) h(5) by auto
  with g r f st get_logged(1)[OF D h(1) g(1)] show ?thesis by (auto simp: healthy_def)
qed

lemma healthy_sync:
  assumes D: "deps_laws D" and st: "healthy D n st xs"
  shows "handle_sync st = (Inr (), st)"
  using healthyD(4,6)[OF st] sync_succeeds[of st "w_log st"] by (auto simp: handle_sync_def guarded_def writer_sync_def)

text \<open>So the engine is one that does not fail, for the next \<open>n\<close> operations.\<close>

lemma bitcask_reliable:
  assumes D: "deps_laws D"
  shows "reliable_store (bitcask_kv D B text) (storage_inv D) (abs_store D) (\<lambda>n st. \<exists>xs. healthy D n st xs) (fits D)"
proof (intro reliable_store.intro[OF bitcask_refines[OF D]] reliable_store_axioms.intro, goal_cases)
  case (1 n st)
  then show ?case using healthyD(3) by blast
next
  case (2 n st k v)
  then obtain xs where "healthy D (Suc n) st xs" by blast
  from healthy_put[OF D this 2(2), of B] show ?case by (auto simp: bitcask_kv_def)
next
  case (3 n st k)
  then obtain xs where "healthy D (Suc n) st xs" by blast
  from healthy_get[OF D healthy_less[OF this, of n], of B k] show ?case by (auto simp: bitcask_kv_def)
next
  case (4 n st k)
  then obtain xs where "healthy D (Suc n) st xs" by blast
  from healthy_delete[OF D this 4(2), of B] show ?case by (auto simp: bitcask_kv_def)
qed

subsection \<open>Opening and dropping\<close>

definition readings_ok :: "int option list \<Rightarrow> bool" where
  "readings_ok readings \<longleftrightarrow> list_all (\<lambda>r. case r of None \<Rightarrow> False | Some t \<Rightarrow> in_i64 t) readings"

lemma readings_okD: "readings_ok readings \<Longrightarrow> None \<notin> set readings" "readings_ok readings \<Longrightarrow> Some t \<in> set readings \<Longrightarrow> in_i64 t"
  by (auto simp: readings_ok_def list_all_iff)

lemma bitcask_open_pool:
  assumes "bitcask_open D B c readings h fs = Some (Inr st, fs')"
  shows "length (pool st) = concurrency c"
  using assms by (auto simp: bitcask_open_def Let_def split: option.splits prod.splits sum.splits)

lemma healthy_open:
  assumes D: "deps_laws D" and c: "0 < concurrency c" "max_file_size c < 2 ^ 62" and n: "n + 1 < 2 ^ 63"
    and ts: "None \<notin> set readings" "\<And>t. Some t \<in> set readings \<Longrightarrow> in_i64 t"
  shows "\<exists>st. bitcask_open D B c readings h empty_fs = Some (Inr st, files st) \<and> healthy D n st [] \<and> conf st = c"
proof -
  have fs: "fs_ok empty_fs" "faults empty_fs = []" "inext empty_fs < 2 ^ 63" "no_hints empty_fs" "logs_ok D empty_fs []"
    by (simp_all add: empty_fs_def fs_ok_def no_hints_def logs_ok_def ids_of_def List.map_filter_def)
  have [simp]: "inext empty_fs = 0" by (simp add: empty_fs_def)
  from open_durable[OF D fs c(1) ts(2), of readings B h] obtain st where
    st: "bitcask_open D B c readings h empty_fs = Some (Inr st, files st)" "logged D st []" "\<not> closed st" "faults (files st) = []"
      "conf st = c" "clock st = readings" "written_bytes st = 0" "active_fileid st = next_id []" "inext (files st) = 1"
    by (auto simp: all_entries_def)
  moreover have "pool st \<noteq> []" using bitcask_open_pool[OF st(1)] c(1) by auto
  ultimately show ?thesis using c(2) n ts(1) by (auto simp: healthy_def next_id_def)
qed

text \<open>The storage goes out of scope and is opened again.\<close>

lemma healthy_reopen:
  assumes D: "deps_laws D" and st: "healthy D (Suc n) st xs" and c: "0 < concurrency c" "max_file_size c < 2 ^ 62"
    and ts: "None \<notin> set readings" "\<And>t. Some t \<in> set readings \<Longrightarrow> in_i64 t"
  shows "\<exists>st'. bitcask_open D B c readings h (bitcask_drop st) = Some (Inr st', files st') \<and> healthy D n st' xs \<and> conf st' = c"
proof -
  note h = healthyD[OF st]
  have small: "active_fileid st < 2 ^ 63" "inext (files st) < 2 ^ 63" using st by (simp_all add: healthy_def)
  have nil: "bw_buf (w_log st) = []" using h(1) by (auto simp: logged_def durable_at_def on_disk_def)
  have "faults (bitcask_drop st) = []"
    using nil h(6) by (auto simp: bitcask_drop_def writer_drop_def close_storage_def Let_def bw_drop_empty remove_file_def split: option.split)
  then have drop: "dropped_files st = bitcask_drop st" by (simp add: dropped_files_def)
  from reopen_logged[OF D h(1) small c(1) ts(2), of readings B h, unfolded drop] obtain st' where
    s: "bitcask_open D B c readings h (bitcask_drop st) = Some (Inr st', files st')" "logged D st' xs" "\<not> closed st'"
      "conf st' = c" "clock st' = readings" "faults (files st') = []" "written_bytes st' = 0"
      "active_fileid st' \<le> Suc (active_fileid st)" "inext (files st') = Suc (inext (files st))" by blast
  moreover have "pool st' \<noteq> []" using bitcask_open_pool[OF s(1)] c(1) by auto
  ultimately show ?thesis using st c(2) ts(1) by (auto simp: healthy_def)
qed

subsection \<open>Runs\<close>

text \<open>Operations one after the other and what they return; \<open>None\<close> when one fails, panics or does not return.\<close>

datatype engine_answer = Completed | WasThere bool | HasValue "bytes option"

fun run_op :: "'l deps \<Rightarrow> build \<Rightarrow> engine_op \<Rightarrow> 'l storage \<Rightarrow> (engine_answer \<times> 'l storage) option" where
  "run_op D B (OpPut k v) st = (case handle_put D B k v st of (Inr _, st) \<Rightarrow> Some (Completed, st) | _ \<Rightarrow> None)"
| "run_op D B (OpDelete k) st = (case handle_delete D B k st of (Inr b, st) \<Rightarrow> Some (WasThere b, st) | _ \<Rightarrow> None)"
| "run_op D B (OpGet k) st = (case handle_get D B k st of Some (Inr v, st) \<Rightarrow> Some (HasValue v, st) | _ \<Rightarrow> None)"
| "run_op D B OpSync st = (case handle_sync st of (Inr _, st) \<Rightarrow> Some (Completed, st) | _ \<Rightarrow> None)"

fun run_ops :: "'l deps \<Rightarrow> build \<Rightarrow> engine_op list \<Rightarrow> 'l storage \<Rightarrow> (engine_answer list \<times> 'l storage) option" where
  "run_ops D B [] st = Some ([], st)"
| "run_ops D B (op # ops) st =
     (case run_op D B op st of
        None \<Rightarrow> None
      | Some (a, st) \<Rightarrow> map_option (\<lambda>(answers, st). (a # answers, st)) (run_ops D B ops st))"

text \<open>The answers of a finite map.\<close>

fun map_answer :: "engine_op \<Rightarrow> store \<Rightarrow> engine_answer" where
  "map_answer (OpPut k v) m = Completed"
| "map_answer (OpDelete k) m = WasThere (m k \<noteq> None)"
| "map_answer (OpGet k) m = HasValue (m k)"
| "map_answer OpSync m = Completed"

fun map_answers :: "engine_op list \<Rightarrow> store \<Rightarrow> engine_answer list" where
  "map_answers [] m = []"
| "map_answers (op # ops) m = map_answer op m # map_answers ops (op_effect op m)"

fun op_fits :: "'l deps \<Rightarrow> engine_op \<Rightarrow> bool" where
  "op_fits D (OpPut k v) \<longleftrightarrow> fits D k (Some v)"
| "op_fits D (OpDelete k) \<longleftrightarrow> fits D k None"
| "op_fits D _ \<longleftrightarrow> True"

lemma healthy_op:
  assumes D: "deps_laws D" and st: "healthy D (Suc n) st xs" and fit: "op_fits D op"
  shows "\<exists>st' ys. run_op D B op st = Some (map_answer op (replay xs (\<lambda>_. None)), st') \<and> healthy D n st' ys \<and>
    replay ys (\<lambda>_. None) = op_effect op (replay xs (\<lambda>_. None))"
proof (cases op)
  case (OpPut k v)
  with fit have "fits D k (Some v)" by simp
  from healthy_put[OF D st this, of B] OpPut show ?thesis by fastforce
next
  case (OpDelete k)
  with fit have "fits D k None" by simp
  from healthy_delete[OF D st this, of B] OpDelete show ?thesis by fastforce
next
  case (OpGet k)
  with healthy_get[OF D healthy_less[OF st], of n B k] show ?thesis by fastforce
next
  case OpSync
  with healthy_sync[OF D st] healthy_less[OF st, of n] show ?thesis by fastforce
qed

lemma healthy_ops:
  assumes D: "deps_laws D"
  shows "healthy D (length ops + n) st xs \<Longrightarrow> list_all (op_fits D) ops \<Longrightarrow>
    \<exists>st' ys. run_ops D B ops st = Some (map_answers ops (replay xs (\<lambda>_. None)), st') \<and> healthy D n st' ys \<and>
      replay ys (\<lambda>_. None) = fold op_effect ops (replay xs (\<lambda>_. None))"
proof (induction ops arbitrary: st xs)
  case (Cons op ops)
  from healthy_op[OF D, of "length ops + n" st xs op B] Cons.prems obtain s1 ys where
    1: "run_op D B op st = Some (map_answer op (replay xs (\<lambda>_. None)), s1)" "healthy D (length ops + n) s1 ys"
      "replay ys (\<lambda>_. None) = op_effect op (replay xs (\<lambda>_. None))" by auto
  from Cons.IH[OF 1(2)] Cons.prems(2) obtain st' zs where
    "run_ops D B ops s1 = Some (map_answers ops (replay ys (\<lambda>_. None)), st')" "healthy D n st' zs"
    "replay zs (\<lambda>_. None) = fold op_effect ops (replay ys (\<lambda>_. None))" by auto
  with 1 show ?case by (intro exI[of _ st'] exI[of _ zs]) simp
qed auto

subsection \<open>What the statistics add up to\<close>

definition total_of :: "(log_statistics \<Rightarrow> nat) \<Rightarrow> (nat \<times> log_statistics) list \<Rightarrow> nat" where
  "total_of g ss = sum_list (map (g \<circ> snd) ss)"

lemma total_of_files:
  assumes "distinct (map fst ss)"
  shows "total_of g ss = (\<Sum>f \<in> set (map fst ss). g (stats_of ss f))"
proof -
  have "map (\<lambda>f. g (stats_of ss f)) (map fst ss) = map (g \<circ> snd) ss" using assms by (auto simp: stats_of_def)
  then show ?thesis unfolding sum.distinct_set_conv_list[OF assms] total_of_def by (rule arg_cong[OF sym])
qed

lemma sum_tally:
  assumes "finite F" and "\<forall>(k, e) \<in> set kd. kd_fileid e \<in> F"
  shows "(\<Sum>f \<in> F. tally (here f) kd) = length kd"
  using assms(2)
proof (induction kd)
  case (Cons p kd)
  obtain k e where p: "p = (k, e)" by fastforce
  have "(\<Sum>f \<in> F. here f e) = 1" using Cons.prems p assms(1) by (simp add: here_def)
  then show ?case using Cons p by (simp add: tally_def sum.distrib)
qed (simp add: tally_def)

lemma sum_entry_count:
  assumes "finite F" and "distinct (map fst logs)" and "\<And>f. f \<notin> F \<Longrightarrow> entry_count logs f = 0"
  shows "(\<Sum>f \<in> F. entry_count logs f) = length (all_entries logs)"
proof -
  have "(\<Sum>f \<in> F. entry_count logs f) = (\<Sum>f \<in> F \<union> set (map fst logs). entry_count logs f)"
    using assms(1,3) by (intro sum.mono_neutral_left) auto
  also have "\<dots> = (\<Sum>f \<in> set (map fst logs). entry_count logs f)"
    using assms(1) by (intro sum.mono_neutral_right) (auto simp: count_on_def split: option.split dest!: map_of_SomeD intro: rev_image_eqI)
  also have "\<dots> = sum_list (map (entry_count logs) (map fst logs))" by (rule sum.distinct_set_conv_list[OF assms(2)])
  also have "map (entry_count logs) (map fst logs) = map (length \<circ> snd) logs" using assms(2) by (auto simp: count_on_def)
  finally show ?thesis by (simp add: all_entries_def length_concat comp_def)
qed

text \<open>The live keys are the keys of the store, and live and dead keys together are the entries.\<close>

lemma exact_totals:
  assumes "stats_exact kd ss (entry_count logs) b" and "distinct (map fst logs)"
  shows "total_of live_keys ss = length kd" and "total_of dead_keys ss + length kd = length (all_entries logs)"
proof -
  let ?F = "set (map fst ss)"
  note ex = stats_exactD[OF assms(1)]
  have none: "live_keys (stats_of ss f) = 0" "dead_keys (stats_of ss f) = 0" if "f \<notin> ?F" for f
  proof -
    have "map_of ss f = None" using that unfolding map_of_eq_None_iff by simp
    then show "live_keys (stats_of ss f) = 0" "dead_keys (stats_of ss f) = 0" by (simp_all add: stats_of_def default_stats_def)
  qed
  have "kd_fileid e \<in> ?F" if "(k, e) \<in> set kd" for k e
  proof (rule ccontr)
    assume "kd_fileid e \<notin> ?F"
    from none(1)[OF this] have "tally (here (kd_fileid e)) kd = 0" unfolding ex(1) .
    moreover have "(here (kd_fileid e) \<circ> snd) (k, e) \<in> set (map (here (kd_fileid e) \<circ> snd) kd)" unfolding set_map by (rule imageI[OF that])
    then have "1 \<in> set (map (here (kd_fileid e) \<circ> snd) kd)" by (simp only: o_apply snd_conv here_def if_True refl)
    then have "1 \<le> tally (here (kd_fileid e)) kd" unfolding tally_def by (rule member_le_sum_list) simp
    ultimately show False by simp
  qed
  then have kd: "(\<Sum>f \<in> ?F. tally (here f) kd) = length kd" by (intro sum_tally) auto
  have "entry_count logs f = 0" if "f \<notin> ?F" for f using none[OF that] ex(1,2)[of f] by simp
  then have "(\<Sum>f \<in> ?F. entry_count logs f) = length (all_entries logs)" using assms(2) by (intro sum_entry_count) auto
  moreover have "(\<Sum>f \<in> ?F. dead_keys (stats_of ss f)) + (\<Sum>f \<in> ?F. tally (here f) kd) = (\<Sum>f \<in> ?F. entry_count logs f)"
    unfolding sum.distrib[symmetric] using ex(2) by simp
  moreover have "total_of live_keys ss = (\<Sum>f \<in> ?F. tally (here f) kd)" "total_of dead_keys ss = (\<Sum>f \<in> ?F. dead_keys (stats_of ss f))"
    unfolding total_of_files[OF stats_exact_distinct[OF assms(1)]] ex(1) by (rule refl)+
  ultimately show "total_of live_keys ss = length kd" "total_of dead_keys ss + length kd = length (all_entries logs)"
    using kd by linarith+
qed

lemma length_keydir:
  assumes D: "deps_laws D" and st: "storage_inv D st"
  shows "length (keydir st) = card (dom (abs_store D st))"
proof -
  note kd = storage_invD(2)[OF st]
  have some: "stored D (files st) e \<noteq> None" if "(k, e) \<in> set (keydir st)" for k e
    using keydir_okD(2)[OF kd that] stored_located[OF D] by fastforce
  have "dom (abs_store D st) = set (map fst (keydir st))"
  proof (intro set_eqI iffI)
    fix k assume "k \<in> dom (abs_store D st)"
    then show "k \<in> set (map fst (keydir st))"
      by (force simp: abs_store_def split: option.splits dest!: map_of_SomeD)
  next
    fix k assume "k \<in> set (map fst (keydir st))"
    then obtain e where e: "map_of (keydir st) k = Some e" by (metis map_of_eq_None_iff not_None_eq set_map)
    from some[OF map_of_SomeD[OF e]] e show "k \<in> dom (abs_store D st)" by (simp add: abs_store_def domIff)
  qed
  moreover have "distinct (map fst (keydir st))" using keydir_okD(1)[OF kd] .
  ultimately show ?thesis using distinct_card[of "map fst (keydir st)"] by simp
qed

lemma healthy_totals:
  assumes D: "deps_laws D" and st: "healthy D n st xs"
  shows "total_of live_keys (w_stats st) = card (dom (replay xs (\<lambda>_. None)))"
    and "total_of dead_keys (w_stats st) + card (dom (replay xs (\<lambda>_. None))) = length xs"
proof -
  note h = healthyD[OF st]
  from h(1) obtain old es where d: "durable_at D st old es" "all_entries (the_logs st old es) = xs" by (auto simp: logged_def)
  then have ex: "stats_exact (keydir st) (w_stats st) (entry_count (the_logs st old es)) (byte_count D (the_logs st old es))"
    and ids: "ids_of (map fst (dir (files st))) = map fst (the_logs st old es)"
    by (simp_all add: durable_at_def on_disk_def the_logs_def)
  have "distinct (map fst (the_logs st old es))" using ids_of_sorted(2)[of "map fst (dir (files st))"] ids by simp
  note t = exact_totals[OF ex this, unfolded d(2) length_keydir[OF D h(3)] h(7)]
  show "total_of live_keys (w_stats st) = card (dom (replay xs (\<lambda>_. None)))"
    "total_of dead_keys (w_stats st) + card (dom (replay xs (\<lambda>_. None))) = length xs" by (rule t)+
qed

end
