(* ===== verification/Bincode.thy ===== *)
theory Bincode
  imports Deps
begin

section \<open>An instance of the crates\<close>

text \<open>
  Concrete functions that keep the laws of \<open>deps_laws\<close>: the default encoding of \<open>bincode\<close>,
  with integers of eight bytes in little endian, a length before the bytes of a \<open>Bytes\<close> and a
  tag before an \<open>Option\<close>, and a cache that drops the least recently used reader. The concrete
  runs of the engine use it.
\<close>

type_synonym 'a parser = "bytes \<Rightarrow> codec_error + 'a \<times> bytes"

fun le_bytes :: "nat \<Rightarrow> int \<Rightarrow> bytes" where
  "le_bytes 0 x = []"
| "le_bytes (Suc k) x = of_int (x mod 256) # le_bytes k (x div 256)"

fun le_val :: "bytes \<Rightarrow> int" where
  "le_val [] = 0"
| "le_val (b # bs) = uint b + 256 * le_val bs"

definition get_u64 :: "nat parser" where
  "get_u64 b = (if length b < 8 then Inl UnexpectedEof else Inr (nat (le_val (take 8 b)), drop 8 b))"

definition get_i64 :: "int parser" where
  "get_i64 b =
     (if length b < 8 then Inl UnexpectedEof
      else let v = le_val (take 8 b) in Inr (if v < 2 ^ 63 then v else v - 2 ^ 64, drop 8 b))"

fun bind_parser :: "'a parser \<Rightarrow> ('a \<Rightarrow> 'b parser) \<Rightarrow> 'b parser" where
  "bind_parser p k b = (case p b of Inl e \<Rightarrow> Inl e | Inr (x, rest) \<Rightarrow> k x rest)"

definition take_bytes :: "nat \<Rightarrow> bytes parser" where
  "take_bytes n b = (if length b < n then Inl UnexpectedEof else Inr (take n b, drop n b))"

definition put_u64 :: "nat \<Rightarrow> bytes" where
  "put_u64 n = le_bytes 8 (int n)"

definition put_bytes :: "bytes \<Rightarrow> bytes" where
  "put_bytes b = put_u64 (length b) @ b"

definition get_bytes :: "bytes parser" where
  "get_bytes = bind_parser get_u64 (\<lambda>n. if int n < 2 ^ 63 then take_bytes n else (\<lambda>b. Inl Oversized))"

fun put_option :: "bytes option \<Rightarrow> bytes" where
  "put_option None = [0]"
| "put_option (Some v) = 1 # put_bytes v"

fun get_option :: "bytes option parser" where
  "get_option [] = Inl UnexpectedEof"
| "get_option (t # b) =
     (if t = 0 then Inr (None, b)
      else if t = 1 then bind_parser get_bytes (\<lambda>v b. Inr (Some v, b)) b
      else Inl Malformed)"

definition put_data :: "data_entry \<Rightarrow> bytes" where
  "put_data e = le_bytes 8 (d_tstamp e) @ put_bytes (d_key e) @ put_option (d_value e)"

definition get_data :: "data_entry parser" where
  "get_data =
     bind_parser get_i64 (\<lambda>t. bind_parser get_bytes (\<lambda>k. bind_parser get_option (\<lambda>v b.
       Inr (\<lparr>d_tstamp = t, d_key = k, d_value = v\<rparr>, b))))"

definition put_hint :: "hint_entry \<Rightarrow> bytes" where
  "put_hint h = le_bytes 8 (h_tstamp h) @ put_u64 (h_len h) @ put_u64 (h_pos h) @ put_bytes (h_key h)"

definition get_hint :: "hint_entry parser" where
  "get_hint =
     bind_parser get_i64 (\<lambda>t. bind_parser get_u64 (\<lambda>l. bind_parser get_u64 (\<lambda>p. bind_parser get_bytes (\<lambda>k b.
       Inr (\<lparr>h_tstamp = t, h_len = l, h_pos = p, h_key = k\<rparr>, b)))))"

text \<open>A decoder in the form of \<open>deps\<close>: the value and the number of bytes taken.\<close>

definition decoder :: "'a parser \<Rightarrow> bytes \<Rightarrow> codec_error + 'a \<times> nat" where
  "decoder p b = (case p b of Inl e \<Rightarrow> Inl e | Inr (x, rest) \<Rightarrow> Inr (x, length b - length rest))"

subsection \<open>The cache\<close>

record lru =
  cap :: nat
  items :: "(nat \<times> log_reader) list"

definition bincode_lru :: "lru deps" where
  "bincode_lru =
     \<lparr>enc_data = put_data, dec_data = decoder get_data, enc_hint = put_hint, dec_hint = decoder get_hint,
      lru_new = (\<lambda>n. \<lparr>cap = n, items = []\<rparr>),
      lru_get = (\<lambda>k l. map_of (items l) k),
      lru_store = (\<lambda>k r l. l\<lparr>items := (k, r) # AList.delete k (items l)\<rparr>),
      lru_put = (\<lambda>k r l. l\<lparr>items := (k, r) # take (cap l - 1) (AList.delete k (items l))\<rparr>)\<rparr>"

subsection \<open>The laws\<close>

text \<open>
  \<open>codes p x d\<close>: the parser \<open>p\<close> takes exactly \<open>d\<close> from the front of an input and returns \<open>x\<close>,
  and on a proper prefix of \<open>d\<close> it reports the end of the input.
\<close>

definition codes :: "'a parser \<Rightarrow> 'a \<Rightarrow> bytes \<Rightarrow> bool" where
  "codes p x d \<longleftrightarrow>
     (\<forall>rest. p (d @ rest) = Inr (x, rest)) \<and> (\<forall>b c. b @ c = d \<longrightarrow> c \<noteq> [] \<longrightarrow> p b = Inl UnexpectedEof)"

lemma codes_bind:
  assumes p: "codes p x d" and k: "codes (k x) y d'"
  shows "codes (bind_parser p k) y (d @ d')"
  unfolding codes_def
proof (intro conjI allI impI)
  fix rest show "bind_parser p k ((d @ d') @ rest) = Inr (y, rest)"
    using p k by (simp add: codes_def)
next
  fix b c assume "b @ c = d @ d'" and c: "c \<noteq> []"
  then consider z where "b @ z = d" "z \<noteq> []" | z where "b = d @ z" "z @ c = d'"
    by (auto simp: append_eq_append_conv2) (metis append_Nil2)
  then show "bind_parser p k b = Inl UnexpectedEof"
  proof cases
    case 1
    then have "p b = Inl UnexpectedEof" using p by (simp add: codes_def)
    then show ?thesis by simp
  next
    case 2
    then have "p b = Inr (x, z)" "k x z = Inl UnexpectedEof" using p k c by (simp_all add: codes_def)
    then show ?thesis by simp
  qed
qed

lemma codes_return: "codes (\<lambda>b. Inr (x, b)) x []"
  by (simp add: codes_def)

lemma codes_bind_return: "codes p x d \<Longrightarrow> codes (bind_parser p (\<lambda>y b. Inr (f y, b))) (f x) d"
  using codes_bind[of p x d "\<lambda>y b. Inr (f y, b)" "f x" "[]", OF _ codes_return] by simp

lemma length_le_bytes [simp]: "length (le_bytes k x) = k"
  by (induction k arbitrary: x) auto

lemma le_val_le_bytes: "le_val (le_bytes k x) = x mod 256 ^ k"
proof (induction k arbitrary: x)
  case (Suc k)
  have "uint (of_int (x mod 256) :: byte) = x mod 256"
    by (simp add: uint_word_of_int_eq take_bit_eq_mod)
  moreover have "x mod 256 + 256 * (x div 256 mod 256 ^ k) = x mod (256 * 256 ^ k)"
    by (simp add: zmod_zmult2_eq mult.commute)
  ultimately show ?case using Suc by simp
qed simp

lemma codes_fixed:
  assumes "\<And>b. length b < n \<Longrightarrow> p b = Inl UnexpectedEof" and "\<And>rest. p (d @ rest) = Inr (x, rest)"
    and "length d = n"
  shows "codes p x d"
  using assms by (auto simp: codes_def)

lemma codes_u64: "in_u64 (int n) \<Longrightarrow> codes get_u64 n (put_u64 n)"
  by (rule codes_fixed[where n = 8]) (simp_all add: get_u64_def put_u64_def le_val_le_bytes in_u64_def)

lemma codes_i64:
  assumes "in_i64 t"
  shows "codes get_i64 t (le_bytes 8 t)"
proof (rule codes_fixed[where n = 8])
  fix rest
  have "t mod 256 ^ 8 = (if 0 \<le> t then t else t + 2 ^ 64)"
  proof (cases "0 \<le> t")
    case False
    then have "t mod 256 ^ 8 = (t + 256 ^ 8) mod 256 ^ 8" by simp
    also have "\<dots> = t + 256 ^ 8" using assms False by (intro mod_pos_pos_trivial) (auto simp: in_i64_def)
    finally show ?thesis using False by simp
  qed (use assms in \<open>auto simp: in_i64_def\<close>)
  then show "get_i64 (le_bytes 8 t @ rest) = Inr (t, rest)"
    using assms by (simp add: get_i64_def le_val_le_bytes in_i64_def Let_def split: if_splits)
qed (simp_all add: get_i64_def)

lemma codes_take: "codes (take_bytes (length b)) b b"
  by (rule codes_fixed[where n = "length b"]) (simp_all add: take_bytes_def)

lemma codes_bytes: "in_i64 (int (length b)) \<Longrightarrow> codes get_bytes b (put_bytes b)"
  unfolding get_bytes_def put_bytes_def
  using codes_bind[of get_u64 "length b" "put_u64 (length b)" "\<lambda>n. if int n < 2 ^ 63 then take_bytes n else (\<lambda>b. Inl Oversized)" b b]
    codes_u64 codes_take
  by (simp add: in_i64_def in_u64_def)

lemma codes_option:
  assumes "\<And>x. v = Some x \<Longrightarrow> in_i64 (int (length x))"
  shows "codes get_option v (put_option v)"
proof (cases v)
  case None
  then show ?thesis by (auto simp: codes_def append_eq_Cons_conv)
next
  case (Some x)
  have "codes (bind_parser get_bytes (\<lambda>v b. Inr (Some v, b))) (Some x) (put_bytes x)"
    by (rule codes_bind_return[OF codes_bytes]) (use assms Some in simp)
  with Some show ?thesis by (auto simp: codes_def append_eq_Cons_conv simp del: bind_parser.simps)
qed

lemma codes_data:
  assumes "entry_ok e"
  shows "codes get_data e (put_data e)"
proof -
  have t: "in_i64 (d_tstamp e)" and k: "in_i64 (int (length (d_key e)))"
    and v: "\<And>x. d_value e = Some x \<Longrightarrow> in_i64 (int (length x))"
    using assms by (auto simp: entry_ok_def)
  have "codes get_data \<lparr>d_tstamp = d_tstamp e, d_key = d_key e, d_value = d_value e\<rparr> (put_data e)"
    unfolding get_data_def put_data_def
    by (intro codes_bind[OF codes_i64[OF t]] codes_bind[OF codes_bytes[OF k]]
      codes_bind_return codes_option v)
  moreover have "\<lparr>d_tstamp = d_tstamp e, d_key = d_key e, d_value = d_value e\<rparr> = e" by simp
  ultimately show ?thesis by simp
qed

lemma codes_hint:
  assumes "hint_ok h"
  shows "codes get_hint h (put_hint h)"
proof -
  have t: "in_i64 (h_tstamp h)" and l: "in_u64 (int (h_len h))" and p: "in_u64 (int (h_pos h))"
    and k: "in_i64 (int (length (h_key h)))" using assms by (simp_all add: hint_ok_def)
  have "codes get_hint \<lparr>h_tstamp = h_tstamp h, h_len = h_len h, h_pos = h_pos h, h_key = h_key h\<rparr> (put_hint h)"
    unfolding get_hint_def put_hint_def
    by (intro codes_bind[OF codes_i64[OF t]] codes_bind[OF codes_u64[OF l]]
      codes_bind[OF codes_u64[OF p]] codes_bind_return codes_bytes k)
  moreover have "\<lparr>h_tstamp = h_tstamp h, h_len = h_len h, h_pos = h_pos h, h_key = h_key h\<rparr> = h" by simp
  ultimately show ?thesis by simp
qed

lemma decoder_codes:
  assumes "codes p x d"
  shows "decoder p (d @ rest) = Inr (x, length d)" and "b @ c = d \<Longrightarrow> c \<noteq> [] \<Longrightarrow> decoder p b = Inl UnexpectedEof"
  using assms by (simp_all add: codes_def decoder_def)

lemma map_of_take: "map_of (take n xs) k = None \<or> map_of (take n xs) k = map_of xs k"
proof (induction n arbitrary: xs)
  case (Suc n)
  then show ?case by (cases xs) auto
qed simp

interpretation bincode: deps_laws bincode_lru
proof
  fix e rest assume "entry_ok e"
  then show "dec_data bincode_lru (enc_data bincode_lru e @ rest) = Inr (e, length (enc_data bincode_lru e))"
    by (simp add: bincode_lru_def decoder_codes codes_data)
next
  fix e b c assume "entry_ok e" "b @ c = enc_data bincode_lru e" "c \<noteq> []"
  then show "dec_data bincode_lru b = Inl UnexpectedEof"
    by (simp add: bincode_lru_def decoder_codes(2)[OF codes_data])
next
  fix h rest assume "hint_ok h"
  then show "dec_hint bincode_lru (enc_hint bincode_lru h @ rest) = Inr (h, length (enc_hint bincode_lru h))"
    by (simp add: bincode_lru_def decoder_codes codes_hint)
next
  fix h b c assume "hint_ok h" "b @ c = enc_hint bincode_lru h" "c \<noteq> []"
  then show "dec_hint bincode_lru b = Inl UnexpectedEof"
    by (simp add: bincode_lru_def decoder_codes(2)[OF codes_hint])
next
  fix e show "length (d_key e) + (case d_value e of None \<Rightarrow> 0 | Some v \<Rightarrow> length v)
      \<le> length (enc_data bincode_lru e)"
    by (simp add: bincode_lru_def put_data_def put_bytes_def put_u64_def split: option.split)
next
  fix k n show "lru_get bincode_lru k (lru_new bincode_lru n) = None" by (simp add: bincode_lru_def)
next
  fix k k' r l
  show "lru_get bincode_lru k' (lru_store bincode_lru k r l) = (if k' = k then Some r else lru_get bincode_lru k' l)"
    by (simp add: bincode_lru_def delete_conv)
  show "lru_get bincode_lru k (lru_put bincode_lru k r l) = Some r" by (simp add: bincode_lru_def)
  show "k' \<noteq> k \<Longrightarrow> lru_get bincode_lru k' (lru_put bincode_lru k r l) = None \<or>
      lru_get bincode_lru k' (lru_put bincode_lru k r l) = lru_get bincode_lru k' l"
    using map_of_take[of "cap l - 1" "AList.delete k (items l)" k']
    by (simp add: bincode_lru_def delete_conv)
qed

end
