(* ===== verification/Demo.thy ===== *)
theory Demo
  imports Healthy Bincode MemStream
begin

section \<open>A concrete storage\<close>

text \<open>
  The engine over the concrete codec and cache of \<open>Bincode\<close>, opened on an empty directory with
  small limits, and the states it passes through; the witnesses run on them.
\<close>

definition demo_config :: config where
  "demo_config = \<lparr>concurrency = 1, readers_cache_size = 2, max_file_size = 40, sync = SyncNone, policy = MergeAlways,
     trigger_fragmentation = 1 / 2, trigger_dead_bytes = 10, threshold_fragmentation = 1 / 2,
     threshold_dead_bytes = 10, threshold_small_file = 10, check_interval_ms = 1, check_jitter = 0\<rparr>"

abbreviation codec :: "lru deps" where
  "codec \<equiv> bincode_lru"

definition opened :: "((bc_error, 'l storage) result \<times> fs) option \<Rightarrow> 'l storage" where
  "opened r = projr (fst (the r))"

definition demo_open :: "fs \<Rightarrow> lru storage" where
  "demo_open fs = opened (bitcask_open codec dev_build demo_config [Some 5, Some 6, Some 7] 0 fs)"

definition demo0 :: "lru storage" where
  "demo0 = demo_open empty_fs"

definition demo_put :: "bytes \<Rightarrow> bytes \<Rightarrow> lru storage \<Rightarrow> lru storage" where
  "demo_put k v st = snd (handle_put codec dev_build k v st)"

definition demo_del :: "bytes \<Rightarrow> lru storage \<Rightarrow> lru storage" where
  "demo_del k st = snd (handle_delete codec dev_build k st)"

definition demo1 :: "lru storage" where "demo1 = demo_put [1] [2] demo0"
definition demo2 :: "lru storage" where "demo2 = demo_put [2] [7, 7, 7] demo1"
definition demo3 :: "lru storage" where "demo3 = demo_put [1] [3] demo2"

lemmas demo_defs = demo_open_def demo0_def demo_put_def demo_del_def demo1_def demo2_def demo3_def

text \<open>The interfaces of the engine, discharged by the concrete crates.\<close>

interpretation bitcask_store: kv_store "bitcask_kv codec B err" "storage_inv codec" "abs_store codec"
  for B err
  by (rule bitcask_refines[OF bincode.deps_laws_axioms])

interpretation bitcask_serving: reliable_serving "bitcask_kv codec B err" "storage_inv codec" "abs_store codec"
    "\<lambda>n st. \<exists>xs. healthy codec n st xs" "fits codec" mem_ops mem_queued outbox mem_incoming
  for B err
  by (rule reliable_serving.intro[OF bitcask_reliable[OF bincode.deps_laws_axioms] mem.duplex_stream_axioms])

lemma demo_config_ok: "0 < concurrency demo_config"
  by (simp add: demo_config_def)

lemma empty_ok: "fs_ok empty_fs" "faults empty_fs = []" "inext empty_fs < 2 ^ 63" "no_hints empty_fs" "logs_ok codec empty_fs []"
  by (simp_all add: empty_fs_def fs_ok_def no_hints_def logs_ok_def ids_of_def List.map_filter_def)

lemma demo_times: "Some t \<in> set [Some 5, Some 6, Some 7] \<Longrightarrow> in_i64 t"
  by (auto simp: in_i64_def)

lemma demo0_durable: "durable codec demo0" "abs_store codec demo0 = (\<lambda>_. None)" "\<not> closed demo0"
proof -
  from open_durable[OF bincode.deps_laws_axioms empty_ok demo_config_ok demo_times, where B = dev_build and h = 0] obtain st where
    o: "bitcask_open codec dev_build demo_config [Some 5, Some 6, Some 7] 0 empty_fs = Some (Inr st, files st)"
    "durable codec st" "abs_store codec st = replay (all_entries []) (\<lambda>_. None)" "\<not> closed st" by blast
  from o(1) have "demo0 = st" by (simp add: demo0_def demo_open_def opened_def)
  with o show "durable codec demo0" "abs_store codec demo0 = (\<lambda>_. None)" "\<not> closed demo0" by (simp_all add: all_entries_def)
qed

lemma demo_puts:
  "fst (handle_put codec dev_build [1] [2] demo0) = Inr ()" "fst (handle_put codec dev_build [2] [7, 7, 7] demo1) = Inr ()"
  "fst (handle_put codec dev_build [1] [3] demo2) = Inr ()"
  by code_simp+

lemma run_put:
  assumes "engine_run D B st ops st1" and "fst (handle_put D B k v st1) = Inr ()"
  shows "engine_run D B st (ops @ [OpPut k v]) (snd (handle_put D B k v st1))"
  using engine_run.put[OF assms(1)] assms(2) by (metis prod.collapse)

lemma demo_run: "engine_run codec dev_build demo0 [OpPut [1] [2], OpPut [2] [7, 7, 7], OpPut [1] [3]] demo3"
proof -
  note r1 = run_put[OF engine_run.start demo_puts(1), folded demo_put_def, folded demo1_def]
  note r2 = run_put[OF r1 demo_puts(2), folded demo_put_def, folded demo2_def]
  from run_put[OF r2 demo_puts(3), folded demo_put_def, folded demo3_def] show ?thesis by simp
qed

lemma demo3_durable: "durable codec demo3" "abs_store codec demo3 = [[1] \<mapsto> [3], [2] \<mapsto> [7, 7, 7]]"
  using engine_run_durable[OF demo_run bincode.deps_laws_axioms demo0_durable(1)] demo0_durable(2) by auto

text \<open>It is in good health.\<close>

lemma demo3_healthy:
  assumes "n + 4 < 2 ^ 63"
  shows "\<exists>xs. healthy codec n demo3 xs"
proof -
  have c: "0 < concurrency demo_config" "max_file_size demo_config < 2 ^ 62" by (simp_all add: demo_config_def)
  have n: "Suc (Suc (Suc n)) + 1 < 2 ^ 63" using assms by simp
  have t: "None \<notin> set [Some 5, Some 6, Some 7 :: int option]" by simp
  have fit: "fits codec [1] (Some [2])" "fits codec [2] (Some [7, 7, 7])" "fits codec [1] (Some [3])"
    by (simp_all add: fits_def bincode_lru_def put_data_def put_bytes_def put_u64_def)
  note D = bincode.deps_laws_axioms
  from healthy_open[OF D c n t demo_times, where B = dev_build and h = 0] have h0: "healthy codec (Suc (Suc (Suc n))) demo0 []"
    by (auto simp: demo0_def demo_open_def opened_def)
  from healthy_put[OF D h0 fit(1), of dev_build] obtain xs where h1: "healthy codec (Suc (Suc n)) demo1 xs"
    by (auto simp: demo1_def demo_put_def)
  from healthy_put[OF D h1 fit(2), of dev_build] obtain ys where h2: "healthy codec (Suc n) demo2 ys"
    by (auto simp: demo2_def demo_put_def)
  from healthy_put[OF D h2 fit(3), of dev_build] show ?thesis by (auto simp: demo3_def demo_put_def)
qed

end
