(* ===== verification/MergePolicy.thy ===== *)
theory MergePolicy
  imports MergeStore Reopen
begin

section \<open>When to merge and what\<close>

text \<open>
  The fragmentation of a file as a number, which counts below \<open>2 ^ 53\<close> make exact up to the
  rounding of the quotient, and the decisions of \<open>can_merge\<close> and \<open>fileids_to_merge\<close> in terms of
  it.
\<close>

subsection \<open>Fragmentation\<close>

lemma round_half_even_int [simp]: "round_half_even (of_int n) = n"
  by (simp add: round_half_even_def)

lemma f64_of_nat_exact:
  assumes "n < 2 ^ 53"
  shows "f64_of_nat n = of_nat n"
proof (cases "n = 0")
  case False
  have b: "binade (of_nat n) = int (floorlog 2 n) - 1" using False by (simp add: binade_def)
  have "floorlog 2 n \<le> 53" using assms by (simp add: floorlog_le_iff)
  then have "0 \<le> 52 - binade (of_nat n)" using b by simp
  then obtain k where "52 - binade (of_nat n) = int k" using zero_le_imp_eq_int by blast
  then have "binade (of_nat n) - 52 = - int k" by simp
  then have u: "pow2 (binade (of_nat n) - 52) = 1 / 2 ^ k" by (simp add: pow2_def)
  have "round_half_even (of_nat n * 2 ^ k) = int n * 2 ^ k"
    using round_half_even_int[of "int n * 2 ^ k"] by simp
  then show ?thesis using False u by (simp add: f64_of_nat_def round_f64_def Let_def)
qed (simp add: f64_of_nat_def round_f64_def)

text \<open>The share of dead keys, rounded once.\<close>

definition dead_share :: "log_statistics \<Rightarrow> rat" where
  "dead_share s = round_f64 (of_nat (dead_keys s) / of_nat (dead_keys s + live_keys s))"

definition countable_keys :: "log_statistics \<Rightarrow> bool" where
  "countable_keys s \<longleftrightarrow> dead_keys s + live_keys s < 2 ^ 53"

lemma dead_share_bounds: "0 \<le> dead_share s" "dead_share s \<le> 1"
proof -
  have q: "0 \<le> rat_of_nat (dead_keys s) / rat_of_nat (dead_keys s + live_keys s)"
    "rat_of_nat (dead_keys s) / rat_of_nat (dead_keys s + live_keys s) \<le> 1"
    by (cases "dead_keys s + live_keys s = 0"; simp add: divide_le_eq_1 del: of_nat_add)+
  from round_f64_nonneg[OF q(1)] round_f64_le_1[OF q] show "0 \<le> dead_share s" "dead_share s \<le> 1"
    by (simp_all add: dead_share_def)
qed

lemma fragmentation_share:
  assumes "countable_keys s"
  shows "fragmentation B s = Inr (dead_share s)"
proof (cases "dead_keys s = 0")
  case True
  then show ?thesis by (simp add: fragmentation_def dead_share_def round_f64_def)
next
  case False
  have "dead_keys s + live_keys s < 2 ^ 53" "dead_keys s < 2 ^ 53" using assms by (simp_all add: countable_keys_def)
  then show ?thesis using False
    by (simp add: fragmentation_def dead_share_def f64_div_def f64_of_nat_exact u64_add_def in_u64_def)
qed

subsection \<open>The trigger\<close>

definition triggers :: "config \<Rightarrow> log_statistics \<Rightarrow> bool" where
  "triggers c s \<longleftrightarrow> trigger_dead_bytes c < dead_bytes s \<or> trigger_fragmentation c < dead_share s"

lemma any_trigger_spec:
  assumes "\<forall>(f, s) \<in> set ss. countable_keys s"
  shows "any_trigger B c ss = Inr (\<exists>(f, s) \<in> set ss. triggers c s)"
  using assms by (induction ss) (auto simp: fragmentation_share triggers_def)

definition in_window :: "merge_policy \<Rightarrow> nat \<Rightarrow> bool" where
  "in_window p h = (case p of MergeNever \<Rightarrow> False | MergeWindow start end \<Rightarrow> start \<le> h \<and> h \<le> end | MergeAlways \<Rightarrow> True)"

lemma can_merge_spec:
  assumes "\<forall>(f, s) \<in> set (w_stats st). countable_keys s"
  shows "can_merge B st = Inr (in_window (policy (conf st)) (hour st) \<and> (\<exists>(f, s) \<in> set (w_stats st). triggers (conf st) s))"
  using any_trigger_spec[OF assms] by (auto simp: can_merge_def in_window_def split: merge_policy.split)

subsection \<open>The choice\<close>

definition worth_merging :: "config \<Rightarrow> fs \<Rightarrow> nat \<times> log_statistics \<Rightarrow> bool" where
  "worth_merging c fs = (\<lambda>(f, s).
     threshold_dead_bytes c < dead_bytes s \<or> threshold_fragmentation c < dead_share s \<or>
     (case map_of (dir fs) (datafile_name f) of None \<Rightarrow> False | Some i \<Rightarrow> length (idata fs i) < threshold_small_file c))"

lemma metadata_len_Inr:
  "metadata_len name fs = (Inr n, fs') \<Longrightarrow> \<exists>i. map_of (dir fs) name = Some i \<and> n = length (idata fs i)"
  unfolding metadata_len_def by (erule sys_call_Inr) (auto split: option.splits)

lemma worth_merging_same: "same_files fs fs' \<Longrightarrow> worth_merging c fs' = worth_merging c fs"
  by (simp add: worth_merging_def same_files_def fun_eq_iff cong: option.case_cong)

lemma select_files_spec:
  "select_files B ss ids st = (Inr out, st') \<Longrightarrow> \<forall>(f, s) \<in> set ss. countable_keys s \<Longrightarrow>
     sorted out \<and> set out = set ids \<union> fst ` {p \<in> set ss. worth_merging (conf st) (files st) p}"
proof (induction B ss ids st rule: select_files.induct)
  case (2 B f s rest ids st)
  from 2(2) obtain n s1 ch s2 where
    len: "on_files (\<lambda>fs. let (r, fs) = metadata_len (datafile_name f) fs in (map_err BcIo r, fs)) st = (Inr n, s1)"
    and pick: "(if threshold_dead_bytes (conf s1) < dead_bytes s then (Inr True, s1)
             else (and_then (fragmentation B s) (\<lambda>f.
                     Inr (threshold_fragmentation (conf s1) < f \<or> n < threshold_small_file (conf s1))), s1)) = (Inr ch, s2)"
    and rest: "select_files B rest (if ch then f # ids else ids) s2 = (Inr out, st')"
    by (auto elim!: try_op_InrE)
  from len obtain fs1 where m: "metadata_len (datafile_name f) (files st) = (Inr n, fs1)" and s1: "s1 = st\<lparr>files := fs1\<rparr>"
    by (auto simp: on_files_def res_simps split: prod.splits)
  have "fragmentation B s = Inr (dead_share s)" using fragmentation_share 2(3) by simp
  then have ch: "ch = worth_merging (conf st) (files st) (f, s)" and s2: "s2 = s1"
    using pick metadata_len_Inr[OF m] s1 by (auto simp: worth_merging_def split: if_splits)
  have "worth_merging (conf s2) (files s2) = worth_merging (conf st) (files st)"
    using s1 s2 worth_merging_same[OF metadata_len_same[OF m]] by simp
  with 2(1)[OF rest] 2(3) have "sorted out"
    "set out = set (if ch then f # ids else ids) \<union> fst ` {p \<in> set rest. worth_merging (conf st) (files st) p}" by auto
  moreover have "{p \<in> set ((f, s) # rest). worth_merging (conf st) (files st) p} =
      (if ch then {(f, s)} else {}) \<union> {p \<in> set rest. worth_merging (conf st) (files st) p}" using ch by auto
  ultimately show ?case by (auto simp: image_Un)
qed auto

subsection \<open>Counts of durable storages\<close>

lemma durable_stats:
  assumes D: "deps_laws D" and st: "durable D st"
  shows "live_keys (stats_of (w_stats st) f) = length (filter (\<lambda>(k, e). kd_fileid e = f) (keydir st))"
    and "dead_keys (stats_of (w_stats st) f) + live_keys (stats_of (w_stats st) f) < 2 ^ 63"
    and "map_of (dir (files st)) (datafile_name f) = Some i \<Longrightarrow>
      dead_bytes (stats_of (w_stats st) f) + tally (bytes_here f) (keydir st) \<le> length (idata (files st) i)"
proof -
  from st obtain old es where inv: "storage_inv D st" and d: "durable_at D st old es" by (auto simp: durable_def)
  then have o: "on_disk D st old es"
    and ex: "stats_exact (keydir st) (w_stats st) (entry_count (the_logs st old es)) (byte_count D (the_logs st old es))"
    by (simp_all add: durable_at_def)
  have fit: "totals_fit (entry_count (the_logs st old es)) (byte_count D (the_logs st old es))" using durable_fit[OF D o] .
  have "tally (here f) kd = length (filter (\<lambda>(k, e). kd_fileid e = f) kd)" for kd
    by (induction kd) (auto simp: tally_def here_def)
  with ex show "live_keys (stats_of (w_stats st) f) = length (filter (\<lambda>(k, e). kd_fileid e = f) (keydir st))"
    by (simp add: stats_exact_def Let_def)
  show "dead_keys (stats_of (w_stats st) f) + live_keys (stats_of (w_stats st) f) < 2 ^ 63"
    using ex fit unfolding stats_exact_def Let_def totals_fit_def by metis
  show "dead_bytes (stats_of (w_stats st) f) + tally (bytes_here f) (keydir st) \<le> length (idata (files st) i)"
    if i: "map_of (dir (files st)) (datafile_name f) = Some i"
  proof -
    have "byte_count D (the_logs st old es) f \<le> length (idata (files st) i)"
    proof (cases "map_of (the_logs st old es) f")
      case (Some xs)
      from map_of_SomeD[OF Some] o have "file_holds D (files st) (f, xs)" by (auto simp: on_disk_def the_logs_def)
      with i Some show ?thesis by (auto simp: file_holds_def count_on_def)
    qed (simp add: count_on_def)
    then show ?thesis using ex by (simp add: stats_exact_def Let_def)
  qed
qed

end
