(* ===== verification/Rebuilding.thy ===== *)
theory Rebuilding
  imports Bincode Recovery
begin

section \<open>Rebuilding always ends\<close>

text \<open>
  The loops over hint and data files end on any bytes, those of other programs too, if the
  decoder takes at least one byte for a value: the interface \<open>consuming\<close>, discharged for the
  encoding of \<open>Bincode\<close>. The files are below \<open>2 ^ 64\<close> bytes, so positions do not wrap.
\<close>

locale consuming =
  fixes D :: "'l deps"
  assumes data_takes: "dec_data D b = Inr (x, n) \<Longrightarrow> 0 < n \<and> n \<le> length b"
    and hint_takes: "dec_hint D b = Inr (h, n) \<Longrightarrow> 0 < n \<and> n \<le> length b"

definition bounded_files :: "fs \<Rightarrow> bool" where
  "bounded_files fs \<longleftrightarrow> (\<forall>i. length (idata fs i) < 2 ^ 64)"

lemma bounded_same: "same_files fs fs' \<Longrightarrow> bounded_files fs \<Longrightarrow> bounded_files fs'"
  by (simp add: bounded_files_def same_files_def)

text \<open>What is left of the file the iterator reads.\<close>

definition left_over :: "log_iter \<Rightarrow> fs \<Rightarrow> nat" where
  "left_over it fs = length (idata fs (it_file it)) - it_pos it"

lemma log_next_progress:
  assumes "log_next dec B it fs = (Inr (Some (ix, e)), it', fs')" and "bounded_files fs"
    and "\<And>b x n. dec b = Inr (x, n) \<Longrightarrow> 0 < n \<and> n \<le> length b"
  shows "left_over it' fs' < left_over it fs" and "same_files fs fs'"
proof -
  from assms(1) obtain fs1 where f: "next_fault fs = (None, fs1)"
    by (auto simp: log_next_def Let_def split: option.splits prod.splits)
  with assms(1) obtain x n where d: "dec (drop (it_pos it) (idata fs1 (it_file it))) = Inr (x, n)"
    by (auto simp: log_next_def Let_def split: prod.splits sum.splits codec_error.splits)
  have same: "same_files fs fs1" using next_fault_same[OF f] .
  then have same_data: "idata fs1 = idata fs" by (simp add: same_files_def)
  have n: "0 < n" "n \<le> length (idata fs (it_file it)) - it_pos it" using assms(3)[OF d] same_data by simp_all
  then have "it_pos it + n < 2 ^ 64" using assms(2) unfolding bounded_files_def by (metis le_diff_conv2 le_less_trans nat_le_linear
        add.commute diff_is_0_eq not_gr_zero le_zero_eq)
  then have add: "u64_add B (it_pos it) n = (Inr (it_pos it + n) :: (bc_error, nat) result)" by (simp add: u64_add_def in_u64_def)
  have "fs' = fs1" "it' = it\<lparr>it_pos := it_pos it + n\<rparr>"
    using assms(1) f d add by (auto simp: log_next_def Let_def split: sum.splits)
  with same same_data n show "left_over it' fs' < left_over it fs" "same_files fs fs'"
    by (simp_all add: left_over_def)
qed

subsection \<open>The file system behind a rebuild\<close>

lemma rebuild_stats_fs: "rebuild_stats f op s = (r, s') \<Longrightarrow> snd (snd s') = snd (snd s)"
  by (auto simp: rebuild_stats_def split: prod.splits)

lemma overwrite_prev_fs: "overwrite_prev B p s = (r, s') \<Longrightarrow> snd (snd s') = snd (snd s)"
  by (auto simp: overwrite_prev_def rebuild_stats_fs split: option.splits)

lemma index_live_fs: "index_live B k e s = (r, s') \<Longrightarrow> snd (snd s') = snd (snd s)"
  unfolding index_live_def by (erule try_opE) (auto dest!: rebuild_stats_fs overwrite_prev_fs split: prod.splits)

lemma index_dead_fs: "index_dead B f n k s = (r, s') \<Longrightarrow> snd (snd s') = snd (snd s)"
  unfolding index_dead_def by (erule try_opE) (auto dest!: rebuild_stats_fs overwrite_prev_fs split: prod.splits)

lemma open_iter_fs:
  assumes "open_iter name s = (r, s')"
  shows "same_files (snd (snd s)) (snd (snd s'))"
  using assms by (auto simp: open_iter_def log_iter_new_def sys_call_def split: prod.splits option.splits
      elim!: try_opE dest!: open_read_same next_fault_same intro: same_files_trans)

context consuming
begin

lemma hint_loop_ends:
  assumes "bounded_files (snd (snd s))"
  shows "\<exists>r s'. hint_loop D B f it s = Some (r, s') \<and> bounded_files (snd (snd s'))"
  using assms
proof (induction "left_over it (snd (snd s))" arbitrary: it s rule: less_induct)
  case less
  obtain kd ss fs where s: "s = (kd, ss, fs)" by (metis prod_cases3)
  show ?case
  proof (cases "\<exists>ix h it' fs'. log_next (dec_hint D) B it fs = (Inr (Some (ix, h)), it', fs')")
    case True
    then obtain ix h it' fs' where nx: "log_next (dec_hint D) B it fs = (Inr (Some (ix, h)), it', fs')" by blast
    note p = log_next_progress[OF nx _ hint_takes]
    obtain r s1 where i: "index_live B (h_key h) \<lparr>kd_fileid = f, kd_len = h_len h, kd_pos = h_pos h, kd_tstamp = h_tstamp h\<rparr>
        (kd, ss, fs') = (r, s1)" by (metis surj_pair)
    have s1: "snd (snd s1) = fs'" using index_live_fs[OF i] by simp
    have b: "bounded_files fs'" using bounded_same[OF p(2)] less.prems s by simp
    have "\<exists>r s'. hint_loop D B f it' s1 = Some (r, s') \<and> bounded_files (snd (snd s'))"
      by (rule less.hyps) (use p(1) less.prems s s1 b in simp_all)
    with s1 b show ?thesis unfolding s by (subst (1) hint_loop.simps) (cases s1; auto simp: nx i split: sum.split)
  next
    case False
    obtain r it' fs' where nx: "log_next (dec_hint D) B it fs = (r, it', fs')" by (metis prod_cases3)
    with False have "r = Inr None \<or> (\<exists>e. r = Inl e)" by (cases r) (auto split: option.splits, metis option.exhaust prod.exhaust)
    moreover have "same_files fs fs'"
      using nx by (auto simp: log_next_def Let_def dest!: next_fault_same split: option.splits prod.splits sum.splits codec_error.splits)
    ultimately show ?thesis using bounded_same less.prems s
      by (subst (1) hint_loop.simps) (auto simp: nx)
  qed
qed

lemma data_loop_ends:
  assumes "bounded_files (snd (snd s))"
  shows "\<exists>r s'. data_loop D B f it s = Some (r, s') \<and> bounded_files (snd (snd s'))"
  using assms
proof (induction "left_over it (snd (snd s))" arbitrary: it s rule: less_induct)
  case less
  obtain kd ss fs where s: "s = (kd, ss, fs)" by (metis prod_cases3)
  show ?case
  proof (cases "\<exists>ix e it' fs'. log_next (dec_data D) B it fs = (Inr (Some (ix, e)), it', fs')")
    case True
    then obtain ix e it' fs' where nx: "log_next (dec_data D) B it fs = (Inr (Some (ix, e)), it', fs')" by blast
    note p = log_next_progress[OF nx _ data_takes]
    obtain r s1 where i: "(case d_value e of
           None \<Rightarrow> index_dead B f (ix_len ix) (d_key e) (kd, ss, fs')
         | Some v \<Rightarrow> index_live B (d_key e)
             \<lparr>kd_fileid = f, kd_len = ix_len ix, kd_pos = ix_pos ix, kd_tstamp = d_tstamp e\<rparr> (kd, ss, fs')) = (r, s1)"
      by (metis surj_pair)
    have s1: "snd (snd s1) = fs'" using i by (auto dest: index_live_fs index_dead_fs split: option.splits)
    have b: "bounded_files fs'" using bounded_same[OF p(2)] less.prems s by simp
    have "\<exists>r s'. data_loop D B f it' s1 = Some (r, s') \<and> bounded_files (snd (snd s'))"
      by (rule less.hyps) (use p(1) less.prems s s1 b in simp_all)
    with s1 b show ?thesis unfolding s by (subst (1) data_loop.simps) (cases s1; auto simp: nx i split: sum.split cong: option.case_cong)
  next
    case False
    obtain r it' fs' where nx: "log_next (dec_data D) B it fs = (r, it', fs')" by (metis prod_cases3)
    with False have "r = Inr None \<or> (\<exists>e. r = Inl e)" by (cases r) (auto split: option.splits, metis option.exhaust prod.exhaust)
    moreover have "same_files fs fs'"
      using nx by (auto simp: log_next_def Let_def dest!: next_fault_same split: option.splits prod.splits sum.splits codec_error.splits)
    ultimately show ?thesis using bounded_same less.prems s
      by (subst (1) data_loop.simps) (auto simp: nx)
  qed
qed

lemma populate_hint_ends:
  assumes "bounded_files (snd (snd s))"
  shows "\<exists>r s'. populate_keydir_with_hintfile D B f s = Some (r, s') \<and> bounded_files (snd (snd s'))"
proof -
  obtain r s1 where o: "open_iter (hintfile_name f) s = (r, s1)" by (metis surj_pair)
  then have "bounded_files (snd (snd s1))" using bounded_same[OF open_iter_fs] assms by blast
  with o hint_loop_ends[of s1] show ?thesis by (cases r) (auto simp: populate_keydir_with_hintfile_def)
qed

lemma populate_data_ends:
  assumes "bounded_files (snd (snd s))"
  shows "\<exists>r s'. populate_keydir_with_datafile D B f s = Some (r, s') \<and> bounded_files (snd (snd s'))"
proof -
  obtain r s1 where o: "open_iter (datafile_name f) s = (r, s1)" by (metis surj_pair)
  then have "bounded_files (snd (snd s1))" using bounded_same[OF open_iter_fs] assms by blast
  with o data_loop_ends[of s1] show ?thesis by (cases r) (auto simp: populate_keydir_with_datafile_def)
qed

lemma populate_file_ends:
  assumes "bounded_files (snd (snd s))"
  shows "\<exists>r s'. populate_file D B f s = Some (r, s') \<and> bounded_files (snd (snd s'))"
proof -
  from populate_hint_ends[OF assms] obtain r s1 where
    h: "populate_keydir_with_hintfile D B f s = Some (r, s1)" "bounded_files (snd (snd s1))" by blast
  with populate_data_ends[OF h(2)] show ?thesis
    by (cases r; cases s1) (auto simp: populate_file_def)
qed

lemma populate_files_ends:
  "bounded_files (snd (snd s)) \<Longrightarrow> \<exists>r s'. populate_files D B ids a s = Some (r, s') \<and> bounded_files (snd (snd s'))"
proof (induction ids arbitrary: a s)
  case (Cons f ids)
  from populate_file_ends[OF Cons.prems] obtain r s1 where
    p: "populate_file D B f s = Some (r, s1)" "bounded_files (snd (snd s1))" by blast
  with Cons.IH[OF p(2)] show ?case by (cases r) (auto simp: Let_def)
qed simp

lemma rebuild_storage_ends:
  assumes "bounded_files fs"
  shows "\<exists>r s'. rebuild_storage D B fs = Some (r, s') \<and> bounded_files (snd (snd s'))"
proof -
  obtain r fs1 where r: "sorted_fileids fs = (r, fs1)" by fastforce
  then have "bounded_files fs1"
    using assms by (auto simp: sorted_fileids_def elim!: try_opE dest!: read_dir_same intro: bounded_same)
  show ?thesis
  proof (cases r)
    case (Inl e)
    with r \<open>bounded_files fs1\<close> show ?thesis by (simp add: rebuild_storage_def)
  next
    case (Inr ids)
    from populate_files_ends[of "([], [], fs1)" B ids None] \<open>bounded_files fs1\<close> obtain q kd ss fs2 where
      "populate_files D B ids None ([], [], fs1) = Some (q, kd, ss, fs2)" "bounded_files fs2" by force
    with r Inr show ?thesis by (simp add: rebuild_storage_def)
  qed
qed

lemma bitcask_open_ends:
  assumes "bounded_files fs"
  shows "bitcask_open D B c readings h fs \<noteq> None"
proof -
  from rebuild_storage_ends[OF assms] obtain r kd ss fs1 where "rebuild_storage D B fs = Some (r, kd, ss, fs1)"
    by (metis prod_cases3)
  then show ?thesis
    by (auto simp: bitcask_open_def Let_def split: sum.split prod.split option.split)
qed

end

subsection \<open>The encoding of bincode\<close>

definition takes_some :: "nat \<Rightarrow> 'a parser \<Rightarrow> bool" where
  "takes_some n p \<longleftrightarrow> (\<forall>b x rest. p b = Inr (x, rest) \<longrightarrow> length rest + n \<le> length b)"

lemma takes_bind:
  assumes "takes_some m p" and "\<And>x. takes_some n (k x)"
  shows "takes_some (m + n) (bind_parser p k)"
  unfolding takes_some_def
proof (intro allI impI)
  fix b x rest assume "bind_parser p k b = Inr (x, rest)"
  then obtain y r1 where "p b = Inr (y, r1)" "k y r1 = Inr (x, rest)" by (auto split: sum.splits)
  with assms show "length rest + (m + n) \<le> length b" unfolding takes_some_def by fastforce
qed

lemma takes_return: "takes_some 0 (\<lambda>b. Inr (x, b))"
  by (simp add: takes_some_def)

lemma takes_basic: "takes_some 8 get_u64" "takes_some 8 get_i64" "takes_some 0 (take_bytes n)"
  by (auto simp: takes_some_def get_u64_def get_i64_def take_bytes_def Let_def split: if_splits)

lemma takes_weaken: "takes_some n p \<Longrightarrow> takes_some 0 p"
  by (force simp: takes_some_def)

lemma takes_then: "takes_some m p \<Longrightarrow> (\<And>x. takes_some 0 (k x)) \<Longrightarrow> takes_some m (bind_parser p k)"
  using takes_bind[of m p 0 k] by simp

lemma takes_get_bytes: "takes_some 0 get_bytes"
proof -
  have "takes_some 0 (if int n < 2 ^ 63 then take_bytes n else (\<lambda>b. Inl Oversized))" for n
    using takes_basic(3)[of n] by (simp add: takes_some_def)
  then show ?thesis unfolding get_bytes_def by (rule takes_weaken[OF takes_bind[OF takes_basic(1)]])
qed

lemma takes_option: "takes_some 0 get_option"
  unfolding takes_some_def
proof (intro allI impI)
  fix b x rest assume b: "get_option b = Inr (x, rest)"
  have "takes_some 0 (bind_parser get_bytes (\<lambda>v b. Inr (Some v, b)))"
    by (rule takes_then[OF takes_get_bytes takes_return])
  with b show "length rest + 0 \<le> length b"
    by (cases b) (fastforce simp: takes_some_def simp del: bind_parser.simps split: if_splits)+
qed

lemma takes_data: "takes_some 8 get_data"
  unfolding get_data_def
  by (intro takes_then[OF takes_basic(2)] takes_then[OF takes_get_bytes] takes_then[OF takes_option] takes_return)

lemma takes_hint: "takes_some 8 get_hint"
  unfolding get_hint_def
  by (intro takes_then[OF takes_basic(2)] takes_then[OF takes_weaken[OF takes_basic(1)]] takes_then[OF takes_get_bytes]
      takes_return)

interpretation bincode_takes: consuming bincode_lru
  using takes_data takes_hint
  by unfold_locales (fastforce simp: bincode_lru_def decoder_def takes_some_def split: sum.splits)+

end
