(* ===== verification/StorageProperties.thy ===== *)
theory StorageProperties
  imports Demo Healthy MergePolicy Rebuilding Background
begin

section \<open>Properties of the storage engine\<close>

text \<open>
  The properties of src/storage/, each with a concrete instance on the storages of \<open>Demo\<close>. They
  rest on the lemmas of the component theories and on the facts of the locales \<open>kv_store\<close>,
  \<open>serving\<close>, \<open>consuming\<close> and \<open>deps_laws\<close>.
\<close>

lemmas codec_laws = bincode.deps_laws_axioms

lemma demo_inv: "storage_inv codec demo0" "storage_inv codec demo3"
  using demo0_durable demo3_durable by (simp_all add: durable_def)

lemma demo_open_flags: "\<not> closed demo0" "\<not> closed demo3"
  by code_simp+

lemma demo_limits: "active_fileid demo3 < 2 ^ 63" "inext (files demo3) < 2 ^ 63" "faults (files demo3) = []"
proof -
  have "active_fileid demo3 = 1" "inext (files demo3) = 2" "faults (files demo3) = []" by code_simp+
  then show "active_fileid demo3 < 2 ^ 63" "inext (files demo3) < 2 ^ 63" "faults (files demo3) = []" by simp_all
qed

subsection \<open>put, delete and get\<close>

text \<open>C3: a \<open>put\<close> that succeeds makes the storage stand for the store updated at the key, and keeps
  the invariant of keydir, files, writer and cached readers. One that fails with an error leaves
  the store as it was, whatever part of the entry reached the file, unless the failure was that
  of moving on to a new active file.\<close>

theorem put_updates_store:
  assumes "deps_laws D" and "storage_inv D st" and "handle_put D B k v st = (r, st')"
  shows "case r of
      Inr u \<Rightarrow> storage_inv D st' \<and> abs_store D st' = (abs_store D st)(k \<mapsto> v)
    | Inl (Err e) \<Rightarrow> active_fileid st' = active_fileid st \<longrightarrow> storage_inv D st' \<and> abs_store D st' = abs_store D st
    | Inl Panic \<Rightarrow> True"
proof (cases "closed st")
  case True
  with assms show ?thesis by (auto simp: handle_put_def guarded_def)
next
  case False
  with assms(3) have "put D B k v st = (r, st')" by (simp add: handle_put_def guarded_def)
  with put_ok[OF assms(1,2)] put_fails[OF assms(1,2)] show ?thesis
    by (auto split: sum.split fault.split)
qed

theorem put_updates_store_witness:
  "storage_inv codec demo1 \<and> abs_store codec demo1 = [[1] \<mapsto> [2]]"
proof -
  have "handle_put codec dev_build [1] [2] demo0 = (Inr (), demo1)"
    using demo_puts(1) by (simp add: demo1_def demo_put_def prod_eq_iff)
  from put_updates_store[OF codec_laws demo_inv(1) this] show ?thesis by (simp add: demo0_durable(2))
qed

text \<open>C15: a \<open>get\<close> on an open storage with a reader in its pool returns the value of the store, or
  the error of a system call that failed; it never panics, gives its reader back
  and leaves store and invariant as they were.\<close>

theorem get_returns_value:
  assumes "deps_laws D" and "storage_inv D st" and "\<not> closed st" and "pool st \<noteq> []"
  shows "\<exists>r st'. handle_get D B k st = Some (r, st') \<and>
    (r = Inr (abs_store D st k) \<or> faults (files st) \<noteq> [] \<and> (\<exists>e. r = Inl (Err (BcIo e)))) \<and>
    storage_inv D st' \<and> abs_store D st' = abs_store D st \<and> length (pool st') = length (pool st)"
  using handle_get_ok[OF assms, of B k] by (auto simp: io_or_def)

theorem get_returns_value_witness:
  "map_option fst (handle_get codec dev_build [2] demo3) = Some (Inr (Some [7, 7, 7]))"
proof -
  have "pool demo3 \<noteq> []" by code_simp
  from get_returns_value[OF codec_laws demo_inv(2) demo_open_flags(2) this, of dev_build "[2]"] demo_limits(3)
  show ?thesis by (auto simp: demo3_durable(2))
qed

text \<open>C19: a \<open>delete\<close> that succeeds removes the key from the store and says whether it was there;
  one that fails with an error leaves the store as it was, with the exception of \<open>put\<close>.\<close>

theorem delete_removes_key:
  assumes "deps_laws D" and "storage_inv D st" and "handle_delete D B k st = (r, st')"
  shows "case r of
      Inr b \<Rightarrow> storage_inv D st' \<and> abs_store D st' = (abs_store D st)(k := None) \<and> b = (abs_store D st k \<noteq> None)
    | Inl (Err e) \<Rightarrow> active_fileid st' = active_fileid st \<longrightarrow> storage_inv D st' \<and> abs_store D st' = abs_store D st
    | Inl Panic \<Rightarrow> True"
proof (cases "closed st")
  case True
  with assms show ?thesis by (auto simp: handle_delete_def guarded_def)
next
  case False
  with assms(3) have "delete D B k st = (r, st')" by (simp add: handle_delete_def guarded_def)
  with delete_ok[OF assms(1,2), of B k _ st'] delete_fails[OF assms(1,2), of B k _ st'] show ?thesis
    by (cases r) (auto split: fault.split)
qed

theorem delete_removes_key_witness:
  "abs_store codec (demo_del [2] demo3) = [[1] \<mapsto> [3]]"
proof -
  have "fst (handle_delete codec dev_build [2] demo3) = Inr True" by code_simp
  then have "handle_delete codec dev_build [2] demo3 = (Inr True, demo_del [2] demo3)"
    by (simp add: demo_del_def prod_eq_iff)
  from delete_removes_key[OF codec_laws demo_inv(2) this] show ?thesis by (auto simp: demo3_durable(2))
qed

text \<open>A \<open>put\<close> on a durable storage succeeds, if the clock has a reading, no system call fails
  and ids and files are below their limits: no check of the statistics, no arithmetic and no
  change of the active file stands in its way.\<close>

lemma put_makes_progress:
  assumes "deps_laws D" and "durable D st" and "\<not> closed st" and "clock st = Some t # ts"
    and "faults (files st) = []" and "active_fileid st < 2 ^ 63" and "inext (files st) < 2 ^ 63"
    and "length (idata (files st) (bw_file (w_log st))) + length (enc_data D \<lparr>d_tstamp = t, d_key = k, d_value = Some v\<rparr>) < 2 ^ 63"
  shows "fst (handle_put D B k v st) = Inr ()"
  using put_succeeds[OF assms(1,2,4-8), of B] assms(3) by (simp add: handle_put_def guarded_def)

lemma put_makes_progress_witness:
  "fst (handle_put codec release_build [9] [8, 8] demo0) = Inr ()"
proof -
  have d: "clock demo0 = Some 5 # [Some 6, Some 7]" "faults (files demo0) = []" "active_fileid demo0 = 0" "inext (files demo0) = 1"
    "length (idata (files demo0) (bw_file (w_log demo0))) = 0"
    "length (enc_data codec \<lparr>d_tstamp = 5, d_key = [9], d_value = Some [8, 8]\<rparr>) = 28" by code_simp+
  show ?thesis
    by (rule put_makes_progress[OF codec_laws demo0_durable(1) demo_open_flags(1) d(1,2)]) (simp_all add: d)
qed

subsection \<open>Runs, crashes and reopening\<close>

text \<open>C2: on a system whose calls do not fail, an engine that is never merged is a finite map, before and
  after it is opened again. Opened on an empty directory, it carries out any sequence of puts,
  deletes, gets and syncs of sizes a file can take, fewer than \<open>2 ^ 62\<close> in all; each of them succeeds
  and returns what it returns for the map: a \<open>get\<close> the value, a \<open>delete\<close> whether the key was there.
  Dropped and opened again, with any configuration, it goes on with the same map. Merges are not
  among the operations: a merge keeps the map (\<open>merge_keeps_store\<close>), but what is opened behind it may
  not be the same map (\<open>merge_hints_are_stale\<close>, \<open>merge_revives_deleted_key\<close>).\<close>

theorem engine_is_a_map:
  assumes "deps_laws D" and "0 < concurrency c" and "max_file_size c < 2 ^ 62"
    and "0 < concurrency c'" and "max_file_size c' < 2 ^ 62"
    and "readings_ok readings" and "readings_ok readings'"
    and "list_all (op_fits D) ops" and "list_all (op_fits D) ops'" and "length ops + length ops' < 2 ^ 62"
  shows "\<exists>st1 st2 st3 st4. bitcask_open D B c readings h empty_fs = Some (Inr st1, files st1) \<and>
    run_ops D B ops st1 = Some (map_answers ops (\<lambda>_. None), st2) \<and>
    bitcask_open D B c' readings' h' (bitcask_drop st2) = Some (Inr st3, files st3) \<and>
    run_ops D B ops' st3 = Some (map_answers ops' (fold op_effect ops (\<lambda>_. None)), st4)"
proof -
  have n: "(length ops + Suc (length ops')) + 1 < 2 ^ 63" using assms(10) by simp
  from healthy_open[OF assms(1-3) n readings_okD[OF assms(6)], of B h] obtain st1 where
    1: "bitcask_open D B c readings h empty_fs = Some (Inr st1, files st1)" "healthy D (length ops + Suc (length ops')) st1 []" by blast
  from healthy_ops[OF assms(1) 1(2) assms(8), of B] obtain st2 ys where
    2: "run_ops D B ops st1 = Some (map_answers ops (\<lambda>_. None), st2)" "healthy D (Suc (length ops')) st2 ys"
      "replay ys (\<lambda>_. None) = fold op_effect ops (\<lambda>_. None)" by auto
  from healthy_reopen[OF assms(1) 2(2) assms(4,5) readings_okD[OF assms(7)], of B h'] obtain st3 where
    3: "bitcask_open D B c' readings' h' (bitcask_drop st2) = Some (Inr st3, files st3)" "healthy D (length ops' + 0) st3 ys" by auto
  from healthy_ops[OF assms(1) 3(2) assms(9), of B] obtain st4 where
    "run_ops D B ops' st3 = Some (map_answers ops' (fold op_effect ops (\<lambda>_. None)), st4)" unfolding 2(3) by blast
  with 1(1) 2(1) 3(1) show ?thesis by blast
qed

theorem engine_is_a_map_witness:
  "\<exists>st1 st2 st3 st4. bitcask_open codec dev_build demo_config [Some 5] 0 empty_fs = Some (Inr st1, files st1) \<and>
    run_ops codec dev_build [OpPut [1] [2], OpPut [3] [4], OpDelete [1]] st1 = Some ([Completed, Completed, WasThere True], st2) \<and>
    bitcask_open codec dev_build demo_config [Some 9] 7 (bitcask_drop st2) = Some (Inr st3, files st3) \<and>
    run_ops codec dev_build [OpGet [1], OpGet [3], OpDelete [1]] st3 = Some ([HasValue None, HasValue (Some [4]), WasThere False], st4)"
proof -
  have c: "0 < concurrency demo_config" "max_file_size demo_config < 2 ^ 62" by (simp_all add: demo_config_def)
  have r: "readings_ok [Some 5]" "readings_ok [Some 9]" by (simp_all add: readings_ok_def in_i64_def)
  have f: "list_all (op_fits codec) [OpPut [1] [2], OpPut [3] [4], OpDelete [1]]"
    "list_all (op_fits codec) [OpGet [1], OpGet [3], OpDelete [1]]"
    by (simp_all add: fits_def bincode_lru_def put_data_def put_bytes_def put_u64_def)
  from engine_is_a_map[OF codec_laws c c r f, of dev_build 0 7] show ?thesis by simp
qed

text \<open>C18: whatever sequence of successful puts, successful deletes, gets and syncs a durable storage
  carries out, it stays durable: its files hold what a rebuild needs, its statistics are exact, and
  it stands for the store with the effects of the operations in their order. A write that fails can
  leave a part of its entry in the buffer, and a merge leaves a hint file; both end durability.\<close>

theorem runs_stay_durable:
  assumes "engine_run D B st ops st'" and "deps_laws D" and "durable D st"
  shows "durable D st' \<and> abs_store D st' = fold op_effect ops (abs_store D st)"
  by (rule engine_run_durable[OF assms])

theorem runs_stay_durable_witness:
  "durable codec demo3 \<and> abs_store codec demo3 = [[1] \<mapsto> [3], [2] \<mapsto> [7, 7, 7]]"
  using runs_stay_durable[OF demo_run codec_laws demo0_durable(1)] by (auto simp: demo0_durable(2))

text \<open>C1: of a durable storage (its directory has no hint files, so it was never merged, and every write so
  far succeeded): when the process dies in the middle of a write, so that the first \<open>n\<close> bytes of an
  entry reach the active file, a storage opened on the files stands for the store before the write
  if the entry is cut off and for the store after it if the entry is complete. No other key
  changes, and opening does not fail.\<close>

theorem reopen_after_crash:
  assumes "deps_laws D" and "durable D st" and "active_fileid st < 2 ^ 63" and "inext (files st) < 2 ^ 63"
    and "entry_ok x" and "n \<le> length (enc_data D x)"
    and "length (idata (files st) (bw_file (w_log st))) + n < 2 ^ 63"
    and "0 < concurrency c" and "\<And>t. Some t \<in> set readings \<Longrightarrow> in_i64 t"
  shows "\<exists>st'. bitcask_open D B c readings h (crash_files st (take n (enc_data D x))) = Some (Inr st', files st') \<and>
    durable D st' \<and> \<not> closed st' \<and>
    abs_store D st' = (if n < length (enc_data D x) then abs_store D st else (abs_store D st)(d_key x := d_value x))"
  by (rule reopen_crashed[OF assms])

theorem reopen_after_crash_witness:
  "\<exists>st'. bitcask_open codec dev_build demo_config [Some 9] 0
      (crash_files demo3 (take 11 (enc_data codec \<lparr>d_tstamp = 8, d_key = [1], d_value = None\<rparr>))) = Some (Inr st', files st') \<and>
    abs_store codec st' = [[1] \<mapsto> [3], [2] \<mapsto> [7, 7, 7]]"
proof -
  let ?x = "\<lparr>d_tstamp = 8, d_key = [1], d_value = None\<rparr>"
  have x: "entry_ok ?x" "length (enc_data codec ?x) = 18" "length (idata (files demo3) (bw_file (w_log demo3))) = 27" by code_simp+
  have "in_i64 t" if "Some t \<in> set [Some 9]" for t using that by (simp add: in_i64_def)
  from reopen_after_crash[OF codec_laws demo3_durable(1) demo_limits(1,2) x(1) _ _ demo_config_ok this, where n = 11 and B = dev_build and h = 0 and readings = "[Some 9]"] x(2,3)
  show ?thesis by (auto simp: demo3_durable(2))
qed

text \<open>C21: a storage opened on the files that a durable one (never merged, all its writes successful) left
  when it was dropped, the system calls then not failing, stands for the same store and is durable
  again.\<close>

theorem reopen_after_shutdown:
  assumes "deps_laws D" and "durable D st" and "active_fileid st < 2 ^ 63" and "inext (files st) < 2 ^ 63"
    and "0 < concurrency c" and "\<And>t. Some t \<in> set readings \<Longrightarrow> in_i64 t"
  shows "\<exists>st'. bitcask_open D B c readings h (dropped_files st) = Some (Inr st', files st') \<and>
    durable D st' \<and> \<not> closed st' \<and> abs_store D st' = abs_store D st"
  by (rule reopen_dropped[OF assms])

theorem reopen_after_shutdown_witness:
  "abs_store codec (demo_open (dropped_files demo3)) = [[1] \<mapsto> [3], [2] \<mapsto> [7, 7, 7]]"
proof -
  from reopen_after_shutdown[OF codec_laws demo3_durable(1) demo_limits(1,2) demo_config_ok demo_times,
    where B = dev_build and h = 0 and readings = "[Some 5, Some 6, Some 7]"]
  show ?thesis by (auto simp: demo3_durable(2) demo_open_def opened_def)
qed

text \<open>C20: rebuilding from data files that hold entries, each file perhaps with a cut off entry at its
  end, makes the keydir of the store that replaying the entries in order of file ids and
  positions gives, with exact statistics, and gives the active file a new id.\<close>

theorem rebuild_replays_logs:
  assumes "deps_laws D" and "faults fs = []" and "logs_ok D fs logs" and "next_id (map fst logs) < 2 ^ 64"
  shows "\<exists>kd ss. rebuild_storage D B fs = Some (Inr (next_id (map fst logs)), kd, ss, fs) \<and>
    keydir_ok D kd fs (next_id (map fst logs)) \<and>
    kd_store D kd fs = replay (all_entries logs) (\<lambda>_. None) \<and>
    stats_exact kd ss (entry_count logs) (byte_count D logs)"
  using rebuild_storage_replays[OF assms, of B] by (auto simp: rebuilt_def)

theorem rebuild_replays_logs_witness:
  "\<exists>kd ss. rebuild_storage codec dev_build (files demo2) = Some (Inr 2, kd, ss, files demo2) \<and>
     kd_store codec kd (files demo2) = [[1] \<mapsto> [2], [2] \<mapsto> [7, 7, 7]]"
proof -
  let ?x = "\<lparr>d_tstamp = 5, d_key = [1], d_value = Some [2]\<rparr>" and ?y = "\<lparr>d_tstamp = 6, d_key = [2], d_value = Some [7, 7, 7]\<rparr>"
  let ?logs = "[(0, [?x, ?y]), (1, [])]"
  have f: "faults (files demo2) = []" "ids_of (map fst (dir (files demo2))) = [0, 1]"
    "map_of (dir (files demo2)) (datafile_name 0) = Some 0" "map_of (dir (files demo2)) (datafile_name 1) = Some 1"
    "map_of (dir (files demo2)) (hintfile_name 0) = None" "map_of (dir (files demo2)) (hintfile_name 1) = None"
    "idata (files demo2) 0 = enc_data codec ?x @ enc_data codec ?y" "idata (files demo2) 1 = []"
    "length (enc_data codec ?x @ enc_data codec ?y) = 56" "entry_ok ?x" "entry_ok ?y" by code_simp+
  then have "logs_ok codec (files demo2) ?logs"
    using torn_Nil[OF codec_laws] by (simp add: logs_ok_def file_holds_def del: One_nat_def length_append)
  from rebuild_replays_logs[OF codec_laws f(1) this, of dev_build]
  show ?thesis by (simp add: all_entries_def next_id_def del: One_nat_def) (auto simp: fun_upd_twist numeral_2_eq_2)
qed

text \<open>C24: opening returns, with a storage or an error, whatever bytes the directory holds: the loops
  over hint and data files end, if the decoder takes at least one byte for a value and files are
  below \<open>2 ^ 64\<close> bytes.\<close>

theorem opening_terminates:
  assumes "consuming D" and "bounded_files fs"
  shows "\<exists>r fs'. bitcask_open D B c readings h fs = Some (r, fs')"
  using consuming.bitcask_open_ends[OF assms, of B c readings h] by auto

theorem opening_terminates_witness:
  "\<exists>r fs'. bitcask_open codec release_build demo_config [] 0
     \<lparr>dir = [(datafile_name 3, 0), (hintfile_name 3, 1)], idata = (\<lambda>_. [])(0 := [1, 2, 3], 1 := replicate 99 0),
      inext = 2, faults = []\<rparr> = Some (r, fs')"
  by (rule opening_terminates[OF bincode_takes.consuming_axioms]) (simp add: bounded_files_def)

subsection \<open>Statistics and the choice of files to merge\<close>

text \<open>C23: the statistics of a durable storage are exact for every file: the live keys are the entries
  of the keydir that lie in it, the counters have room, and the dead bytes and the bytes of the
  live entries together do not exceed the file.\<close>

theorem statistics_are_exact:
  assumes "deps_laws D" and "durable D st" and "map_of (dir (files st)) (datafile_name f) = Some i"
  shows "let s = stats_of (w_stats st) f; lying = filter (\<lambda>(k, e). kd_fileid e = f) (keydir st) in
    live_keys s = length lying \<and> dead_keys s + live_keys s < 2 ^ 63 \<and>
    dead_bytes s + sum_list (map (\<lambda>(k, e). kd_len e) lying) \<le> length (idata (files st) i)"
proof -
  have "sum_list (map (\<lambda>(k, e). kd_len e) (filter (\<lambda>(k, e). kd_fileid e = f) kd)) = tally (bytes_here f) kd" for kd
    by (induction kd) (auto simp: tally_def bytes_here_def)
  with durable_stats[OF assms(1,2)] durable_stats(3)[OF assms] show ?thesis by (simp add: Let_def)
qed

theorem statistics_are_exact_witness:
  "live_keys (stats_of (w_stats demo3) 0) = 1 \<and> dead_bytes (stats_of (w_stats demo3) 0) + 29 \<le> 56"
proof -
  have f: "map_of (dir (files demo3)) (datafile_name 0) = Some 0" "length (idata (files demo3) 0) = 56"
    "map (\<lambda>(k, e). kd_len e) (filter (\<lambda>(k, e). kd_fileid e = 0) (keydir demo3)) = [29]" by code_simp+
  have "length (filter (\<lambda>(k, e). kd_fileid e = 0) (keydir demo3)) = 1" using arg_cong[OF f(3), of length] by simp
  with statistics_are_exact[OF codec_laws demo3_durable(1) f(1)] f(2,3) show ?thesis by (simp add: Let_def)
qed

text \<open>C26: with counts below \<open>2 ^ 53\<close> a merge is wanted exactly when the policy and the hour allow it and
  some file has more dead bytes, or a larger share of dead keys, than the triggers say; the files
  it takes are, in ascending order, those beyond the thresholds and those that are small. No
  count overflows on the way.\<close>

theorem merge_follows_policy:
  assumes "\<forall>(f, s) \<in> set (w_stats st). countable_keys s"
  shows "can_merge B st = Inr (in_window (policy (conf st)) (hour st) \<and> (\<exists>(f, s) \<in> set (w_stats st). triggers (conf st) s))
    \<and> (\<forall>ids st'. fileids_to_merge B st = (Inr ids, st') \<longrightarrow>
         sorted ids \<and> set ids = fst ` {p \<in> set (w_stats st). worth_merging (conf st) (files st) p})"
  using can_merge_spec[OF assms] select_files_spec[of B "w_stats st" "[]" st] assms
  by (auto simp: fileids_to_merge_def)

theorem merge_follows_policy_witness:
  "can_merge dev_build demo3 = Inr True \<and> (\<exists>st'. fileids_to_merge dev_build demo3 = (Inr [0], st'))"
proof -
  have w: "list_all (\<lambda>(f, s). dead_keys s + live_keys s \<le> 2) (w_stats demo3)" by code_simp
  then have c: "\<forall>(f, s) \<in> set (w_stats demo3). countable_keys s" by (auto simp: list_all_iff countable_keys_def)
  have "list_ex (\<lambda>(f, s). trigger_dead_bytes (conf demo3) < dead_bytes s) (w_stats demo3)" "policy (conf demo3) = MergeAlways"
    by code_simp+
  with merge_follows_policy[OF c, of dev_build] have "can_merge dev_build demo3 = Inr True"
    by (auto simp: list_ex_iff in_window_def triggers_def)
  moreover have "fst (fileids_to_merge dev_build demo3) = Inr [0]" by code_simp
  ultimately show ?thesis by (metis prod.collapse)
qed

definition demo_merged :: "lru storage" where
  "demo_merged = snd (handle_merge codec dev_build demo3)"

text \<open>C14: a merge in which no system call fails keeps the store: every key of the files it took leads
  to a copy of its entry, what the keydir leads to is never removed, and the invariant holds
  with the new active file.\<close>

theorem merge_keeps_store:
  assumes "deps_laws D" and "storage_inv D st" and "faults (files st) = []"
    and "known_files (active_fileid st) (w_stats st)" and "tally kd_len (keydir st) < 2 ^ 63"
    and "handle_merge D B st = (Inr u, st')"
  shows "storage_inv D st' \<and> abs_store D st' = abs_store D st"
proof -
  have "st' = st \<or> merge D B st = (Inr u, st')"
    using assms(6) by (simp add: handle_merge_def guarded_def split: if_splits sum.splits)
  then show ?thesis using merge_ok[OF assms(1-5), of B u st'] assms(2) by auto
qed

theorem merge_keeps_store_witness:
  "abs_store codec demo_merged = [[1] \<mapsto> [3], [2] \<mapsto> [7, 7, 7]]"
proof -
  have "fst (handle_merge codec dev_build demo3) = Inr ()" by code_simp
  then have m: "handle_merge codec dev_build demo3 = (Inr (), demo_merged)" by (simp add: demo_merged_def prod_eq_iff)
  have s: "map fst (w_stats demo3) = [0, 1]" "active_fileid demo3 = 1" "tally kd_len (keydir demo3) = 56" by code_simp+
  have "fst ` set (w_stats demo3) = {0, 1}" unfolding set_map[symmetric] s(1) by simp
  with s merge_keeps_store[OF codec_laws demo_inv(2) demo_limits(3) _ _ m] show ?thesis by (simp add: known_files_def demo3_durable(2))
qed

subsection \<open>Background tasks\<close>

text \<open>C4: on a system whose calls do not fail, and as long as every periodic merge succeeds: however the
  operations of clients, periodic merges and syncs, and the drop of the storage follow each other,
  each of them one step, the storage stands for the store with the effects of the clients'
  operations in their order, and its invariant holds: merging in the background is invisible to
  operations that do not overlap it. \<open>Concurrent\<close> is about gets that do.\<close>

theorem background_is_transparent:
  assumes "deps_laws D" and "engine_path D B e path" and "engine_ok D e" and "path_ok e path"
  shows "storage_inv D (store_of (last_state e path)) \<and>
    abs_store D (store_of (last_state e path)) = fold op_effect (client_ops path) (abs_store D (store_of e))"
  using engine_path_ok[OF assms] by (simp add: engine_ok_def)

theorem background_is_transparent_witness:
  "abs_store codec demo_merged = [[1] \<mapsto> [3], [2] \<mapsto> [7, 7, 7]]"
proof -
  let ?e = "background_tasks demo0"
  let ?path = "[(Client (OpPut [1] [2]), ?e\<lparr>store_of := demo1\<rparr>), (Client (OpPut [2] [7, 7, 7]), ?e\<lparr>store_of := demo2\<rparr>),
    (Client (OpPut [1] [3]), ?e\<lparr>store_of := demo3\<rparr>), (MergeTick (Inr ()), ?e\<lparr>store_of := demo_merged\<rparr>)]"
  have m: "fst (handle_merge codec dev_build demo3) = Inr ()" "merge_task ?e = Waiting" by code_simp+
  have p: "handle_put codec dev_build [1] [2] demo0 = (Inr (), demo1)" "handle_put codec dev_build [2] [7, 7, 7] demo1 = (Inr (), demo2)"
    "handle_put codec dev_build [1] [3] demo2 = (Inr (), demo3)" "handle_merge codec dev_build demo3 = (Inr (), demo_merged)"
    using demo_puts m(1) by (simp_all add: demo1_def demo2_def demo3_def demo_put_def demo_merged_def prod_eq_iff)
  have "engine_step codec dev_build (Client (OpPut [1] [2])) ?e (?e\<lparr>store_of := demo1\<rparr>)"
    by (rule engine_step.client) (simp add: background_tasks_def p)
  moreover have "engine_step codec dev_build (Client (OpPut [2] [7, 7, 7])) (?e\<lparr>store_of := demo1\<rparr>) (?e\<lparr>store_of := demo2\<rparr>)"
    using engine_step.client[of codec dev_build "OpPut [2] [7, 7, 7]" "?e\<lparr>store_of := demo1\<rparr>" demo2] by (simp add: p)
  moreover have "engine_step codec dev_build (Client (OpPut [1] [3])) (?e\<lparr>store_of := demo2\<rparr>) (?e\<lparr>store_of := demo3\<rparr>)"
    using engine_step.client[of codec dev_build "OpPut [1] [3]" "?e\<lparr>store_of := demo2\<rparr>" demo3] by (simp add: p)
  moreover have "engine_step codec dev_build (MergeTick (Inr ())) (?e\<lparr>store_of := demo3\<rparr>) (?e\<lparr>store_of := demo_merged\<rparr>)"
  proof -
    have "?e\<lparr>store_of := demo_merged\<rparr> = ?e\<lparr>store_of := demo_merged, merge_task := after_tick (Inr ())\<rparr>"
      using m(2) by (cases ?e) (simp add: after_tick_def)
    then show ?thesis using engine_step.merge_on_interval[of "?e\<lparr>store_of := demo3\<rparr>" codec dev_build "Inr ()" demo_merged] m(2) p(4)
      by simp
  qed
  ultimately have path: "engine_path codec dev_build ?e ?path" by simp
  have "w_stats demo0 = []" "faults (files demo0) = []" by code_simp+
  then have ok: "engine_ok codec ?e" using demo_inv(1) by (simp add: engine_ok_def calm_def background_tasks_def known_files_def)
  have "tally kd_len (keydir demo0) = 0" "tally kd_len (keydir demo1) = 27" "tally kd_len (keydir demo2) = 56"
    "tally kd_len (keydir demo3) = 56" "tally kd_len (keydir demo_merged) = 56" by code_simp+
  then have "path_ok ?e ?path" by (simp add: path_ok_def background_tasks_def)
  from background_is_transparent[OF codec_laws path ok this] show ?thesis
    by (simp add: last_state_def background_tasks_def demo0_durable(2) fun_upd_twist)
qed

subsection \<open>File names and closed storages\<close>

text \<open>\<open>sorted_fileids\<close> lists exactly the ids of the data files, each once and in ascending order;
  a data file made for an id is found under that id, and hint files are left out.\<close>

lemma file_ids_listed:
  assumes "sorted_fileids fs = (Inr ids, fs')"
  shows "sorted ids \<and> distinct ids \<and>
    (\<forall>n < 2 ^ 64. datafile_name n \<in> fst ` set (dir fs) \<longrightarrow> n \<in> set ids) \<and>
    (\<forall>n \<in> set ids. \<exists>name \<in> fst ` set (dir fs). fileid_of name = Some n \<and> (\<forall>m. name \<noteq> hintfile_name m))"
proof -
  from assms obtain names where "read_dir fs = (Inr names, fs')" and ids: "ids = ids_of names"
    by (auto simp: sorted_fileids_def elim: try_op_InrE)
  then have "names = map fst (dir fs)" unfolding read_dir_def by (elim sys_call_Inr) simp
  with ids show ?thesis by (auto simp: set_ids_of intro: rev_image_eqI) force+
qed

lemma file_ids_listed_witness:
  "sorted (ids_of (map fst (dir (files demo_merged)))) \<and> 3 \<in> set (ids_of (map fst (dir (files demo_merged))))"
proof -
  have d: "map fst (dir (files demo_merged)) = [datafile_name 3, hintfile_name 2, datafile_name 2, datafile_name 1]"
    "faults (files demo_merged) = []" by code_simp+
  from d(1) have "fst ` set (dir (files demo_merged)) = {datafile_name 3, hintfile_name 2, datafile_name 2, datafile_name 1}"
    unfolding set_map[symmetric] by simp
  then have three: "datafile_name 3 \<in> fst ` set (dir (files demo_merged))" by blast
  have "sorted_fileids (files demo_merged) = (Inr (ids_of (map fst (dir (files demo_merged)))), files demo_merged)"
    using d(2) by (simp add: sorted_fileids_def read_dir_def)
  note ids = file_ids_listed[OF this]
  have "3 \<in> set (ids_of (map fst (dir (files demo_merged))))"
    by (rule ids[THEN conjunct2, THEN conjunct2, THEN conjunct1, rule_format, OF _ three]) simp
  with ids show ?thesis by blast
qed

text \<open>Once a storage is closed every operation of every handle fails with \<open>Closed\<close> and changes
  nothing.\<close>

lemma closed_storage_refuses:
  "handle_put D B k v (close_storage st) = (Inl (Err Closed), close_storage st) \<and>
   handle_delete D B k (close_storage st) = (Inl (Err Closed), close_storage st) \<and>
   handle_get D B k (close_storage st) = Some (Inl (Err Closed), close_storage st) \<and>
   handle_merge D B (close_storage st) = (Inl (Err Closed), close_storage st) \<and>
   handle_sync (close_storage st) = (Inl (Err Closed), close_storage st)"
  by (simp add: handle_put_def handle_delete_def handle_get_def handle_merge_def handle_sync_def guarded_def close_storage_def)

subsection \<open>A server over the engine\<close>

text \<open>C7: a handler over the storage engine in good health (no system call fails, no failed write is left
  in its buffer, it was never merged, and it has room for the commands), in a build without overflow
  checks: when it receives the encodings of a sequence of commands, in any pieces of which none but
  the last ends in a sign, and then the end of the stream, it returns. Unless its connection failed,
  it returns without an error, every command succeeded, the storage stands for the store with the
  effects of the commands in order, its invariant holds and the wire carries exactly their replies.\<close>

theorem engine_serves_commands:
  assumes "deps_laws D" and "duplex_stream W queued wire incoming"
    and "\<not> overflow_checks B" and "list_all (command_fits B) cs" and "list_all (command_room (fits D)) cs"
    and "\<not> shutdown h" and "healthy D (sum_list (map command_ops cs)) (storage h) xs"
    and "store_fits (abs_store D (storage h))"
    and "received incoming h = requests cs"
    and "safe_splits (buffer (conn h)) (incoming (stream (conn h)))"
    and "wire (stream (conn h)) = queued (stream (conn h))"
  shows "\<exists>r h'. handler_run B W (bitcask_kv D B err) None h = Some (r, h') \<and>
    ((\<exists>x. r = Inl (Err (Io x))) \<or>
     r = Inr () \<and> storage_inv D (storage h') \<and>
       abs_store D (storage h') = fold effect cs (abs_store D (storage h)) \<and>
       wire (stream (conn h')) = wire (stream (conn h)) @ concat (map encode (replies cs (abs_store D (storage h)))))"
proof -
  have "\<exists>xs. healthy D (sum_list (map command_ops cs)) (storage h) xs" using assms(7) by blast
  from reliable_serving.handler_serves_exactly[OF reliable_serving.intro[OF bitcask_reliable[OF assms(1)] assms(2)]
      assms(3-6) this assms(8-11), where rounds = None]
  show ?thesis by simp
qed

theorem engine_serves_commands_witness:
  "\<exists>r h'. handler_run release_build mem_ops (bitcask_kv codec release_build (\<lambda>_. [])) None
      \<lparr>storage = demo3, conn = connection_new (mem_stream [requests [Get [2]] @ [42, 50, 13], drop 3 (requests [Get [1]])]),
       shutdown = False\<rparr> = Some (r, h') \<and>
     ((\<exists>x. r = Inl (Err (Io x))) \<or> outbox (stream (conn h')) = concat (map encode [BulkString [7, 7, 7], BulkString [3]]))"
proof -
  let ?cs = "[Get [2], Get [1]]"
  let ?h = "\<lparr>storage = demo3, conn = connection_new (mem_stream [requests [Get [2]] @ [42, 50, 13], drop 3 (requests [Get [1]])]),
       shutdown = False\<rparr>"
  have c: "\<not> overflow_checks release_build" "list_all (command_fits release_build) ?cs" by code_simp+
  have r: "received mem_incoming ?h = requests ?cs" "safe_splits (buffer (conn ?h)) (mem_incoming (stream (conn ?h)))" by code_simp+
  have e: "\<not> shutdown ?h" "outbox (stream (conn ?h)) = mem_queued (stream (conn ?h))" "outbox (stream (conn ?h)) = []"
    by (simp_all add: connection_new_def mem_stream_def mem_queued_def)
  have f: "list_all (command_room (fits codec)) ?cs" by simp
  obtain xs where xs: "healthy codec (sum_list (map command_ops ?cs)) (storage ?h) xs"
    using demo3_healthy[of "sum_list (map command_ops ?cs)"] by auto
  have s: "store_fits (abs_store codec (storage ?h))" by (simp add: demo3_durable(2) store_fits_def in_i64_def)
  have rep: "replies ?cs (abs_store codec demo3) = [BulkString [7, 7, 7], BulkString [3]]" by (simp add: demo3_durable(2))
  from engine_serves_commands[OF codec_laws mem.duplex_stream_axioms c f e(1) xs s r e(2), where err = "\<lambda>_. []"]
  obtain x h' where "handler_run release_build mem_ops (bitcask_kv codec release_build (\<lambda>_. [])) None ?h = Some (x, h')"
    and "(\<exists>y. x = Inl (Err (Io y))) \<or> outbox (stream (conn h')) = outbox (stream (conn ?h))
           @ concat (map encode (replies ?cs (abs_store codec (storage ?h))))" by blast
  with rep e(3) show ?thesis by (simp only: handler.select_convs append_Nil) blast
qed

subsection \<open>Where the engine loses data\<close>

definition demo_deleted :: "lru storage" where
  "demo_deleted = demo_del [1] (demo_put [2] [7, 7, 7] (demo_put [1] [2]
     (opened (bitcask_open codec dev_build (demo_config\<lparr>threshold_dead_bytes := 100\<rparr>) [Some 5, Some 6, Some 7] 0 empty_fs))))"

definition with_faults :: "(io_error \<times> nat) option list \<Rightarrow> 'l storage \<Rightarrow> 'l storage" where
  "with_faults fl st = st\<lparr>files := (files st)\<lparr>faults := fl\<rparr>\<rparr>"

text \<open>The hint file that a merge writes has the positions of the old files. Here a storage that is
  merged and answers correctly panics, after it was opened again, on a key of the merged file.\<close>

lemma merge_hints_are_stale:
  "fst (handle_merge codec dev_build demo3) = Inr () \<and>
   map_option fst (handle_get codec dev_build [2] demo_merged) = Some (Inr (Some [7, 7, 7])) \<and>
   map_option fst (handle_get codec dev_build [2] (demo_open (dropped_files demo_merged))) = Some (Inl Panic)"
  by code_simp

text \<open>A merge drops the tombstones of the files it takes while an older file may still hold the
  deleted entry: here a key that was deleted is back after the storage was merged and opened again.\<close>

lemma merge_revives_deleted_key:
  "(let merged = snd (handle_merge codec dev_build demo_deleted) in
    map_option fst (handle_get codec dev_build [1] demo_deleted) = Some (Inr None) \<and>
    map_option fst (handle_get codec dev_build [1] merged) = Some (Inr None) \<and>
    map_option fst (handle_get codec dev_build [1] (demo_open (dropped_files demo_deleted))) = Some (Inr None) \<and>
    map_option fst (handle_get codec dev_build [1] (demo_open (dropped_files merged))) = Some (Inr (Some [2])))"
  by code_simp

text \<open>The id of the active file is set before the file is created. If that fails, the next \<open>put\<close>
  succeeds but its entry goes to the old file under the new id, and the key cannot be read.\<close>

lemma failed_rotation_loses_write:
  "(let (r1, st1) = handle_put codec dev_build [2] [7, 7, 7] (with_faults [None, Some (OtherIo ''EMFILE'', 0)] demo1);
        (r2, st2) = handle_put codec dev_build [3] [4] st1
    in r1 = Inl (Err (BcIo (OtherIo ''EMFILE''))) \<and> r2 = Inr () \<and> faults (files st2) = [] \<and>
       map_option fst (handle_get codec dev_build [3] st2) = Some (Inl (Err (BcIo NotFound))))"
  by code_simp

text \<open>The data of a merge is flushed only when its writer is dropped, which ignores errors. If that
  write fails the merge reports success and has removed the files the data came from.\<close>

lemma merge_ignores_lost_copies:
  "(let (r, st) = handle_merge codec dev_build (with_faults (replicate 8 None @ [Some (OtherIo ''ENOSPC'', 0)]) demo3)
    in r = Inr () \<and> faults (files st) = [] \<and> map_of (dir (files st)) (datafile_name 0) = None \<and>
       map_option fst (handle_get codec dev_build [2] demo3) = Some (Inr (Some [7, 7, 7])) \<and>
       map_option fst (handle_get codec dev_build [2] st) = Some (Inl Panic))"
  by code_simp

text \<open>
  A merge that fails leaves its first files behind. Their id is the next one, so every later
  merge fails too, and the next change of the active file.
\<close>

lemma failed_merge_blocks_writer:
  "(let (r1, st1) = handle_merge codec dev_build (with_faults (replicate 3 None @ [Some (OtherIo ''ENOSPC'', 0)]) demo3);
        (r2, st2) = handle_merge codec dev_build st1;
        (r3, st3) = handle_put codec dev_build [5] (replicate 20 1) st1
    in r1 = Inl (Err (BcIo (OtherIo ''ENOSPC''))) \<and> faults (files st1) = [] \<and>
       r2 = Inl (Err (BcIo AlreadyExists)) \<and> r3 = Inl (Err (BcIo AlreadyExists)))"
  by code_simp

end
