(* ===== verification/ConcurrentProperties.thy ===== *)
theory ConcurrentProperties
  imports ConcurrentRuns TornWrites StorageProperties
begin

section \<open>Properties of overlapping gets\<close>

text \<open>
  What holds when the steps of gets and of the writer interleave, and two ways in which it goes
  wrong: a merge that removes a file between the lookup of a get and its opening the file, and an
  append that a reader sees half done.
\<close>

lemma demo3_calm: "calm demo3"
proof -
  have s: "map fst (w_stats demo3) = [0, 1]" "active_fileid demo3 = 1" by code_simp+
  have "fst ` set (w_stats demo3) = {0, 1}" unfolding set_map[symmetric] s(1) by simp
  with s(2) demo_limits(3) show ?thesis by (simp add: calm_def known_files_def)
qed

text \<open>A get that looks its key up before a put of the same key, and reads the file behind it.\<close>

definition seen_events :: "system_event list" where
  "seen_events = [GetCalled [2], GetStep 0, GetStep 0, GetStep 0, PutAppend [2] [9], PutUnlink [2], PutIndex [2] [9],
     GetStep 0, GetStep 0, GetStep 0, GetStep 0]"

definition seen_path :: "(system_event \<times> lru system) list" where
  "seen_path = the (system_run codec dev_build (system_start demo3) seen_events)"

lemma fitting_no_merge: "MergeFiles \<notin> set (map fst path) \<Longrightarrow> fitting s path"
proof (induction path arbitrary: s)
  case (Cons x path)
  then show ?case by (cases x) auto
qed simp

lemma seen_run: "system_run codec dev_build (system_start demo3) seen_events \<noteq> None"
  by code_simp

lemma seen_facts:
  "gets (end_state (system_start demo3) seen_path) = [([2], Finished (Inr (Some [7, 7, 7])))]"
  "writer_at (end_state (system_start demo3) seen_path) = Ready"
  by code_simp+

lemma seen_is_path: "system_path codec dev_build (system_start demo3) seen_path" "map fst seen_path = seen_events"
  using seen_run system_run_path[of codec dev_build "system_start demo3" seen_events seen_path]
  by (auto simp: seen_path_def)

lemma seen_fits: "fitting (system_start demo3) seen_path"
  by (rule fitting_no_merge) (simp add: seen_is_path(2) seen_events_def del: set_map)

text \<open>C5: however the steps of any number of gets and of successful puts, deletes, syncs and merges
  interleave, as long as no system call fails: a get that has returned gave the value its key had,
  by the writes indexed so far, at the moment of one of its own steps (its lookup), unless the
  entry of its key was just then being replaced, by a put of the key or by a merge: then it said
  that the key is absent. Otherwise it said that the storage is closed, which it was, or that a
  file was not found, which happens only when it had found its key and a merge removed a file
  after that moment. It never gives a wrong value and never panics.\<close>

theorem overlapping_gets_linearize:
  assumes "deps_laws D" and "storage_inv D st" and "calm st"
    and "system_path D B (system_start st) path" and "fitting (system_start st) path"
    and "i < length (gets (end_state (system_start st) path))"
    and "gets (end_state (system_start st) path) ! i = (k, Finished r)"
  shows "r = Inl (Err Closed) \<and> (closed st \<or> CloseStorage \<in> fst ` set path) \<or>
    (\<exists>p1 s p2. path = p1 @ (GetStep i, s) # p2 \<and>
       (r = Inr (if replacing p1 = Some k then None else effects p1 (abs_store D st) k) \<or>
        r = Inl (Err (BcIo NotFound)) \<and> replacing p1 \<noteq> Some k \<and> effects p1 (abs_store D st) k \<noteq> None \<and>
          MergeRemove \<in> fst ` set p2))"
  using finished_get[OF assms] unfolding outcome_def removals_def found_def by (metis (no_types, lifting))

theorem overlapping_gets_linearize_witness:
  "\<exists>p1 s p2. seen_path = p1 @ (GetStep 0, s) # p2 \<and> effects p1 [[1] \<mapsto> [3], [2] \<mapsto> [7, 7, 7]] [2] = Some [7, 7, 7]"
proof -
  from overlapping_gets_linearize[OF codec_laws demo_inv(2) demo3_calm seen_is_path(1) seen_fits, of 0 "[2]" "Inr (Some [7, 7, 7])"]
  obtain p1 s p2 where p: "seen_path = p1 @ (GetStep 0, s) # p2"
    and "Some [7, 7, 7] = (if replacing p1 = Some [2] then None else effects p1 (abs_store codec demo3) [2])"
    by (auto simp: seen_facts)
  then have "effects p1 [[1] \<mapsto> [3], [2] \<mapsto> [7, 7, 7]] [2] = Some [7, 7, 7]"
    unfolding demo3_durable(2) by (metis option.discI)
  with p show ?thesis by blast
qed

text \<open>C6: at every moment of such an interleaving what a lookup would lead to is the store with the effects
  of the entries indexed so far, in the middle of a merge too, with one exception: a key whose entry
  is being replaced at that moment is absent. Between two operations of the writer there is no
  such key, and the whole invariant of the storage holds.\<close>

theorem interleaving_keeps_store:
  assumes "deps_laws D" and "storage_inv D st" and "calm st"
    and "system_path D B (system_start st) path" and "fitting (system_start st) path"
  shows "visible D (end_state (system_start st) path) k =
      (if replacing path = Some k then None else effects path (abs_store D st) k) \<and>
    (writer_at (end_state (system_start st) path) = Ready \<longrightarrow>
       replacing path = None \<and> storage_inv D (shared (end_state (system_start st) path)))"
proof -
  have "gets (system_start st) = []" "shared (system_start st) = st" "unlinked (system_start st) = None"
    by (simp_all add: system_start_def)
  with system_path_ok[OF assms(1) system_start_inv[OF assms(2,3)] _ _ assms(4,5)] show ?thesis
    by (auto simp: sys_inv_def writer_inv_def visible_at window_ok_def)
qed

theorem interleaving_keeps_store_witness:
  "visible codec (end_state (system_start demo3) seen_path) = [[1] \<mapsto> [3], [2] \<mapsto> [9]]"
proof
  fix k
  from interleaving_keeps_store[OF codec_laws demo_inv(2) demo3_calm seen_is_path(1) seen_fits, of k] seen_facts(2)
  show "visible codec (end_state (system_start demo3) seen_path) k = [[1] \<mapsto> [3], [2] \<mapsto> [9]] k"
    by (simp add: effects_def seen_is_path(2) seen_events_def demo3_durable(2))
qed

text \<open>A delete of the engine is a run of the writer's steps with nothing in between; for a put and a merge
  \<open>put_runs\<close> and \<open>merge_runs\<close> say so. A get that nothing interrupts returns after at most seven steps
  with the result and the state of \<open>Handle::get\<close>.\<close>

lemma operations_are_runs:
  "delete D B k st = (Inr b, st') \<Longrightarrow> runs D B (ready_system gs st) [DeleteAppend k, DeleteIndex k] (ready_system gs st')"
  "handle_get D B k st = Some (r, st') \<Longrightarrow> get_run D B k 7 Checking st = (Finished r, st')"
  by (rule delete_runs, assumption) (rule get_run_handle_get)

subsection \<open>Where it goes wrong\<close>

lemma runsE:
  assumes "runs D B s evs s'"
  obtains path where "system_path D B s path" and "map fst path = evs" and "end_state s path = s'"
  using assms unfolding runs_def by blast

text \<open>The first three steps of a get: it has a reader.\<close>

lemma get_begins:
  assumes "\<not> closed st" and "pool st = l # rest"
  shows "runs D B (system_start st) [GetCalled k, GetStep 0, GetStep 0] (ready_system [(k, Looking l)] (st\<lparr>pool := rest\<rparr>))"
proof -
  have "system_step D B (GetCalled k) (system_start st) (ready_system [(k, Checking)] st)"
    using system_step.get_called[of D B k "system_start st"] by (simp add: system_start_def)
  moreover have "system_step D B (GetStep 0) (ready_system [(k, Checking)] st) (ready_system [(k, Popping)] st)"
    using system_step.get_step[of 0 "ready_system [(k, Checking)] st" k Checking D B Popping st] assms(1) by simp
  moreover have "system_step D B (GetStep 0) (ready_system [(k, Popping)] st) (ready_system [(k, Looking l)] (st\<lparr>pool := rest\<rparr>))"
    using system_step.get_step[of 0 "ready_system [(k, Popping)] st" k Popping D B "Looking l" "st\<lparr>pool := rest\<rparr>"] assms(2) by simp
  ultimately show ?thesis by (blast intro: runs_step runs_none)
qed

lemma storage_inv_pool: "storage_inv D st \<Longrightarrow> set p \<subseteq> set (pool st) \<Longrightarrow> storage_inv D (st\<lparr>pool := p\<rparr>)"
  by (auto simp: storage_inv_def)

lemma abs_store_pool [simp]: "abs_store D (st\<lparr>pool := p\<rparr>) = abs_store D st"
  by (simp add: abs_store_def fun_eq_iff cong: option.case_cong)

lemma put_append_keydir:
  assumes D: "deps_laws D" and inv: "storage_inv D st" and run: "put_append D B k v st = (Inr e, st')"
  shows "keydir st' = keydir st"
proof -
  from run obtain t s0 where t: "timestamp st = (Inr t, s0)" and w: "write_entry D B t k (Some v) s0 = (Inr e, st')"
    unfolding put_append_def by (elim try_op_InrE)
  note s0 = inv_timestamp[OF inv t]
  obtain cl where "s0 = st\<lparr>clock := cl\<rparr>" using timestamp_cases[OF t] by metis
  moreover have "keydir st' = keydir s0"
    using write_entry_Inr(1)[OF D storage_inv_ready[OF s0(1)] s0(4)[OF refl] w] by (simp add: writer_step_def)
  ultimately show ?thesis by simp
qed

lemma keydir_has_value:
  assumes D: "deps_laws D" and inv: "storage_inv D st" and e: "map_of (keydir st) k = Some e"
  shows "abs_store D st k \<noteq> None"
proof -
  from keydir_okD(2)[OF storage_invD(2)[OF inv] map_of_SomeD[OF e]] obtain x where
    "located D (files st) e x" "d_value x \<noteq> None" by blast
  with stored_located[OF D, of "files st" e x] e show ?thesis by (simp add: abs_store_def)
qed

text \<open>Without an event that writes, the store is the same at every state of a path.\<close>

lemma silent_effects: "(\<And>ev. ev \<in> fst ` set path \<Longrightarrow> event_effect ev = (\<lambda>m. m)) \<Longrightarrow> effects path m = m"
proof (induction path rule: rev_induct)
  case (snoc x path)
  then show ?case by (cases x) simp
qed simp

lemma silent_path:
  assumes D: "deps_laws D" and inv: "storage_inv D st" "calm st" and path: "system_path D B (system_start st) path"
    and fit: "fitting (system_start st) path" and silent: "\<And>ev. ev \<in> fst ` set path \<Longrightarrow> event_effect ev = (\<lambda>m. m)"
    and x: "(ev, s) \<in> set path"
  shows "abs_store D (shared s) = abs_store D st"
proof -
  from x obtain p q where "path = p @ (ev, s) # q" by (auto simp: in_set_conv_decomp)
  then have pq: "path = (p @ [(ev, s)]) @ q" by simp
  have p: "system_path D B (system_start st) (p @ [(ev, s)])" "fitting (system_start st) (p @ [(ev, s)])"
    using path fit unfolding pq by (simp_all add: system_path_append fitting_append del: append_assoc)
  have "effects (p @ [(ev, s)]) (abs_store D st) = abs_store D st" using silent pq by (intro silent_effects) auto
  with system_path_ok[OF D system_start_inv[OF inv] _ _ p] show ?thesis by (simp add: system_start_def del: effects_simps)
qed

text \<open>C29: a get beside an overwriting put can say that the key is absent although it had a value before,
  has one after, and had one all the time by what is in the files. For any storage and any key
  that it has: between the removal of the old entry from the keydir and the insertion of the new
  one there is a moment at which the lookup of the get finds nothing.\<close>

theorem overwrite_hides_key:
  assumes D: "deps_laws D" and inv: "storage_inv D st" and o: "\<not> closed st" and p: "pool st = l # rest"
    and v0: "abs_store D st k = Some v0" and put: "put D B k v (st\<lparr>pool := rest\<rparr>) = (Inr u, st')"
  shows "\<exists>s'. runs D B (system_start st)
      [GetCalled k, GetStep 0, GetStep 0, PutAppend k v, PutUnlink k, GetStep 0, PutIndex k v, GetStep 0] s' \<and>
    gets s' = [(k, Finished (Inr None))] \<and> abs_store D (shared s') = (abs_store D st)(k \<mapsto> v)"
proof -
  let ?st = "st\<lparr>pool := rest\<rparr>"
  from put obtain e s1 where app: "put_append D B k v ?st = (Inr e, s1)" and ix: "put_index B k e s1 = (Inr u, st')"
    unfolding put_cut by (elim try_op_InrE)
  have inv': "storage_inv D ?st" using storage_inv_pool[OF inv, of rest] p by auto
  have "keydir s1 = keydir ?st" using put_append_keydir[OF D inv' app] .
  with v0 have k: "map_of (keydir s1) k \<noteq> None" by (auto simp: abs_store_def split: option.splits)
  let ?sys = "\<lambda>u pc. \<lparr>shared = s1, writer_at = Indexing k v e, unlinked = u, gets = [(k, pc)]\<rparr>"
  have a: "system_step D B (PutAppend k v) (ready_system [(k, Looking l)] ?st) (?sys None (Looking l))"
    by (rule append_runs[OF app])
  have b: "system_step D B (PutUnlink k) (?sys None (Looking l)) (?sys (Some k) (Looking l))"
    using system_step.put_unlink[of "?sys None (Looking l)" k v e D B] k by simp
  have c: "system_step D B (GetStep 0) (?sys (Some k) (Looking l)) (?sys (Some k) (Returning l (Inr None)))"
    using system_step.get_step[of 0 "?sys (Some k) (Looking l)" k "Looking l" D B "Returning l (Inr None)" s1]
    by (simp add: keydir_lookup_def)
  have d: "system_step D B (PutIndex k v) (?sys (Some k) (Returning l (Inr None))) (ready_system [(k, Returning l (Inr None))] st')"
    using system_step.put_index[of "?sys (Some k) (Returning l (Inr None))" k v e B u st' D] ix by (simp add: insertable_def)
  have e: "system_step D B (GetStep 0) (ready_system [(k, Returning l (Inr None))] st')
      (ready_system [(k, Finished (Inr None))] (st'\<lparr>pool := pool st' @ [l]\<rparr>))"
    using system_step.get_step[of 0 "ready_system [(k, Returning l (Inr None))] st'" k "Returning l (Inr None)" D B] by simp
  from runs_append[OF get_begins[OF o p] runs_step[OF a runs_step[OF b runs_step[OF c runs_step[OF d runs_step[OF e runs_none]]]]]]
  have "runs D B (system_start st)
      [GetCalled k, GetStep 0, GetStep 0, PutAppend k v, PutUnlink k, GetStep 0, PutIndex k v, GetStep 0]
      (ready_system [(k, Finished (Inr None))] (st'\<lparr>pool := pool st' @ [l]\<rparr>))" by simp
  moreover have "abs_store D st' = (abs_store D st)(k \<mapsto> v)" using put_ok[OF D inv' put] by simp
  ultimately show ?thesis by (intro exI conjI) (assumption, simp_all)
qed

text \<open>The storage \<open>demo3\<close> while a get has a reader.\<close>

definition demo_busy :: "lru storage" where
  "demo_busy = demo3\<lparr>pool := tl (pool demo3)\<rparr>"

lemma demo_reader: "pool demo3 = hd (pool demo3) # tl (pool demo3)"
  by code_simp

theorem overwrite_hides_key_witness:
  "\<exists>s'. runs codec dev_build (system_start demo3)
      [GetCalled [2], GetStep 0, GetStep 0, PutAppend [2] [9], PutUnlink [2], GetStep 0, PutIndex [2] [9], GetStep 0] s' \<and>
    gets s' = [([2], Finished (Inr None))] \<and> abs_store codec (shared s') = [[1] \<mapsto> [3], [2] \<mapsto> [9]]"
proof -
  have "fst (put codec dev_build [2] [9] demo_busy) = Inr ()" by code_simp
  then have "put codec dev_build [2] [9] (demo3\<lparr>pool := tl (pool demo3)\<rparr>) = (Inr (), snd (put codec dev_build [2] [9] demo_busy))"
    unfolding demo_busy_def[symmetric] by (metis prod.collapse)
  from overwrite_hides_key[OF codec_laws demo_inv(2) demo_open_flags(2) demo_reader _ this, of "[7, 7, 7]"]
  show ?thesis by (simp add: demo3_durable(2))
qed

text \<open>The race of \<open>get_loses_race_with_merge\<close>: the file is gone when a get opens it.\<close>

lemma late_open:
  assumes "map_of (dir (files st)) (datafile_name (kd_fileid e)) = None" and "faults (files st) = []"
  shows "runs D B (ready_system [(k, Opening l e)] st) [GetStep 0, GetStep 0]
    (ready_system [(k, Finished (Inl (Err (BcIo NotFound))))] (st\<lparr>pool := pool st @ [l]\<rparr>))"
proof -
  let ?err = "Inl (Err (BcIo NotFound))"
  have "system_step D B (GetStep 0) (ready_system [(k, Opening l e)] st) (ready_system [(k, Returning l ?err)] st)"
    using system_step.get_step[of 0 "ready_system [(k, Opening l e)] st" k "Opening l e" D B "Returning l ?err" st] assms
    by (simp add: open_read_def give_back_def)
  moreover have "system_step D B (GetStep 0) (ready_system [(k, Returning l ?err)] st)
      (ready_system [(k, Finished ?err)] (st\<lparr>pool := pool st @ [l]\<rparr>))"
    using system_step.get_step[of 0 "ready_system [(k, Returning l ?err)] st" k "Returning l ?err" D B] by simp
  ultimately show ?thesis by (blast intro: runs_step runs_none)
qed

text \<open>A get that has found its key, a merge, and the get again.\<close>

lemma race_is_path:
  assumes o: "\<not> closed st" and p: "pool st = l # rest"
    and e: "map_of (keydir st) k = Some e" and miss: "lru_get D (kd_fileid e) l = None"
    and fit: "tally kd_len (keydir st) < 2 ^ 63" and can: "can_merge B (st\<lparr>pool := rest\<rparr>) = Inr True"
    and merge: "merge D B (st\<lparr>pool := rest\<rparr>) = (Inr u, st')"
    and gone: "map_of (dir (files st')) (datafile_name (kd_fileid e)) = None" and calm': "faults (files st') = []"
  shows "\<exists>path. system_path D B (system_start st) path \<and> fitting (system_start st) path \<and>
    gets (end_state (system_start st) path) = [(k, Finished (Inl (Err (BcIo NotFound))))] \<and>
    (\<forall>ev \<in> fst ` set path. event_effect ev = (\<lambda>m. m))"
proof -
  let ?st = "st\<lparr>pool := rest\<rparr>"
  have look: "system_step D B (GetStep 0) (ready_system [(k, Looking l)] ?st) (ready_system [(k, Opening l e)] ?st)"
    using system_step.get_step[of 0 "ready_system [(k, Looking l)] ?st" k "Looking l" D B "Opening l e" ?st] e miss by simp
  obtain evs where m: "runs D B (ready_system [(k, Opening l e)] ?st) (MergeFiles # evs) (ready_system [(k, Opening l e)] st')"
    and evs: "list_all merge_event evs" "MergeFiles \<notin> set evs" using merge_runs[OF merge can] .
  let ?err = "Inl (Err (BcIo NotFound))"
  have r1: "runs D B (system_start st) [GetCalled k, GetStep 0, GetStep 0, GetStep 0] (ready_system [(k, Opening l e)] ?st)"
    using runs_append[OF get_begins[OF o p] runs_step[OF look runs_none]] by simp
  obtain p1 where p1: "system_path D B (system_start st) p1" "map fst p1 = [GetCalled k, GetStep 0, GetStep 0, GetStep 0]"
    "end_state (system_start st) p1 = ready_system [(k, Opening l e)] ?st" by (rule runsE[OF r1])
  obtain p2 where p2: "system_path D B (ready_system [(k, Opening l e)] ?st) p2" "map fst p2 = MergeFiles # evs"
    "end_state (ready_system [(k, Opening l e)] ?st) p2 = ready_system [(k, Opening l e)] st'" by (rule runsE[OF m])
  obtain p3 where p3: "system_path D B (ready_system [(k, Opening l e)] st') p3" "map fst p3 = [GetStep 0, GetStep 0]"
    "end_state (ready_system [(k, Opening l e)] st') p3 = ready_system [(k, Finished ?err)] (st'\<lparr>pool := pool st' @ [l]\<rparr>)"
    by (rule runsE[OF late_open[OF gone calm']])
  let ?path = "(p1 @ p2) @ p3"
  have mid: "end_state (system_start st) (p1 @ p2) = ready_system [(k, Opening l e)] st'"
    using p1(3) p2(3) by (simp add: end_state_append)
  have path: "system_path D B (system_start st) ?path"
    using p1 p2(1) p3(1) mid by (simp add: system_path_append del: append_assoc)
  have "fitting (ready_system [(k, Opening l e)] ?st) p2"
  proof -
    from p2(2) obtain s q where q: "p2 = (MergeFiles, s) # q" "map fst q = evs" by auto
    with fit evs(2) show ?thesis by (simp add: fitting_no_merge del: set_map)
  qed
  then have fits: "fitting (system_start st) ?path"
    using p1 p3 mid by (simp add: fitting_append fitting_no_merge del: append_assoc set_map)
  have "event_effect ev = (\<lambda>m. m)" if "ev \<in> fst ` set ?path" for ev
  proof -
    from that have "ev \<in> set (map fst p1) \<union> set (map fst p2) \<union> set (map fst p3)" by auto
    with evs(1) show ?thesis unfolding p1(2) p2(2) p3(2)
      by (auto simp: merge_event_def list_all_iff fun_eq_iff)
  qed
  moreover have "gets (end_state (system_start st) ?path) = [(k, Finished ?err)]"
    using mid p3(3) by (simp add: end_state_append del: append_assoc)
  ultimately show ?thesis using path fits by (intro exI[of _ ?path] conjI ballI)
qed

text \<open>C32: a get can lose a race with a merge. For any storage, any key that it has and any merge that
  succeeds without a failing system call and removes the file the key was in: a get that looked
  the key up before the merge and goes on behind it returns an I/O error, because the file that
  the keydir named is gone when it is opened, though the key has its value throughout, before,
  during and after the merge. \<open>Reader::get\<close> does not look the key up again.\<close>

theorem get_loses_race_with_merge:
  assumes D: "deps_laws D" and inv: "storage_inv D st" and c: "calm st" and o: "\<not> closed st" and p: "pool st = l # rest"
    and e: "map_of (keydir st) k = Some e" and miss: "lru_get D (kd_fileid e) l = None"
    and fit: "tally kd_len (keydir st) < 2 ^ 63" and can: "can_merge B (st\<lparr>pool := rest\<rparr>) = Inr True"
    and merge: "merge D B (st\<lparr>pool := rest\<rparr>) = (Inr u, st')"
    and gone: "map_of (dir (files st')) (datafile_name (kd_fileid e)) = None" and calm': "faults (files st') = []"
  shows "\<exists>path. system_path D B (system_start st) path \<and>
    gets (end_state (system_start st) path) = [(k, Finished (Inl (Err (BcIo NotFound))))] \<and>
    abs_store D st k \<noteq> None \<and> (\<forall>(ev, s) \<in> set path. abs_store D (shared s) k = abs_store D st k)"
proof -
  from race_is_path[OF o p e miss fit can merge gone calm'] obtain path where
    path: "system_path D B (system_start st) path" "fitting (system_start st) path"
      "gets (end_state (system_start st) path) = [(k, Finished (Inl (Err (BcIo NotFound))))]"
    and silent: "\<And>ev. ev \<in> fst ` set path \<Longrightarrow> event_effect ev = (\<lambda>m. m)" by blast
  have "\<forall>(ev, s) \<in> set path. abs_store D (shared s) k = abs_store D st k"
  proof clarify
    fix ev s assume "(ev, s) \<in> set path"
    from silent_path[OF D inv c path(1,2) silent this] show "abs_store D (shared s) k = abs_store D st k" by simp
  qed
  with path(1,3) keydir_has_value[OF D inv e] show ?thesis by blast
qed

definition busy_merged :: "lru storage" where
  "busy_merged = snd (merge codec dev_build demo_busy)"

theorem get_loses_race_with_merge_witness:
  "\<exists>path. system_path codec dev_build (system_start demo3) path \<and>
    gets (end_state (system_start demo3) path) = [([2], Finished (Inl (Err (BcIo NotFound))))] \<and>
    list_all (\<lambda>(ev, s). abs_store codec (shared s) [2] = Some [7, 7, 7]) path"
proof -
  let ?e = "the (map_of (keydir demo3) [2])"
  have d: "map_of (keydir demo3) [2] = Some ?e" "lru_get codec (kd_fileid ?e) (hd (pool demo3)) = None"
    "can_merge dev_build demo_busy = Inr True" "map_of (dir (files busy_merged)) (datafile_name (kd_fileid ?e)) = None"
    "faults (files busy_merged) = []" "tally kd_len (keydir demo3) = 56"
    by code_simp+
  have "fst (merge codec dev_build demo_busy) = Inr ()" by code_simp
  then have m: "merge codec dev_build demo_busy = (Inr (), busy_merged)" by (simp add: busy_merged_def prod_eq_iff)
  have t: "tally kd_len (keydir demo3) < 2 ^ 63" using d(6) by simp
  from get_loses_race_with_merge[OF codec_laws demo_inv(2) demo3_calm demo_open_flags(2) demo_reader d(1,2) t
      d(3)[unfolded demo_busy_def] m[unfolded demo_busy_def] d(4,5)]
  show ?thesis by (simp add: demo3_durable(2) list_all_iff)
qed

text \<open>C33: a get that reads another key of the active file while a put is between the two writes of its
  entry makes every later get of the new key through the same reader panic: the reader's mapping
  ends inside the entry, and it is not extended because the entry begins before its end. The
  value is in the store all the same.\<close>

theorem torn_append_panics:
  assumes D: "deps_laws D" and inv: "storage_inv D st" and nf: "faults (files st) = []" and b: "bw_buf (w_log st) = []"
    and o: "\<not> closed st" and p: "pool st = [l]" and k0: "map_of (keydir st) k0 = Some e0" "kd_fileid e0 = active_fileid st"
    and miss: "lru_get D (active_fileid st) l = None"
    and n: "0 < n" "n < length (enc_data D x)" and x: "in_i64 (d_tstamp x)" "d_value x = Some v"
    and fit: "length (idata (files st) (bw_file (w_log st))) + length (enc_data D x) < 2 ^ 63"
    and steps: "torn_begin D B n x st = (Inr u, s1)" "handle_get D B k0 s1 = Some (r, s2)"
      "torn_end D B n x s2 = (Inr e, s3)" "put_index B (d_key x) e s3 = (Inr u', s4)"
  shows "r = Inr (abs_store D st k0) \<and> abs_store D s4 (d_key x) = Some v \<and>
    (\<exists>s5. handle_get D B (d_key x) s4 = Some (Inl Panic, s5))"
proof -
  let ?i = "bw_file (w_log st)" and ?f = "active_fileid st"
  let ?len = "length (idata (files st) ?i)"
  have ready: "ready st" using storage_inv_ready[OF inv] .
  have i: "map_of (dir (files st)) (datafile_name ?f) = Some ?i" using ready by (simp add: ready_def writer_ok_def)
  have s1: "s1 = st\<lparr>w_log := (w_log st)\<lparr>bw_pos := ?len + n\<rparr>, files := append_bytes ?i (take n (enc_data D x)) (files st)\<rparr>"
    using torn_begin_Inr[OF ready nf b n fit steps(1)] .
  have g: "grown (files st) ?i (take n (enc_data D x)) (files s1)" using s1 by (simp add: grown_def append_bytes_def)
  have w: "writer_step st s1"
    using ready grown_grows[OF g] grown_fs_ok[OF g] b fit n s1
    by (auto simp: writer_step_def same_rest_def ready_def writer_ok_def pos_ok_def append_bytes_def old_names_def)
  note i1 = inv_step[OF D inv w]
  let ?l = "lru_put D ?f \<lparr>rd_file = ?i, mmap_len = ?len + n\<rparr> l"
  have "handle_get D B k0 s1 = Some (Inr (abs_store D s1 k0), s1\<lparr>pool := [?l]\<rparr>)"
    using miss_get[OF D i1(1), of l k0 e0 ?i B] nf o p k0 miss i n s1 by (simp add: append_bytes_def)
  with steps(2) i1(2) have s2: "r = Inr (abs_store D st k0)" "s2 = s1\<lparr>pool := [?l]\<rparr>" by auto
  note h = torn_halves[OF D ready nf b n x(1) fit steps(1) steps(3)[unfolded s2(2)]]
  have q: "quiet (s3\<lparr>keydir := AList.update (d_key x) e (keydir s3)\<rparr>) s4"
    using steps(4) with_stats_quiet by (auto simp: put_index_def keydir_set_def split: option.splits)
  have s4: "pool s4 = [?l]" "map_of (keydir s4) (d_key x) = Some e" "\<not> closed s4" "idata (files s4) = idata (files s3)"
    "dir (files s4) = dir (files s3)"
    using q h(4,5) o by (simp_all add: quiet_def same_rest_def same_files_def update_conv')
  have "located D (files s4) e x" using h(2) s4(4,5) by (simp add: located_def)
  from stored_located[OF D this] s4(2) x(2) have "abs_store D s4 (d_key x) = Some v" by (simp add: abs_store_def)
  moreover have "\<exists>s5. handle_get D B (d_key x) s4 = Some (Inl Panic, s5)"
    using cached_get_panics[OF s4(3,1,2), of D "\<lparr>rd_file = ?i, mmap_len = ?len + n\<rparr>" B] h(1) deps_laws.lru_get_put[OF D] n fit by simp
  ultimately show ?thesis using s2(1) by simp
qed

text \<open>The put of \<open>demo2\<close>, cut after ten bytes, with a get of the other key in between.\<close>

definition torn_entry :: data_entry where
  "torn_entry = \<lparr>d_tstamp = 6, d_key = [2], d_value = Some [7, 7, 7]\<rparr>"

definition torn1 :: "lru storage" where "torn1 = snd (torn_begin codec dev_build 10 torn_entry demo1)"
definition torn2 :: "lru storage" where "torn2 = snd (the (handle_get codec dev_build [1] torn1))"
definition torn3 :: "lru storage" where "torn3 = snd (torn_end codec dev_build 10 torn_entry torn2)"
definition torn_kd :: keydir_entry where "torn_kd = projr (fst (torn_end codec dev_build 10 torn_entry torn2))"
definition torn4 :: "lru storage" where "torn4 = snd (put_index dev_build [2] torn_kd torn3)"

lemma torn_steps:
  "torn_begin codec dev_build 10 torn_entry demo1 = (Inr (), torn1)"
  "handle_get codec dev_build [1] torn1 = Some (Inr (Some [2]), torn2)"
  "torn_end codec dev_build 10 torn_entry torn2 = (Inr torn_kd, torn3)"
  "put_index dev_build [2] torn_kd torn3 = (Inr (), torn4)"
proof -
  have "fst (torn_begin codec dev_build 10 torn_entry demo1) = Inr ()" by code_simp
  then show "torn_begin codec dev_build 10 torn_entry demo1 = (Inr (), torn1)" by (simp add: torn1_def prod_eq_iff)
  have "map_option fst (handle_get codec dev_build [1] torn1) = Some (Inr (Some [2]))" by code_simp
  then show "handle_get codec dev_build [1] torn1 = Some (Inr (Some [2]), torn2)" by (auto simp: torn2_def)
  have "isl (fst (torn_end codec dev_build 10 torn_entry torn2)) = False" by code_simp
  then have "fst (torn_end codec dev_build 10 torn_entry torn2) = Inr torn_kd"
    unfolding torn_kd_def by (cases "fst (torn_end codec dev_build 10 torn_entry torn2)") simp_all
  then show "torn_end codec dev_build 10 torn_entry torn2 = (Inr torn_kd, torn3)" by (simp add: torn3_def prod_eq_iff)
  have "fst (put_index dev_build [2] torn_kd torn3) = Inr ()" by code_simp
  then show "put_index dev_build [2] torn_kd torn3 = (Inr (), torn4)" by (simp add: torn4_def prod_eq_iff)
qed

theorem torn_append_panics_witness:
  "abs_store codec torn4 [2] = Some [7, 7, 7] \<and> (\<exists>s5. handle_get codec dev_build [2] torn4 = Some (Inl Panic, s5))"
proof -
  have "handle_put codec dev_build [1] [2] demo0 = (Inr (), demo1)" using demo_puts(1) by (simp add: demo1_def demo_put_def prod_eq_iff)
  then have "put codec dev_build [1] [2] demo0 = (Inr (), demo1)" using demo_open_flags(1) by (simp add: handle_put_def guarded_def)
  from put_ok[OF codec_laws demo_inv(1) this] have inv: "storage_inv codec demo1" by simp
  have d: "faults (files demo1) = []" "bw_buf (w_log demo1) = []" "\<not> closed demo1" "pool demo1 = [hd (pool demo1)]"
    "map_of (keydir demo1) [1] = Some \<lparr>kd_fileid = 0, kd_len = 27, kd_pos = 0, kd_tstamp = 5\<rparr>" "active_fileid demo1 = 0"
    "lru_get codec (active_fileid demo1) (hd (pool demo1)) = None" "length (enc_data codec torn_entry) = 29"
    "length (idata (files demo1) (bw_file (w_log demo1))) = 27"
    by code_simp+
  have t: "in_i64 (d_tstamp torn_entry)" "d_value torn_entry = Some [7, 7, 7]" "d_key torn_entry = [2]"
    by (simp_all add: torn_entry_def in_i64_def)
  from torn_append_panics[OF codec_laws inv d(1-5) _ d(7) _ _ t(1,2) _ torn_steps(1-3) torn_steps(4)[folded t(3)]] d t
  show ?thesis by simp
qed

end
