(* ===== verification/NetProperties.thy ===== *)
theory NetProperties
  imports MemStream
begin

section \<open>Properties of the network layer\<close>

text \<open>
  The properties of src/net/, each with a concrete instance. They rest on the lemmas of the
  component theories and on the facts of the locales \<open>buffered_stream\<close>, \<open>duplex_stream\<close>,
  \<open>kv_store\<close> and \<open>serving\<close>.
\<close>

subsection \<open>Frames\<close>

text \<open>C16: parsing inverts the wire encoding: at any place of a buffer, with anything behind it,
  \<open>Frame::parse\<close> returns exactly the frame that was encoded there and stops at its end, for every
  frame with the contents and sizes its Rust type allows, nested arrays included.\<close>

theorem parse_inverts_encode:
  assumes "frame_ok f" and "frame_fits B f"
  shows "parse B (pre @ encode f @ rest) (length pre) = Inr (f, length pre + length (encode f))"
  by (rule parse_encode[OF assms])

theorem parse_inverts_encode_witness:
  "parse dev_build ([1, 2] @ encode (Array [Integer (- 7), Array [BulkString [13, 10], Null]]) @ [43]) 2
   = Inr (Array [Integer (- 7), Array [BulkString [13, 10], Null]], 28)"
proof -
  let ?f = "Array [Integer (- 7), Array [BulkString [13, 10], Null]]"
  have "frame_ok ?f" "frame_fits dev_build ?f" "length (encode ?f) = 26" by code_simp+
  with parse_inverts_encode[of ?f dev_build "[1, 2]" "[43]"] show ?thesis
    by (simp add: numeral_2_eq_2 del: encode.simps frame_ok.simps frame_fits.simps)
qed

text \<open>C22: the value and the end of an integer line, on every branch of \<open>get_integer\<close>: exact when it
  is an \<open>i64\<close>; otherwise \<open>NotInteger\<close> when the digits start in the first 19 bytes of the buffer,
  and otherwise a panic or the wrapped value, because the unchecked loop is bounded by an absolute
  index and not by the number of digits read.\<close>

theorem get_integer_spec:
  assumes "b = pre @ sign @ ds @ CR # x # post"
    and "sign = [] \<or> sign = [43] \<or> sign = [45]" and "ds \<noteq> []" and "list_all is_digit ds"
  shows "get_integer B b (length pre) =
    (let v = line_value sign ds; start = length pre + length sign; q = start + length ds + 2 in
     if in_i64 v then Inr (v, q)
     else if start \<le> 18 then Inl (Err (NotInteger (sign @ ds)))
     else if overflow_checks B then Inl Panic
     else Inr (wrap_i64 v, q))"
  using get_integer_line[OF assms(1,2,3,4) refl, of B] by (simp add: Let_def)

theorem get_integer_spec_witness:
  "get_integer release_build (replicate 19 58 @ ascii ''9223372036854775808'' @ crlf) 19
   = Inr (- 9223372036854775808, 40)"
proof -
  have "list_all is_digit (ascii ''9223372036854775808'')" "ascii ''9223372036854775808'' \<noteq> []"
    "in_i64 9223372036854775808 = False" "wrap_i64 9223372036854775808 = - 9223372036854775808"
    "overflow_checks release_build = False" by code_simp+
  moreover have "line_value [] (ascii ''9223372036854775808'') = 9223372036854775808"
    by (simp add: line_value_def digits_val_def digit_val_def ascii_def)
  ultimately show ?thesis
    using get_integer_spec[of "replicate 19 58 @ [] @ ascii ''9223372036854775808'' @ CR # LF # []"
      "replicate 19 58" "[]" "ascii ''9223372036854775808''" LF "[]" release_build]
    by (simp add: Let_def)
qed

text \<open>Every frame that \<open>parse\<close> accepts, \<open>check\<close> accepts with the same end.\<close>

lemma check_agrees_with_parse:
  assumes "parse B b p = Inr (f, q)"
  shows "check B b p = Inr q \<and> p < q \<and> q \<le> length b"
  using parse_check(1)[OF assms] check_bounds(1) by blast

lemma check_agrees_with_parse_witness:
  "check dev_build (ascii ''*1'' @ crlf @ ascii '':5'' @ crlf) 0 = Inr 8"
proof -
  have "parse dev_build (ascii ''*1'' @ crlf @ ascii '':5'' @ crlf) 0 = Inr (Array [Integer 5], 8)"
    by code_simp
  from check_agrees_with_parse[OF this] show ?thesis by simp
qed

text \<open>C25: an answer of \<open>check\<close> or of \<open>parse\<close> other than \<open>Incomplete\<close> and a panic is final: more
  bytes behind the buffer do not change it.\<close>

theorem answers_are_final:
  "(settled (check B b p) \<longrightarrow> check B (b @ c) p = check B b p) \<and>
   (settled (parse B b p) \<longrightarrow> parse B (b @ c) p = parse B b p)"
  using check_settled(1) parse_settled(1) by blast

theorem answers_are_final_witness:
  "parse dev_build (ascii ''$-2'' @ crlf @ ascii ''+OK'') 0 = Inl (Err BadEncoding)"
proof -
  have "settled (parse dev_build (ascii ''$-2'' @ crlf) 0)"
    "parse dev_build (ascii ''$-2'' @ crlf) 0 = Inl (Err BadEncoding)" by code_simp+
  with answers_are_final[of dev_build "ascii ''$-2'' @ crlf" 0 "ascii ''+OK''"]
  show ?thesis by (metis append.assoc)
qed

text \<open>C38: without overflow checks \<open>check\<close> does not panic on any bytes whose last one is no sign.\<close>

theorem check_never_panics:
  assumes "\<not> overflow_checks B" and "last b \<noteq> 43" and "last b \<noteq> 45"
  shows "check B b p \<noteq> Inl Panic"
  by (rule check_no_panic(1)[OF assms])

theorem check_never_panics_witness:
  "check release_build (ascii ''*2'' @ crlf @ [36, 45, 250, 0]) 0 \<noteq> Inl Panic"
proof -
  let ?b = "ascii ''*2'' @ crlf @ [36, 45, 250, 0]"
  have "\<not> overflow_checks release_build" "last ?b \<noteq> 43" "last ?b \<noteq> 45" by code_simp+
  then show ?thesis by (rule check_never_panics)
qed

text \<open>A sign that is the last byte received makes \<open>check\<close> panic in every build: the integer
  loops start behind their end and index outside the buffer.\<close>

lemma dangling_sign_panics:
  assumes "c = 43 \<or> c = 45" and "k = 58 \<or> k = 42"
  shows "check B (pre @ [k, c]) (length pre) = Inl Panic"
  by (rule check_dangling_sign[OF assms])

lemma dangling_sign_panics_witness: "check release_build ([] @ [58, 45]) 0 = Inl Panic"
  using dangling_sign_panics[of 45 58 release_build "[]"] by simp

text \<open>C39: what \<open>parse\<close> returns has the contents the types promise: UTF-8 and no line break in
  simple strings and errors, integers in the range of \<open>i64\<close>, at every depth.\<close>

theorem parse_returns_ok_frames:
  assumes "parse B b p = Inr (f, q)"
  shows "frame_ok f"
  by (rule parse_ok(1)[OF assms])

theorem parse_returns_ok_frames_witness: "frame_ok (Array [SimpleString (ascii ''OK'')])"
proof (rule parse_returns_ok_frames)
  show "parse dev_build (ascii ''*1'' @ crlf @ ascii ''+OK'' @ crlf) 0
      = Inr (Array [SimpleString (ascii ''OK'')], 9)" by code_simp
qed

subsection \<open>Connections\<close>

text \<open>C17: a frame that arrives in pieces, with anything behind it, is read once enough pieces are
  in: \<open>read_frame\<close> returns it and keeps exactly the bytes behind it. This is for builds without overflow
  checks, and for pieces of which none but the last ends in \<open>+\<close> or \<open>-\<close>: behind such a byte the
  reader panics (\<open>dangling_sign_panics\<close>).\<close>

theorem read_frame_any_split:
  assumes "frame_ok f" and "frame_fits B f" and "\<not> overflow_checks B"
    and "delivers W s cs s'" and "safe_splits b cs" and "b @ concat cs = encode f @ rest"
  shows "\<exists>k s1 b1. k \<le> length cs \<and> delivers W s (take k cs) s1 \<and> b1 @ concat (drop k cs) = rest \<and>
           read_frame W B \<lparr>stream = s, buffer = b\<rparr> = Some (Inr (Some f), \<lparr>stream = s1, buffer = b1\<rparr>)"
  by (rule read_frame_pieces[OF assms])

theorem read_frame_any_split_witness:
  "\<exists>k s1 b1. k \<le> (3::nat) \<and> read_frame mem_ops release_build
       \<lparr>stream = mem_stream [ascii ''12'', [13], [10, 43]], buffer = ascii '':''\<rparr>
     = Some (Inr (Some (Integer 12)), \<lparr>stream = s1, buffer = b1\<rparr>)"
proof -
  let ?cs = "[ascii ''12'', [13], [10, 43]]"
  have h: "frame_ok (Integer 12)" "frame_fits release_build (Integer 12)"
    "\<not> overflow_checks release_build" "delivers mem_ops (mem_stream ?cs) ?cs (mem_stream [])"
    "safe_splits (ascii '':'') ?cs" "ascii '':'' @ concat ?cs = encode (Integer 12) @ [43]"
    by code_simp+
  from read_frame_any_split[OF h] show ?thesis by auto
qed

text \<open>C31: when the peer closes the stream inside a frame, \<open>read_frame\<close> reports
  \<open>ConnectionReset\<close> if it holds part of the frame, and \<open>None\<close> if it holds nothing. The build has no
  overflow checks, and no piece of the frame ends in \<open>+\<close> or \<open>-\<close>.\<close>

theorem read_frame_peer_closed:
  assumes "frame_ok f" and "frame_fits B f" and "\<not> overflow_checks B"
    and "delivers W s cs s'" and "safe_splits b cs" and "safe_end (b @ concat cs)"
    and "(b @ concat cs) @ rest = encode f" and "rest \<noteq> []" and "read_buf W s' = (Inr [], t)"
  shows "read_frame W B \<lparr>stream = s, buffer = b\<rparr> =
     Some (if b @ concat cs = [] then Inr None else Inl (Err (Io ConnectionReset)),
           \<lparr>stream = t, buffer = b @ concat cs\<rparr>)"
  by (rule read_frame_closed[OF assms])

theorem read_frame_peer_closed_witness:
  "\<exists>c. read_frame mem_ops release_build \<lparr>stream = mem_stream [ascii ''$5'', [13, 10, 1]], buffer = []\<rparr>
     = Some (Inl (Err (Io ConnectionReset)), c)"
proof -
  let ?cs = "[ascii ''$5'', [13, 10, 1]]" and ?f = "BulkString [1, 2, 3, 4, 5]"
  have h: "frame_ok ?f" "frame_fits release_build ?f" "\<not> overflow_checks release_build"
    "delivers mem_ops (mem_stream ?cs) ?cs (mem_stream [])" "safe_splits [] ?cs" "safe_end ([] @ concat ?cs)"
    "([] @ concat ?cs) @ [2, 3, 4, 5, 13, 10] = encode ?f" "[2, 3, 4, 5, 13, 10] \<noteq> ([] :: bytes)"
    "read_buf mem_ops (mem_stream []) = (Inr [], mem_stream [])" by code_simp+
  from read_frame_peer_closed[OF h] show ?thesis by simp
qed

text \<open>On any stream that keeps what it accepts in order, a frame written with success is on
  the wire, complete and in the wire encoding, behind everything written before.\<close>

lemma write_frame_sends_encoding:
  assumes "buffered_stream W queued wire" and "frame_ok f" and "frame_fits B f"
    and "write_frame W f c = (Inr u, c')"
  shows "wire (stream c') = queued (stream c) @ encode f \<and> buffer c' = buffer c"
  using buffered_stream.write_frame_wire[OF assms(1,4,2,3)] write_frame_buffer[of W f c] assms(4)
  by simp

lemma write_frame_sends_encoding_witness:
  "outbox (stream (snd (write_frame mem_ops (Array [Null, Integer 3]) (connection_new (mem_stream [])))))
   = ascii ''*2'' @ crlf @ ascii ''$-1'' @ crlf @ ascii '':3'' @ crlf"
proof -
  let ?f = "Array [Null, Integer 3]" and ?c = "connection_new (mem_stream [])"
  have "frame_ok ?f" "frame_fits release_build ?f" "fst (write_frame mem_ops ?f ?c) = Inr ()"
    "mem_queued (stream ?c) = []"
    "encode ?f = ascii ''*2'' @ crlf @ ascii ''$-1'' @ crlf @ ascii '':3'' @ crlf" by code_simp+
  with write_frame_sends_encoding[OF mem.buffered_stream_axioms, of ?f release_build ?c "()"
      "snd (write_frame mem_ops ?f ?c)"]
  show ?thesis by (metis append_Nil prod.collapse)
qed

text \<open>\<open>write_frame\<close> panics exactly on an array that holds an array, on a stream whose
  operations do not: an array item is written as a single value, which arrays are not.\<close>

lemma write_frame_panics_iff_nested:
  assumes "\<And>s d. \<exists>s'. write_all W s d = (Inr (), s')" and "\<And>s. \<exists>s'. flush W s = (Inr (), s')"
    and "frame_ok f"
  shows "fst (write_frame W f c) = (if flat f then Inr () else Inl Panic)"
  by (rule write_frame_reliable[OF assms])

lemma write_frame_panics_iff_nested_witness:
  "fst (write_frame \<lparr>write_all = (\<lambda>s d. (Inr (), s @ d)), flush = (\<lambda>s. (Inr (), s)),
        read_buf = (\<lambda>s. (Inr [], s))\<rparr> (Array [Array []]) (connection_new [])) = Inl Panic"
  by (subst write_frame_panics_iff_nested) simp_all

text \<open>The 20 bytes of \<open>write_decimal\<close> hold every \<open>i64\<close>: it writes the whole decimal text.\<close>

lemma write_decimal_never_short:
  assumes "in_i64 i"
  shows "length (dec_int i) \<le> decimal_buffer \<and> write_decimal W i s = write_all W s (dec_int i)"
  using length_dec_int_i64[OF assms] write_decimal_fits[OF assms] by (simp add: decimal_buffer_def)

lemma write_decimal_never_short_witness:
  "snd (write_decimal mem_ops (- 42) (mem_stream []))
   = (mem_stream [])\<lparr>pending := ascii ''-42''\<rparr>"
proof -
  have "in_i64 (- 42)"
    "snd (write_all mem_ops (mem_stream []) (dec_int (- 42)))
     = (mem_stream [])\<lparr>pending := ascii ''-42''\<rparr>" by code_simp+
  with write_decimal_never_short[of "- 42" mem_ops "mem_stream []"] show ?thesis by simp
qed

subsection \<open>Commands\<close>

text \<open>C27: the command parser inverts the conversion of commands to frames and accepts nothing
  else: a frame parses to a command exactly when it is the frame of that command, its keys are
  UTF-8 and a DEL has a key.\<close>

theorem command_parse_iff:
  "(command_try_from f = Inr c) = (f = frame_from c \<and> command_ok c)"
  by (rule command_try_from_iff)

text \<open>Parsing a command never panics, whatever the frame.\<close>

lemma command_parse_total: "command_try_from f \<noteq> Inl Panic"
  by (rule command_try_from_no_panic)

text \<open>Over an engine that keeps the promises of \<open>KeyValueStorage\<close>, what a command does to
  the engine and replies is its effect and its reply on the abstract store; DEL counts each key
  once.\<close>

lemma run_blocking_refines_store:
  assumes "kv_store KV I \<alpha>" and "I st" and "run_blocking B KV c st = Some (Inr f, st')"
    and "\<And>keys. c = Del keys \<Longrightarrow> length keys < 2 ^ 63"
  shows "I st' \<and> \<alpha> st' = effect c (\<alpha> st) \<and> f = reply c (\<alpha> st)"
  by (rule kv_store.run_blocking_ok[OF assms])

lemma run_blocking_refines_store_witness:
  "map_option fst (run_blocking dev_build map_kv (Del [[1], [1], [2]]) [[1] \<mapsto> [5]]) = Some (Inr (Integer 1))"
proof -
  let ?c = "Del [[1], [1], [2]]" and ?m = "[[1 :: byte] \<mapsto> [5 :: byte]]"
  obtain f st' where r: "run_blocking dev_build map_kv ?c ?m = Some (Inr f, st')"
    by (simp add: map_kv_def in_i64_def)
  have "f = reply ?c ?m"
    using run_blocking_refines_store[OF mem_serving.kv_store_axioms TrueI r] by simp
  with r show ?thesis by simp
qed

subsection \<open>Serving a connection\<close>

text \<open>A handler that receives the encodings of a sequence of commands, in whatever pieces
  that do not end in a sign, and then the end of the stream: if it returns, and unless the engine or
  the stream failed, the engine has then undergone the effects of the commands in order and the wire
  carries exactly their replies in order. No frame error, no command error and no panic occurs.\<close>

lemma handler_serves_commands:
  assumes "serving KV I \<alpha> W queued wire incoming"
    and "\<not> overflow_checks B" and "list_all (command_fits B) cs"
    and "\<not> shutdown h" and "I (storage h)" and "store_fits (\<alpha> (storage h))"
    and "received incoming h = requests cs"
    and "safe_splits (buffer (conn h)) (incoming (stream (conn h)))"
    and "wire (stream (conn h)) = queued (stream (conn h))" and "handler_run B W KV None h = Some (r, h')"
  shows "failed r \<or> r = Inr () \<and> I (storage h') \<and> \<alpha> (storage h') = fold effect cs (\<alpha> (storage h)) \<and>
       wire (stream (conn h')) = wire (stream (conn h)) @ concat (map encode (replies cs (\<alpha> (storage h))))"
  by (rule serving.handler_serves[OF assms])

text \<open>C13: a shutdown signal does not cut a command in two. Over an engine that does not fail and has room
  for the commands, and in a build without overflow checks, a handler that receives the encodings
  of a sequence of commands, in any pieces of which none but the last ends in a sign, and that the
  signal reaches after \<open>n\<close> rounds, returns. Unless the stream failed, it has applied exactly the
  first \<open>n\<close> of the commands and put exactly their replies on the wire.\<close>

theorem handler_stops_between_commands:
  assumes "reliable_serving KV I \<alpha> able space W queued wire incoming"
    and "\<not> overflow_checks B" and "list_all (command_fits B) cs" and "list_all (command_room space) cs"
    and "\<not> shutdown h" and "able (sum_list (map command_ops cs)) (storage h)" and "store_fits (\<alpha> (storage h))"
    and "received incoming h = requests cs"
    and "safe_splits (buffer (conn h)) (incoming (stream (conn h)))"
    and "wire (stream (conn h)) = queued (stream (conn h))"
  shows "\<exists>r h'. handler_run B W KV (Some n) h = Some (r, h') \<and>
    ((\<exists>x. r = Inl (Err (Io x))) \<or>
     r = Inr () \<and> I (storage h') \<and> \<alpha> (storage h') = fold effect (take n cs) (\<alpha> (storage h)) \<and>
       wire (stream (conn h')) =
         wire (stream (conn h)) @ concat (map encode (replies (take n cs) (\<alpha> (storage h)))))"
  using reliable_serving.handler_serves_exactly[OF assms, of "Some n"] by (simp add: served_def)

theorem handler_stops_between_commands_witness:
  "\<exists>r h'. handler_run release_build mem_ops map_kv (Some 1)
      \<lparr>storage = Map.empty, conn = connection_new (mem_stream [requests [Set [1] [7], Del [[1]]]]), shutdown = False\<rparr>
        = Some (r, h') \<and> ((\<exists>x. r = Inl (Err (Io x))) \<or> storage h' = [[1] \<mapsto> [7]])"
proof -
  let ?cs = "[Set [1] [7], Del [[1]]]" and ?s = "mem_stream [requests [Set [1] [7], Del [[1]]]]"
  let ?h = "\<lparr>storage = Map.empty, conn = connection_new ?s, shutdown = False\<rparr>"
  have c: "\<not> overflow_checks release_build" "list_all (command_fits release_build) ?cs" by code_simp+
  have m: "list_all (command_room (\<lambda>k v. True)) ?cs" by simp
  have r: "received mem_incoming ?h = requests ?cs"
    "safe_splits (buffer (conn ?h)) (mem_incoming (stream (conn ?h)))" by code_simp+
  have e: "\<not> shutdown ?h" "store_fits (storage ?h)" "outbox (stream (conn ?h)) = mem_queued (stream (conn ?h))"
    by (simp_all add: store_fits_def connection_new_def mem_stream_def mem_queued_def)
  from handler_stops_between_commands[OF mem_serving.reliable_serving_axioms c m e(1) TrueI _ r e(3), of 1] e(2)
  show ?thesis by auto
qed

text \<open>C37: a client request whose answer arrives returns the value that the answer carries: for
  the reply of the abstract store, GET returns the stored value or \<open>None\<close>, SET succeeds and DEL
  returns the number of keys removed; the bytes behind the answer stay for the next request. The
  request was written without an error, the build has no overflow checks, and none but the last
  of the pieces in which the answer arrives ends in \<open>+\<close> or \<open>-\<close>.\<close>

theorem client_returns_reply:
  assumes "duplex_stream W queued wire incoming" and "\<not> overflow_checks B"
    and "command_fits B cmd" and "store_fits m"
    and "write_frame W (frame_from cmd) c = (Inr u, c1)"
    and "safe_splits (buffer c) (incoming (stream c))"
    and "buffer c @ concat (incoming (stream c)) = encode (reply cmd m) @ rest"
  shows "\<exists>c2. buffer c2 @ concat (incoming (stream c2)) = rest \<and>
    (case cmd of
       Get k \<Rightarrow> client_get W B k c = Some (Inr (m k), c2)
     | Set k v \<Rightarrow> client_set W B k v c = Some (Inr (), c2)
     | Del ks \<Rightarrow> client_del W B ks c
         = Some (Inr (int (length (filter (\<lambda>k. m k \<noteq> None) (remdups ks)))), c2))"
proof -
  have f: "frame_ok (reply cmd m)" "frame_fits B (reply cmd m)"
    using reply_ok reply_fits[OF assms(4)] assms(3) by (auto simp: command_fits_def)
  note req = duplex_stream.request_reply[OF assms(1) f assms(2,5,6,7)]
  show ?thesis
  proof (cases cmd)
    case (Del ks)
    with req[of del_answer] show ?thesis by (auto simp: client_del_def)
  next
    case (Get k)
    with req[of get_answer] show ?thesis by (auto simp: client_get_def split: option.splits)
  next
    case (Set k v)
    with req[of set_answer] show ?thesis by (auto simp: client_set_def set_answer_def)
  qed
qed

theorem client_returns_reply_witness:
  "\<exists>c2. client_get mem_ops release_build [1] (connection_new (mem_stream [ascii ''$2'', [13, 10, 8, 9, 13, 10]]))
     = Some (Inr (Some [8, 9]), c2)"
proof -
  let ?c = "connection_new (mem_stream [ascii ''$2'', [13, 10, 8, 9, 13, 10]])" and ?m = "[[1 :: byte] \<mapsto> [8 :: byte, 9]]"
  let ?w = "write_frame mem_ops (frame_from (Get [1])) ?c"
  have h: "\<not> overflow_checks release_build" "command_fits release_build (Get [1])" by code_simp+
  have "in_i64 (int (length [8 :: byte, 9]))" by code_simp
  then have m: "store_fits ?m" by (simp add: store_fits_def)
  have "fst ?w = Inr ()" by code_simp
  then have w: "?w = (Inr (), snd ?w)" by (metis prod.collapse)
  have s: "safe_splits (buffer ?c) (mem_incoming (stream ?c))"
    "buffer ?c @ concat (mem_incoming (stream ?c)) = encode (reply (Get [1]) ?m) @ []" by code_simp+
  from client_returns_reply[OF mem.duplex_stream_axioms h m w s] show ?thesis by auto
qed

subsection \<open>The server\<close>

text \<open>C28: in every state the server reaches no more handlers run than \<open>max_connections\<close>, and
  while it listens every permit is free, held by a handler or with the connection being
  accepted.\<close>

theorem connections_bounded:
  assumes "server_steps conf (server_new conf) s"
  shows "handlers s \<le> max_connections conf \<and>
    (running s \<longrightarrow> permits s + handlers s + accepting (phase s) = max_connections conf)"
  using server_inv_steps[OF assms server_inv_new] by (auto simp: server_inv_def)

theorem connections_bounded_witness:
  "handlers \<lparr>permits = 0, phase = Acquiring, handlers = 1\<rparr> \<le> 1"
proof -
  let ?conf = "\<lparr>min_backoff_ms = 500, max_backoff_ms = 64000, max_connections = 1\<rparr>"
  have a: "server_step ?conf (server_new ?conf) \<lparr>permits = 0, phase = Accepting 500, handlers = 0\<rparr>"
    using server_step.acquire[of "server_new ?conf" ?conf] by (simp add: server_new_def)
  have b: "server_step ?conf \<lparr>permits = 0, phase = Accepting 500, handlers = 0\<rparr>
      \<lparr>permits = 0, phase = Acquiring, handlers = 1\<rparr>"
    using server_step.spawn[of "\<lparr>permits = 0, phase = Accepting 500, handlers = 0\<rparr>" 500 ?conf] by simp
  from a b have "server_steps ?conf (server_new ?conf) \<lparr>permits = 0, phase = Acquiring, handlers = 1\<rparr>"
    unfolding server_steps_def by (meson converse_rtranclp_into_rtranclp rtranclp.rtrancl_refl)
  from connections_bounded[OF this] show ?thesis by simp
qed

text \<open>Once the server stops listening it starts no new handler, and from every such state
  it can finish: when its handlers are done it exits, with none left.\<close>

lemma server_drains:
  assumes "phase s = Draining"
  shows "(\<forall>s'. server_step conf s s' \<longrightarrow> \<not> running s' \<and> handlers s' \<le> handlers s) \<and>
    (\<exists>s'. server_steps conf s s' \<and> phase s' = Exited \<and> handlers s' = 0)"
  using drained_exits[OF assms] stopped_step assms by (auto simp: running_def)

lemma server_drains_witness:
  "\<exists>s'. server_steps \<lparr>min_backoff_ms = 1, max_backoff_ms = 1, max_connections = 3\<rparr>
     \<lparr>permits = 0, phase = Draining, handlers = 2\<rparr> s' \<and> phase s' = Exited"
  using server_drains[of "\<lparr>permits = 0, phase = Draining, handlers = 2\<rparr>"] by auto



text \<open>With a first backoff of zero, which the configuration allows, \<open>accept\<close> never gives up
  and never pauses: doubling zero stays at zero.\<close>

lemma accept_zero_backoff_spins: "accept m 0 (map Inl errs) = None"
  by (rule accept_zero)

end
