(* ===== verification/SystemProperties.thy ===== *)
theory SystemProperties
  imports Binaries WholeServed ConcurrentProperties NetProperties
begin

section \<open>Properties of the whole program\<close>

text \<open>
  What the client program prints and what the daemon finds when it starts again: the two binaries
  over the network layer and the storage engine.
\<close>

text \<open>A session with the storage \<open>demo3\<close> over a stream in memory.\<close>

abbreviation demo_kv :: "(lru storage, bc_error) kv_ops" where
  "demo_kv \<equiv> bitcask_kv codec release_build (\<lambda>_. [])"

definition session :: "bytes list \<Rightarrow> (mem_stream, lru storage) handler" where
  "session pieces = \<lparr>storage = demo3, conn = connection_new (mem_stream pieces), shutdown = False\<rparr>"

definition session_end :: "bytes list \<Rightarrow> (mem_stream, lru storage) handler" where
  "session_end pieces = snd (the (handler_run release_build mem_ops demo_kv None (session pieces)))"

lemma session_returns:
  assumes "map_option fst (handler_run release_build mem_ops demo_kv None (session pieces)) = Some r"
  shows "handler_run release_build mem_ops demo_kv None (session pieces) = Some (r, session_end pieces)"
  using assms by (auto simp: session_end_def)

lemma session_start:
  "\<not> shutdown (session pieces)" "storage_inv codec (storage (session pieces))" "durable codec (storage (session pieces))"
  "store_fits (abs_store codec (storage (session pieces)))" "abs_store codec (storage (session pieces)) = [[1] \<mapsto> [3], [2] \<mapsto> [7, 7, 7]]"
  "outbox (stream (conn (session pieces))) = []" "mem_queued (stream (conn (session pieces))) = []"
  using demo3_durable(1) demo_inv(2)
  by (simp_all add: session_def demo3_durable(2) store_fits_def in_i64_def connection_new_def mem_stream_def mem_queued_def)

text \<open>C9: the command line client against a handler of the daemon over the storage engine. When the
  handler received exactly the bytes that the client wrote, and the client receives exactly the
  bytes that the handler put on its wire, in any pieces, the client prints the line that the
  store gives: \<open>"OK"\<close>, the value or \<open>(nil)\<close>, the number of keys removed. The engine has undergone
  the effect of the command.\<close>

theorem cli_end_to_end:
  assumes "deps_laws D" and "duplex_stream W queued wire incoming" and "duplex_stream V cqueued cwire cincoming"
    and "\<not> overflow_checks B" and "command_fits B (cli_request cmd)"
    and "storage_inv D (storage h)" and "store_fits (abs_store D (storage h))" and "\<not> shutdown h"
    and "wire (stream (conn h)) = []" and "queued (stream (conn h)) = []"
    and "safe_splits (buffer (conn h)) (incoming (stream (conn h)))"
    and "cqueued (stream c) = []" and "buffer c = []" and "safe_splits [] (cincoming (stream c))"
    and "write_frame V (frame_from (cli_request cmd)) c = (Inr u, c1)"
    and "received incoming h = cwire (stream c1)"
    and "handler_run B W (bitcask_kv D B err) None h = Some (Inr (), h')"
    and "concat (cincoming (stream c)) = wire (stream (conn h'))"
  shows "(\<exists>c2. cli_run V B debug cmd c = Some (Inr (cli_output debug cmd (abs_store D (storage h))), c2)) \<and>
    storage_inv D (storage h') \<and> abs_store D (storage h') = effect (cli_request cmd) (abs_store D (storage h))"
proof -
  let ?r = "cli_request cmd" and ?m = "abs_store D (storage h)"
  have fit: "frame_ok (frame_from ?r)" "frame_fits B (frame_from ?r)"
    using assms(5) frame_from_ok by (auto simp: command_fits_def)
  have "cwire (stream c1) = encode (frame_from ?r)"
    using buffered_stream.write_frame_wire[OF duplex_stream.axioms(1)[OF assms(3)] assms(15) fit] assms(12) by simp
  then have bytes: "received incoming h = requests [?r]" using assms(16) by (simp add: requests_def)
  have one: "list_all (command_fits B) [?r]" using assms(5) by simp
  have same: "wire (stream (conn h)) = queued (stream (conn h))" using assms(9,10) by simp
  from serving.handler_serves[OF serving.intro[OF bitcask_refines[OF assms(1), of B err] assms(2)] assms(4) one assms(8,6,7) bytes assms(11) same assms(17)] assms(9)
  have h': "storage_inv D (storage h')" "abs_store D (storage h') = effect ?r ?m" "wire (stream (conn h')) = encode (reply ?r ?m)"
    by auto
  have "buffer c @ concat (cincoming (stream c)) = encode (reply ?r ?m) @ []" using assms(13,18) h'(3) by simp
  with duplex_stream.cli_run_reply[OF assms(3,4,5,7,15), of "[]" debug] assms(13,14) h'(1,2) show ?thesis by simp
qed

theorem cli_end_to_end_witness:
  "\<exists>c2. cli_run mem_ops release_build (\<lambda>_. []) (CliGet [2])
       (connection_new (mem_stream [[36, 51, 13], [10, 7], [7, 7, 13, 10]])) = Some (Inr [34, 7, 7, 7, 34, 10], c2)"
proof -
  let ?cmd = "CliGet [2]" and ?c = "connection_new (mem_stream [[36, 51, 13], [10, 7], [7, 7, 13, 10]])"
  let ?ps = "[encode (frame_from (cli_request (CliGet [2])))]"
  let ?w = "write_frame mem_ops (frame_from (cli_request ?cmd)) ?c"
  have b: "\<not> overflow_checks release_build" "command_fits release_build (cli_request ?cmd)" by code_simp+
  have h: "safe_splits (buffer (conn (session ?ps))) (mem_incoming (stream (conn (session ?ps))))"
    "mem_queued (stream ?c) = []" "buffer ?c = []" "safe_splits [] (mem_incoming (stream ?c))" by code_simp+
  have "fst ?w = Inr ()" by code_simp
  then have w: "?w = (Inr (), snd ?w)" by (metis prod.collapse)
  have r: "received mem_incoming (session ?ps) = outbox (stream (snd ?w))" by code_simp
  have "map_option fst (handler_run release_build mem_ops demo_kv None (session ?ps)) = Some (Inr ())" by code_simp
  note e = session_returns[OF this]
  have o: "concat (mem_incoming (stream ?c)) = outbox (stream (conn (session_end ?ps)))" by code_simp
  have v: "valid_utf8 [7, 7, 7]" by code_simp
  from cli_end_to_end[OF codec_laws mem.duplex_stream_axioms mem.duplex_stream_axioms b session_start(2,4,1,6,7) h(1-4) w r e o,
    of "\<lambda>_. []"] show ?thesis using v by (simp add: session_start(5))
qed

text \<open>C10: what a daemon has acknowledged is there when it runs again. After a handler over a durable
  engine served a sequence of commands and the storage was dropped, the daemon starts on the
  files it left, whatever the new configuration, with a durable storage that stands for the
  store with the effects of all the commands.\<close>

theorem served_commands_survive_restart:
  assumes "deps_laws D" and "duplex_stream W queued wire incoming"
    and "\<not> overflow_checks B" and "list_all (command_fits B) cs" and "\<not> shutdown h"
    and "durable D (storage h)" and "store_fits (abs_store D (storage h))"
    and "received incoming h = requests cs"
    and "safe_splits (buffer (conn h)) (incoming (stream (conn h)))"
    and "wire (stream (conn h)) = queued (stream (conn h))"
    and "handler_run B W (bitcask_kv D B err) None h = Some (Inr (), h')"
    and "active_fileid (storage h') < 2 ^ 63" and "inext (files (storage h')) < 2 ^ 63"
    and "0 < concurrency (storage_conf c)" and "\<And>t. Some t \<in> set readings \<Longrightarrow> in_i64 t"
  shows "\<exists>d fs. svr_main D B (Inr c) (Inr ()) readings hr (dropped_files (storage h')) = Some (Inr d, fs) \<and>
    durable D (store_of (engine d)) \<and>
    abs_store D (store_of (engine d)) = fold effect cs (abs_store D (storage h))"
proof -
  from serving.handler_serves[OF serving.intro[OF durable_kv[OF assms(1), of B err] assms(2)] assms(3-11)]
  have h': "durable D (storage h')" "abs_store D (storage h') = fold effect cs (abs_store D (storage h))" by auto
  from reopen_dropped[OF assms(1) h'(1) assms(12-15), of readings B hr] obtain st where
    st: "bitcask_open D B (storage_conf c) readings hr (dropped_files (storage h')) = Some (Inr st, files st)"
      "durable D st" "abs_store D st = abs_store D (storage h')" by auto
  have "faults (dropped_files (storage h')) = []" by (simp add: dropped_files_def)
  from svr_main_ready[OF this st(1), of "()"] st h'(2) show ?thesis by (auto simp: background_tasks_def)
qed

theorem served_commands_survive_restart_witness:
  "\<exists>d fs. svr_main codec release_build (Inr \<lparr>net_conf = default_server_config, storage_conf = demo_config\<rparr>) (Inr ()) [Some 8] 1
       (dropped_files (storage (session_end [requests [Set [9] [65], Del [[1]]]]))) = Some (Inr d, fs) \<and>
     abs_store codec (store_of (engine d)) = [[2] \<mapsto> [7, 7, 7], [9] \<mapsto> [65]]"
proof -
  let ?cs = "[Set [9] [65], Del [[1]]]"
  let ?ps = "[requests [Set [9] [65], Del [[1]]]]"
  have b: "\<not> overflow_checks release_build" "list_all (command_fits release_build) ?cs" by code_simp+
  have h: "received mem_incoming (session ?ps) = requests ?cs"
    "safe_splits (buffer (conn (session ?ps))) (mem_incoming (stream (conn (session ?ps))))" by code_simp+
  have "map_option fst (handler_run release_build mem_ops demo_kv None (session ?ps)) = Some (Inr ())" by code_simp
  note e = session_returns[OF this]
  have "active_fileid (storage (session_end ?ps)) = 2" "inext (files (storage (session_end ?ps))) = 3" by code_simp+
  then have l: "active_fileid (storage (session_end ?ps)) < 2 ^ 63" "inext (files (storage (session_end ?ps))) < 2 ^ 63" by simp_all
  have q: "outbox (stream (conn (session ?ps))) = mem_queued (stream (conn (session ?ps)))" by (simp add: session_start)
  have c: "0 < concurrency (storage_conf \<lparr>net_conf = default_server_config, storage_conf = demo_config\<rparr>)" by (simp add: demo_config_ok)
  have t: "in_i64 t" if "Some t \<in> set [Some 8]" for t using that by (simp add: in_i64_def)
  have m: "fold effect ?cs [[1] \<mapsto> [3], [2] \<mapsto> [7, 7, 7]] = [[2] \<mapsto> [7, 7, 7], [9] \<mapsto> [65]]"
    by (simp add: fun_eq_iff restrict_map_def)
  from served_commands_survive_restart[OF codec_laws mem.duplex_stream_axioms b session_start(1,3,4) h q e l c t,
    where hr = 1] show ?thesis by (simp only: session_start(5) m) blast
qed

subsection \<open>Several clients\<close>

text \<open>The whole server, with any number of connections on one engine, under any interleaving of what
  their handlers do and with shutdown signals at any time. There is one order of the operations on
  the engine, the log, that explains everything: the store has their effects in this order; and
  what the wire of each connection carries is exactly the answers to its first so many commands,
  in the order it sent them, each computed from what the operations of that command saw of the
  store at their places in the log; to all its commands when its handler is done and got no signal. A handler that ended otherwise lost its stream. The
  hypothesis is that no operation of the engine failed.\<close>

lemma clients_share_one_order:
  assumes "serving KV I \<alpha> W queued wire incoming"
    and "\<not> overflow_checks B" and "list_all (list_all (command_fits B)) css"
    and "I st" and "store_fits (\<alpha> st)" and "length cns = length css"
    and "\<And>i. i < length css \<Longrightarrow> input_left incoming (css ! i) 0 (cns ! i)"
    and "\<And>i. i < length css \<Longrightarrow> wire (stream (cns ! i)) = [] \<and> queued (stream (cns ! i)) = []"
    and "serve B W KV evs (map Awaiting cns) st = Some (ss, st')" and "\<not> list_ex engine_failed ss"
  shows "(let log = serve_log B W KV evs (map Awaiting cns) st in
    I st' \<and> \<alpha> st' = fold kv_effect (map snd log) (\<alpha> st) \<and>
    (\<forall>i c. i < length css \<longrightarrow>
      (ss ! i = Awaiting c \<or> ss ! i = Done (Inr ()) c \<longrightarrow>
        (\<exists>n \<le> length (css ! i). map fst (seen i log (\<alpha> st)) = concat (map events_of (take n (css ! i))) \<and>
           wire (stream c) = concat (map encode (answers (take n (css ! i)) (map snd (seen i log (\<alpha> st))))) \<and>
           (ss ! i = Awaiting c \<or> Signal i \<in> set evs \<or> n = length (css ! i)))) \<and>
      (\<forall>e. ss ! i = Done (Inl e) c \<longrightarrow> (\<exists>x. e = Err (Io x)))))"
proof -
  let ?log = "serve_log B W KV evs (map Awaiting cns) st" and ?ws = "replicate (length css) []"
  note loc = serving.serve_ok[OF assms(1-5), where m = "\<alpha> st" and log = "[]" and ws = ?ws and stop = "\<lambda>i. Signal i \<in> set evs",
    OF _ _ _ assms(9,10)]
  have "session_ok queued wire incoming B (Signal i \<in> set evs) (css ! i) [] [] (Awaiting (cns ! i))" if "i < length css" for i
    using assms(7,8)[OF that] by (auto simp: caught_up_def intro!: exI[of _ 0])
  then have "serving.all_ok queued wire incoming B (\<lambda>i. Signal i \<in> set evs) css ?ws (\<alpha> st) [] (map Awaiting cns)"
    by (simp add: serving.all_ok_def[OF assms(1)] assms(6))
  with loc have ok: "I st'" "\<alpha> st' = fold kv_effect (map snd ?log) (\<alpha> st)"
    and all: "serving.all_ok queued wire incoming B (\<lambda>i. Signal i \<in> set evs) css ?ws (\<alpha> st) ?log ss" by simp_all
  have s: "session_ok queued wire incoming B (Signal i \<in> set evs) (css ! i) [] (seen i ?log (\<alpha> st)) (ss ! i)" "\<not> engine_failed (ss ! i)"
    if "i < length css" for i
    using that all assms(6,10) serve_length[OF assms(9)] by (simp_all add: serving.all_ok_def[OF assms(1)] list_ex_length)
  show ?thesis unfolding Let_def using ok session_told[OF s] by (simp only: append_Nil) blast
qed

text \<open>One client deletes the two keys while another one gets them and is then told to stop.\<close>

definition shared_commands :: "command list list" where
  "shared_commands = [[Del [[1], [2]]], [Get [1], Get [2]]]"

definition shared_conns :: "mem_stream connection list" where
  "shared_conns = map (\<lambda>cs. connection_new (mem_stream [requests cs])) shared_commands"

definition shared_schedule :: "serve_event list" where
  "shared_schedule = map Serve [1, 0, 1, 0, 1, 0, 0, 1, 1, 0, 1, 0] @ [Signal 1]"

definition shared_end :: "mem_stream session list \<times> lru storage" where
  "shared_end = the (serve release_build mem_ops demo_kv shared_schedule (map Awaiting shared_conns) demo3)"

lemma shared_run:
  "serve release_build mem_ops demo_kv shared_schedule (map Awaiting shared_conns) demo3 = Some (fst shared_end, snd shared_end)"
proof -
  have "serve release_build mem_ops demo_kv shared_schedule (map Awaiting shared_conns) demo3 \<noteq> None" by code_simp
  then show ?thesis by (simp add: shared_end_def)
qed

lemma shared_log:
  "serve_log release_build mem_ops demo_kv shared_schedule (map Awaiting shared_conns) demo3
   = [(1, Looked [1]), (0, Removed [1]), (0, Removed [2]), (1, Looked [2])]"
  by code_simp

lemma shared_inputs:
  assumes "i < length shared_commands"
  shows "input_left mem_incoming (shared_commands ! i) 0 (shared_conns ! i)"
    and "outbox (stream (shared_conns ! i)) = [] \<and> mem_queued (stream (shared_conns ! i)) = []"
proof -
  have "list_all (\<lambda>i. input_left mem_incoming (shared_commands ! i) 0 (shared_conns ! i) \<and>
      outbox (stream (shared_conns ! i)) = [] \<and> mem_queued (stream (shared_conns ! i)) = []) [0, 1]" by code_simp
  moreover have "i = 0 \<or> i = 1" using assms by (auto simp: shared_commands_def)
  ultimately show "input_left mem_incoming (shared_commands ! i) 0 (shared_conns ! i)"
    and "outbox (stream (shared_conns ! i)) = [] \<and> mem_queued (stream (shared_conns ! i)) = []" by auto
qed

lemma clients_share_one_order_witness:
  "abs_store codec (snd shared_end) = Map.empty \<and>
   (\<exists>n \<le> 2. [Looked [1], Looked [2]] = concat (map events_of (take n [Get [1], Get [2]])))"
proof -
  have c: "\<not> overflow_checks release_build" "list_all (list_all (command_fits release_build)) shared_commands" by code_simp+
  have f: "\<not> list_ex engine_failed (fst shared_end)" by code_simp
  have l: "length shared_conns = length shared_commands" by (simp add: shared_conns_def)
  have d: "case fst shared_end ! 1 of Done (Inr u) c \<Rightarrow> True | _ \<Rightarrow> False" by code_simp
  then obtain u c where d: "fst shared_end ! 1 = Done (Inr u) c" by (auto split: session.splits sum.splits)
  have m: "store_fits (abs_store codec demo3)" using session_start(4) by (simp add: session_def)
  let ?log = "[(1, Looked [1]), (0, Removed [1]), (0, Removed [2]), (1 :: nat, Looked [2])]"
  note all = clients_share_one_order[OF bitcask_serving.serving_axioms c demo_inv(2) m l shared_inputs shared_run f,
    unfolded Let_def shared_log]
  then have "abs_store codec (snd shared_end) = fold kv_effect (map snd ?log) (abs_store codec demo3)" by blast
  moreover have "\<exists>n \<le> length (shared_commands ! 1). map fst (seen 1 ?log (abs_store codec demo3)) =
      concat (map events_of (take n (shared_commands ! 1)))"
  proof -
    have "1 < length shared_commands" by (simp add: shared_commands_def)
    with all d show ?thesis by (metis unit.exhaust)
  qed
  ultimately show ?thesis by (simp add: demo3_durable(2) shared_commands_def fun_eq_iff numeral_2_eq_2)
qed

subsection \<open>The whole server\<close>

text \<open>The invariant over a run from the start.\<close>

lemma whole_run_serves:
  assumes loc: "serving KV I \<alpha> W queued wire incoming"
    and rel: "\<not> overflow_checks B" and css: "list_all (list_all (command_fits B)) css"
    and st: "I st" "store_fits (\<alpha> st)" and run: "whole_run sc B W KV evs (whole_start sc st) = Some w"
    and len: "length css = length (sockets evs)"
    and new: "\<And>i. i < length css \<Longrightarrow> (let s = sockets evs ! i in
      concat (incoming s) = requests (css ! i) \<and> safe_splits [] (incoming s) \<and> wire s = [] \<and> queued s = [])"
    and fine: "\<not> list_ex engine_failed (sessions w)"
  shows "serving.whole_ok I \<alpha> queued wire incoming B (\<lambda>i. Notified i \<in> set evs) css (\<alpha> st)
      (whole_log sc B W KV evs (whole_start sc st)) w \<and> length (sessions w) = length css"
proof -
  let ?stop = "\<lambda>i. Notified i \<in> set evs"
  have start: "serving.whole_ok I \<alpha> queued wire incoming B ?stop css (\<alpha> st) [] (whole_start sc st)"
    using st by (simp add: serving.whole_ok_def[OF loc] serving.explains_def[OF loc] serving.all_ok_def[OF loc] whole_start_def)
  have none: "sessions (whole_start sc st) = []" by (simp add: whole_start_def)
  have "serving.whole_ok I \<alpha> queued wire incoming B ?stop css (\<alpha> st) ([] @ whole_log sc B W KV evs (whole_start sc st)) w"
    by (rule serving.whole_run_ok[OF loc rel css start _ _ _ run fine]) (use len new in \<open>simp_all add: none\<close>)
  moreover have "length (sessions w) = length css" using sessions_accepted[OF run] none len by simp
  ultimately show ?thesis by simp
qed

text \<open>C8: the whole server, from its start: accepting connections within its bound, with the handlers of
  all of them interleaved on one engine, dropping those that are done, up to a shutdown at any
  point. When every client sends the complete encodings of valid commands, in pieces of which none
  but the last ends in a sign, the build has no overflow checks, and the operations of the engine
  happen one at a time and none of them failed or hung, there is one order of these operations, the
  log, that explains everything: the store has their effects in this order; and what the wire of each accepted connection carries
  is exactly the answers to the first so many commands of its client, in the order it sent them,
  each computed from what the operations of that command saw of the store at their places in the
  log. A handler that is done has answered all of them, unless the server stopped listening or the
  handler lost its stream. What a GET sees that overlaps another operation is the matter of
  \<open>overlapping_gets_linearize\<close> and \<open>overwrite_hides_key\<close>.\<close>

theorem whole_server_serves:
  assumes "serving KV I \<alpha> W queued wire incoming"
    and "\<not> overflow_checks B" and "list_all (list_all (command_fits B)) css"
    and "I st" and "store_fits (\<alpha> st)" and "whole_run sc B W KV evs (whole_start sc st) = Some w"
    and "length css = length (sockets evs)"
    and "\<And>i. i < length css \<Longrightarrow> (let s = sockets evs ! i in
      concat (incoming s) = requests (css ! i) \<and> safe_splits [] (incoming s) \<and> wire s = [] \<and> queued s = [])"
    and "\<not> list_ex engine_failed (sessions w)"
  shows "(let log = whole_log sc B W KV evs (whole_start sc st) in
    length (filter id (live w)) \<le> max_connections sc \<and> length (sessions w) = length css \<and>
    I (kv_state w) \<and> \<alpha> (kv_state w) = fold kv_effect (map snd log) (\<alpha> st) \<and>
    (\<forall>i c. i < length css \<longrightarrow>
      (sessions w ! i = Awaiting c \<or> sessions w ! i = Done (Inr ()) c \<longrightarrow>
        (\<exists>n \<le> length (css ! i). map fst (seen i log (\<alpha> st)) = concat (map events_of (take n (css ! i))) \<and>
           wire (stream c) = concat (map encode (answers (take n (css ! i)) (map snd (seen i log (\<alpha> st))))) \<and>
           (sessions w ! i = Awaiting c \<or> \<not> running (outline w) \<or> n = length (css ! i)))) \<and>
      (\<forall>e. sessions w ! i = Done (Inl e) c \<longrightarrow> (\<exists>x. e = Err (Io x)))))"
proof -
  let ?log = "whole_log sc B W KV evs (whole_start sc st)"
  from whole_run_serves[OF assms] have ok: "I (kv_state w)" "\<alpha> (kv_state w) = fold kv_effect (map snd ?log) (\<alpha> st)"
    and all: "serving.all_ok queued wire incoming B (\<lambda>i. Notified i \<in> set evs) css (replicate (length css) []) (\<alpha> st) ?log (sessions w)"
    and len: "length (sessions w) = length css"
    unfolding serving.whole_ok_def[OF assms(1)] serving.explains_def[OF assms(1)] by blast+
  have told: "session_ok queued wire incoming B (Notified i \<in> set evs) (css ! i) [] (seen i ?log (\<alpha> st)) (sessions w ! i)"
    "\<not> engine_failed (sessions w ! i)" if "i < length css" for i
    using that all len assms(9) by (simp_all add: serving.all_ok_def[OF assms(1)] list_ex_length)
  have stop: "\<not> running (outline w)" if "Notified i \<in> set evs" for i using notified_stopped[OF assms(6) that] .
  have "server_inv sc (outline w)"
    using server_inv_steps[OF whole_run_outline[OF assms(6)]] by (simp add: outline_start server_inv_new)
  then have "length (filter id (live w)) \<le> max_connections sc" by (simp add: server_inv_def outline_def)
  with ok len session_told[OF told] stop show ?thesis unfolding Let_def by (simp only: append_Nil) blast
qed

text \<open>Two slots; the second client is accepted while the first is served, the first handler is dropped,
  the server is interrupted and the second handler told to stop.\<close>

definition demo_server :: server_config where
  "demo_server = \<lparr>min_backoff_ms = 1, max_backoff_ms = 4, max_connections = 2\<rparr>"

definition demo_events :: "mem_stream whole_event list" where
  "demo_events =
     [Acquire, Accepted (mem_stream [requests (shared_commands ! 0)]), Acquire, Run 0,
      Accepted (mem_stream [requests (shared_commands ! 1)])] @
     map Run [1, 1, 0, 1, 0, 0, 1, 1, 0, 1, 0, 0] @ [Dropped 0, Acquire, Interrupt, Notified 1]"

definition demo_whole :: "(mem_stream, lru storage) whole" where
  "demo_whole = the (whole_run demo_server release_build mem_ops demo_kv demo_events (whole_start demo_server demo3))"

lemma demo_whole_run:
  "whole_run demo_server release_build mem_ops demo_kv demo_events (whole_start demo_server demo3) = Some demo_whole"
proof -
  have "whole_run demo_server release_build mem_ops demo_kv demo_events (whole_start demo_server demo3) \<noteq> None" by code_simp
  then show ?thesis by (simp add: demo_whole_def)
qed

lemma demo_whole_facts:
  "length shared_commands = length (sockets demo_events)" "\<not> list_ex engine_failed (sessions demo_whole)"
  "whole_log demo_server release_build mem_ops demo_kv demo_events (whole_start demo_server demo3)
     = [(1, Looked [1]), (0, Removed [1]), (0, Removed [2]), (1, Looked [2])]"
  "stage demo_whole = Draining" "live demo_whole = [False, True]"
  by code_simp+

theorem whole_server_serves_witness:
  "abs_store codec (kv_state demo_whole) = Map.empty \<and>
   (case sessions demo_whole ! 0 of
      Done (Inr u) c \<Rightarrow> (\<exists>n \<le> 1. outbox (stream c) = concat (map encode (answers (take n (shared_commands ! 0)) [Some [3], Some [7, 7, 7]])))
    | _ \<Rightarrow> False)"
proof -
  have c: "\<not> overflow_checks release_build" "list_all (list_all (command_fits release_build)) shared_commands" by code_simp+
  have m: "store_fits (abs_store codec demo3)" using session_start(4) by (simp add: session_def)
  have new: "let s = sockets demo_events ! i in concat (mem_incoming s) = requests (shared_commands ! i) \<and>
      safe_splits [] (mem_incoming s) \<and> outbox s = [] \<and> mem_queued s = []" if "i < length shared_commands" for i
  proof -
    have "list_all (\<lambda>i. let s = sockets demo_events ! i in concat (mem_incoming s) = requests (shared_commands ! i) \<and>
      safe_splits [] (mem_incoming s) \<and> outbox s = [] \<and> mem_queued s = []) [0, 1]" by code_simp
    moreover have "i = 0 \<or> i = 1" using that by (auto simp: shared_commands_def)
    ultimately show ?thesis by auto
  qed
  let ?log = "[(1 :: nat, Looked [1]), (0, Removed [1]), (0, Removed [2]), (1, Looked [2])]"
  note all = whole_server_serves[OF bitcask_serving.serving_axioms c demo_inv(2) m demo_whole_run demo_whole_facts(1) new demo_whole_facts(2),
    unfolded Let_def demo_whole_facts(3)]
  have "abs_store codec (kv_state demo_whole) = fold kv_effect (map snd ?log) (abs_store codec demo3)" using all by blast
  moreover have "case sessions demo_whole ! 0 of Done (Inr u) c \<Rightarrow> True | _ \<Rightarrow> False" by code_simp
  then obtain u c where d: "sessions demo_whole ! 0 = Done (Inr u) c" by (auto split: session.splits sum.splits)
  moreover have "0 < length shared_commands" by (simp add: shared_commands_def)
  with all d have "\<exists>n \<le> length (shared_commands ! 0). outbox (stream c) =
      concat (map encode (answers (take n (shared_commands ! 0)) (map snd (seen 0 ?log (abs_store codec demo3)))))"
    by (metis unit.exhaust)
  ultimately show ?thesis by (simp add: demo3_durable(2) shared_commands_def fun_eq_iff numeral_2_eq_2)
qed

text \<open>C40: the server can come to its end from every state it reaches, but for a GET that hangs. Some
  run exits, with no handler left and every permit given back but one at most: a handler that waits
  for a frame ends without an error and without reading one, those dropped before are as they
  were, and a handler in the middle of a command finishes it. The one exception is a handler that
  was in the middle of a command and comes to a GET which the engine does not end: it spins for a
  reader of a file pool that has none left, and the server waits for it.\<close>

theorem whole_server_can_exit:
  assumes "whole_run sc B W KV evs (whole_start sc st) = Some w"
  shows "\<exists>evs' w'. whole_run sc B W KV evs' w = Some w' \<and>
    (stage w' = Exited \<and> True \<notin> set (live w') \<and>
       slots w' \<le> max_connections sc \<and> max_connections sc \<le> slots w' + 1 \<and>
       length (sessions w') = length (sessions w) \<and>
       (\<forall>i c. is_live w i \<longrightarrow> sessions w ! i = Awaiting c \<longrightarrow> sessions w' ! i = Done (Inr ()) c) \<and>
       (\<forall>i. \<not> is_live w i \<longrightarrow> sessions w' ! i = sessions w ! i) \<or>
     (\<exists>i j c key c'. is_live w i \<and> sessions w ! i = Working j c \<and>
       sessions w' ! i = Working (Submitted (Get key)) c' \<and> kv_get KV key (kv_state w') = None))"
proof -
  have inv: "server_inv sc (outline w')" if "whole_run sc B W KV evs' w = Some w'" for evs' w'
    using server_inv_steps[OF whole_run_outline] assms whole_run_append[of sc B W KV evs evs' "whole_start sc st"] that
    by (metis bind.bind_lunit outline_start server_inv_new)
  have len: "length (live w) = length (sessions w)" using whole_run_length[OF assms] by (simp add: whole_start_def)
  have "server_inv sc (outline w)" using inv[of "[]" w] by simp
  from whole_drains[OF len this, of B W KV] obtain evs' w' where
    run: "whole_run sc B W KV evs' w = Some w'" and e: "all_ended w w' \<or> one_spins KV w w'" by auto
  have "slots w' \<le> max_connections sc \<and> max_connections sc \<le> slots w' + 1" if "True \<notin> set (live w')"
  proof -
    have "filter id (live w') = []" using that by (auto simp: filter_empty_conv)
    with inv[OF run] show ?thesis by (simp add: server_inv_def outline_def)
  qed
  with run e show ?thesis unfolding all_ended_def one_spins_def spins_def by blast
qed

theorem whole_server_can_exit_witness:
  "\<exists>evs' w'. whole_run demo_server release_build mem_ops demo_kv evs' demo_whole = Some w' \<and> stage w' = Exited \<and>
     length (sessions w') = 2"
proof -
  have n: "length (sessions demo_whole) = 2" by code_simp
  have "list_all (\<lambda>s. case s of Working j c \<Rightarrow> False | _ \<Rightarrow> True) (sessions demo_whole)" by code_simp
  then have idle: "\<not> (is_live demo_whole i \<and> sessions demo_whole ! i = Working j c)" for i j c
    using whole_run_length[OF demo_whole_run] by (auto simp: is_live_def whole_start_def list_all_length split: session.splits)
  from whole_server_can_exit[OF demo_whole_run] obtain evs' w' where
    "whole_run demo_server release_build mem_ops demo_kv evs' demo_whole = Some w'"
    "stage w' = Exited \<and> length (sessions w') = length (sessions demo_whole)" using idle by blast
  with n show ?thesis by auto
qed

text \<open>Commands of several clients whose operations on the engine interleave in any order. If none
  ends in an error, the store has the effects of the operations in the order they were made; every
  GET and SET replies what it replies on the store at one moment of that order; and the keys that
  the DEL commands say they removed, with those that are there now, are exactly those that were
  there or were created: nothing is counted twice and nothing disappears uncounted.\<close>

lemma interleaved_commands:
  assumes "kv_store KV I \<alpha>" and "jobs_run B KV schedule (map Submitted cs) st = (ts, st')" and "list_all no_error ts"
    and "I st" and "finite (dom (\<alpha> st))" and "list_all (\<lambda>c. job_fits (Submitted c)) cs"
  shows "(let done = history B KV schedule (map Submitted cs) st in
    I st' \<and> \<alpha> st' = fold kv_effect done (\<alpha> st) \<and>
    int (card (dom (\<alpha> st'))) + sum_list (map counted ts) = int (card (dom (\<alpha> st))) + int (created done (\<alpha> st)) \<and>
    (\<forall>i r. i < length cs \<longrightarrow> (\<forall>keys. cs ! i \<noteq> Del keys) \<longrightarrow> ts ! i = Answered r \<longrightarrow>
      (\<exists>before later. done = before @ later \<and> r = Inr (reply (cs ! i) (fold kv_effect before (\<alpha> st))))))"
proof -
  have fits: "list_all job_fits (map Submitted cs)" using assms(6) by (simp add: list_all_iff)
  have zero: "sum_list (map counted (map Submitted cs)) = 0" by (induction cs) simp_all
  have "int (card (dom (\<alpha> st'))) + sum_list (map counted ts) =
      int (card (dom (\<alpha> st))) + int (created (history B KV schedule (map Submitted cs) st) (\<alpha> st))"
    using kv_store.jobs_run_ok[OF assms(1-5) fits] zero by linarith
  moreover note kv_store.jobs_run_ok[OF assms(1-5) fits]
  moreover note kv_store.jobs_run_answers[OF assms(1-5) fits]
  ultimately show ?thesis unfolding Let_def by (metis length_map nth_map)
qed

text \<open>A DEL of both keys of the storage next to a DEL of the same keys in the other order.\<close>

definition two_dels :: "command list" where
  "two_dels = [Del [[1], [2]], Del [[2], [1]]]"

definition del_schedule :: "nat list" where
  "del_schedule = [0, 1, 0, 1, 0, 1, 0, 1]"

lemma interleaved_commands_witness:
  "card (dom (abs_store codec (snd (jobs_run release_build demo_kv del_schedule (map Submitted two_dels) demo3)))) = 0"
proof -
  let ?x = "jobs_run release_build demo_kv del_schedule (map Submitted two_dels) demo3"
  have r: "?x = (fst ?x, snd ?x)" by simp
  have t: "fst ?x = [Answered (Inr (Integer 1)), Answered (Inr (Integer 1))]" by code_simp
  then have n: "list_all no_error (fst ?x)" by simp
  have c: "list_all (\<lambda>c. job_fits (Submitted c)) two_dels" by (simp add: two_dels_def)
  have f: "finite (dom (abs_store codec demo3))" by (simp add: demo3_durable(2))
  have h: "history release_build demo_kv del_schedule (map Submitted two_dels) demo3 = [Removed [1], Removed [2], Removed [2], Removed [1]]"
    by code_simp
  have m: "card (dom (abs_store codec demo3)) = 2" by (simp add: demo3_durable(2))
  from interleaved_commands[OF bitcask_refines[OF codec_laws] r n demo_inv(2) f c]
  have "int (card (dom (abs_store codec (snd ?x)))) + sum_list (map counted (fst ?x)) =
      int (card (dom (abs_store codec demo3))) + int (created (history release_build demo_kv del_schedule (map Submitted two_dels) demo3) (abs_store codec demo3))"
    unfolding Let_def by blast
  then show ?thesis by (simp only: h t m) simp
qed

text \<open>DEL of several keys is not one step for other clients. Whichever of two commands that delete the
  same two keys runs first would remove both and reply 2, but when their operations alternate both reply 1.\<close>

lemma del_is_not_atomic:
  "fst (jobs_run release_build demo_kv del_schedule (map Submitted two_dels) demo3)
     = [Answered (Inr (Integer 1)), Answered (Inr (Integer 1))] \<and>
   map (\<lambda>c. map_option fst (run_blocking release_build demo_kv c demo3)) two_dels = [Some (Inr (Integer 2)), Some (Inr (Integer 2))]"
  by code_simp

end
