(* ===== verification/BufIo.thy ===== *)
theory BufIo
  imports StorageInv
begin

section \<open>Buffered writing (src/storage/bitcask/bufio.rs)\<close>

text \<open>
  \<open>BufWriterWithPos\<close> and \<open>BufReaderWithPos\<close> with the buffers of \<open>std::io\<close> in full: a capacity,
  writes and reads of the file one at a time, each of which may be short, be interrupted or fail.
  An entry is serialized with any number of \<open>write_all\<close> of pieces, and read back with any
  sequence of \<open>read_exact\<close>. The other theories use the coarser \<open>log_append\<close> and \<open>log_next\<close>; here
  it is proved that they give the same when no system call fails, and what an append
  leaves behind when one does.
\<close>

text \<open>
  One \<open>File::write\<close>. A fault \<open>Some (e, 0)\<close> is an error, \<open>Some (e, n)\<close> with another \<open>n\<close> a write
  of \<open>n\<close> bytes at most. \<open>EINTR\<close> is \<open>ErrorKind::Interrupted\<close>, after which the library calls again.
\<close>

definition file_write :: "nat \<Rightarrow> bytes \<Rightarrow> fs \<Rightarrow> (io_error, nat) result \<times> fs" where
  "file_write i d fs =
     (if d = [] then (Inr 0, fs)
      else case next_fault fs of
        (Some (e, n), fs') \<Rightarrow>
          if n = 0 then (Inl (Err e), fs')
          else (Inr (min n (length d)), append_bytes i (take n d) fs')
      | (None, fs') \<Rightarrow>
          if in_i64 (int (length (idata fs i)) + int (length d))
          then (Inr (length d), append_bytes i d fs') else (Inl (Err (OtherIo ''EFBIG'')), fs'))"

abbreviation interrupted :: "io_error fault" where
  "interrupted \<equiv> Err (OtherIo ''EINTR'')"

lemma append_bytes_fields [simp]:
  "faults (append_bytes i d fs) = faults fs" "dir (append_bytes i d fs) = dir fs" "inext (append_bytes i d fs) = inext fs"
  "idata (append_bytes i d fs) = (idata fs)(i := idata fs i @ d)"
  by (simp_all add: append_bytes_def)

lemma append_bytes_Nil [simp]: "append_bytes i [] fs = fs"
  by (simp add: append_bytes_def)

lemma append_bytes_twice: "append_bytes i e (append_bytes i d fs) = append_bytes i (d @ e) fs"
  by (simp add: append_bytes_def)

lemma next_fault_less:
  "next_fault fs = (f, fs') \<Longrightarrow> length (faults fs') \<le> length (faults fs) \<and> (f \<noteq> None \<longrightarrow> length (faults fs') < length (faults fs))"
  by (auto simp: next_fault_def split: list.splits)

lemma file_write_less:
  assumes "file_write i d fs = (r, fs')"
  shows "length (faults fs') \<le> length (faults fs) \<and> (r = Inl interrupted \<longrightarrow> length (faults fs') < length (faults fs)) \<and>
    (\<forall>n. r = Inr n \<longrightarrow> n \<le> length d)"
  using assms next_fault_less[of fs] by (auto simp: file_write_def split: if_splits prod.splits option.splits)

subsection \<open>BufWriter\<close>

text \<open>\<open>flush_buf\<close>, which drops from the buffer what was written, and \<open>write\<close> of \<open>std::io::BufWriter\<close>.\<close>

function flush_buf :: "log_writer \<Rightarrow> fs \<Rightarrow> (io_error, unit) result \<times> log_writer \<times> fs" where
  "flush_buf w fs =
     (if bw_buf w = [] then (Inr (), w, fs)
      else case file_write (bw_file w) (bw_buf w) fs of
        (Inr n, fs') \<Rightarrow>
          if n = 0 then (Inl (Err WriteZero), w, fs') else flush_buf (w\<lparr>bw_buf := drop n (bw_buf w)\<rparr>) fs'
      | (Inl e, fs') \<Rightarrow> if e = interrupted then flush_buf w fs' else (Inl e, w, fs'))"
  by pat_completeness auto
termination
proof (relation "measure (\<lambda>(w, fs). length (bw_buf w) + length (faults fs))", goal_cases)
  case (2 w fs r fs' e)
  then have "length (faults fs') < length (faults fs)" using file_write_less[OF 2(2)[symmetric]] by simp
  then show ?case by simp
next
  case (3 w fs r fs' n)
  then have "length (faults fs') \<le> length (faults fs)" using file_write_less[OF 3(2)[symmetric]] by simp
  with 3 show ?case by (cases "bw_buf w") auto
qed simp

declare flush_buf.simps [simp del]

definition buf_write :: "nat \<Rightarrow> bytes \<Rightarrow> log_writer \<Rightarrow> fs \<Rightarrow> (io_error, nat) result \<times> log_writer \<times> fs" where
  "buf_write cap d w fs =
     (if length d < cap - length (bw_buf w) then (Inr (length d), w\<lparr>bw_buf := bw_buf w @ d\<rparr>, fs)
      else try_op (if cap - length (bw_buf w) < length d then flush_buf w fs else (Inr (), w, fs)) (\<lambda>_ (w, fs).
             if cap \<le> length d then (case file_write (bw_file w) d fs of (r, fs) \<Rightarrow> (r, w, fs))
             else (Inr (length d), w\<lparr>bw_buf := bw_buf w @ d\<rparr>, fs)))"

subsection \<open>BufWriterWithPos\<close>

text \<open>
  \<open>write\<close> moves the position by what was accepted; \<open>write_all\<close> is the one of the trait
  \<open>std::io::Write\<close>, a loop over it.
\<close>

definition pos_write ::
    "nat \<Rightarrow> build \<Rightarrow> bytes \<Rightarrow> log_writer \<Rightarrow> fs \<Rightarrow> (io_error, nat) result \<times> log_writer \<times> fs" where
  "pos_write cap B d w fs =
     try_op (buf_write cap d w fs) (\<lambda>n (w, fs).
       case assign (u64_add B (bw_pos w) n) (\<lambda>p w. w\<lparr>bw_pos := p\<rparr>) w of
         (r, w) \<Rightarrow> (and_then r (\<lambda>_. Inr n), w, fs))"

definition pos_flush :: "log_writer \<Rightarrow> fs \<Rightarrow> (io_error, unit) result \<times> log_writer \<times> fs" where
  "pos_flush w fs = flush_buf w fs"

lemma flush_buf_less: "flush_buf w fs = (r, w', fs') \<Longrightarrow> length (faults fs') \<le> length (faults fs) \<and> r \<noteq> Inl interrupted"
proof (induction w fs rule: flush_buf.induct)
  case (1 w fs)
  show ?case
  proof (cases "bw_buf w = []")
    case False
    obtain q fs1 where q: "file_write (bw_file w) (bw_buf w) fs = (q, fs1)" by fastforce
    note less = file_write_less[OF q]
    show ?thesis
    proof (cases q)
      case (Inl e)
      with 1 False q less show ?thesis by (cases "e = interrupted") (force simp: flush_buf.simps[of w])+
    next
      case (Inr n)
      with 1 False q less show ?thesis by (cases "n = 0") (force simp: flush_buf.simps[of w])+
    qed
  qed (use 1 in \<open>auto simp: flush_buf.simps\<close>)
qed

lemma pos_write_less:
  assumes "pos_write cap B d w fs = (r, w', fs')"
  shows "length (faults fs') \<le> length (faults fs) \<and> (r = Inl interrupted \<longrightarrow> length (faults fs') < length (faults fs)) \<and>
    (\<forall>n. r = Inr n \<longrightarrow> n \<le> length d)"
proof -
  obtain q w1 fs1 where q: "buf_write cap d w fs = (q, w1, fs1)" by (metis prod_cases3)
  obtain f w2 fs2 where f: "flush_buf w fs = (f, w2, fs2)" by (metis prod_cases3)
  note less = flush_buf_less[OF f] file_write_less[of "bw_file w2" d fs2] file_write_less[of "bw_file w" d fs]
  have "length (faults fs1) \<le> length (faults fs) \<and> (q = Inl interrupted \<longrightarrow> length (faults fs1) < length (faults fs)) \<and>
      (\<forall>n. q = Inr n \<longrightarrow> n \<le> length d)"
    using q f less by (cases f) (fastforce simp: buf_write_def split: if_splits prod.splits)+
  moreover have "assign (u64_add B (bw_pos w1) n) g w1 \<noteq> (Inl interrupted, w')" for n g w'
    by (auto simp: u64_add_def split: if_splits)
  ultimately show ?thesis using assms q
    by (cases q) (auto simp: pos_write_def u64_add_def split: if_splits)
qed

function pos_write_all ::
    "nat \<Rightarrow> build \<Rightarrow> bytes \<Rightarrow> log_writer \<Rightarrow> fs \<Rightarrow> (io_error, unit) result \<times> log_writer \<times> fs" where
  "pos_write_all cap B d w fs =
     (if d = [] then (Inr (), w, fs)
      else case pos_write cap B d w fs of
        (Inr n, w', fs') \<Rightarrow>
          if n = 0 then (Inl (Err WriteZero), w', fs') else pos_write_all cap B (drop n d) w' fs'
      | (Inl e, w', fs') \<Rightarrow> if e = interrupted then pos_write_all cap B d w' fs' else (Inl e, w', fs'))"
  by pat_completeness auto
termination
proof (relation "measure (\<lambda>(cap, B, d, w, fs). length d + length (faults fs))", goal_cases)
  case (3 cap B d w fs r s n w' fs')
  then have q: "pos_write cap B d w fs = (Inr n, w', fs')" by simp
  have "length (faults fs') \<le> length (faults fs)" using pos_write_less[OF q] by simp
  with 3 show ?case by (cases d) auto
next
  case (2 cap B d w fs r s e w' fs')
  then have q: "pos_write cap B d w fs = (Inl interrupted, w', fs')" by simp
  have "length (faults fs') < length (faults fs)" using pos_write_less[OF q] by simp
  then show ?case by simp
qed simp

declare pos_write_all.simps [simp del]

fun write_chunks ::
    "nat \<Rightarrow> build \<Rightarrow> bytes list \<Rightarrow> log_writer \<Rightarrow> fs \<Rightarrow> (io_error, unit) result \<times> log_writer \<times> fs" where
  "write_chunks cap B [] w fs = (Inr (), w, fs)"
| "write_chunks cap B (d # ds) w fs =
     try_op (pos_write_all cap B d w fs) (\<lambda>_ (w, fs). write_chunks cap B ds w fs)"

text \<open>\<open>LogWriter::append\<close> of an entry that \<open>bincode\<close> writes in the pieces \<open>ds\<close>.\<close>

definition chunk_append ::
    "nat \<Rightarrow> build \<Rightarrow> bytes list \<Rightarrow> log_writer \<Rightarrow> fs \<Rightarrow> (bc_error, log_index) result \<times> log_writer \<times> fs" where
  "chunk_append cap B ds w fs =
     (let pos = bw_pos w in
      case write_chunks cap B ds w fs of
        (Inl e, w, fs) \<Rightarrow> (map_err (\<lambda>x. Serialization (CodecIo x)) (Inl e), w, fs)
      | (Inr _, w, fs) \<Rightarrow>
          (case pos_flush w fs of
             (Inl e, w, fs) \<Rightarrow> (map_err BcIo (Inl e), w, fs)
           | (Inr _, w, fs) \<Rightarrow>
               (and_then (u64_sub B (bw_pos w) pos) (\<lambda>len. Inr \<lparr>ix_len = len, ix_pos = pos\<rparr>), w, fs)))"

subsection \<open>What writing leaves behind\<close>

text \<open>
  \<open>accepted d\<close>: of the bytes of the buffer followed by \<open>d\<close>, some are in the file now and the rest is in
  the buffer, in order; the position counts them all; and nothing else of the directory changed.
\<close>

definition accepted :: "bytes \<Rightarrow> log_writer \<Rightarrow> fs \<Rightarrow> log_writer \<Rightarrow> fs \<Rightarrow> bool" where
  "accepted d w fs w' fs' \<longleftrightarrow>
     bw_file w' = bw_file w \<and> bw_pos w' = bw_pos w + length d \<and> dir fs' = dir fs \<and> inext fs' = inext fs \<and>
     (\<exists>x. idata fs' = (idata fs)(bw_file w := idata fs (bw_file w) @ x) \<and> x @ bw_buf w' = bw_buf w @ d)"

lemma accepted_refl: "same_files fs fs' \<Longrightarrow> accepted [] w fs w fs'"
  by (auto simp: accepted_def same_files_def)

lemma accepted_trans:
  assumes "accepted d w fs w1 fs1" and "accepted e w1 fs1 w2 fs2"
  shows "accepted (d @ e) w fs w2 fs2"
proof -
  from assms obtain x y where "idata fs1 = (idata fs)(bw_file w := idata fs (bw_file w) @ x)" "x @ bw_buf w1 = bw_buf w @ d"
    "idata fs2 = (idata fs1)(bw_file w := idata fs1 (bw_file w) @ y)" "y @ bw_buf w2 = bw_buf w1 @ e"
    by (auto simp: accepted_def)
  then have "idata fs2 = (idata fs)(bw_file w := idata fs (bw_file w) @ x @ y) \<and> (x @ y) @ bw_buf w2 = bw_buf w @ d @ e"
    by simp
  with assms show ?thesis unfolding accepted_def by auto
qed

text \<open>One write of the file.\<close>

lemma file_write_cases:
  assumes "file_write i d fs = (r, fs')"
  obtains (failed) e where "r = Inl (Err e)" and "same_files fs fs'"
  | (written) n where "r = Inr n" and "n \<le> length d" and "n = 0 \<longrightarrow> d = []" and "dir fs' = dir fs" and "inext fs' = inext fs"
      and "idata fs' = (idata fs)(i := idata fs i @ take n d)"
proof (cases "d = []")
  case True
  with assms that(2)[of 0] show ?thesis by (auto simp: file_write_def)
next
  case False
  obtain f fs1 where f: "next_fault fs = (f, fs1)" by fastforce
  note same = next_fault_same[OF f]
  show ?thesis
  proof (cases f)
    case None
    with assms False f same that(1) that(2)[of "length d"] show ?thesis
      by (auto simp: file_write_def same_files_def split: if_splits)
  next
    case (Some x)
    obtain e n where x: "x = (e, n)" by fastforce
    have t: "take (min n (length d)) d = take n d" by (simp add: min_def)
    show ?thesis
    proof (cases "n = 0")
      case True
      with assms False f Some x same that(1) show ?thesis by (auto simp: file_write_def)
    next
      case n: False
      with assms False f Some x have "r = Inr (min n (length d))" "fs' = append_bytes i (take n d) fs1"
        by (simp_all add: file_write_def)
      with same t n False that(2)[of "min n (length d)"] show ?thesis by (simp add: same_files_def)
    qed
  qed
qed

lemma file_write_accepted:
  assumes "file_write (bw_file w) (bw_buf w) fs = (Inr n, fs')"
  shows "accepted [] w fs (w\<lparr>bw_buf := drop n (bw_buf w)\<rparr>) fs'"
  using assms by (elim file_write_cases) (auto simp: accepted_def)

lemma file_write_failed: "file_write i d fs = (Inl e, fs') \<Longrightarrow> same_files fs fs' \<and> e \<noteq> Panic"
  by (elim file_write_cases) auto

lemma flush_buf_accepted:
  "flush_buf w fs = (r, w', fs') \<Longrightarrow> accepted [] w fs w' fs' \<and> r \<noteq> Inl Panic \<and> (r = Inr () \<longrightarrow> bw_buf w' = [])"
proof (induction w fs rule: flush_buf.induct)
  case (1 w fs)
  show ?case
  proof (cases "bw_buf w = []")
    case True
    with 1 accepted_refl[of fs fs w] show ?thesis by (auto simp: flush_buf.simps[of w])
  next
    case False
    obtain q fs1 where q: "file_write (bw_file w) (bw_buf w) fs = (q, fs1)" by fastforce
    show ?thesis
    proof (cases q)
      case (Inl e)
      with file_write_failed q have e: "accepted [] w fs w fs1" "e \<noteq> Panic" by (auto intro: accepted_refl)
      show ?thesis
      proof (cases "e = interrupted")
        case True
        with 1 False q Inl have "accepted [] w fs1 w' fs' \<and> r \<noteq> Inl Panic \<and> (r = Inr () \<longrightarrow> bw_buf w' = [])"
          by (simp add: flush_buf.simps[of w fs])
        with accepted_trans[OF e(1)] show ?thesis by fastforce
      qed (use 1 False q Inl e in \<open>auto simp: flush_buf.simps[of w fs]\<close>)
    next
      case (Inr n)
      then have n: "n \<noteq> 0" using q False by (auto elim!: file_write_cases)
      let ?w = "w\<lparr>bw_buf := drop n (bw_buf w)\<rparr>"
      have "accepted [] ?w fs1 w' fs' \<and> r \<noteq> Inl Panic \<and> (r = Inr () \<longrightarrow> bw_buf w' = [])"
        using 1 False q Inr n by (simp add: flush_buf.simps[of w fs])
      moreover have "accepted [] w fs ?w fs1" using q Inr by (simp add: file_write_accepted)
      ultimately show ?thesis using accepted_trans by fastforce
    qed
  qed
qed

lemma buf_write_accepted:
  assumes "buf_write cap d w fs = (r, w', fs')"
  obtains (failed) e where "r = Inl (Err e)" and "accepted [] w fs w' fs'"
  | (taken) n where "r = Inr n" and "n \<le> length d" and "n = 0 \<longrightarrow> d = []" and "bw_pos w' = bw_pos w"
      and "accepted (take n d) w fs (w'\<lparr>bw_pos := bw_pos w + n\<rparr>) fs'"
proof -
  have put: "accepted [] w fs v fs1 \<Longrightarrow>
      accepted d w fs (v\<lparr>bw_buf := bw_buf v @ d, bw_pos := bw_pos w + length d\<rparr>) fs1" for v fs1
    by (auto simp: accepted_def)
  show ?thesis
  proof (cases "length d < cap - length (bw_buf w)")
    case True
    with assms put[OF accepted_refl[OF same_files_refl]] that(2)[of "length d"] show ?thesis by (auto simp: buf_write_def)
  next
    case False
    define need where "need = (cap - length (bw_buf w) < length d)"
    obtain f w1 fs1 where f: "(if need then flush_buf w fs else (Inr (), w, fs)) = (f, w1, fs1)" by (metis prod_cases3)
    have w1: "accepted [] w fs w1 fs1" "f \<noteq> Inl Panic" "need \<and> f = Inr () \<longrightarrow> bw_buf w1 = []" "\<not> need \<longrightarrow> w1 = w"
      using f flush_buf_accepted[of w fs] accepted_refl[of fs fs w] by (auto split: if_splits)
    show ?thesis
    proof (cases f)
      case (Inl e)
      with assms False f w1 that(1) show ?thesis by (cases e) (auto simp: buf_write_def need_def)
    next
      case (Inr u)
      show ?thesis
      proof (cases "cap \<le> length d")
        case True
        obtain q fs2 where q: "file_write (bw_file w1) d fs1 = (q, fs2)" by fastforce
        have res: "r = q" "w' = w1" "fs' = fs2" using assms False f Inr True q by (auto simp: buf_write_def need_def)
        have empty: "bw_buf w1 = [] \<or> d = []" using w1(3,4) Inr True False by (cases need; cases d; cases "bw_buf w") (auto simp: need_def)
        from q show ?thesis
        proof (cases rule: file_write_cases)
          case (failed e)
          with res w1(1) that(1) accepted_trans[OF w1(1) accepted_refl] show ?thesis by auto
        next
          case (written n)
          have "accepted (take n d) w1 fs1 (w1\<lparr>bw_pos := bw_pos w1 + n\<rparr>) fs2"
            using written empty w1(1) by (auto simp: accepted_def)
          moreover have pos: "bw_pos w1 = bw_pos w" using w1(1) by (simp add: accepted_def)
          ultimately have "accepted (take n d) w fs (w1\<lparr>bw_pos := bw_pos w + n\<rparr>) fs2"
            using accepted_trans[OF w1(1)] by fastforce
          with written res pos show ?thesis by (intro that(2)) auto
        qed
      next
        case small: False
        with assms False f Inr have "r = Inr (length d)" "w' = w1\<lparr>bw_buf := bw_buf w1 @ d\<rparr>" "fs' = fs1"
          by (auto simp: buf_write_def need_def)
        with put[OF w1(1)] w1(1) that(2)[of "length d"] show ?thesis by (auto simp: accepted_def)
      qed
    qed
  qed
qed

lemma pos_write_accepted:
  assumes "pos_write cap B d w fs = (r, w', fs')" and "bw_pos w + length d < 2 ^ 64"
  obtains (failed) e where "r = Inl (Err e)" and "accepted [] w fs w' fs'"
  | (taken) n where "r = Inr n" and "n \<le> length d" and "n = 0 \<longrightarrow> d = []" and "accepted (take n d) w fs w' fs'"
proof -
  obtain q w1 fs1 where q: "buf_write cap d w fs = (q, w1, fs1)" by (metis prod_cases3)
  then show ?thesis
  proof (cases rule: buf_write_accepted)
    case (failed e)
    with assms q that(1) show ?thesis by (auto simp: pos_write_def)
  next
    case (taken n)
    with assms q that(2) show ?thesis by (auto simp: pos_write_def)
  qed
qed

lemma pos_write_all_accepted:
  assumes "pos_write_all cap B d w fs = (r, w', fs')" and "bw_pos w + length d < 2 ^ 64"
  shows "r \<noteq> Inl Panic \<and> (\<exists>p q. d = p @ q \<and> accepted p w fs w' fs' \<and> (r = Inr () \<longrightarrow> q = []))"
  using assms
proof (induction cap B d w fs arbitrary: r rule: pos_write_all.induct)
  case (1 cap B d w fs)
  show ?case
  proof (cases "d = []")
    case True
    with 1 accepted_refl[of fs fs w] show ?thesis by (auto simp: pos_write_all.simps)
  next
    case False
    obtain q w1 fs1 where q: "pos_write cap B d w fs = (q, w1, fs1)" by (metis prod_cases3)
    from q 1(4) show ?thesis
    proof (cases rule: pos_write_accepted)
      case (failed e)
      show ?thesis
      proof (cases "e = OtherIo ''EINTR''")
        case True
        have pos: "bw_pos w1 + length d < 2 ^ 64" using failed(2) 1(4) by (simp add: accepted_def)
        have "pos_write_all cap B d w1 fs1 = (r, w', fs')"
          using 1(3) False q failed(1) True by (simp add: pos_write_all.simps[of cap B d w fs])
        from 1(1)[OF False q[symmetric] failed(1) refl _ this pos] True obtain p q where
          "r \<noteq> Inl Panic" "d = p @ q" "accepted p w1 fs1 w' fs'" "r = Inr () \<longrightarrow> q = []" by blast
        with accepted_trans[OF failed(2)] show ?thesis by (metis append_Nil)
      next
        case e: False
        with 1(3) False q failed have "r = Inl (Err e)" "w' = w1" "fs' = fs1" by (simp_all add: pos_write_all.simps[of cap B d w fs])
        with failed(2) show ?thesis by (intro conjI exI[of _ "[]"] exI[of _ d]) simp_all
      qed
    next
      case (taken n)
      then have n: "n \<noteq> 0" and pos: "bw_pos w1 = bw_pos w + n" using False by (auto simp: accepted_def)
      have "pos_write_all cap B (drop n d) w1 fs1 = (r, w', fs')"
        using 1(3) False q taken(1) n by (simp add: pos_write_all.simps[of cap B d w fs])
      moreover have "bw_pos w1 + length (drop n d) < 2 ^ 64" using pos 1(4) taken(2) by simp
      ultimately obtain p q where pq: "r \<noteq> Inl Panic" "drop n d = p @ q" "accepted p w1 fs1 w' fs'" "r = Inr () \<longrightarrow> q = []"
        using 1(2)[OF False q[symmetric] taken(1) refl n] by blast
      have "d = (take n d @ p) @ q" using pq(2) by (metis append.assoc append_take_drop_id)
      with accepted_trans[OF taken(4) pq(3)] pq(1,4) show ?thesis by blast
    qed
  qed
qed

lemma write_chunks_accepted:
  assumes "write_chunks cap B ds w fs = (r, w', fs')" and "bw_pos w + length (concat ds) < 2 ^ 64"
  shows "r \<noteq> Inl Panic \<and> (\<exists>p q. concat ds = p @ q \<and> accepted p w fs w' fs' \<and> (r = Inr () \<longrightarrow> q = []))"
  using assms
proof (induction ds arbitrary: w fs)
  case Nil
  with accepted_refl[of fs fs w] show ?case by auto
next
  case (Cons d ds)
  obtain a w1 fs1 where a: "pos_write_all cap B d w fs = (a, w1, fs1)" by (metis prod_cases3)
  with pos_write_all_accepted[OF a] Cons.prems obtain p q where
    p: "a \<noteq> Inl Panic" "d = p @ q" "accepted p w fs w1 fs1" "a = Inr () \<longrightarrow> q = []" by auto
  show ?case
  proof (cases a)
    case (Inl e)
    with Cons.prems a p show ?thesis by (intro conjI exI[of _ p] exI[of _ "q @ concat ds"]) auto
  next
    case (Inr u)
    then have d: "q = []" "p = d" using p by auto
    then have "bw_pos w1 = bw_pos w + length d" using p(3) by (simp add: accepted_def)
    with Cons.IH[of w1 fs1] Cons.prems a Inr obtain p' q' where
      "r \<noteq> Inl Panic" "concat ds = p' @ q'" "accepted p' w1 fs1 w' fs'" "r = Inr () \<longrightarrow> q' = []" by auto
    with accepted_trans[OF p(3)] d show ?thesis by (intro conjI exI[of _ "d @ p'"] exI[of _ q']) auto
  qed
qed

lemma chunk_append_accepted:
  assumes "chunk_append cap B ds w fs = (r, w', fs')" and "bw_pos w + length (concat ds) < 2 ^ 64"
  shows "r \<noteq> Inl Panic \<and> (\<exists>p q. concat ds = p @ q \<and> accepted p w fs w' fs' \<and>
    (\<forall>ix. r = Inr ix \<longrightarrow> q = [] \<and> bw_buf w' = [] \<and> ix = \<lparr>ix_len = length (concat ds), ix_pos = bw_pos w\<rparr>))"
proof -
  obtain a w1 fs1 where a: "write_chunks cap B ds w fs = (a, w1, fs1)" by (metis prod_cases3)
  from write_chunks_accepted[OF this assms(2)] obtain p q where
    p: "a \<noteq> Inl Panic" "concat ds = p @ q" "accepted p w fs w1 fs1" "a = Inr () \<longrightarrow> q = []" by blast
  show ?thesis
  proof (cases a)
    case (Inl e)
    with assms(1) a p(1) obtain x where "r = Inl (Err x)" "w' = w1" "fs' = fs1"
      by (cases e) (auto simp: chunk_append_def Let_def)
    with p show ?thesis by blast
  next
    case (Inr u)
    obtain b w2 fs2 where b: "flush_buf w1 fs1 = (b, w2, fs2)" by (metis prod_cases3)
    note f = flush_buf_accepted[OF b]
    have acc: "accepted p w fs w2 fs2" using accepted_trans[OF p(3)] f by fastforce
    have d: "q = []" "concat ds = p" using p Inr by auto
    show ?thesis
    proof (cases b)
      case err: (Inl e)
      with f have "e \<noteq> Panic" by simp
      with assms(1) a Inr b err obtain x where "r = Inl (Err x)" "w' = w2" "fs' = fs2"
        by (cases e) (auto simp: chunk_append_def Let_def pos_flush_def)
      with acc d show ?thesis by (intro conjI exI[of _ p] exI[of _ "[]"]) simp_all
    next
      case (Inr v)
      have "bw_pos w2 = bw_pos w + length p" using acc by (simp add: accepted_def)
      with assms(1) a \<open>a = Inr u\<close> b Inr have "r = Inr \<lparr>ix_len = length p, ix_pos = bw_pos w\<rparr>" "w' = w2" "fs' = fs2"
        by (auto simp: chunk_append_def Let_def pos_flush_def)
      with acc d f Inr show ?thesis by (intro conjI exI[of _ p] exI[of _ "[]"]) simp_all
    qed
  qed
qed

subsection \<open>Without failures\<close>

text \<open>A step that does not fail, in a file that stays within its limit.\<close>

definition roomy :: "nat \<Rightarrow> log_writer \<Rightarrow> fs \<Rightarrow> bool" where
  "roomy n w fs \<longleftrightarrow> faults fs = [] \<and> length (idata fs (bw_file w)) + length (bw_buf w) + n < 2 ^ 63"

lemma roomy_accepted:
  assumes "accepted p w fs w' fs'" and "roomy (length p + n) w fs" and "faults fs' = []"
  shows "roomy n w' fs'"
proof -
  from assms(1) obtain x where x: "idata fs' (bw_file w') = idata fs (bw_file w) @ x" "x @ bw_buf w' = bw_buf w @ p"
    by (auto simp: accepted_def)
  have "length x + length (bw_buf w') = length (bw_buf w) + length p" using arg_cong[OF x(2), of length] by simp
  with assms(2,3) x(1) show ?thesis by (simp add: roomy_def)
qed

lemma file_write_calm:
  assumes "faults fs = []" and "length (idata fs i) + length d < 2 ^ 63"
  shows "file_write i d fs = (Inr (length d), append_bytes i d fs)"
proof -
  have "int (length (idata fs i) + length d) < int (2 ^ 63)" using assms(2) by (simp only: of_nat_less_iff)
  then show ?thesis using assms(1) by (simp add: file_write_def in_i64_def)
qed

lemma write_file_calm:
  assumes "faults fs = []" and "length (idata fs i) + length d < 2 ^ 63"
  shows "write_file i d fs = (Inr (), length d, append_bytes i d fs)"
proof -
  have "int (length (idata fs i) + length d) < int (2 ^ 63)" using assms(2) by (simp only: of_nat_less_iff)
  then show ?thesis using assms(1) by (simp add: write_file_def in_i64_def)
qed

lemma flush_buf_calm: "roomy n w fs \<Longrightarrow> \<exists>w' fs'. flush_buf w fs = (Inr (), w', fs') \<and> faults fs' = []"
  by (cases "bw_buf w = []") (simp_all add: flush_buf.simps[of w] flush_buf.simps[of "w\<lparr>bw_buf := []\<rparr>"] roomy_def file_write_calm)

lemma buf_write_calm:
  assumes "roomy (length d) w fs"
  shows "\<exists>n w' fs'. buf_write cap d w fs = (Inr n, w', fs') \<and> faults fs' = []"
proof -
  obtain w1 fs1 where f: "flush_buf w fs = (Inr (), w1, fs1)" "faults fs1 = []" using flush_buf_calm[OF assms] by blast
  with flush_buf_accepted have "accepted [] w fs w1 fs1" by blast
  with roomy_accepted[of "[]" w fs w1 fs1 "length d"] assms f have "roomy (length d) w1 fs1" by simp
  then have "file_write (bw_file w1) d fs1 = (Inr (length d), append_bytes (bw_file w1) d fs1)"
    by (intro file_write_calm) (simp_all add: roomy_def)
  moreover have "file_write (bw_file w) d fs = (Inr (length d), append_bytes (bw_file w) d fs)"
    using assms by (intro file_write_calm) (simp_all add: roomy_def)
  ultimately show ?thesis using f assms by (auto simp: buf_write_def roomy_def)
qed

lemma pos_write_calm:
  assumes "roomy (length d) w fs" and "bw_pos w + length d < 2 ^ 64"
  shows "\<exists>n w' fs'. pos_write cap B d w fs = (Inr n, w', fs') \<and> faults fs' = []"
proof -
  obtain n w1 fs1 where b: "buf_write cap d w fs = (Inr n, w1, fs1)" "faults fs1 = []" using buf_write_calm[OF assms(1)] by blast
  from b(1) have "n \<le> length d" "bw_pos w1 = bw_pos w" by (auto elim: buf_write_accepted)
  with b assms(2) show ?thesis by (simp add: pos_write_def)
qed

lemma pos_write_all_calm:
  assumes "roomy (length d) w fs" and "bw_pos w + length d < 2 ^ 64"
  shows "\<exists>w' fs'. pos_write_all cap B d w fs = (Inr (), w', fs') \<and> faults fs' = []"
  using assms
proof (induction "length d" arbitrary: d w fs rule: less_induct)
  case less
  show ?case
  proof (cases "d = []")
    case True
    with less.prems show ?thesis by (simp add: pos_write_all.simps roomy_def)
  next
    case False
    obtain n w1 fs1 where q: "pos_write cap B d w fs = (Inr n, w1, fs1)" "faults fs1 = []"
      using pos_write_calm[OF less.prems] by blast
    from q(1) less.prems(2) have n: "n \<le> length d" "n \<noteq> 0" and acc: "accepted (take n d) w fs w1 fs1"
      using False by (auto elim: pos_write_accepted)
    have "roomy (length (drop n d)) w1 fs1"
      using roomy_accepted[OF acc, of "length (drop n d)"] less.prems(1) q(2) n by simp
    moreover have "bw_pos w1 + length (drop n d) < 2 ^ 64" using acc less.prems(2) n by (simp add: accepted_def)
    ultimately have "\<exists>w' fs'. pos_write_all cap B (drop n d) w1 fs1 = (Inr (), w', fs') \<and> faults fs' = []"
      using n False by (intro less.hyps) auto
    with q n False show ?thesis by (simp add: pos_write_all.simps[of cap B d w fs])
  qed
qed

lemma write_chunks_calm:
  assumes "roomy (length (concat ds)) w fs" and "bw_pos w + length (concat ds) < 2 ^ 64"
  shows "\<exists>w' fs'. write_chunks cap B ds w fs = (Inr (), w', fs') \<and> faults fs' = []"
  using assms
proof (induction ds arbitrary: w fs)
  case (Cons d ds)
  have "roomy (length d) w fs" "bw_pos w + length d < 2 ^ 64" using Cons.prems by (simp_all add: roomy_def)
  from pos_write_all_calm[OF this] obtain w1 fs1 where
    a: "pos_write_all cap B d w fs = (Inr (), w1, fs1)" "faults fs1 = []" by blast
  with pos_write_all_accepted[OF a(1)] Cons.prems(2) have acc: "accepted d w fs w1 fs1" by auto
  have "roomy (length (concat ds)) w1 fs1" using roomy_accepted[OF acc] Cons.prems(1) a(2) by simp
  moreover have "bw_pos w1 + length (concat ds) < 2 ^ 64" using acc Cons.prems(2) by (simp add: accepted_def)
  ultimately show ?case using Cons.IH a by simp
qed (simp add: roomy_def)

text \<open>With any capacity and in any pieces, an append is the coarse one.\<close>

lemma chunk_append_calm:
  assumes "roomy (length (concat ds)) w fs" and "bw_pos w + length (concat ds) < 2 ^ 64"
  shows "chunk_append cap B ds w fs = log_append B (concat ds) w fs"
proof -
  let ?d = "concat ds"
  obtain w1 fs1 where a: "write_chunks cap B ds w fs = (Inr (), w1, fs1)" "faults fs1 = []"
    using write_chunks_calm[OF assms] by blast
  with write_chunks_accepted[OF a(1) assms(2)] have acc: "accepted ?d w fs w1 fs1" by auto
  have "roomy 0 w1 fs1" using roomy_accepted[OF acc] assms(1) a(2) by simp
  then obtain w2 fs2 where b: "flush_buf w1 fs1 = (Inr (), w2, fs2)" "faults fs2 = []" using flush_buf_calm by blast
  with flush_buf_accepted[OF b(1)] accepted_trans[OF acc] have acc2: "accepted ?d w fs w2 fs2" and e: "bw_buf w2 = []"
    by fastforce+
  have w2: "w2 = w\<lparr>bw_pos := bw_pos w + length ?d, bw_buf := []\<rparr>" using acc2 e by (cases w; cases w2) (simp add: accepted_def)
  have fs2: "fs2 = append_bytes (bw_file w) (bw_buf w @ ?d) fs"
    using acc2 e b(2) assms(1) by (cases fs; cases fs2) (auto simp: accepted_def append_bytes_def roomy_def)
  have len: "length (idata fs (bw_file w)) + length (bw_buf w @ ?d) < 2 ^ 63" and nf: "faults fs = []"
    using assms(1) by (simp_all add: roomy_def)
  have "write_file (bw_file w) (bw_buf w @ ?d) fs = (Inr (), length (bw_buf w @ ?d), append_bytes (bw_file w) (bw_buf w @ ?d) fs)"
    using nf len by (rule write_file_calm)
  then have "log_append B ?d w fs = (Inr \<lparr>ix_len = length ?d, ix_pos = bw_pos w\<rparr>, w2, fs2)"
    using assms(2) w2 fs2 by (simp add: log_append_def bw_write_all_def bw_flush_def Let_def)
  moreover have "chunk_append cap B ds w fs = (Inr \<lparr>ix_len = length ?d, ix_pos = bw_pos w\<rparr>, w2, fs2)"
    using a b w2 by (simp add: chunk_append_def pos_flush_def Let_def)
  ultimately show ?thesis by simp
qed

end
