(* ===== verification/BufRead.thy ===== *)
theory BufRead
  imports BufIo
begin

section \<open>Buffered reading (src/storage/bitcask/bufio.rs)\<close>

text \<open>
  \<open>LogIterator\<close> over \<open>BufReaderWithPos\<close>: \<open>bincode\<close> asks for one piece after the other with
  \<open>read_exact\<close>, how long the next one is may depend on those before; each is filled from the
  buffer, and the buffer from the file.
\<close>

subsection \<open>What a decoder demands\<close>

datatype 'e demand = Give 'e | Reject codec_error | Take nat "bytes \<Rightarrow> 'e demand"

text \<open>On bytes in memory: the value and the number of bytes taken, as the decoders of \<open>deps\<close> give it.\<close>

primrec decode_bytes :: "'e demand \<Rightarrow> bytes \<Rightarrow> codec_error + 'e \<times> nat" where
  "decode_bytes (Give x) = (\<lambda>b. Inr (x, 0))"
| "decode_bytes (Reject e) = (\<lambda>b. Inl e)"
| "decode_bytes (Take n k) = (\<lambda>b.
     if length b < n then Inl UnexpectedEof
     else case decode_bytes (k (take n b)) (drop n b) of Inl e \<Rightarrow> Inl e | Inr (x, m) \<Rightarrow> Inr (x, n + m))"

subsection \<open>BufReader\<close>

text \<open>
  One \<open>File::read\<close> of at most \<open>n\<close> bytes; a fault \<open>Some (e, m)\<close> with \<open>m\<close> not zero is a short read. The
  reader has the offset of its file handle and what is left in its buffer.
\<close>

definition file_read :: "nat \<Rightarrow> nat \<Rightarrow> nat \<Rightarrow> fs \<Rightarrow> (io_error, bytes) result \<times> fs" where
  "file_read i off n fs =
     (case next_fault fs of
        (Some (e, m), fs') \<Rightarrow> (if m = 0 then Inl (Err e) else Inr (take (min m n) (drop off (idata fs i))), fs')
      | (None, fs') \<Rightarrow> (Inr (take n (drop off (idata fs i))), fs'))"

record buf_reader =
  rb_pos :: nat
  rb_file :: nat
  rb_off :: nat
  rb_buf :: bytes

definition buf_reader_new :: "nat \<Rightarrow> fs \<Rightarrow> (io_error, buf_reader) result \<times> fs" where
  "buf_reader_new i fs = sys_call fs (\<lambda>fs. (Inr \<lparr>rb_pos = 0, rb_file = i, rb_off = 0, rb_buf = []\<rparr>, fs))"

definition fill_buf :: "nat \<Rightarrow> buf_reader \<Rightarrow> fs \<Rightarrow> (io_error, unit) result \<times> buf_reader \<times> fs" where
  "fill_buf cap r fs =
     (if rb_buf r \<noteq> [] then (Inr (), r, fs)
      else case file_read (rb_file r) (rb_off r) cap fs of
        (Inl e, fs) \<Rightarrow> (Inl e, r, fs)
      | (Inr b, fs) \<Rightarrow> (Inr (), r\<lparr>rb_off := rb_off r + length b, rb_buf := b\<rparr>, fs))"

definition buf_read :: "nat \<Rightarrow> nat \<Rightarrow> buf_reader \<Rightarrow> fs \<Rightarrow> (io_error, bytes) result \<times> buf_reader \<times> fs" where
  "buf_read cap n r fs =
     (if rb_buf r = [] \<and> cap \<le> n
      then (case file_read (rb_file r) (rb_off r) n fs of
              (Inl e, fs) \<Rightarrow> (Inl e, r, fs)
            | (Inr b, fs) \<Rightarrow> (Inr b, r\<lparr>rb_off := rb_off r + length b\<rparr>, fs))
      else try_op (fill_buf cap r fs) (\<lambda>_ (r, fs).
             (Inr (take n (rb_buf r)), r\<lparr>rb_buf := drop n (rb_buf r)\<rparr>, fs)))"

subsection \<open>BufReaderWithPos and LogIterator\<close>

definition pos_read ::
    "nat \<Rightarrow> build \<Rightarrow> nat \<Rightarrow> buf_reader \<Rightarrow> fs \<Rightarrow> (io_error, bytes) result \<times> buf_reader \<times> fs" where
  "pos_read cap B n r fs =
     try_op (buf_read cap n r fs) (\<lambda>b (r, fs).
       case assign (u64_add B (rb_pos r) (length b)) (\<lambda>p r. r\<lparr>rb_pos := p\<rparr>) r of
         (q, r) \<Rightarrow> (and_then q (\<lambda>_. Inr b), r, fs))"

lemma file_read_less:
  assumes "file_read i off n fs = (q, fs')"
  shows "length (faults fs') \<le> length (faults fs)" and "q = Inl interrupted \<Longrightarrow> length (faults fs') < length (faults fs)"
  using assms next_fault_less[of fs] by (auto simp: file_read_def split: prod.splits option.splits if_splits)

lemma pos_read_less:
  assumes "pos_read cap B n r fs = (q, r', fs')"
  shows "length (faults fs') \<le> length (faults fs) \<and> (q = Inl interrupted \<longrightarrow> length (faults fs') < length (faults fs))"
proof -
  obtain x r1 fs1 where x: "buf_read cap n r fs = (x, r1, fs1)" by (metis prod_cases3)
  note less = file_read_less[of "rb_file r" "rb_off r" n fs] file_read_less[of "rb_file r" "rb_off r" cap fs]
  have "length (faults fs1) \<le> length (faults fs) \<and> (x = Inl interrupted \<longrightarrow> length (faults fs1) < length (faults fs))"
    using x less by (fastforce simp: buf_read_def fill_buf_def split: if_splits prod.splits sum.splits)
  with assms x show ?thesis
    by (cases x) (auto simp: pos_read_def u64_add_def split: if_splits)
qed

text \<open>\<open>read_exact\<close> of the trait \<open>std::io::Read\<close>.\<close>

function read_exact ::
    "nat \<Rightarrow> build \<Rightarrow> nat \<Rightarrow> buf_reader \<Rightarrow> fs \<Rightarrow> (codec_error, bytes) result \<times> buf_reader \<times> fs" where
  "read_exact cap B n r fs =
     (if n = 0 then (Inr [], r, fs)
      else case pos_read cap B n r fs of
        (Inr b, r', fs') \<Rightarrow>
          if b = [] then (Inl (Err UnexpectedEof), r', fs')
          else try_op (read_exact cap B (n - length b) r' fs') (\<lambda>c s. (Inr (b @ c), s))
      | (Inl e, r', fs') \<Rightarrow>
          if e = interrupted then read_exact cap B n r' fs' else (map_err CodecIo (Inl e), r', fs'))"
  by pat_completeness auto
termination
proof (relation "measure (\<lambda>(cap, B, n, r, fs). n + length (faults fs))", goal_cases)
  case (2 cap B n r fs q s e r' fs')
  then have q: "pos_read cap B n r fs = (Inl interrupted, r', fs')" by simp
  show ?case using pos_read_less[OF q] by simp
next
  case (3 cap B n r fs q s b r' fs')
  then have q: "pos_read cap B n r fs = (Inr b, r', fs')" by simp
  have "length (faults fs') \<le> length (faults fs)" using pos_read_less[OF q] by simp
  with 3 show ?case by (cases b) auto
qed simp

declare read_exact.simps [simp del]

primrec decode_reader ::
    "'e demand \<Rightarrow> nat \<Rightarrow> build \<Rightarrow> buf_reader \<Rightarrow> fs \<Rightarrow> (codec_error, 'e) result \<times> buf_reader \<times> fs" where
  "decode_reader (Give x) = (\<lambda>cap B r fs. (Inr x, r, fs))"
| "decode_reader (Reject e) = (\<lambda>cap B r fs. (Inl (Err e), r, fs))"
| "decode_reader (Take n k) = (\<lambda>cap B r fs.
     case read_exact cap B n r fs of
       (Inl e, r, fs) \<Rightarrow> (Inl e, r, fs)
     | (Inr b, r, fs) \<Rightarrow> decode_reader (k b) cap B r fs)"

definition reader_next ::
    "'e demand \<Rightarrow> nat \<Rightarrow> build \<Rightarrow> buf_reader \<Rightarrow> fs \<Rightarrow>
     (bc_error, (log_index \<times> 'e) option) result \<times> buf_reader \<times> fs" where
  "reader_next p cap B r fs =
     (let pos = rb_pos r in
      case decode_reader p cap B r fs of
        (Inr x, r, fs) \<Rightarrow>
          (and_then (u64_sub B (rb_pos r) pos) (\<lambda>len. Inr (Some (\<lparr>ix_len = len, ix_pos = pos\<rparr>, x))), r, fs)
      | (Inl e, r, fs) \<Rightarrow>
          (if e = Err UnexpectedEof then Inr None
           else if e = Err Oversized then Inl Panic
           else map_err Serialization (Inl e), r, fs))"

subsection \<open>It reads what is in the file\<close>

text \<open>\<open>synced\<close>: the buffer holds the bytes of the file between the position and the offset of the handle.\<close>

definition synced :: "buf_reader \<Rightarrow> fs \<Rightarrow> bool" where
  "synced r fs \<longleftrightarrow>
     (let b = idata fs (rb_file r) in rb_off r = rb_pos r + length (rb_buf r) \<and> rb_off r \<le> length b \<and> length b < 2 ^ 63 \<and>
      drop (rb_pos r) b = rb_buf r @ drop (rb_off r) b)"

abbreviation ahead :: "buf_reader \<Rightarrow> fs \<Rightarrow> bytes" where
  "ahead r fs \<equiv> drop (rb_pos r) (idata fs (rb_file r))"

text \<open>\<open>reads b\<close>: a step that returned the next bytes \<open>b\<close> of the file.\<close>

definition reads :: "bytes \<Rightarrow> buf_reader \<Rightarrow> fs \<Rightarrow> buf_reader \<Rightarrow> fs \<Rightarrow> bool" where
  "reads b r fs r' fs' \<longleftrightarrow>
     same_files fs fs' \<and> rb_file r' = rb_file r \<and> rb_pos r' = rb_pos r + length b \<and> synced r' fs' \<and> ahead r fs = b @ ahead r' fs'"

lemma reads_refl: "synced r fs \<Longrightarrow> same_files fs fs' \<Longrightarrow> reads [] r fs r fs'"
  by (simp add: reads_def synced_def same_files_def)

lemma reads_trans: "reads b r fs r1 fs1 \<Longrightarrow> reads c r1 fs1 r2 fs2 \<Longrightarrow> reads (b @ c) r fs r2 fs2"
  by (auto simp: reads_def intro: same_files_trans)

text \<open>A call of the file returns bytes at its offset, none only at the end or if none were asked for.\<close>

lemma file_read_cases:
  assumes "file_read i off n fs = (q, fs')"
  obtains (failed) e where "q = Inl (Err e)" and "same_files fs fs'" and "faults fs \<noteq> []"
  | (got) b c where "q = Inr b" and "same_files fs fs'" and "length b \<le> n" and "drop off (idata fs i) = b @ c"
      and "b = [] \<Longrightarrow> n = 0 \<or> drop off (idata fs i) = []"
proof -
  obtain f fs1 where f: "next_fault fs = (f, fs1)" by fastforce
  note same = next_fault_same[OF f]
  let ?d = "drop off (idata fs i)"
  have files: "idata fs1 = idata fs" using same by (simp add: same_files_def)
  show ?thesis
  proof (cases f)
    case None
    with assms f files have "q = Inr (take n ?d)" "fs' = fs1" by (simp_all add: file_read_def)
    with same that(2)[of "take n ?d" "drop n ?d"] show ?thesis by (auto simp del: drop_drop)
  next
    case (Some x)
    obtain e m where x: "x = (e, m)" by fastforce
    have ne: "faults fs \<noteq> []" using f Some by (auto simp: next_fault_def)
    show ?thesis
    proof (cases "m = 0")
      case True
      with assms f Some x same ne that(1) show ?thesis by (auto simp: file_read_def)
    next
      case False
      with assms f Some x files have "q = Inr (take (min m n) ?d)" "fs' = fs1" by (simp_all add: file_read_def)
      moreover have "length (take (min m n) ?d) \<le> n" by simp
      moreover have "take (min m n) ?d = [] \<Longrightarrow> n = 0 \<or> ?d = []" using False by (auto simp: min_def split: if_splits)
      moreover have "?d = take (min m n) ?d @ drop (min m n) ?d" by (simp only: append_take_drop_id)
      ultimately show ?thesis using same by (intro that(2)) (assumption | simp only:)+
    qed
  qed
qed

text \<open>\<open>read\<close> returns the next bytes, as many as it likes but not none.\<close>

lemma buf_read_cases:
  assumes "buf_read cap n r fs = (q, r', fs')" and r: "synced r fs" and n: "n \<noteq> 0"
  obtains (failed) e where "q = Inl (Err e)" and "reads [] r fs r' fs'" and "faults fs \<noteq> []"
  | (got) b where "q = Inr b" and "length b \<le> n" and "rb_pos r' = rb_pos r" and "reads b r fs (r'\<lparr>rb_pos := rb_pos r + length b\<rparr>) fs'"
      and "b = [] \<Longrightarrow> ahead r fs = []"
proof (cases "rb_buf r = [] \<and> cap \<le> n")
  case True
  obtain x fs1 where x: "file_read (rb_file r) (rb_off r) n fs = (x, fs1)" by fastforce
  from x show ?thesis
  proof (cases rule: file_read_cases)
    case (failed e)
    with assms(1) True x that(1) reads_refl[OF r] show ?thesis by (auto simp: buf_read_def)
  next
    case (got b c)
    have res: "q = Inr b" "r' = r\<lparr>rb_off := rb_off r + length b\<rparr>" "fs' = fs1" using assms(1) True x got(1) by (simp_all add: buf_read_def)
    have files: "idata fs1 = idata fs" using got(2) by (simp add: same_files_def)
    have off: "rb_off r = rb_pos r" "rb_pos r \<le> length (idata fs (rb_file r))" "length (idata fs (rb_file r)) < 2 ^ 63"
      using r True by (auto simp: synced_def Let_def)
    have b: "length b \<le> length (ahead r fs)" "ahead r fs = b @ drop (length b) (ahead r fs)"
      using got(4) off(1) by simp_all
    have "reads b r fs (r'\<lparr>rb_pos := rb_pos r + length b\<rparr>) fs'"
      using b off True files got(2) res by (auto simp: reads_def synced_def add.commute)
    moreover have "b = [] \<Longrightarrow> ahead r fs = []" using got(5) n off(1) by metis
    ultimately show ?thesis using res by (intro that(2)[OF res(1) got(3)]) simp_all
  qed
next
  case False
  obtain x r1 fs1 where x: "fill_buf cap r fs = (x, r1, fs1)" by (metis prod_cases3)
  have "(\<exists>e. x = Inl (Err e) \<and> r1 = r \<and> same_files fs fs1 \<and> faults fs \<noteq> []) \<or>
      (x = Inr () \<and> reads [] r fs r1 fs1 \<and> rb_pos r1 = rb_pos r \<and> (rb_buf r1 = [] \<longrightarrow> ahead r fs = []))"
  proof (cases "rb_buf r = []")
    case empty: True
    with False n have cap: "cap \<noteq> 0" by simp
    obtain y fs2 where y: "file_read (rb_file r) (rb_off r) cap fs = (y, fs2)" by fastforce
    from y show ?thesis
    proof (cases rule: file_read_cases)
      case (failed e)
      with empty x y show ?thesis by (auto simp: fill_buf_def)
    next
      case (got b c)
      have res: "x = Inr ()" "r1 = r\<lparr>rb_off := rb_off r + length b, rb_buf := b\<rparr>" "fs1 = fs2"
        using empty x y got(1) by (simp_all add: fill_buf_def)
      have files: "idata fs2 = idata fs" using got(2) by (simp add: same_files_def)
      have off: "rb_off r = rb_pos r" "rb_pos r \<le> length (idata fs (rb_file r))" "length (idata fs (rb_file r)) < 2 ^ 63"
        using r empty by (auto simp: synced_def Let_def)
      have b: "length b \<le> length (ahead r fs)" "ahead r fs = b @ drop (length b) (ahead r fs)"
        using got(4) off(1) by simp_all
      have "reads [] r fs r1 fs1" using b off files got(2) res by (auto simp: reads_def synced_def add.commute)
      with res got(5) cap off show ?thesis by auto
    qed
  next
    case some: False
    with x reads_refl[OF r same_files_refl] show ?thesis by (auto simp: fill_buf_def)
  qed
  then show ?thesis
  proof (elim disjE exE conjE)
    fix e assume "x = Inl (Err e)" "r1 = r" "same_files fs fs1" "faults fs \<noteq> []"
    with assms(1) False x that(1) reads_refl[OF r] show ?thesis by (auto simp: buf_read_def)
  next
    assume f: "x = Inr ()" "reads [] r fs r1 fs1" "rb_pos r1 = rb_pos r" "rb_buf r1 = [] \<longrightarrow> ahead r fs = []"
    let ?b = "take n (rb_buf r1)"
    have res: "q = Inr ?b" "r' = r1\<lparr>rb_buf := drop n (rb_buf r1)\<rparr>" "fs' = fs1" using assms(1) False x f(1) by (simp_all add: buf_read_def)
    let ?d = "idata fs1 (rb_file r1)"
    have s1: "rb_off r1 = rb_pos r1 + length (rb_buf r1)" "rb_off r1 \<le> length ?d" "length ?d < 2 ^ 63"
      "ahead r1 fs1 = rb_buf r1 @ drop (rb_off r1) ?d" using f(2) unfolding reads_def synced_def Let_def by blast+
    have "drop (rb_pos r1 + length ?b) ?d = drop (length ?b) (ahead r1 fs1)" by (simp only: drop_drop add.commute)
    also have "\<dots> = drop n (rb_buf r1) @ drop (rb_off r1) ?d" unfolding s1(4) by (cases "n \<le> length (rb_buf r1)") (simp_all add: s1(1))
    finally have next_d: "drop (rb_pos r1 + length ?b) ?d = drop n (rb_buf r1) @ drop (rb_off r1) ?d" .
    have "reads ?b r1 fs1 (r'\<lparr>rb_pos := rb_pos r + length ?b\<rparr>) fs1"
      unfolding reads_def synced_def Let_def using s1 f(3) next_d by (simp add: res del: drop_drop length_take)
        (simp add: min_def)
    from reads_trans[OF f(2) this] have "reads ?b r fs (r'\<lparr>rb_pos := rb_pos r + length ?b\<rparr>) fs'" using res by simp
    with that(2)[of ?b] res f(3,4) n show ?thesis by auto
  qed
qed

lemma pos_read_cases:
  assumes "pos_read cap B n r fs = (q, r', fs')" and "synced r fs" and "n \<noteq> 0"
  obtains (failed) e where "q = Inl (Err e)" and "reads [] r fs r' fs'" and "faults fs \<noteq> []"
  | (got) b where "q = Inr b" and "length b \<le> n" and "reads b r fs r' fs'" and "b = [] \<Longrightarrow> ahead r fs = []"
proof -
  obtain x r1 fs1 where x: "buf_read cap n r fs = (x, r1, fs1)" by (metis prod_cases3)
  from x assms(2,3) show ?thesis
  proof (cases rule: buf_read_cases)
    case (failed e)
    with assms(1) x that(1) show ?thesis by (auto simp: pos_read_def)
  next
    case (got b)
    let ?r = "r1\<lparr>rb_pos := rb_pos r + length b\<rparr>"
    have "synced ?r fs1" using got(4) by (simp add: reads_def)
    then have "rb_pos r + length b < 2 ^ 64" by (simp add: synced_def Let_def)
    with assms(1) x got(1,3) have "q = Inr b" "r' = ?r" "fs' = fs1" by (simp_all add: pos_read_def)
    with got that(2) show ?thesis by metis
  qed
qed

lemma read_exact_ok:
  assumes "read_exact cap B n r fs = (q, r', fs')" and "synced r fs"
  shows "(\<exists>b. reads b r fs r' fs' \<and>
      (case q of
         Inr c \<Rightarrow> c = b \<and> length b = n
       | Inl x \<Rightarrow> x = Err UnexpectedEof \<and> length (ahead r fs) < n \<or> (\<exists>e. x = Err (CodecIo e)) \<and> faults fs \<noteq> []))"
  using assms
proof (induction cap B n r fs arbitrary: q r' fs' rule: read_exact.induct)
  case (1 cap B n r fs)
  show ?case
  proof (cases "n = 0")
    case True
    with 1 reads_refl[OF 1(4) same_files_refl] show ?thesis by (auto simp: read_exact.simps)
  next
    case False
    obtain x r1 fs1 where x: "pos_read cap B n r fs = (x, r1, fs1)" by (metis prod_cases3)
    from x 1(4) False show ?thesis
    proof (cases rule: pos_read_cases)
      case (failed e)
      show ?thesis
      proof (cases "e = OtherIo ''EINTR''")
        case True
        have s1: "synced r1 fs1" and same: "ahead r fs = ahead r1 fs1" using failed(2) by (simp_all add: reads_def)
        have "read_exact cap B n r1 fs1 = (q, r', fs')"
          using 1(3) False x failed(1) True by (simp add: read_exact.simps[of cap B n r fs])
        from 1(1)[OF False x[symmetric] failed(1) refl _ this s1] True obtain b where
          b: "reads b r1 fs1 r' fs'" "case q of
             Inr c \<Rightarrow> c = b \<and> length b = n
           | Inl x \<Rightarrow> x = Err UnexpectedEof \<and> length (ahead r1 fs1) < n \<or> (\<exists>e. x = Err (CodecIo e)) \<and> faults fs1 \<noteq> []" by auto
        have "case q of
             Inr c \<Rightarrow> c = b \<and> length b = n
           | Inl x \<Rightarrow> x = Err UnexpectedEof \<and> length (ahead r fs) < n \<or> (\<exists>e. x = Err (CodecIo e)) \<and> faults fs \<noteq> []"
          using b(2) failed(3) unfolding same by (auto split: sum.splits)
        moreover have "reads b r fs r' fs'" using reads_trans[OF failed(2) b(1)] by simp
        ultimately show ?thesis by blast
      next
        case e: False
        with 1(3) False x failed(1) have "q = Inl (Err (CodecIo e))" "r' = r1" "fs' = fs1"
          by (simp_all add: read_exact.simps[of cap B n r fs])
        with failed show ?thesis by auto
      qed
    next
      case (got b)
      show ?thesis
      proof (cases "b = []")
        case True
        with 1(3) False x got have "q = Inl (Err UnexpectedEof)" "r' = r1" "fs' = fs1" "ahead r fs = []"
          by (simp_all add: read_exact.simps[of cap B n r fs])
        with got(3) True False show ?thesis by (intro exI[of _ "[]"]) simp
      next
        case b: False
        have s1: "synced r1 fs1" and front: "ahead r fs = b @ ahead r1 fs1" using got(3) by (simp_all add: reads_def)
        have faults: "faults fs1 \<noteq> [] \<Longrightarrow> faults fs \<noteq> []" using got(3) by (auto simp: reads_def same_files_def)
        obtain y r2 fs2 where y: "read_exact cap B (n - length b) r1 fs1 = (y, r2, fs2)" by (metis prod_cases3)
        from 1(2)[OF False x[symmetric] got(1) refl b y s1] obtain c where
          c: "reads c r1 fs1 r2 fs2" "case y of
             Inr d \<Rightarrow> d = c \<and> length c = n - length b
           | Inl x \<Rightarrow> x = Err UnexpectedEof \<and> length (ahead r1 fs1) < n - length b \<or> (\<exists>e. x = Err (CodecIo e)) \<and> faults fs1 \<noteq> []"
          by blast
        have "try_op (y, r2, fs2) (\<lambda>c s. (Inr (b @ c), s)) = (q, r', fs')"
          using 1(3) unfolding read_exact.simps[of cap B n r fs] x got(1) by (simp add: False b y)
        then have "r' = r2 \<and> fs' = fs2 \<and> q = (case y of Inl e \<Rightarrow> Inl e | Inr c \<Rightarrow> Inr (b @ c))"
          by (cases y) auto
        then have res: "r' = r2" "fs' = fs2" "q = (case y of Inl e \<Rightarrow> Inl e | Inr c \<Rightarrow> Inr (b @ c))" by blast+
        have "case q of
             Inr d \<Rightarrow> d = b @ c \<and> length (b @ c) = n
           | Inl x \<Rightarrow> x = Err UnexpectedEof \<and> length (ahead r fs) < n \<or> (\<exists>e. x = Err (CodecIo e)) \<and> faults fs \<noteq> []"
          using c(2) got(2) faults unfolding res front by (cases y) auto
        moreover have "reads (b @ c) r fs r' fs'" using reads_trans[OF got(3) c(1)] res by simp
        ultimately show ?thesis by blast
      qed
    qed
  qed
qed

text \<open>Whatever the pieces, a value that is returned is the one in the file.\<close>

lemma decode_reader_ok:
  assumes "decode_reader p cap B r fs = (q, r', fs')" and "synced r fs"
  shows "(\<exists>b. reads b r fs r' fs' \<and>
      (case q of
         Inr x \<Rightarrow> decode_bytes p (ahead r fs) = Inr (x, length b)
       | Inl x \<Rightarrow> (\<exists>e. x = Err e \<and> (decode_bytes p (ahead r fs) = Inl e \<or> (\<exists>io. e = CodecIo io) \<and> faults fs \<noteq> []))))"
  using assms
proof (induction p arbitrary: r fs)
  case (Give x)
  with reads_refl[OF Give(2) same_files_refl] show ?case by (auto intro!: exI[of _ "[]"])
next
  case (Reject e)
  with reads_refl[OF Reject(2) same_files_refl] show ?case by (auto intro!: exI[of _ "[]"])
next
  case (Take n k)
  obtain x r1 fs1 where x: "read_exact cap B n r fs = (x, r1, fs1)" by (metis prod_cases3)
  from read_exact_ok[OF this Take.prems(2)] obtain b where b: "reads b r fs r1 fs1" "case x of
      Inr c \<Rightarrow> c = b \<and> length b = n
    | Inl x \<Rightarrow> x = Err UnexpectedEof \<and> length (ahead r fs) < n \<or> (\<exists>e. x = Err (CodecIo e)) \<and> faults fs \<noteq> []" by blast
  show ?case
  proof (cases x)
    case (Inl e)
    with Take.prems(1) x have "q = Inl e" "r' = r1" "fs' = fs1" by simp_all
    with b Inl show ?thesis by (intro exI[of _ b]) (auto simp del: length_drop)
  next
    case (Inr c)
    then have c: "c = b" "length b = n" using b(2) by simp_all
    have s1: "synced r1 fs1" and front: "ahead r fs = b @ ahead r1 fs1" using b(1) by (simp_all add: reads_def)
    have faults: "faults fs1 \<noteq> [] \<Longrightarrow> faults fs \<noteq> []" using b(1) by (auto simp: reads_def same_files_def)
    from Take.prems(1) x Inr have "decode_reader (k b) cap B r1 fs1 = (q, r', fs')" using c by simp
    from Take.IH[OF _ this s1] obtain d where d: "reads d r1 fs1 r' fs'" "case q of
        Inr x \<Rightarrow> decode_bytes (k b) (ahead r1 fs1) = Inr (x, length d)
      | Inl x \<Rightarrow> (\<exists>e. x = Err e \<and> (decode_bytes (k b) (ahead r1 fs1) = Inl e \<or> (\<exists>io. e = CodecIo io) \<and> faults fs1 \<noteq> []))"
      by auto
    have "decode_bytes (Take n k) (ahead r fs) = (case decode_bytes (k b) (ahead r1 fs1) of Inl e \<Rightarrow> Inl e | Inr (x, m) \<Rightarrow> Inr (x, n + m))"
      unfolding front using c(2) by simp
    then have "case q of
        Inr x \<Rightarrow> decode_bytes (Take n k) (ahead r fs) = Inr (x, length (b @ d))
      | Inl x \<Rightarrow> (\<exists>e. x = Err e \<and> (decode_bytes (Take n k) (ahead r fs) = Inl e \<or> (\<exists>io. e = CodecIo io) \<and> faults fs \<noteq> []))"
      using d(2) c(2) faults by (cases q) (auto simp del: decode_bytes.simps)
    with reads_trans[OF b(1) d(1)] show ?thesis by blast
  qed
qed

text \<open>\<open>LogIterator::next\<close>: what it returns is in the file; without failures it is what \<open>log_next\<close> returns.\<close>

lemma reader_next_cases:
  assumes "reader_next p cap B r fs = (q, r', fs')" and "synced r fs"
  shows "synced r' fs' \<and> same_files fs fs' \<and> rb_file r' = rb_file r \<and>
    ((\<exists>x n. decode_bytes p (ahead r fs) = Inr (x, n) \<and> q = Inr (Some (\<lparr>ix_len = n, ix_pos = rb_pos r\<rparr>, x)) \<and> rb_pos r' = rb_pos r + n) \<or>
     decode_bytes p (ahead r fs) = Inl UnexpectedEof \<and> q = Inr None \<or>
     decode_bytes p (ahead r fs) = Inl Oversized \<and> q = Inl Panic \<or>
     (\<exists>e. e \<noteq> UnexpectedEof \<and> e \<noteq> Oversized \<and> q = Inl (Err (Serialization e)) \<and>
        (decode_bytes p (ahead r fs) = Inl e \<or> (\<exists>io. e = CodecIo io) \<and> faults fs \<noteq> [])))"
proof -
  obtain y r1 fs1 where y: "decode_reader p cap B r fs = (y, r1, fs1)" by (metis prod_cases3)
  from decode_reader_ok[OF this assms(2)] obtain b where b: "reads b r fs r1 fs1" "case y of
      Inr x \<Rightarrow> decode_bytes p (ahead r fs) = Inr (x, length b)
    | Inl x \<Rightarrow> (\<exists>e. x = Err e \<and> (decode_bytes p (ahead r fs) = Inl e \<or> (\<exists>io. e = CodecIo io) \<and> faults fs \<noteq> []))" by blast
  have r1: "synced r1 fs1" "same_files fs fs1" "rb_file r1 = rb_file r" "rb_pos r1 = rb_pos r + length b"
    using b(1) by (simp_all add: reads_def)
  have rest: "r' = r1 \<and> fs' = fs1" using assms(1) y by (cases y) (auto simp: reader_next_def Let_def)
  show ?thesis
  proof (cases y)
    case (Inl x)
    with b(2) obtain e where e: "x = Err e" "decode_bytes p (ahead r fs) = Inl e \<or> (\<exists>io. e = CodecIo io) \<and> faults fs \<noteq> []" by auto
    with assms(1) y Inl have "q = (if e = UnexpectedEof then Inr None else if e = Oversized then Inl Panic else Inl (Err (Serialization e)))"
      by (auto simp: reader_next_def Let_def)
    with e rest r1 show ?thesis by auto
  next
    case (Inr x)
    with assms(1) y r1(4) have "q = Inr (Some (\<lparr>ix_len = length b, ix_pos = rb_pos r\<rparr>, x))"
      by (auto simp: reader_next_def Let_def)
    with b(2) Inr rest r1 show ?thesis by simp
  qed
qed

lemma reader_next_calm:
  assumes "reader_next p cap B r fs = (q, r', fs')" and "synced r fs" and "faults fs = []"
    and "log_next (decode_bytes p) B \<lparr>it_pos = rb_pos r, it_file = rb_file r\<rparr> fs = (q2, it, fs2)"
  shows "q = q2 \<and> fs' = fs2 \<and> (\<forall>x. q = Inr (Some x) \<longrightarrow> it = \<lparr>it_pos = rb_pos r', it_file = rb_file r'\<rparr>)"
proof -
  note c = reader_next_cases[OF assms(1,2)]
  have fs: "fs' = fs" using c assms(3) by (cases fs; cases fs') (simp add: same_files_def)
  have small: "rb_pos r' < 2 ^ 64" using c by (auto simp: synced_def Let_def)
  from c assms(3) consider
    (found) x n where "decode_bytes p (ahead r fs) = Inr (x, n)" "q = Inr (Some (\<lparr>ix_len = n, ix_pos = rb_pos r\<rparr>, x))" "rb_pos r' = rb_pos r + n"
  | (eof) "decode_bytes p (ahead r fs) = Inl UnexpectedEof" "q = Inr None"
  | (oversized) "decode_bytes p (ahead r fs) = Inl Oversized" "q = Inl Panic"
  | (error) e where "decode_bytes p (ahead r fs) = Inl e" "e \<noteq> UnexpectedEof" "e \<noteq> Oversized" "q = Inl (Err (Serialization e))"
    by auto
  then show ?thesis
  proof cases
    case found
    with assms(3,4) small fs c show ?thesis by (auto simp: log_next_def Let_def)
  next
    case eof
    with assms(3,4) fs show ?thesis by (auto simp: log_next_def Let_def)
  next
    case oversized
    with assms(3,4) fs show ?thesis by (auto simp: log_next_def Let_def)
  next
    case (error e)
    with assms(3,4) fs show ?thesis by (cases e) (auto simp: log_next_def Let_def)
  qed
qed

end
