(* ===== verification/BufCodec.thy ===== *)
theory BufCodec
  imports BufRead Bincode
begin

section \<open>The decoders as sequences of reads\<close>

text \<open>The decoders of the concrete codec, and of a \<open>Vec<u8>\<close>, are of this kind.\<close>

definition demand_u64 :: "(nat \<Rightarrow> 'e demand) \<Rightarrow> 'e demand" where
  "demand_u64 k = Take 8 (\<lambda>b. k (nat (le_val b)))"

definition demand_i64 :: "(int \<Rightarrow> 'e demand) \<Rightarrow> 'e demand" where
  "demand_i64 k = Take 8 (\<lambda>b. let v = le_val b in k (if v < 2 ^ 63 then v else v - 2 ^ 64))"

definition demand_vec :: "(bytes \<Rightarrow> 'e demand) \<Rightarrow> 'e demand" where
  "demand_vec k = demand_u64 (\<lambda>n. if int n < 2 ^ 63 then Take n k else Reject Oversized)"

definition demand_option :: "(bytes option \<Rightarrow> 'e demand) \<Rightarrow> 'e demand" where
  "demand_option k =
     Take 1 (\<lambda>t. if t = [0] then k None else if t = [1] then demand_vec (\<lambda>v. k (Some v)) else Reject Malformed)"

definition demand_data :: "data_entry demand" where
  "demand_data =
     demand_i64 (\<lambda>t. demand_vec (\<lambda>k. demand_option (\<lambda>v. Give \<lparr>d_tstamp = t, d_key = k, d_value = v\<rparr>)))"

definition demand_hint :: "hint_entry demand" where
  "demand_hint =
     demand_i64 (\<lambda>t. demand_u64 (\<lambda>l. demand_u64 (\<lambda>p. demand_vec (\<lambda>k.
       Give \<lparr>h_tstamp = t, h_len = l, h_pos = p, h_key = k\<rparr>))))"

text \<open>\<open>means d p\<close>: the demand \<open>d\<close> decodes as the parser \<open>p\<close> does.\<close>

definition means :: "'e demand \<Rightarrow> 'e parser \<Rightarrow> bool" where
  "means d p \<longleftrightarrow> (\<forall>b. decode_bytes d b = decoder p b \<and> (\<forall>x rest. p b = Inr (x, rest) \<longrightarrow> length rest \<le> length b))"

lemma means_Give: "means (Give x) (\<lambda>b. Inr (x, b))"
  by (simp add: means_def decoder_def)

lemma means_behind:
  assumes "means d p" and "length b = n + length c"
  shows "(case decode_bytes d c of Inl e \<Rightarrow> Inl e | Inr (x, m) \<Rightarrow> Inr (x, n + m)) =
      (case p c of Inl e \<Rightarrow> Inl e | Inr (x, rest) \<Rightarrow> Inr (x, length b - length rest))"
    and "p c = Inr (x, rest) \<Longrightarrow> length rest \<le> length b"
proof -
  from assms(1) have d: "decode_bytes d c = decoder p c" and le: "\<And>x rest. p c = Inr (x, rest) \<Longrightarrow> length rest \<le> length c"
    by (simp_all add: means_def)
  show "(case decode_bytes d c of Inl e \<Rightarrow> Inl e | Inr (x, m) \<Rightarrow> Inr (x, n + m)) =
      (case p c of Inl e \<Rightarrow> Inl e | Inr (x, rest) \<Rightarrow> Inr (x, length b - length rest))"
    unfolding d decoder_def using assms(2) by (cases "p c") (auto dest: le)
  show "p c = Inr (x, rest) \<Longrightarrow> length rest \<le> length b" using le assms(2) by fastforce
qed

lemma means_Take:
  assumes "\<And>b. length b = n \<Longrightarrow> means (d b) (p b)"
  shows "means (Take n d) (bind_parser (take_bytes n) p)"
  unfolding means_def
proof
  fix b
  show "decode_bytes (Take n d) b = decoder (bind_parser (take_bytes n) p) b \<and>
    (\<forall>x rest. bind_parser (take_bytes n) p b = Inr (x, rest) \<longrightarrow> length rest \<le> length b)"
  proof (cases "length b < n")
    case False
    then have "means (d (take n b)) (p (take n b))" "length b = n + length (drop n b)" by (simp_all add: assms)
    note behind = means_behind[OF this]
    from False behind(1) have "decode_bytes (Take n d) b = decoder (bind_parser (take_bytes n) p) b"
      by (simp add: decoder_def take_bytes_def)
    moreover have "bind_parser (take_bytes n) p b = p (take n b) (drop n b)" using False by (simp add: take_bytes_def)
    ultimately show ?thesis using behind(2) by simp
  qed (simp add: decoder_def take_bytes_def)
qed

lemma means_u64:
  assumes "\<And>n. means (d n) (p n)"
  shows "means (demand_u64 d) (bind_parser get_u64 p)"
proof -
  have "bind_parser get_u64 p = bind_parser (take_bytes 8) (\<lambda>b. p (nat (le_val b)))"
    by (auto simp: fun_eq_iff get_u64_def take_bytes_def)
  then show ?thesis unfolding demand_u64_def by (simp only:) (rule means_Take, rule assms)
qed

lemma means_i64:
  assumes "\<And>n. means (d n) (p n)"
  shows "means (demand_i64 d) (bind_parser get_i64 p)"
proof -
  have "bind_parser get_i64 p = bind_parser (take_bytes 8) (\<lambda>b. let v = le_val b in p (if v < 2 ^ 63 then v else v - 2 ^ 64))"
    by (auto simp: fun_eq_iff get_i64_def take_bytes_def Let_def)
  then show ?thesis unfolding demand_i64_def Let_def by (simp only:) (rule means_Take, rule assms)
qed

lemma bind_parser_assoc: "bind_parser (bind_parser p f) g = bind_parser p (\<lambda>x. bind_parser (f x) g)"
  by (auto simp: fun_eq_iff split: sum.split)

lemma means_vec:
  assumes "\<And>v. means (d v) (p v)"
  shows "means (demand_vec d) (bind_parser get_bytes p)"
proof -
  have "means (if int n < 2 ^ 63 then Take n d else Reject Oversized)
      (bind_parser (if int n < 2 ^ 63 then take_bytes n else (\<lambda>b. Inl Oversized)) p)" for n
  proof (cases "int n < 2 ^ 63")
    case True
    have "means (Take n d) (bind_parser (take_bytes n) p)" by (rule means_Take, rule assms)
    with True show ?thesis by simp
  next
    case False
    then show ?thesis by (simp add: means_def decoder_def)
  qed
  then show ?thesis unfolding demand_vec_def get_bytes_def bind_parser_assoc by (rule means_u64)
qed

lemma means_option:
  assumes "\<And>v. means (d v) (p v)"
  shows "means (demand_option d) (bind_parser get_option p)"
proof -
  have none: "means (d None) (p None)" by (rule assms)
  have some: "means (demand_vec (\<lambda>v. d (Some v))) (bind_parser get_bytes (\<lambda>v. p (Some v)))" by (rule means_vec, rule assms)
  have "decode_bytes (demand_option d) b = decoder (bind_parser get_option p) b \<and>
      (\<forall>x rest. bind_parser get_option p b = Inr (x, rest) \<longrightarrow> length rest \<le> length b)" for b
  proof (cases b)
    case Nil
    then show ?thesis by (simp add: demand_option_def decoder_def)
  next
    case (Cons t c)
    show ?thesis
    proof (cases "t = 0 \<or> t = 1")
      case True
      define e q where "e = (if t = 0 then d None else demand_vec (\<lambda>v. d (Some v)))"
        and "q = (if t = 0 then p None else bind_parser get_bytes (\<lambda>v. p (Some v)))"
      have "means e q" using none some by (simp add: e_def q_def)
      moreover have "length b = Suc 0 + length c" using Cons by simp
      ultimately have behind: "(case decode_bytes e c of Inl x \<Rightarrow> Inl x | Inr (x, m) \<Rightarrow> Inr (x, Suc 0 + m)) =
          (case q c of Inl x \<Rightarrow> Inl x | Inr (x, rest) \<Rightarrow> Inr (x, length b - length rest))"
        "\<And>x rest. q c = Inr (x, rest) \<Longrightarrow> length rest \<le> length b"
        by (rule means_behind)+
      have "bind_parser get_option p b = q c" using Cons True by (auto simp: q_def split: sum.split)
      moreover have "decode_bytes (demand_option d) b = (case decode_bytes e c of Inl x \<Rightarrow> Inl x | Inr (x, m) \<Rightarrow> Inr (x, Suc 0 + m))"
        using Cons True by (auto simp: demand_option_def e_def)
      ultimately show ?thesis using behind by (simp only: decoder_def) blast
    qed (use Cons in \<open>simp add: demand_option_def decoder_def\<close>)
  qed
  then show ?thesis by (simp add: means_def)
qed

lemma codec_demands: "dec_data bincode_lru = decode_bytes demand_data" "dec_hint bincode_lru = decode_bytes demand_hint"
proof -
  have "means demand_data get_data" unfolding demand_data_def get_data_def
    by (rule means_i64 means_vec means_option means_Give)+
  then show "dec_data bincode_lru = decode_bytes demand_data" by (simp add: means_def bincode_lru_def fun_eq_iff)
  have "means demand_hint get_hint" unfolding demand_hint_def get_hint_def
    by (rule means_i64 means_u64 means_vec means_Give)+
  then show "dec_hint bincode_lru = decode_bytes demand_hint" by (simp add: means_def bincode_lru_def fun_eq_iff)
qed

end
