(* ===== verification/BufProperties.thy ===== *)
theory BufProperties
  imports BufCodec Demo StorageProperties
begin

section \<open>Properties of the buffered files\<close>

text \<open>
  The writer and the iterator of src/storage/bitcask/log.rs over buffers of any capacity, against
  \<open>log_append\<close> and \<open>log_next\<close>, which the storage engine is modelled with.
\<close>

text \<open>C35: an entry is appended in whatever pieces it is serialized and whatever the capacity of the
  buffer is: when no system call fails and the file stays within its limit, index, position,
  buffer and file are those of appending it in one piece.\<close>

theorem append_in_pieces:
  assumes "faults fs = []" and "length (idata fs (bw_file w)) + length (bw_buf w) + length (concat ds) < 2 ^ 63"
    and "bw_pos w + length (concat ds) < 2 ^ 64"
  shows "chunk_append capacity B ds w fs = log_append B (concat ds) w fs"
  using assms by (intro chunk_append_calm) (simp_all add: roomy_def)

definition demo_writer :: log_writer where
  "demo_writer = \<lparr>bw_pos = 0, bw_file = 0, bw_buf = []\<rparr>"

theorem append_in_pieces_witness:
  "chunk_append 3 release_build [[1, 2], [3], [4, 5, 6, 7], []] demo_writer empty_fs
     = log_append release_build [1, 2, 3, 4, 5, 6, 7] demo_writer empty_fs"
  by (subst append_in_pieces) (simp_all add: demo_writer_def empty_fs_def)

text \<open>C34: an append under any failures, short writes and interruptions. What reached the file and what is
  left in the buffer are together what was there before followed by a beginning of the entry,
  which the position counts; nothing else of the directory changes; and an append that succeeds
  has the whole entry in the file and nothing in the buffer.\<close>

theorem append_under_failures:
  assumes "chunk_append capacity B ds w fs = (r, w', fs')" and "bw_pos w + length (concat ds) < 2 ^ 64"
  shows "r \<noteq> Inl Panic \<and> dir fs' = dir fs \<and> (\<forall>i. i \<noteq> bw_file w \<longrightarrow> idata fs' i = idata fs i) \<and>
    (\<exists>written accepted rest. concat ds = accepted @ rest \<and> written @ bw_buf w' = bw_buf w @ accepted \<and>
       idata fs' (bw_file w) = idata fs (bw_file w) @ written \<and> bw_pos w' = bw_pos w + length accepted \<and>
       (\<forall>ix. r = Inr ix \<longrightarrow> rest = [] \<and> bw_buf w' = [] \<and> ix = \<lparr>ix_len = length (concat ds), ix_pos = bw_pos w\<rparr>))"
proof -
  from chunk_append_accepted[OF assms] obtain p q where p: "r \<noteq> Inl Panic" "concat ds = p @ q" "accepted p w fs w' fs'"
    "\<forall>ix. r = Inr ix \<longrightarrow> q = [] \<and> bw_buf w' = [] \<and> ix = \<lparr>ix_len = length (concat ds), ix_pos = bw_pos w\<rparr>" by blast
  from p(3) obtain x where x: "idata fs' = (idata fs)(bw_file w := idata fs (bw_file w) @ x)" "x @ bw_buf w' = bw_buf w @ p"
    and acc: "bw_pos w' = bw_pos w + length p" "dir fs' = dir fs" by (auto simp: accepted_def)
  have "idata fs' (bw_file w) = idata fs (bw_file w) @ x" "\<forall>i. i \<noteq> bw_file w \<longrightarrow> idata fs' i = idata fs i" using x(1) by simp_all
  with p x(2) acc show ?thesis by blast
qed

text \<open>The first write of five bytes is short, the next one is interrupted, the third one fails.\<close>

definition failing_fs :: fs where
  "failing_fs = empty_fs\<lparr>faults := [Some (OtherIo ''short'', 2), Some (OtherIo ''EINTR'', 0), Some (OtherIo ''ENOSPC'', 0)]\<rparr>"

theorem append_under_failures_witness:
  "\<exists>written accepted rest. [1, 2, 3, 4, 5, 6 :: byte] = accepted @ rest \<and>
     written @ bw_buf (fst (snd (chunk_append 3 release_build [[1, 2, 3, 4, 5], [6]] demo_writer failing_fs))) = accepted"
proof -
  let ?x = "chunk_append 3 release_build [[1, 2, 3, 4, 5], [6]] demo_writer failing_fs"
  have "?x = (fst ?x, fst (snd ?x), snd (snd ?x))" by simp
  from append_under_failures[OF this] show ?thesis by (auto simp: demo_writer_def)
qed

text \<open>C36: the iterator over a buffered reader, under any short reads, interruptions and failures: an entry
  that it returns is the one at its position in the file, an end that it reports is there, and an
  error is one of the bytes or of a system call; it panics only where the bytes there claim a length
  that no buffer can have; without failures it returns what the
  iterator of the model returns and moves to the same place.\<close>

theorem iterator_reads_file:
  assumes "synced r fs" and "reader_next p capacity B r fs = (q, r', fs')"
  shows "synced r' fs' \<and> idata fs' = idata fs \<and> rb_file r' = rb_file r \<and>
    (q = Inl Panic \<longrightarrow> decode_bytes p (drop (rb_pos r) (idata fs (rb_file r))) = Inl Oversized) \<and>
    (\<forall>ix x. q = Inr (Some (ix, x)) \<longrightarrow> ix_pos ix = rb_pos r \<and> rb_pos r' = ix_pos ix + ix_len ix \<and>
       decode_bytes p (drop (rb_pos r) (idata fs (rb_file r))) = Inr (x, ix_len ix)) \<and>
    (q = Inr None \<longrightarrow> decode_bytes p (drop (rb_pos r) (idata fs (rb_file r))) = Inl UnexpectedEof) \<and>
    (faults fs = [] \<longrightarrow> (case log_next (decode_bytes p) B \<lparr>it_pos = rb_pos r, it_file = rb_file r\<rparr> fs of
       (q2, it, fs2) \<Rightarrow> q2 = q \<and> fs2 = fs' \<and> (\<forall>x. q = Inr (Some x) \<longrightarrow> it = \<lparr>it_pos = rb_pos r', it_file = rb_file r'\<rparr>)))"
proof -
  obtain q2 it fs2 where l: "log_next (decode_bytes p) B \<lparr>it_pos = rb_pos r, it_file = rb_file r\<rparr> fs = (q2, it, fs2)"
    by (metis prod_cases3)
  note calm = reader_next_calm[OF assms(2,1) _ l]
  show ?thesis using reader_next_cases[OF assms(2,1)] calm unfolding l by (auto simp: same_files_def)
qed

text \<open>Two entries in a file, read with a buffer of four bytes after a short read and an interruption.\<close>

definition two_entries :: fs where
  "two_entries = empty_fs\<lparr>idata := (\<lambda>_. []) (0 :=
       put_data \<lparr>d_tstamp = 5, d_key = [1], d_value = Some [2]\<rparr> @ put_data \<lparr>d_tstamp = 6, d_key = [1], d_value = None\<rparr>),
     faults := [Some (OtherIo ''short'', 2), Some (OtherIo ''EINTR'', 0)]\<rparr>"

definition start_reader :: buf_reader where
  "start_reader = \<lparr>rb_pos = 0, rb_file = 0, rb_off = 0, rb_buf = []\<rparr>"

theorem iterator_reads_file_witness:
  "decode_bytes demand_data (idata two_entries 0) = Inr (\<lparr>d_tstamp = 5, d_key = [1], d_value = Some [2]\<rparr>, 27)"
proof -
  let ?x = "reader_next demand_data 4 release_build start_reader two_entries"
  have r: "?x = (fst ?x, fst (snd ?x), snd (snd ?x))" by simp
  have s: "synced start_reader two_entries"
    by (simp add: synced_def start_reader_def two_entries_def empty_fs_def put_data_def put_bytes_def put_u64_def)
  have "fst ?x = Inr (Some (\<lparr>ix_len = 27, ix_pos = 0\<rparr>, \<lparr>d_tstamp = 5, d_key = [1], d_value = Some [2]\<rparr>))" by code_simp
  with iterator_reads_file[OF s r] show ?thesis by (simp add: start_reader_def)
qed

subsection \<open>An append that fails in the middle\<close>

text \<open>The pieces in which \<open>bincode\<close> writes an entry.\<close>

definition data_pieces :: "data_entry \<Rightarrow> bytes list" where
  "data_pieces e =
     [le_bytes 8 (d_tstamp e), put_u64 (length (d_key e)), d_key e] @
     (case d_value e of None \<Rightarrow> [[0]] | Some v \<Rightarrow> [[1], put_u64 (length v), v])"

lemma data_pieces: "concat (data_pieces e) = enc_data codec e"
  by (simp add: data_pieces_def bincode_lru_def put_data_def put_bytes_def split: option.split)

definition long_entry :: data_entry where
  "long_entry = \<lparr>d_tstamp = 8, d_key = [1], d_value = Some (replicate 16 9)\<rparr>"

definition short_entry :: data_entry where
  "short_entry = \<lparr>d_tstamp = 8, d_key = [2], d_value = Some [3]\<rparr>"

definition full_fs :: fs where
  "full_fs = empty_fs\<lparr>dir := [(datafile_name 1, 0)], inext := 1, faults := [None, None, Some (OtherIo ''ENOSPC'', 0)]\<rparr>"

definition torn_log :: "(bc_error, log_index) result \<times> (bc_error, log_index) result \<times> fs" where
  "torn_log =
     (case chunk_append 16 release_build (data_pieces long_entry) demo_writer full_fs of
        (r, w, fs) \<Rightarrow> (case chunk_append 16 release_build (data_pieces short_entry) w fs of (r', w', fs') \<Rightarrow> (r, r', fs')))"

definition torn_open :: "lru storage" where
  "torn_open = demo_open (snd (snd torn_log))"

text \<open>The writer keeps what it had accepted of an entry when a piece of it fails, and the next entry is
  appended behind that. The first entry here has a value longer than the buffer, whose header
  reached the file when the device was full; the put fails. The next put succeeds. After the
  storage is opened again, its key is not there and the key of the failed put has a value
  made of the bytes of the other entry.\<close>

lemma failed_append_corrupts_log:
  "fst torn_log = Inl (Err (Serialization (CodecIo (OtherIo ''ENOSPC'')))) \<and>
   fst (snd torn_log) = Inr \<lparr>ix_len = 27, ix_pos = 26\<rparr> \<and>
   map_option fst (handle_get codec release_build [2] torn_open) = Some (Inr None) \<and>
   map_option fst (handle_get codec release_build [1] torn_open) = Some (Inr (Some (take 16 (enc_data codec short_entry))))"
  by code_simp

end
