(* ===== verification/TestsNet.thy ===== *)
theory TestsNet
  imports MemStream NetError
begin

section \<open>The tests of the network layer\<close>

text \<open>
  The unit tests of src/net/frame.rs, src/net/command.rs and src/net/connection.rs, as predicates
  on the definitions that model the code, with the names the tests have. That they hold says that
  the model does on these inputs what the program is tested for. \<open>B\<close> is the build the tests are
  run with.
\<close>

subsection \<open>src/net/frame.rs\<close>

definition test_parse_frame :: "build \<Rightarrow> bytes \<Rightarrow> (frame_error, frame) result" where
  "test_parse_frame B input_data =
     and_then (check B input_data 0) (\<lambda>_. and_then (parse B input_data 0) (\<lambda>(frame, _). Inr frame))"

definition assert_frame :: "build \<Rightarrow> bytes \<Rightarrow> frame \<Rightarrow> bool" where
  "assert_frame B input_data expected_frame \<longleftrightarrow> test_parse_frame B input_data = Inr expected_frame"

definition assert_frame_error :: "build \<Rightarrow> bytes \<Rightarrow> frame_error \<Rightarrow> bool" where
  "assert_frame_error B input_data expected_err \<longleftrightarrow> test_parse_frame B input_data = Inl (Err expected_err)"

definition parse_simple_string_ok :: "build \<Rightarrow> bool" where
  "parse_simple_string_ok B \<longleftrightarrow>
     assert_frame B (ascii ''+OK'' @ crlf) (SimpleString (ascii ''OK''))"

definition parse_simple_string_incomplete :: "build \<Rightarrow> bool" where
  "parse_simple_string_incomplete B \<longleftrightarrow>
     assert_frame_error B (ascii ''+'') Incomplete \<and>
     assert_frame_error B (ascii ''+O'') Incomplete \<and>
     assert_frame_error B (ascii ''+OK'') Incomplete \<and>
     assert_frame_error B (ascii ''+OK'' @ [CR]) Incomplete"

definition parse_simple_string_ignoring_carriage_return :: "build \<Rightarrow> bool" where
  "parse_simple_string_ignoring_carriage_return B \<longleftrightarrow>
     assert_frame B (ascii ''+OK'' @ [CR] @ crlf) (SimpleString (ascii ''OK''))"

definition parse_simple_string_fails_because_line_feed :: "build \<Rightarrow> bool" where
  "parse_simple_string_fails_because_line_feed B \<longleftrightarrow>
     assert_frame_error B (ascii ''+OK'' @ [LF] @ crlf) BadEncoding"

definition parse_error_ok :: "build \<Rightarrow> bool" where
  "parse_error_ok B \<longleftrightarrow>
     assert_frame B (ascii ''-Error test'' @ crlf) (Error (ascii ''Error test'')) \<and>
     assert_frame B (ascii ''-WRONGTYPE Operation against a key holding the wrong kind of value'' @
       crlf) (Error (ascii ''WRONGTYPE Operation against a key holding the wrong kind of value'')) \<and>
     assert_frame B (ascii ''-ERR unknown command '' @ [39] @ ascii ''foobar'' @ [39] @
       crlf) (Error (ascii ''ERR unknown command '' @ [39] @ ascii ''foobar'' @ [39]))"

definition parse_error_incomplete :: "build \<Rightarrow> bool" where
  "parse_error_incomplete B \<longleftrightarrow>
     assert_frame_error B (ascii ''-E'') Incomplete \<and>
     assert_frame_error B (ascii ''-ER'') Incomplete \<and>
     assert_frame_error B (ascii ''-ER'' @ [CR]) Incomplete"

definition parse_error_ignoring_carriage_return :: "build \<Rightarrow> bool" where
  "parse_error_ignoring_carriage_return B \<longleftrightarrow>
     assert_frame B (ascii ''-Error test'' @ [CR] @ crlf) (Error (ascii ''Error test''))"

definition parse_error_fails_because_line_feed :: "build \<Rightarrow> bool" where
  "parse_error_fails_because_line_feed B \<longleftrightarrow>
     assert_frame_error B (ascii ''-Error test'' @ [LF] @ crlf) BadEncoding"

definition parse_integer_ok :: "build \<Rightarrow> bool" where
  "parse_integer_ok B \<longleftrightarrow>
     assert_frame B (ascii '':1000'' @ crlf) (Integer 1000) \<and>
     assert_frame B (ascii '':-100'' @ crlf) (Integer (- 100))"

definition parse_integer_incomplete :: "build \<Rightarrow> bool" where
  "parse_integer_incomplete B \<longleftrightarrow>
     assert_frame_error B (ascii '':'') Incomplete \<and>
     assert_frame_error B (ascii '':1'') Incomplete \<and>
     assert_frame_error B (ascii '':11'') Incomplete \<and>
     assert_frame_error B (ascii '':11'' @ [CR]) Incomplete"

definition parse_integer_fails_when_line_there_is_no_digit :: "build \<Rightarrow> bool" where
  "parse_integer_fails_when_line_there_is_no_digit B \<longleftrightarrow>
     assert_frame_error B (ascii '':'' @ crlf) (NotInteger [CR])"

definition parse_integer_fails_when_there_is_non_digit :: "build \<Rightarrow> bool" where
  "parse_integer_fails_when_there_is_non_digit B \<longleftrightarrow>
     assert_frame_error B (ascii '':nan'' @ crlf) (NotInteger (ascii ''n''))"

definition parse_integer_fails_when_value_underflow :: "build \<Rightarrow> bool" where
  "parse_integer_fails_when_value_underflow B \<longleftrightarrow>
     assert_frame_error B (ascii '':-9223372036854775809'' @ crlf) (NotInteger (ascii ''-9223372036854775809''))"

definition parse_integer_fails_when_value_overflow :: "build \<Rightarrow> bool" where
  "parse_integer_fails_when_value_overflow B \<longleftrightarrow>
     assert_frame_error B (ascii '':9223372036854775808'' @ crlf) (NotInteger (ascii ''9223372036854775808''))"

definition parse_bulk_string_ok :: "build \<Rightarrow> bool" where
  "parse_bulk_string_ok B \<longleftrightarrow>
     assert_frame B (ascii ''$5'' @ crlf @ ascii ''hello'' @ crlf) (BulkString (ascii ''hello'')) \<and>
     assert_frame B (ascii ''$0'' @ crlf @ crlf) (BulkString []) \<and>
     assert_frame B (ascii ''$11'' @ crlf @ ascii ''hello'' @ [CR] @ ascii ''world'' @
       crlf) (BulkString (ascii ''hello'' @ [CR] @ ascii ''world'')) \<and>
     assert_frame B (ascii ''$11'' @ crlf @ ascii ''hello'' @ [LF] @ ascii ''world'' @
       crlf) (BulkString (ascii ''hello'' @ [LF] @ ascii ''world'')) \<and>
     assert_frame B (ascii ''$12'' @ crlf @ ascii ''hello'' @ crlf @ ascii ''world'' @
       crlf) (BulkString (ascii ''hello'' @ crlf @ ascii ''world''))"

definition parse_bulk_string_incomplete :: "build \<Rightarrow> bool" where
  "parse_bulk_string_incomplete B \<longleftrightarrow>
     assert_frame_error B (ascii ''$'') Incomplete \<and>
     assert_frame_error B (ascii ''$2'') Incomplete \<and>
     assert_frame_error B (ascii ''$2'' @ [CR]) Incomplete \<and>
     assert_frame_error B (ascii ''$2'' @ crlf) Incomplete \<and>
     assert_frame_error B (ascii ''$2'' @ crlf @ ascii ''o'') Incomplete \<and>
     assert_frame_error B (ascii ''$2'' @ crlf @ ascii ''ok'') Incomplete \<and>
     assert_frame_error B (ascii ''$2'' @ crlf @ ascii ''ok'' @ [CR]) Incomplete"

definition parse_bulk_string_fails_with_invalid_length_prefix :: "build \<Rightarrow> bool" where
  "parse_bulk_string_fails_with_invalid_length_prefix B \<longleftrightarrow>
     assert_frame_error B (ascii ''$-2'' @ crlf) BadEncoding"

definition parse_array_ok :: "build \<Rightarrow> bool" where
  "parse_array_ok B \<longleftrightarrow>
     assert_frame B (ascii ''*0'' @ crlf) (Array []) \<and>
     assert_frame B (ascii ''*2'' @ crlf @ ascii ''$3'' @ crlf @ ascii ''foo'' @ crlf @ ascii ''$3'' @ crlf @
       ascii ''bar'' @ crlf) (Array [BulkString (ascii ''foo''), BulkString (ascii ''bar'')]) \<and>
     assert_frame B (ascii ''*3'' @ crlf @ ascii '':1'' @ crlf @ ascii '':2'' @ crlf @ ascii '':3'' @
       crlf) (Array [Integer 1, Integer 2, Integer 3]) \<and>
     assert_frame B (ascii ''*5'' @ crlf @ ascii '':1'' @ crlf @ ascii '':2'' @ crlf @ ascii '':3'' @ crlf @
       ascii '':4'' @ crlf @ ascii ''$6'' @ crlf @ ascii ''foobar'' @ crlf) (Array [Integer 1, Integer 2,
       Integer 3, Integer 4, BulkString (ascii ''foobar'')]) \<and>
     assert_frame B (ascii ''*2'' @ crlf @ ascii ''*3'' @ crlf @ ascii '':1'' @ crlf @ ascii '':2'' @ crlf @
       ascii '':3'' @ crlf @ ascii ''*2'' @ crlf @ ascii ''+Foo'' @ crlf @ ascii ''-Bar'' @
       crlf) (Array [Array [Integer 1, Integer 2, Integer 3], Array [SimpleString (ascii ''Foo''),
       Error (ascii ''Bar'')]]) \<and>
     assert_frame B (ascii ''*3'' @ crlf @ ascii ''$3'' @ crlf @ ascii ''foo'' @ crlf @ ascii ''$-1'' @ crlf @
       ascii ''$3'' @ crlf @ ascii ''bar'' @ crlf) (Array [BulkString (ascii ''foo''), Null,
       BulkString (ascii ''bar'')])"

definition parse_array_incomplete :: "build \<Rightarrow> bool" where
  "parse_array_incomplete B \<longleftrightarrow>
     assert_frame_error B (ascii ''*'') Incomplete \<and>
     assert_frame_error B (ascii ''*1'') Incomplete \<and>
     assert_frame_error B (ascii ''*1'' @ [CR]) Incomplete \<and>
     assert_frame_error B (ascii ''*1'' @ crlf) Incomplete \<and>
     assert_frame_error B (ascii ''*1'' @ crlf @ ascii '':'') Incomplete \<and>
     assert_frame_error B (ascii ''*1'' @ crlf @ ascii '':1'') Incomplete \<and>
     assert_frame_error B (ascii ''*1'' @ crlf @ ascii '':1'' @ [CR]) Incomplete"

definition parse_array_length_fails_with_invalid_length_prefix :: "build \<Rightarrow> bool" where
  "parse_array_length_fails_with_invalid_length_prefix B \<longleftrightarrow>
     assert_frame_error B (ascii ''*-2'' @ crlf) BadEncoding"

definition parse_null_ok :: "build \<Rightarrow> bool" where
  "parse_null_ok B \<longleftrightarrow>
     assert_frame B (ascii ''$-1'' @ crlf) Null"

definition parse_null_incomplete :: "build \<Rightarrow> bool" where
  "parse_null_incomplete B \<longleftrightarrow>
     assert_frame_error B (ascii ''$-'') Incomplete \<and>
     assert_frame_error B (ascii ''$-1'') Incomplete \<and>
     assert_frame_error B (ascii ''$-1'' @ [CR]) Incomplete"

definition parse_null_fails_when_use_array_variant :: "build \<Rightarrow> bool" where
  "parse_null_fails_when_use_array_variant B \<longleftrightarrow>
     assert_frame_error B (ascii ''*-1'' @ crlf) BadEncoding"

lemma frame_tests_1:
  "parse_simple_string_ok dev_build"
  "parse_simple_string_incomplete dev_build"
  "parse_simple_string_ignoring_carriage_return dev_build"
  "parse_simple_string_fails_because_line_feed dev_build"
  "parse_error_ok dev_build"
  "parse_error_incomplete dev_build"
  by code_simp+

lemma frame_tests_2:
  "parse_error_ignoring_carriage_return dev_build"
  "parse_error_fails_because_line_feed dev_build"
  "parse_integer_ok dev_build"
  "parse_integer_incomplete dev_build"
  "parse_integer_fails_when_line_there_is_no_digit dev_build"
  "parse_integer_fails_when_there_is_non_digit dev_build"
  by code_simp+

lemma frame_tests_3:
  "parse_integer_fails_when_value_underflow dev_build"
  "parse_integer_fails_when_value_overflow dev_build"
  "parse_bulk_string_ok dev_build"
  "parse_bulk_string_incomplete dev_build"
  "parse_bulk_string_fails_with_invalid_length_prefix dev_build"
  "parse_array_ok dev_build"
  by code_simp+

lemma frame_tests_4:
  "parse_array_incomplete dev_build"
  "parse_array_length_fails_with_invalid_length_prefix dev_build"
  "parse_null_ok dev_build"
  "parse_null_incomplete dev_build"
  "parse_null_fails_when_use_array_variant dev_build"
  by code_simp+

subsection \<open>src/net/command.rs\<close>

definition assert_command :: "frame \<Rightarrow> command \<Rightarrow> bool" where
  "assert_command frame cmd \<longleftrightarrow> command_try_from frame = Inr cmd"

definition assert_error :: "frame \<Rightarrow> command_error \<Rightarrow> bool" where
  "assert_error frame err \<longleftrightarrow> command_try_from frame = Inl (Err err)"

definition parse_get_ok :: bool where
  "parse_get_ok \<longleftrightarrow>
     assert_command (Array [BulkString (ascii ''GET''), BulkString (ascii ''hello'')]) (Get (ascii ''hello''))"

definition parse_get_no_key :: bool where
  "parse_get_no_key \<longleftrightarrow>
     assert_error (Array [BulkString (ascii ''GET'')]) (BadArguments ''Key is not given'')"

definition parse_get_extra_keys :: bool where
  "parse_get_extra_keys \<longleftrightarrow>
     assert_error (Array [BulkString (ascii ''GET''), BulkString (ascii ''hello''), BulkString (ascii ''hello''),
       BulkString (ascii ''hello'')]) (BadArguments ''Frame contains extra data'')"

definition parse_set_ok :: bool where
  "parse_set_ok \<longleftrightarrow>
     assert_command (Array [BulkString (ascii ''SET''), BulkString (ascii ''hello''),
       BulkString (ascii ''world'')]) (Set (ascii ''hello'') (ascii ''world''))"

definition parse_set_no_key :: bool where
  "parse_set_no_key \<longleftrightarrow>
     assert_error (Array [BulkString (ascii ''SET'')]) (BadArguments ''Key is not given'')"

definition parse_set_no_value :: bool where
  "parse_set_no_value \<longleftrightarrow>
     assert_error (Array [BulkString (ascii ''SET''),
       BulkString (ascii ''hello'')]) (BadArguments ''Value is not given'')"

definition parse_set_extra_data :: bool where
  "parse_set_extra_data \<longleftrightarrow>
     assert_error (Array [BulkString (ascii ''SET''), BulkString (ascii ''hello''), BulkString (ascii ''hello''),
       BulkString (ascii ''hello''), BulkString (ascii ''hello'')]) (BadArguments ''Frame contains extra data'')"

definition parse_del_ok :: bool where
  "parse_del_ok \<longleftrightarrow>
     assert_command (Array [BulkString (ascii ''DEL''), BulkString (ascii ''hello'')]) (Del [ascii ''hello'']) \<and>
     assert_command (Array [BulkString (ascii ''DEL''), BulkString (ascii ''hello1''),
       BulkString (ascii ''hello2''), BulkString (ascii ''hello3''), BulkString (ascii ''hello4''),
       BulkString (ascii ''hello5'')]) (Del [ascii ''hello1'', ascii ''hello2'', ascii ''hello3'',
       ascii ''hello4'', ascii ''hello5''])"

definition parse_del_no_key :: bool where
  "parse_del_no_key \<longleftrightarrow>
     assert_error (Array [BulkString (ascii ''DEL'')]) (BadArguments ''Keys are empty'')"

definition parse_invalid_command :: bool where
  "parse_invalid_command \<longleftrightarrow>
     assert_error (Array [BulkString (ascii ''INVALID'')]) (BadCommand (ascii ''INVALID''))"

lemma command_tests_1:
  "parse_get_ok"
  "parse_get_no_key"
  "parse_get_extra_keys"
  "parse_set_ok"
  "parse_set_no_key"
  by code_simp+

lemma command_tests_2:
  "parse_set_no_value"
  "parse_set_extra_data"
  "parse_del_ok"
  "parse_del_no_key"
  "parse_invalid_command"
  by code_simp+

subsection \<open>src/net/connection.rs\<close>

text \<open>
  A \<open>Cursor\<close> over a vector in memory is a stream that has all its bytes at once and does not fail; here
  it has room for the bytes that are expected.
\<close>

definition get_test_cases :: "(frame \<times> bytes) list" where
  "get_test_cases =
    [(SimpleString (ascii ''OK''), ascii ''+OK'' @ crlf),
     (Error (ascii ''Error test''), ascii ''-Error test'' @ crlf),
     (Error (ascii ''WRONGTYPE Operation against a key holding the wrong kind of value''),
        ascii ''-WRONGTYPE Operation against a key holding the wrong kind of value'' @ crlf),
     (Error (ascii ''ERR unknown command '' @ [39] @ ascii ''foobar'' @ [39]), ascii ''-ERR unknown command '' @
        [39] @ ascii ''foobar'' @ [39] @ crlf),
     (BulkString (ascii ''hello''), ascii ''$5'' @ crlf @ ascii ''hello'' @ crlf),
     (BulkString [], ascii ''$0'' @ crlf @ crlf),
     (BulkString (ascii ''hello'' @ [LF] @ ascii ''world''), ascii ''$11'' @ crlf @ ascii ''hello'' @ [LF] @
        ascii ''world'' @ crlf),
     (BulkString (ascii ''hello'' @ crlf @ ascii ''world''), ascii ''$12'' @ crlf @ ascii ''hello'' @ crlf @
        ascii ''world'' @ crlf),
     (Array [], ascii ''*0'' @ crlf),
     (Array [BulkString (ascii ''foo''), BulkString (ascii ''bar'')], ascii ''*2'' @ crlf @ ascii ''$3'' @ crlf @
        ascii ''foo'' @ crlf @ ascii ''$3'' @ crlf @ ascii ''bar'' @ crlf),
     (Array [Integer 1, Integer 2, Integer 3], ascii ''*3'' @ crlf @ ascii '':1'' @ crlf @ ascii '':2'' @ crlf @
        ascii '':3'' @ crlf),
     (Array [Integer 1, Integer 2, Integer 3, Integer 4, BulkString (ascii ''foobar'')], ascii ''*5'' @ crlf @
        ascii '':1'' @ crlf @ ascii '':2'' @ crlf @ ascii '':3'' @ crlf @ ascii '':4'' @ crlf @ ascii ''$6'' @
        crlf @ ascii ''foobar'' @ crlf),
     (Array [BulkString (ascii ''foo''), Null, BulkString (ascii ''bar'')], ascii ''*3'' @ crlf @ ascii ''$3'' @
        crlf @ ascii ''foo'' @ crlf @ ascii ''$-1'' @ crlf @ ascii ''$3'' @ crlf @ ascii ''bar'' @ crlf),
     (Null, ascii ''$-1'' @ crlf)]"

definition assert_frame_write :: "build \<Rightarrow> frame \<Rightarrow> bytes \<Rightarrow> bool" where
  "assert_frame_write B frame expected_buffer \<longleftrightarrow>
     (case write_frame mem_ops frame (connection_new \<lparr>inbox = [], pending = [], outbox = [], room = length expected_buffer\<rparr>) of
        (r, c) \<Rightarrow> r = Inr () \<and> outbox (stream c) = expected_buffer)"

definition assert_frame_read :: "build \<Rightarrow> bytes \<Rightarrow> frame \<Rightarrow> bool" where
  "assert_frame_read B buf expected_frame \<longleftrightarrow>
     map_option fst (read_frame mem_ops B (connection_new (mem_stream [buf]))) = Some (Inr (Some expected_frame))"

definition write_frame_check_sent_buffer :: "build \<Rightarrow> bool" where
  "write_frame_check_sent_buffer B \<longleftrightarrow>
     list_all (\<lambda>test_case. assert_frame_write B (fst test_case) (snd test_case)) get_test_cases"

definition read_frame_check_received_frame :: "build \<Rightarrow> bool" where
  "read_frame_check_received_frame B \<longleftrightarrow>
     list_all (\<lambda>test_case. assert_frame_read B (snd test_case) (fst test_case)) get_test_cases"

text \<open>Both hold for every frame that \<open>write_frame\<close> supports and its encoding; the cases of the tests are some of these.\<close>

lemma mem_write: "write_all mem_ops s d = (Inr (), s\<lparr>pending := pending s @ d\<rparr>)"
  by (simp add: mem_ops_def mem_write_all_def)

lemma mem_write_single_value:
  assumes "frame_ok f" and "frame_fits B f" and "\<not> is_array f"
  shows "write_single_value mem_ops f s = (Inr (), s\<lparr>pending := pending s @ encode f\<rparr>)"
proof (cases f)
  case (BulkString bs)
  with assms have "in_i64 (int (length bs))" by simp
  with BulkString show ?thesis by (simp add: write_u8_def mem_write write_decimal_fits as_i64_id)
qed (use assms in \<open>simp_all add: write_u8_def mem_write write_decimal_fits\<close>)

lemma mem_write_items:
  "list_all frame_ok fs \<Longrightarrow> list_all (frame_fits B) fs \<Longrightarrow> list_all (\<lambda>f. \<not> is_array f) fs \<Longrightarrow>
   write_items mem_ops fs s = (Inr (), s\<lparr>pending := pending s @ concat (map encode fs)\<rparr>)"
  by (induction fs arbitrary: s) (simp_all add: mem_write_single_value[where B = B] del: write_single_value.simps)

lemma cursor_write:
  assumes "frame_ok f" and "frame_fits B f" and "flat f"
  shows "assert_frame_write B f (encode f)"
proof -
  let ?s = "\<lparr>inbox = [], pending = [], outbox = [], room = length (encode f)\<rparr>"
  have "(case f of Array items \<Rightarrow> write_array mem_ops items ?s | _ \<Rightarrow> write_single_value mem_ops f ?s)
      = (Inr (), ?s\<lparr>pending := encode f\<rparr>)"
  proof (cases f)
    case (Array fs)
    then have "write_items mem_ops fs t = (Inr (), t\<lparr>pending := pending t @ concat (map encode fs)\<rparr>)" for t
      using assms by (intro mem_write_items[where B = B]) simp_all
    moreover have "in_i64 (int (length fs))" using assms Array by simp
    ultimately show ?thesis using Array by (simp add: write_array_def write_u8_def mem_write write_decimal_fits as_i64_id)
  qed (use mem_write_single_value[OF assms(1,2), of ?s] in \<open>simp_all del: write_single_value.simps\<close>)
  moreover have "flush mem_ops (?s\<lparr>pending := encode f\<rparr>) = (Inr (), ?s\<lparr>outbox := encode f, room := 0\<rparr>)"
    by (simp add: mem_ops_def mem_flush_def)
  ultimately show ?thesis
    unfolding assert_frame_write_def write_frame_def connection_new_def connection.select_convs by simp
qed

lemma cursor_read:
  assumes "frame_ok f" and "frame_fits B f"
  shows "assert_frame_read B (encode f) f"
proof -
  have "encode f \<noteq> []" by (cases f) simp_all
  then have "read_buf mem_ops (mem_stream [encode f]) = (Inr (encode f), (mem_stream [encode f])\<lparr>inbox := []\<rparr>)"
    by (simp add: mem_ops_def mem_read_buf_def mem_stream_def)
  moreover have "parse_frame B [] = (Inr None, [])" by (simp add: parse_frame_def check.simps get_byte_def)
  moreover have "parse_frame B (encode f) = (Inr (Some f), [])"
    using parse_encode_start[OF assms, of "[]"] check_encode_start[OF assms, of "[]"] by (simp add: parse_frame_def)
  ultimately have "\<exists>c. read_frame mem_ops B (connection_new (mem_stream [encode f])) = Some (Inr (Some f), c)"
    using \<open>encode f \<noteq> []\<close> by (simp add: connection_new_def read_frame_more read_frame_ready)
  then show ?thesis by (auto simp: assert_frame_read_def)
qed

lemma test_cases_encode:
  "list_all (\<lambda>(f, b). frame_ok f \<and> frame_fits dev_build f \<and> flat f \<and> b = encode f) get_test_cases"
  by code_simp

lemma connection_tests: "write_frame_check_sent_buffer dev_build" "read_frame_check_received_frame dev_build"
proof -
  have "frame_ok f \<and> frame_fits dev_build f \<and> flat f \<and> b = encode f" if "(f, b) \<in> set get_test_cases" for f b
    using test_cases_encode that by (auto simp: list_all_iff)
  then show "write_frame_check_sent_buffer dev_build" "read_frame_check_received_frame dev_build"
    using cursor_write cursor_read
    by (fastforce simp: write_frame_check_sent_buffer_def read_frame_check_received_frame_def list_all_iff)+
qed

end
