(* ===== verification/TestsLog.thy ===== *)
theory TestsLog
  imports TornWrites BufCodec
begin

section \<open>The tests of the log files\<close>

text \<open>
  The property tests of src/storage/bitcask/log.rs and src/storage/bitcask/utils.rs, which draw their
  inputs at random, as predicates on the input; here they are proved for every input. The entries
  of these tests are of the type \<open>Vec<u8>\<close>, so its serialization is a parameter. An
  \<open>unwrap\<close> that panics fails the test.
\<close>

fun unwrap :: "('e, 'a) result \<times> 's \<Rightarrow> ('a \<Rightarrow> 's \<Rightarrow> bool) \<Rightarrow> bool" where
  "unwrap (Inl e, s) k \<longleftrightarrow> False"
| "unwrap (Inr x, s) k \<longleftrightarrow> k x s"

subsection \<open>src/storage/bitcask/utils.rs\<close>

text \<open>\<open>File::create\<close>, and the files of the test: a hint file for an id if the coin says so.\<close>

definition file_create :: "bytes \<Rightarrow> fs \<Rightarrow> (io_error, nat) result \<times> fs" where
  "file_create name fs =
     (case map_of (dir fs) name of
        Some i \<Rightarrow> sys_call fs (\<lambda>fs. (Inr i, fs\<lparr>idata := (idata fs)(i := [])\<rparr>))
      | None \<Rightarrow> create_new name fs)"

fun create_files :: "nat list \<Rightarrow> (nat \<Rightarrow> bool) \<Rightarrow> fs \<Rightarrow> (io_error, unit) result \<times> fs" where
  "create_files [] coin fs = (Inr (), fs)"
| "create_files (fileid # fileids) coin fs =
     try_op (file_create (datafile_name fileid) fs) (\<lambda>_ fs.
     if coin fileid then try_op (file_create (hintfile_name fileid) fs) (\<lambda>_ fs. create_files fileids coin fs)
     else create_files fileids coin fs)"

definition fileids_sorted_correctly :: "nat \<Rightarrow> (nat \<Rightarrow> bool) \<Rightarrow> bool" where
  "fileids_sorted_correctly n coin \<longleftrightarrow>
     unwrap (create_files [0..<n] coin empty_fs) (\<lambda>_ fs.
     unwrap (sorted_fileids fs) (\<lambda>fileids _. list_all (\<lambda>(i, v). i = v) (List.enumerate 0 fileids)))"

abbreviation names :: "fs \<Rightarrow> bytes set" where
  "names fs \<equiv> fst ` set (dir fs)"

lemma file_create_calm:
  assumes "faults fs = []" and "inext fs < 2 ^ 63"
  shows "\<exists>i fs'. file_create name fs = (Inr i, fs') \<and> faults fs' = [] \<and> inext fs' \<le> inext fs + 1 \<and> names fs' = insert name (names fs)"
proof (cases "map_of (dir fs) name")
  case None
  have "int (inext fs) < int (2 ^ 63)" using assms(2) by (simp only: of_nat_less_iff)
  then have "in_i64 (int (inext fs))" by (simp add: in_i64_def)
  with None assms show ?thesis by (simp add: file_create_def create_new_def)
next
  case (Some i)
  then have "name \<in> names fs" by (auto dest: map_of_SomeD intro: rev_image_eqI)
  with Some assms show ?thesis by (auto simp: file_create_def)
qed

lemma create_files_calm:
  "faults fs = [] \<Longrightarrow> inext fs + 2 * length is < 2 ^ 63 \<Longrightarrow>
   \<exists>fs'. create_files is coin fs = (Inr (), fs') \<and> faults fs' = [] \<and>
     names fs' = names fs \<union> datafile_name ` set is \<union> hintfile_name ` {i \<in> set is. coin i}"
proof (induction "is" arbitrary: fs)
  case (Cons i "is")
  obtain j fs1 where f: "file_create (datafile_name i) fs = (Inr j, fs1)" "faults fs1 = []" "inext fs1 \<le> inext fs + 1"
    "names fs1 = insert (datafile_name i) (names fs)"
    using file_create_calm[of fs "datafile_name i"] Cons.prems by auto
  show ?case
  proof (cases "coin i")
    case True
    obtain k fs2 where h: "file_create (hintfile_name i) fs1 = (Inr k, fs2)" "faults fs2 = []" "inext fs2 \<le> inext fs1 + 1"
      "names fs2 = insert (hintfile_name i) (names fs1)"
      using file_create_calm[of fs1 "hintfile_name i"] Cons.prems f by auto
    from Cons.IH[OF h(2)] Cons.prems f(3) h(3) obtain fs' where "create_files is coin fs2 = (Inr (), fs')" "faults fs' = []"
      "names fs' = names fs2 \<union> datafile_name ` set is \<union> hintfile_name ` {i \<in> set is. coin i}" by auto
    with f h True show ?thesis by auto
  next
    case False
    from Cons.IH[OF f(2)] Cons.prems f(3) obtain fs' where "create_files is coin fs1 = (Inr (), fs')" "faults fs' = []"
      "names fs' = names fs1 \<union> datafile_name ` set is \<union> hintfile_name ` {i \<in> set is. coin i}" by auto
    with f False show ?thesis by auto
  qed
qed simp

lemma fileids_sorted:
  assumes "n < 2 ^ 62"
  shows "fileids_sorted_correctly n coin"
proof -
  obtain fs where fs: "create_files [0..<n] coin empty_fs = (Inr (), fs)" "faults fs = []"
    "names fs = datafile_name ` {0..<n} \<union> hintfile_name ` {i \<in> {0..<n}. coin i}"
    using create_files_calm[of empty_fs "[0..<n]" coin] assms by (auto simp: empty_fs_def)
  have "fileid_of (datafile_name i) = Some i" if "i < n" for i using that assms by simp
  then have "set (ids_of (map fst (dir fs))) = {0..<n}"
    by (force simp: set_ids_of fs(3) simp flip: image_set)
  then have "ids_of (map fst (dir fs)) = [0..<n]" by (intro sorted_distinct_set_unique) simp_all
  moreover have "list_all (\<lambda>(i, v). i = v) (List.enumerate 0 [0..<n])" by (simp add: list_all_length nth_enumerate_eq)
  ultimately show ?thesis using fs by (simp add: fileids_sorted_correctly_def sorted_fileids_def read_dir_def)
qed

subsection \<open>src/storage/bitcask/log.rs\<close>

text \<open>\<open>enc\<close> and \<open>dec\<close> serialize a \<open>Vec<u8>\<close>; \<open>vec_at\<close> is \<open>LogReader::at\<close> for it.\<close>

type_synonym vec_decoder = "bytes \<Rightarrow> codec_error + bytes \<times> nat"

definition vec_at :: "vec_decoder \<Rightarrow> build \<Rightarrow> log_reader \<Rightarrow> log_index \<Rightarrow> fs \<Rightarrow> (bc_error, bytes) result \<times> log_reader \<times> fs" where
  "vec_at dec B rd idx fs =
     (let (r, s) = reader_slice B rd (ix_len idx) (ix_pos idx) fs
      in (and_then (map_err BcIo r) (\<lambda>b. case dec b of Inl e \<Rightarrow> Inl (Err (Serialization e)) | Inr (x, n) \<Rightarrow> Inr x), s))"

definition test_file :: bytes where
  "test_file = ascii ''test''"

text \<open>\<open>LogReader::new(open(&fpath))\<close> and \<open>LogIterator::new(open(&fpath))\<close>.\<close>

definition open_reader :: "fs \<Rightarrow> (io_error, log_reader) result \<times> fs" where
  "open_reader fs = try_op (open_read test_file fs) reader_new"

definition open_log_iter :: "fs \<Rightarrow> (io_error, log_iter) result \<times> fs" where
  "open_log_iter fs = try_op (open_read test_file fs) log_iter_new"

definition writer_position_updated_after_write :: "build \<Rightarrow> (bytes \<Rightarrow> bytes) \<Rightarrow> bytes \<Rightarrow> bool" where
  "writer_position_updated_after_write B enc buf \<longleftrightarrow>
     unwrap (log_create test_file empty_fs) (\<lambda>writer fs.
     unwrap (log_append B (enc buf) writer fs) (\<lambda>idx1 (writer, fs).
     unwrap (log_append B (enc buf) writer fs) (\<lambda>idx2 (writer, fs).
       ix_pos idx1 = 0 \<and> ix_len idx1 = ix_pos idx2 \<and> ix_len idx1 = ix_len idx2)))"

definition reader_reads_entry_written_by_writer :: "build \<Rightarrow> (bytes \<Rightarrow> bytes) \<Rightarrow> vec_decoder \<Rightarrow> bytes \<Rightarrow> bool" where
  "reader_reads_entry_written_by_writer B enc dec buf \<longleftrightarrow>
     unwrap (log_create test_file empty_fs) (\<lambda>writer fs.
     unwrap (log_append B (enc buf) writer fs) (\<lambda>idx1 (writer, fs).
     unwrap (log_append B (enc buf) writer fs) (\<lambda>idx2 (writer, fs).
     unwrap (open_reader fs) (\<lambda>reader fs.
     unwrap (vec_at dec B reader idx1 fs) (\<lambda>buf1 (reader, fs).
     unwrap (vec_at dec B reader idx2 fs) (\<lambda>buf2 (reader, fs).
       buf = buf1 \<and> buf = buf2))))))"

definition reader_should_remap_disk_when_file_changed :: "build \<Rightarrow> (bytes \<Rightarrow> bytes) \<Rightarrow> vec_decoder \<Rightarrow> bytes \<Rightarrow> bool" where
  "reader_should_remap_disk_when_file_changed B enc dec buf \<longleftrightarrow>
     unwrap (log_create test_file empty_fs) (\<lambda>writer fs.
     unwrap (open_reader fs) (\<lambda>reader fs.
     unwrap (log_append B (enc buf) writer fs) (\<lambda>idx1 (writer, fs).
     unwrap (log_append B (enc buf) writer fs) (\<lambda>idx2 (writer, fs).
     unwrap (vec_at dec B reader idx1 fs) (\<lambda>buf1 (reader, fs).
     unwrap (vec_at dec B reader idx2 fs) (\<lambda>buf2 (reader, fs).
     unwrap (log_append B (enc buf) writer fs) (\<lambda>idx3 (writer, fs).
     unwrap (log_append B (enc buf) writer fs) (\<lambda>idx4 (writer, fs).
     unwrap (vec_at dec B reader idx3 fs) (\<lambda>buf3 (reader, fs).
     unwrap (vec_at dec B reader idx4 fs) (\<lambda>buf4 (reader, fs).
       buf = buf1 \<and> buf = buf2 \<and> buf = buf3 \<and> buf = buf4))))))))))"

fun append_all :: "build \<Rightarrow> (bytes \<Rightarrow> bytes) \<Rightarrow> bytes list \<Rightarrow> log_writer \<Rightarrow> fs \<Rightarrow>
    (bc_error, log_index list) result \<times> log_writer \<times> fs" where
  "append_all B enc [] writer fs = (Inr [], writer, fs)"
| "append_all B enc (buf # entries) writer fs =
     try_op (log_append B (enc buf) writer fs) (\<lambda>idx (writer, fs).
     try_op (append_all B enc entries writer fs) (\<lambda>indices s. (Inr (idx # indices), s)))"

fun iterate_entries :: "build \<Rightarrow> vec_decoder \<Rightarrow> (log_index \<times> bytes) list \<Rightarrow> log_reader \<Rightarrow> log_iter \<Rightarrow> fs \<Rightarrow> bool" where
  "iterate_entries B dec [] reader iter fs \<longleftrightarrow> True"
| "iterate_entries B dec ((idx, buf) # rest) reader iter fs \<longleftrightarrow>
     unwrap (log_next dec B iter fs) (\<lambda>item (iter, fs).
       case item of
         None \<Rightarrow> False
       | Some (idx_from_reader, buf_from_reader) \<Rightarrow>
           idx = idx_from_reader \<and> buf = buf_from_reader \<and>
           unwrap (vec_at dec B reader idx_from_reader fs) (\<lambda>buf_from_reader (reader, fs).
             buf = buf_from_reader \<and> iterate_entries B dec rest reader iter fs))"

definition reader_iterates_entries_written_by_writer ::
    "build \<Rightarrow> (bytes \<Rightarrow> bytes) \<Rightarrow> vec_decoder \<Rightarrow> bytes list \<Rightarrow> bool" where
  "reader_iterates_entries_written_by_writer B enc dec entries \<longleftrightarrow>
     unwrap (log_create test_file empty_fs) (\<lambda>writer fs.
     unwrap (append_all B enc entries writer fs) (\<lambda>indices (writer, fs).
     unwrap (open_reader fs) (\<lambda>reader fs.
     unwrap (open_log_iter fs) (\<lambda>iter fs.
       iterate_entries B dec (zip indices entries) reader iter fs))))"

subsection \<open>They hold\<close>

text \<open>The file with the contents \<open>b\<close>, and a writer at its end.\<close>

definition log_fs :: "bytes \<Rightarrow> fs" where
  "log_fs b = \<lparr>dir = [(test_file, 0)], idata = (\<lambda>_. [])(0 := b), inext = 1, faults = []\<rparr>"

definition writer_at_end :: "bytes \<Rightarrow> log_writer" where
  "writer_at_end b = \<lparr>bw_pos = length b, bw_file = 0, bw_buf = []\<rparr>"

lemma test_create: "log_create test_file empty_fs = (Inr (writer_at_end []), log_fs [])"
  by (simp add: log_create_def create_new_def empty_fs_def log_writer_new_def stream_len_def log_fs_def writer_at_end_def in_i64_def)

lemma test_append:
  assumes "d \<noteq> []" and "length b + length d < 2 ^ 63"
  shows "log_append B d (writer_at_end b) (log_fs b)
    = (Inr \<lparr>ix_len = length d, ix_pos = length b\<rparr>, writer_at_end (b @ d), log_fs (b @ d))"
  using log_append_calm[of "writer_at_end b" "log_fs b" d B] assms
  by (simp add: writer_at_end_def log_fs_def pos_ok_def append_bytes_def)

lemma test_open: "open_reader (log_fs b) = (Inr \<lparr>rd_file = 0, mmap_len = length b\<rparr>, log_fs b)"
  "open_log_iter (log_fs b) = (Inr \<lparr>it_pos = 0, it_file = 0\<rparr>, log_fs b)"
  by (simp_all add: open_reader_def open_log_iter_def open_read_def reader_new_def map_file_def log_iter_new_def log_fs_def)

locale vec_codec =
  fixes enc :: "bytes \<Rightarrow> bytes" and dec :: vec_decoder
  assumes dec_enc: "in_i64 (int (length v)) \<Longrightarrow> dec (enc v @ rest) = Inr (v, length (enc v))"
begin

lemma enc_nonempty:
  assumes "in_i64 (int (length v))"
  shows "enc v \<noteq> []"
proof
  assume n: "enc v = []"
  define w where "w = (if v = [] then [0] else [] :: bytes)"
  have w: "in_i64 (int (length w))" by (simp add: w_def in_i64_def)
  from dec_enc[OF assms, of "enc w"] dec_enc[OF w, of "[]"] n have "v = w" by simp
  then show False by (simp add: w_def split: if_splits)
qed

lemma vec_at_enc:
  assumes v: "in_i64 (int (length v))" and m: "m \<le> length a \<or> length a + length (enc v) \<le> m" "m \<le> length (a @ enc v @ c)"
    and small: "length (a @ enc v @ c) < 2 ^ 63"
  shows "vec_at dec B \<lparr>rd_file = 0, mmap_len = m\<rparr> \<lparr>ix_len = length (enc v), ix_pos = length a\<rparr> (log_fs (a @ enc v @ c))
    = (Inr v, \<lparr>rd_file = 0, mmap_len = if m \<le> length a then length (a @ enc v @ c) else m\<rparr>, log_fs (a @ enc v @ c))"
proof -
  have slice: "sub_slice (a @ enc v @ c) (length a) (length a + length (enc v)) = enc v" by (rule sub_slice_middle)
  have "dec (enc v) = Inr (v, length (enc v))" using dec_enc[OF v, of "[]"] by simp
  with slice m small show ?thesis
    by (auto simp: vec_at_def reader_slice_def map_file_def log_fs_def)
qed

lemma log_next_enc:
  assumes "in_i64 (int (length v))" and "length (a @ enc v @ c) < 2 ^ 63"
  shows "log_next dec B \<lparr>it_pos = length a, it_file = 0\<rparr> (log_fs (a @ enc v @ c))
    = (Inr (Some (\<lparr>ix_len = length (enc v), ix_pos = length a\<rparr>, v)), \<lparr>it_pos = length (a @ enc v), it_file = 0\<rparr>, log_fs (a @ enc v @ c))"
  using dec_enc[OF assms(1), of c] assms(2) by (simp add: log_next_def log_fs_def Let_def)

lemma writer_test:
  assumes "in_i64 (int (length buf))" and "2 * length (enc buf) < 2 ^ 63"
  shows "writer_position_updated_after_write B enc buf"
  using enc_nonempty[OF assms(1)] assms(2)
  by (simp add: writer_position_updated_after_write_def test_create test_append)

lemma reader_test:
  assumes v: "in_i64 (int (length buf))" and small: "2 * length (enc buf) < 2 ^ 63"
  shows "reader_reads_entry_written_by_writer B enc dec buf"
  using enc_nonempty[OF v] small vec_at_enc[OF v, of _ "[]" "enc buf"] vec_at_enc[OF v, of _ "enc buf" "[]"]
  by (simp add: reader_reads_entry_written_by_writer_def test_create test_append test_open)

lemma remap_test:
  assumes v: "in_i64 (int (length buf))" and small: "4 * length (enc buf) < 2 ^ 63"
  shows "reader_should_remap_disk_when_file_changed B enc dec buf"
  using enc_nonempty[OF v] small vec_at_enc[OF v, of _ "[]" "enc buf"] vec_at_enc[OF v, of _ "enc buf" "[]"]
    vec_at_enc[OF v, of _ "enc buf @ enc buf" "enc buf"] vec_at_enc[OF v, of _ "enc buf @ enc buf @ enc buf" "[]"]
  by (simp add: reader_should_remap_disk_when_file_changed_def test_create test_append test_open)

fun indices_from :: "nat \<Rightarrow> bytes list \<Rightarrow> log_index list" where
  "indices_from n [] = []"
| "indices_from n (v # vs) = \<lparr>ix_len = length (enc v), ix_pos = n\<rparr> # indices_from (n + length (enc v)) vs"

lemma append_all_ok:
  "\<forall>v \<in> set vs. in_i64 (int (length v)) \<Longrightarrow> length (b @ concat (map enc vs)) < 2 ^ 63 \<Longrightarrow>
   append_all B enc vs (writer_at_end b) (log_fs b)
     = (Inr (indices_from (length b) vs), writer_at_end (b @ concat (map enc vs)), log_fs (b @ concat (map enc vs)))"
proof (induction vs arbitrary: b)
  case (Cons v vs)
  then show ?case using Cons.IH[of "b @ enc v"] enc_nonempty[of v] by (simp add: test_append)
qed simp

lemma iterate_ok:
  assumes "\<forall>v \<in> set vs. in_i64 (int (length v))" and "length (a @ concat (map enc vs)) < 2 ^ 63"
  shows "iterate_entries B dec (zip (indices_from (length a) vs) vs) \<lparr>rd_file = 0, mmap_len = length (a @ concat (map enc vs))\<rparr>
    \<lparr>it_pos = length a, it_file = 0\<rparr> (log_fs (a @ concat (map enc vs)))"
  using assms
proof (induction vs arbitrary: a)
  case (Cons v vs)
  have v: "in_i64 (int (length v))" using Cons.prems(1) by simp
  let ?c = "concat (map enc vs)"
  have small: "length (a @ enc v @ ?c) < 2 ^ 63" using Cons.prems(2) by simp
  have ne: "enc v \<noteq> []" using enc_nonempty[OF v] .
  have at: "vec_at dec B \<lparr>rd_file = 0, mmap_len = length (a @ enc v @ ?c)\<rparr> \<lparr>ix_len = length (enc v), ix_pos = length a\<rparr> (log_fs (a @ enc v @ ?c))
      = (Inr v, \<lparr>rd_file = 0, mmap_len = length (a @ enc v @ ?c)\<rparr>, log_fs (a @ enc v @ ?c))"
    using vec_at_enc[OF v _ _ small, of "length (a @ enc v @ ?c)"] ne by simp
  have rest: "iterate_entries B dec (zip (indices_from (length (a @ enc v)) vs) vs) \<lparr>rd_file = 0, mmap_len = length (a @ enc v @ ?c)\<rparr>
      \<lparr>it_pos = length (a @ enc v), it_file = 0\<rparr> (log_fs (a @ enc v @ ?c))"
    using Cons.IH[of "a @ enc v"] Cons.prems by simp
  show ?case using log_next_enc[OF v small] at rest by simp
qed simp

lemma iterate_test:
  assumes "\<forall>v \<in> set entries. in_i64 (int (length v))" and "length (concat (map enc entries)) < 2 ^ 63"
  shows "reader_iterates_entries_written_by_writer B enc dec entries"
  using append_all_ok[of entries "[]"] iterate_ok[of entries "[]"] assms
  by (simp add: reader_iterates_entries_written_by_writer_def test_create test_open)

end

text \<open>The serialization of \<open>Bincode\<close>.\<close>

interpretation bincode_vec: vec_codec put_bytes "decode_bytes (demand_vec Give)"
proof
  fix v :: bytes and rest assume v: "in_i64 (int (length v))"
  have "means (demand_vec Give) (bind_parser get_bytes (\<lambda>v b. Inr (v, b)))" by (rule means_vec) (rule means_Give)
  then have "decode_bytes (demand_vec Give) (put_bytes v @ rest) = decoder (bind_parser get_bytes (\<lambda>v b. Inr (v, b))) (put_bytes v @ rest)"
    unfolding means_def by blast
  also have "\<dots> = Inr (v, length (put_bytes v))"
    using codes_bytes[OF v] by (simp add: decoder_def codes_def)
  finally show "decode_bytes (demand_vec Give) (put_bytes v @ rest) = Inr (v, length (put_bytes v))" .
qed

end
