(* ===== verification/TestsStorage.thy ===== *)
theory TestsStorage
  imports Healthy TestsLog
begin

section \<open>The tests of the engine\<close>

text \<open>
  The tests of src/storage/bitcask.rs, as predicates on what they draw at random, on the
  readings of the clock and on the number of keys, which is 10000 with the first 5000 of them
  overwritten and deleted. No background task runs meanwhile (the first would start after twelve
  seconds), and the last handle of a storage is dropped before it is opened again. They are proved
  for all such inputs.
\<close>

subsection \<open>The tests\<close>

text \<open>\<open>unwrap\<close> on a call that could also hang.\<close>

definition unwrap_some :: "(('e, 'a) result \<times> 's) option \<Rightarrow> ('a \<Rightarrow> 's \<Rightarrow> bool) \<Rightarrow> bool" where
  "unwrap_some r k \<longleftrightarrow> (case r of None \<Rightarrow> False | Some x \<Rightarrow> unwrap x k)"

definition simple_test_config :: "nat \<Rightarrow> config" where
  "simple_test_config cpus = set_max_file_size (64 * 1024) (set_concurrency 1 (default_config cpus))"

fun basic_operations :: "'l deps \<Rightarrow> build \<Rightarrow> (bytes \<times> bytes \<times> bytes) list \<Rightarrow> 'l storage \<Rightarrow> bool" where
  "basic_operations D B [] handle \<longleftrightarrow> True"
| "basic_operations D B ((k, v1, v2) # draws) handle \<longleftrightarrow>
     unwrap (handle_put D B k v1 handle) (\<lambda>_ handle.
     unwrap_some (handle_get D B k handle) (\<lambda>r handle. Some v1 = r \<and>
     unwrap (handle_delete D B k handle) (\<lambda>_ handle.
     unwrap_some (handle_get D B k handle) (\<lambda>r handle. None = r \<and>
     unwrap (handle_put D B k v2 handle) (\<lambda>_ handle.
     unwrap_some (handle_get D B k handle) (\<lambda>r handle. Some v2 = r \<and>
     basic_operations D B draws handle))))))"

definition bitcask_basic_operations ::
    "'l deps \<Rightarrow> build \<Rightarrow> nat \<Rightarrow> int option list \<Rightarrow> nat \<Rightarrow> (bytes \<times> bytes \<times> bytes) list \<Rightarrow> bool" where
  "bitcask_basic_operations D B cpus readings h draws \<longleftrightarrow>
     unwrap_some (bitcask_open D B (simple_test_config cpus) readings h empty_fs) (\<lambda>handle fs.
     basic_operations D B draws handle)"

fun read_after_write :: "'l deps \<Rightarrow> build \<Rightarrow> (bytes \<times> bytes) list \<Rightarrow> 'l storage \<Rightarrow> bool" where
  "read_after_write D B [] handle \<longleftrightarrow> True"
| "read_after_write D B ((k, v) # draws) handle \<longleftrightarrow>
     unwrap (handle_put D B k v handle) (\<lambda>_ handle.
     unwrap_some (handle_get D B k handle) (\<lambda>r handle. Some v = r \<and>
     read_after_write D B draws handle))"

definition bitcask_sequential_read_after_write ::
    "'l deps \<Rightarrow> build \<Rightarrow> nat \<Rightarrow> int option list \<Rightarrow> nat \<Rightarrow> (bytes \<times> bytes) list \<Rightarrow> bool" where
  "bitcask_sequential_read_after_write D B cpus readings h draws \<longleftrightarrow>
     unwrap_some (bitcask_open D B (simple_test_config cpus) readings h empty_fs) (\<lambda>handle fs.
     read_after_write D B draws handle)"

text \<open>\<open>format!("key{i}")\<close>, \<open>format!("value{i}")\<close> and the loops.\<close>

definition test_key :: "nat \<Rightarrow> bytes" where
  "test_key i = ascii ''key'' @ dec_nat i"

definition test_value :: "nat \<Rightarrow> bytes" where
  "test_value i = ascii ''value'' @ dec_nat i"

fun put_test_keys :: "'l deps \<Rightarrow> build \<Rightarrow> nat list \<Rightarrow> ('l, unit) action" where
  "put_test_keys D B [] handle = (Inr (), handle)"
| "put_test_keys D B (i # is) handle =
     try_op (handle_put D B (test_key i) (test_value i) handle) (\<lambda>_ handle. put_test_keys D B is handle)"

fun del_test_keys :: "'l deps \<Rightarrow> build \<Rightarrow> nat list \<Rightarrow> ('l, unit) action" where
  "del_test_keys D B [] handle = (Inr (), handle)"
| "del_test_keys D B (i # is) handle =
     try_op (handle_delete D B (test_key i) handle) (\<lambda>_ handle. del_test_keys D B is handle)"

fun keys_are_gone :: "'l deps \<Rightarrow> build \<Rightarrow> nat list \<Rightarrow> 'l storage \<Rightarrow> ('l storage \<Rightarrow> bool) \<Rightarrow> bool" where
  "keys_are_gone D B [] handle k \<longleftrightarrow> k handle"
| "keys_are_gone D B (i # is) handle k \<longleftrightarrow>
     unwrap_some (handle_get D B (test_key i) handle) (\<lambda>v handle. v = None \<and> keys_are_gone D B is handle k)"

fun keys_are_there :: "'l deps \<Rightarrow> build \<Rightarrow> nat list \<Rightarrow> 'l storage \<Rightarrow> bool" where
  "keys_are_there D B [] handle \<longleftrightarrow> True"
| "keys_are_there D B (i # is) handle \<longleftrightarrow>
     unwrap_some (handle_get D B (test_key i) handle) (\<lambda>v handle. v = Some (test_value i) \<and> keys_are_there D B is handle)"

text \<open>What the tests of rebuilding do with the first storage before it is dropped.\<close>

definition fill_storage ::
    "'l deps \<Rightarrow> build \<Rightarrow> nat \<Rightarrow> nat \<Rightarrow> 'l storage \<Rightarrow> ('l storage \<Rightarrow> bool) \<Rightarrow> bool" where
  "fill_storage D B n m handle k \<longleftrightarrow>
     unwrap (put_test_keys D B [0..<n] handle) (\<lambda>_ handle.
     unwrap (put_test_keys D B [0..<m] handle) (\<lambda>_ handle.
     unwrap (del_test_keys D B [0..<m] handle) (\<lambda>_ handle. k handle)))"

definition bitcask_rebuilt_keydir_correctly ::
    "'l deps \<Rightarrow> build \<Rightarrow> nat \<Rightarrow> int option list \<Rightarrow> int option list \<Rightarrow> nat \<Rightarrow> nat \<Rightarrow> nat \<Rightarrow> bool" where
  "bitcask_rebuilt_keydir_correctly D B cpus readings readings' h n m \<longleftrightarrow>
     unwrap_some (bitcask_open D B (simple_test_config cpus) readings h empty_fs) (\<lambda>handle fs.
     fill_storage D B n m handle (\<lambda>handle.
     unwrap_some (bitcask_open D B (simple_test_config cpus) readings' h (bitcask_drop handle)) (\<lambda>handle fs.
     keys_are_gone D B [0..<m] handle (\<lambda>handle. keys_are_there D B [m..<n] handle))))"

text \<open>The sums over \<open>get_stats\<close>, as \<open>u64\<close>.\<close>

definition get_stats :: "'l storage \<Rightarrow> (nat \<times> log_statistics) list" where
  "get_stats st = w_stats st"

fun count_keys :: "build \<Rightarrow> (nat \<times> log_statistics) list \<Rightarrow> nat \<Rightarrow> nat \<Rightarrow> (bc_error, nat \<times> nat) result" where
  "count_keys B [] lives deads = Inr (lives, deads)"
| "count_keys B ((_, e) # rest) lives deads =
     and_then (u64_add B lives (live_keys e)) (\<lambda>lives.
     and_then (u64_add B deads (dead_keys e)) (\<lambda>deads. count_keys B rest lives deads))"

definition stats_are :: "build \<Rightarrow> 'l storage \<Rightarrow> nat \<Rightarrow> nat \<Rightarrow> bool" where
  "stats_are B handle lives deads \<longleftrightarrow> count_keys B (get_stats handle) 0 0 = Inr (lives, deads)"

definition bitcask_rebuilt_stats_correctly ::
    "'l deps \<Rightarrow> build \<Rightarrow> nat \<Rightarrow> int option list \<Rightarrow> int option list \<Rightarrow> nat \<Rightarrow> nat \<Rightarrow> nat \<Rightarrow> bool" where
  "bitcask_rebuilt_stats_correctly D B cpus readings readings' h n m \<longleftrightarrow>
     unwrap_some (bitcask_open D B (simple_test_config cpus) readings h empty_fs) (\<lambda>handle fs.
     fill_storage D B n m handle (\<lambda>handle.
     unwrap_some (bitcask_open D B (simple_test_config cpus) readings' h (bitcask_drop handle)) (\<lambda>handle fs.
     stats_are B handle (n - m) (3 * m))))"

definition bitcask_collect_statistics ::
    "'l deps \<Rightarrow> build \<Rightarrow> nat \<Rightarrow> int option list \<Rightarrow> nat \<Rightarrow> nat \<Rightarrow> nat \<Rightarrow> bool" where
  "bitcask_collect_statistics D B cpus readings h n m \<longleftrightarrow>
     unwrap_some (bitcask_open D B (simple_test_config cpus) readings h empty_fs) (\<lambda>handle fs.
     unwrap (put_test_keys D B [0..<n] handle) (\<lambda>_ handle. stats_are B handle n 0 \<and>
     unwrap (put_test_keys D B [0..<m] handle) (\<lambda>_ handle. stats_are B handle n m \<and>
     unwrap (del_test_keys D B [0..<m] handle) (\<lambda>_ handle. stats_are B handle (n - m) (3 * m)))))"

subsection \<open>Random draws\<close>

lemma unwrapI: "r = (Inr x, s) \<Longrightarrow> k x s \<Longrightarrow> unwrap r k"
  by simp

lemma unwrap_someI: "r = Some (Inr x, s) \<Longrightarrow> k x s \<Longrightarrow> unwrap_some r k"
  by (simp add: unwrap_some_def)

lemma test_config: "concurrency (simple_test_config cpus) = 1" "max_file_size (simple_test_config cpus) < 2 ^ 62"
  by (simp_all add: simple_test_config_def default_config_def set_concurrency_def set_max_file_size_def)

lemma test_open_storage:
  assumes "deps_laws D" and "readings_ok readings" and "n + 1 < 2 ^ 63"
  shows "\<exists>st. bitcask_open D B (simple_test_config cpus) readings h empty_fs = Some (Inr st, files st) \<and> healthy D n st []"
  using healthy_open[OF assms(1) _ test_config(2) assms(3) readings_okD[OF assms(2)], of cpus B h] test_config(1)[of cpus] by auto

lemma test_put:
  assumes "deps_laws D" and "healthy D (Suc n) st xs" and "fits D k (Some v)"
  obtains st' x where "handle_put D B k v st = (Inr (), st')" and "healthy D n st' (xs @ [x])" and "d_key x = k" and "d_value x = Some v"
  using healthy_put[OF assms, of B] by fastforce

lemma test_delete:
  assumes "deps_laws D" and "healthy D (Suc n) st xs" and "fits D k None"
  obtains b st' x where "handle_delete D B k st = (Inr b, st')" and "healthy D n st' (xs @ [x])" and "d_key x = k" and "d_value x = None"
  using healthy_delete[OF assms, of B] by fastforce

lemma test_get:
  assumes "deps_laws D" and "healthy D n st xs"
  obtains st' where "handle_get D B k st = Some (Inr (replay xs (\<lambda>_. None) k), st')" and "healthy D n st' xs"
  using healthy_get[OF assms, of B k] by blast

lemma read_after_write_holds:
  assumes D: "deps_laws D"
  shows "healthy D (length draws) st xs \<Longrightarrow> list_all (\<lambda>(k, v). fits D k (Some v)) draws \<Longrightarrow> read_after_write D B draws st"
proof (induction draws arbitrary: st xs)
  case (Cons d draws)
  obtain k v where d: "d = (k, v)" by fastforce
  from test_put[OF D, of "length draws" st xs k v B] Cons.prems d obtain s1 x where
    1: "handle_put D B k v st = (Inr (), s1)" "healthy D (length draws) s1 (xs @ [x])" "d_key x = k" "d_value x = Some v" by auto
  from test_get[OF D 1(2)] obtain s2 where
    2: "handle_get D B k s1 = Some (Inr (replay (xs @ [x]) (\<lambda>_. None) k), s2)" "healthy D (length draws) s2 (xs @ [x])" .
  from Cons.IH[OF 2(2)] Cons.prems(2) 1 2(1) d show ?case by (simp add: unwrap_some_def)
qed simp

lemma basic_operations_hold:
  assumes D: "deps_laws D"
  shows "healthy D (3 * length draws) st xs \<Longrightarrow>
    list_all (\<lambda>(k, v1, v2). fits D k (Some v1) \<and> fits D k None \<and> fits D k (Some v2)) draws \<Longrightarrow> basic_operations D B draws st"
proof (induction draws arbitrary: st xs)
  case (Cons d draws)
  obtain k v1 v2 where d: "d = (k, v1, v2)" by (cases d) auto
  let ?n = "3 * length draws"
  have "3 * length (d # draws) = Suc (Suc (Suc ?n))" by simp
  with Cons.prems(1) have h: "healthy D (Suc (Suc (Suc ?n))) st xs" by (simp only:)
  have f: "fits D k (Some v1)" "fits D k None" "fits D k (Some v2)" using Cons.prems(2) d by simp_all
  from test_put[OF D h f(1), of B] obtain s1 x1 where
    1: "handle_put D B k v1 st = (Inr (), s1)" "healthy D (Suc (Suc ?n)) s1 (xs @ [x1])" "d_key x1 = k" "d_value x1 = Some v1" .
  from test_get[OF D 1(2)] obtain s2 where
    2: "handle_get D B k s1 = Some (Inr (replay (xs @ [x1]) (\<lambda>_. None) k), s2)" "healthy D (Suc (Suc ?n)) s2 (xs @ [x1])" .
  from test_delete[OF D 2(2) f(2), of B] obtain b s3 x2 where
    3: "handle_delete D B k s2 = (Inr b, s3)" "healthy D (Suc ?n) s3 ((xs @ [x1]) @ [x2])" "d_key x2 = k" "d_value x2 = None" .
  from test_get[OF D 3(2)] obtain s4 where
    4: "handle_get D B k s3 = Some (Inr (replay ((xs @ [x1]) @ [x2]) (\<lambda>_. None) k), s4)" "healthy D (Suc ?n) s4 ((xs @ [x1]) @ [x2])" .
  from test_put[OF D 4(2) f(3), of B] obtain s5 x3 where
    5: "handle_put D B k v2 s4 = (Inr (), s5)" "healthy D ?n s5 (((xs @ [x1]) @ [x2]) @ [x3])" "d_key x3 = k" "d_value x3 = Some v2" .
  from test_get[OF D 5(2)] obtain s6 where
    6: "handle_get D B k s5 = Some (Inr (replay (((xs @ [x1]) @ [x2]) @ [x3]) (\<lambda>_. None) k), s6)"
      "healthy D ?n s6 (((xs @ [x1]) @ [x2]) @ [x3])" .
  from Cons.IH[OF 6(2)] Cons.prems(2) d 1(1,3,4) 2(1) 3(1,3,4) 4(1) 5(1,3,4) 6(1) show ?case by (simp add: unwrap_some_def)
qed simp

subsection \<open>Numbered keys\<close>

text \<open>\<open>ys\<close> is the entries for the keys of \<open>is\<close>, with the values \<open>g\<close>.\<close>

definition entries_for :: "(nat \<Rightarrow> bytes option) \<Rightarrow> nat list \<Rightarrow> data_entry list \<Rightarrow> bool" where
  "entries_for g is ys \<longleftrightarrow> list_all2 (\<lambda>i y. d_key y = test_key i \<and> d_value y = g i) is ys"

lemma entries_for_length: "entries_for g is ys \<Longrightarrow> length ys = length is"
  by (simp add: entries_for_def list_all2_lengthD)

lemma test_key_inject [simp]: "test_key i = test_key j \<longleftrightarrow> i = j"
  by (simp add: test_key_def)

lemma replay_entries_for:
  "entries_for g is ys \<Longrightarrow> replay ys m (test_key j) = (if j \<in> set is then g j else m (test_key j))"
  "entries_for g is ys \<Longrightarrow> k \<notin> range test_key \<Longrightarrow> replay ys m k = m k"
proof (induction "is" arbitrary: ys m)
  case (Cons i "is")
  { case 1
    then obtain y zs where "ys = y # zs" "d_key y = test_key i" "d_value y = g i" "entries_for g is zs"
      by (auto simp: entries_for_def list_all2_Cons1)
    with Cons.IH(1) show ?case by simp
  next
    case 2
    then obtain y zs where "ys = y # zs" "d_key y = test_key i" "entries_for g is zs"
      by (auto simp: entries_for_def list_all2_Cons1)
    with Cons.IH(2)[of zs] 2(2) show ?case by auto }
qed (simp_all add: entries_for_def)

definition key_fits :: "'l deps \<Rightarrow> nat \<Rightarrow> bool" where
  "key_fits D i \<longleftrightarrow> fits D (test_key i) (Some (test_value i)) \<and> fits D (test_key i) None"

lemma put_test_keys_hold:
  assumes D: "deps_laws D"
  shows "healthy D (length is + n) st xs \<Longrightarrow> list_all (key_fits D) is \<Longrightarrow>
    \<exists>st' ys. put_test_keys D B is st = (Inr (), st') \<and> healthy D n st' (xs @ ys) \<and> entries_for (\<lambda>i. Some (test_value i)) is ys"
proof (induction "is" arbitrary: st xs)
  case (Cons i "is")
  from test_put[OF D, of "length is + n" st xs "test_key i" "test_value i" B] Cons.prems obtain s1 x where
    1: "handle_put D B (test_key i) (test_value i) st = (Inr (), s1)" "healthy D (length is + n) s1 (xs @ [x])"
      "d_key x = test_key i" "d_value x = Some (test_value i)" by (auto simp: key_fits_def)
  from Cons.IH[OF 1(2)] Cons.prems(2) obtain st' ys where "put_test_keys D B is s1 = (Inr (), st')" "healthy D n st' ((xs @ [x]) @ ys)"
    "entries_for (\<lambda>i. Some (test_value i)) is ys" by auto
  with 1 show ?case by (intro exI[of _ st'] exI[of _ "x # ys"]) (simp add: entries_for_def)
qed (simp add: entries_for_def)

lemma del_test_keys_hold:
  assumes D: "deps_laws D"
  shows "healthy D (length is + n) st xs \<Longrightarrow> list_all (key_fits D) is \<Longrightarrow>
    \<exists>st' ys. del_test_keys D B is st = (Inr (), st') \<and> healthy D n st' (xs @ ys) \<and> entries_for (\<lambda>i. None) is ys"
proof (induction "is" arbitrary: st xs)
  case (Cons i "is")
  from test_delete[OF D, of "length is + n" st xs "test_key i" B] Cons.prems obtain b s1 x where
    1: "handle_delete D B (test_key i) st = (Inr b, s1)" "healthy D (length is + n) s1 (xs @ [x])"
      "d_key x = test_key i" "d_value x = None" by (auto simp: key_fits_def)
  from Cons.IH[OF 1(2)] Cons.prems(2) obtain st' ys where "del_test_keys D B is s1 = (Inr (), st')" "healthy D n st' ((xs @ [x]) @ ys)"
    "entries_for (\<lambda>i. None) is ys" by auto
  with 1 show ?case by (intro exI[of _ st'] exI[of _ "x # ys"]) (simp add: entries_for_def)
qed (simp add: entries_for_def)

text \<open>The entries \<open>xs\<close> leave the keys from \<open>m\<close> to \<open>n\<close>.\<close>

definition leaves :: "nat \<Rightarrow> nat \<Rightarrow> data_entry list \<Rightarrow> bool" where
  "leaves m n xs \<longleftrightarrow> (\<forall>j. replay xs (\<lambda>_. None) (test_key j) = (if m \<le> j \<and> j < n then Some (test_value j) else None)) \<and>
     (\<forall>k. k \<notin> range test_key \<longrightarrow> replay xs (\<lambda>_. None) k = None)"

lemma leaves_put: "leaves 0 n xs \<Longrightarrow> m \<le> n \<Longrightarrow> entries_for (\<lambda>i. Some (test_value i)) [0..<m] ys \<Longrightarrow> leaves 0 n (xs @ ys)"
  by (auto simp: leaves_def replay_entries_for)

lemma leaves_first: "entries_for (\<lambda>i. Some (test_value i)) [0..<n] ys \<Longrightarrow> leaves 0 n ys"
  by (auto simp: leaves_def replay_entries_for)

lemma leaves_del: "leaves 0 n xs \<Longrightarrow> entries_for (\<lambda>i. None) [0..<m] ys \<Longrightarrow> leaves m n (xs @ ys)"
  by (auto simp: leaves_def replay_entries_for)

lemma leaves_card:
  assumes "leaves m n xs"
  shows "card (dom (replay xs (\<lambda>_. None))) = n - m"
proof -
  have "dom (replay xs (\<lambda>_. None)) = test_key ` {m..<n}"
  proof (intro set_eqI iffI)
    fix k assume "k \<in> dom (replay xs (\<lambda>_. None))"
    then have k: "replay xs (\<lambda>_. None) k \<noteq> None" by (simp add: domIff)
    have "k \<in> range test_key"
    proof (rule ccontr)
      assume "k \<notin> range test_key"
      with assms have "replay xs (\<lambda>_. None) k = None" unfolding leaves_def by blast
      with k show False ..
    qed
    then obtain j where j: "k = test_key j" by blast
    have "replay xs (\<lambda>_. None) (test_key j) = (if m \<le> j \<and> j < n then Some (test_value j) else None)"
      using assms unfolding leaves_def by blast
    with j k have "m \<le> j \<and> j < n" by (simp split: if_splits)
    with j show "k \<in> test_key ` {m..<n}" by simp
  next
    fix k assume "k \<in> test_key ` {m..<n}"
    then obtain j where "k = test_key j" "m \<le> j" "j < n" by auto
    with assms show "k \<in> dom (replay xs (\<lambda>_. None))" by (simp add: leaves_def domIff)
  qed
  moreover have "inj_on test_key {m..<n}" by (simp add: inj_on_def)
  ultimately show ?thesis by (simp add: card_image)
qed

lemma keys_are_gone_holds:
  assumes D: "deps_laws D"
  shows "healthy D c st xs \<Longrightarrow> leaves m n xs \<Longrightarrow> \<forall>i \<in> set is. i < m \<Longrightarrow> (\<And>st. healthy D c st xs \<Longrightarrow> k st) \<Longrightarrow> keys_are_gone D B is st k"
proof (induction "is" arbitrary: st)
  case (Cons i "is")
  from test_get[OF D Cons.prems(1), of B "test_key i"] obtain s1 where
    "handle_get D B (test_key i) st = Some (Inr (replay xs (\<lambda>_. None) (test_key i)), s1)" "healthy D c s1 xs" .
  moreover have "replay xs (\<lambda>_. None) (test_key i) = None" using Cons.prems(2,3) by (simp add: leaves_def)
  ultimately show ?case using Cons.IH[of s1] Cons.prems by (simp add: unwrap_some_def)
qed simp

lemma keys_are_there_holds:
  assumes D: "deps_laws D"
  shows "healthy D c st xs \<Longrightarrow> leaves m n xs \<Longrightarrow> \<forall>i \<in> set is. m \<le> i \<and> i < n \<Longrightarrow> keys_are_there D B is st"
proof (induction "is" arbitrary: st)
  case (Cons i "is")
  from test_get[OF D Cons.prems(1), of B "test_key i"] obtain s1 where
    "handle_get D B (test_key i) st = Some (Inr (replay xs (\<lambda>_. None) (test_key i)), s1)" "healthy D c s1 xs" .
  moreover have "replay xs (\<lambda>_. None) (test_key i) = Some (test_value i)" using Cons.prems(2,3) by (simp add: leaves_def)
  ultimately show ?case using Cons.IH[of s1] Cons.prems by (simp add: unwrap_some_def)
qed simp

subsection \<open>Sums of statistics\<close>

lemma count_keys_exact:
  "lives + total_of live_keys ss < 2 ^ 64 \<Longrightarrow> deads + total_of dead_keys ss < 2 ^ 64 \<Longrightarrow>
   count_keys B ss lives deads = Inr (lives + total_of live_keys ss, deads + total_of dead_keys ss)"
proof (induction ss arbitrary: lives deads)
  case (Cons p ss)
  obtain f e where p: "p = (f, e)" by fastforce
  have add: "u64_add B lives (live_keys e) = (Inr (lives + live_keys e) :: (bc_error, nat) result)"
    "u64_add B deads (dead_keys e) = (Inr (deads + dead_keys e) :: (bc_error, nat) result)"
    using Cons.prems p by (simp_all add: total_of_def)
  show ?case using Cons.IH[of "lives + live_keys e" "deads + dead_keys e"] Cons.prems p
    by (simp add: add total_of_def add.assoc)
qed (simp add: total_of_def)

lemma stats_are_healthy:
  assumes D: "deps_laws D" and st: "healthy D c st xs" and l: "leaves m n xs" and small: "length xs < 2 ^ 64"
    and d: "length xs = n - m + d"
  shows "stats_are B st (n - m) d"
proof -
  note t = healthy_totals[OF D st, unfolded leaves_card[OF l]]
  then have "total_of dead_keys (w_stats st) = d" using d by linarith
  with count_keys_exact[of 0 "w_stats st" 0 B] t small d show ?thesis by (simp add: stats_are_def get_stats_def)
qed

subsection \<open>The tests hold\<close>

lemma fill_storage_holds:
  assumes D: "deps_laws D" and st: "healthy D (n + (m + (m + c))) st []" and m: "m \<le> n" and fit: "list_all (key_fits D) [0..<n]"
    and k: "\<And>st xs. healthy D c st xs \<Longrightarrow> leaves m n xs \<Longrightarrow> length xs = n + m + m \<Longrightarrow> k st"
  shows "fill_storage D B n m st k"
proof -
  have fit': "list_all (key_fits D) [0..<m]" using fit m by (auto simp: list_all_iff)
  from put_test_keys_hold[OF D _ fit, of "m + (m + c)" st "[]" B] st obtain s1 ys1 where
    1: "put_test_keys D B [0..<n] st = (Inr (), s1)" "healthy D (m + (m + c)) s1 ys1" "entries_for (\<lambda>i. Some (test_value i)) [0..<n] ys1" by auto
  from put_test_keys_hold[OF D _ fit', of "m + c" s1 ys1 B] 1(2) obtain s2 ys2 where
    2: "put_test_keys D B [0..<m] s1 = (Inr (), s2)" "healthy D (m + c) s2 (ys1 @ ys2)" "entries_for (\<lambda>i. Some (test_value i)) [0..<m] ys2" by auto
  from del_test_keys_hold[OF D _ fit', of c s2 "ys1 @ ys2" B] 2(2) obtain s3 ys3 where
    3: "del_test_keys D B [0..<m] s2 = (Inr (), s3)" "healthy D c s3 ((ys1 @ ys2) @ ys3)" "entries_for (\<lambda>i. None) [0..<m] ys3" by auto
  have "leaves m n ((ys1 @ ys2) @ ys3)" by (rule leaves_del[OF leaves_put[OF leaves_first[OF 1(3)] m 2(3)] 3(3)])
  moreover have "length ((ys1 @ ys2) @ ys3) = n + m + m" using 1(3) 2(3) 3(3) by (simp add: entries_for_length)
  ultimately show ?thesis using k[OF 3(2)] 1(1) 2(1) 3(1) by (simp add: fill_storage_def)
qed

lemma reopened_holds:
  assumes D: "deps_laws D" and r: "readings_ok readings" "readings_ok readings'" and m: "m \<le> n" "n < 2 ^ 60"
    and fit: "list_all (key_fits D) [0..<n]"
    and k: "\<And>st xs. healthy D 0 st xs \<Longrightarrow> leaves m n xs \<Longrightarrow> length xs = n + m + m \<Longrightarrow> k st"
  shows "unwrap_some (bitcask_open D B (simple_test_config cpus) readings h empty_fs) (\<lambda>handle fs.
    fill_storage D B n m handle (\<lambda>handle.
    unwrap_some (bitcask_open D B (simple_test_config cpus) readings' h (bitcask_drop handle)) (\<lambda>handle fs. k handle)))"
proof -
  have "n + (m + (m + 1)) + 1 < 2 ^ 63" using m by simp
  from test_open_storage[OF D r(1) this, of B cpus h] obtain st where
    o: "bitcask_open D B (simple_test_config cpus) readings h empty_fs = Some (Inr st, files st)" "healthy D (n + (m + (m + 1))) st []" by blast
  have "fill_storage D B n m st (\<lambda>handle.
    unwrap_some (bitcask_open D B (simple_test_config cpus) readings' h (bitcask_drop handle)) (\<lambda>handle fs. k handle))"
  proof (rule fill_storage_holds[OF D o(2) m(1) fit])
    fix st xs assume st: "healthy D 1 st xs" and xs: "leaves m n xs" "length xs = n + m + m"
    from healthy_reopen[OF D _ _ test_config(2) readings_okD[OF r(2)], of 0 st xs cpus B h] st test_config(1)[of cpus] obtain st' where
      "bitcask_open D B (simple_test_config cpus) readings' h (bitcask_drop st) = Some (Inr st', files st')" "healthy D 0 st' xs" by auto
    with k[OF _ xs] show "unwrap_some (bitcask_open D B (simple_test_config cpus) readings' h (bitcask_drop st)) (\<lambda>handle fs. k handle)"
      by (simp add: unwrap_some_def)
  qed
  with o(1) show ?thesis by (simp add: unwrap_some_def)
qed

lemma rebuilt_keydir:
  assumes "deps_laws D" and "readings_ok readings" and "readings_ok readings'" and "m \<le> n" and "n < 2 ^ 60"
    and "list_all (key_fits D) [0..<n]"
  shows "bitcask_rebuilt_keydir_correctly D B cpus readings readings' h n m"
  unfolding bitcask_rebuilt_keydir_correctly_def
proof (rule reopened_holds[OF assms])
  fix st xs assume st: "healthy D 0 st xs" and xs: "leaves m n xs"
  show "keys_are_gone D B [0..<m] st (\<lambda>handle. keys_are_there D B [m..<n] handle)"
    by (rule keys_are_gone_holds[OF assms(1) st xs]) (auto intro: keys_are_there_holds[OF assms(1) _ xs])
qed

lemma rebuilt_stats:
  assumes "deps_laws D" and "readings_ok readings" and "readings_ok readings'" and "m \<le> n" and "n < 2 ^ 60"
    and "list_all (key_fits D) [0..<n]"
  shows "bitcask_rebuilt_stats_correctly D B cpus readings readings' h n m"
  unfolding bitcask_rebuilt_stats_correctly_def
proof (rule reopened_holds[OF assms])
  fix st xs assume st: "healthy D 0 st xs" and xs: "leaves m n xs" and len: "length xs = n + m + m"
  show "stats_are B st (n - m) (3 * m)"
    by (rule stats_are_healthy[OF assms(1) st xs]) (use len assms(4,5) in auto)
qed

lemma collect_statistics:
  assumes D: "deps_laws D" and r: "readings_ok readings" and m: "m \<le> n" "n < 2 ^ 60" and fit: "list_all (key_fits D) [0..<n]"
  shows "bitcask_collect_statistics D B cpus readings h n m"
proof -
  have "n + (m + (m + 0)) + 1 < 2 ^ 63" using m by simp
  from test_open_storage[OF D r this, of B cpus h] obtain st where
    o: "bitcask_open D B (simple_test_config cpus) readings h empty_fs = Some (Inr st, files st)" "healthy D (n + (m + (m + 0))) st []" by blast
  have fit': "list_all (key_fits D) [0..<m]" using fit m by (auto simp: list_all_iff)
  from put_test_keys_hold[OF D _ fit, of "m + (m + 0)" st "[]" B] o(2) obtain s1 ys1 where
    1: "put_test_keys D B [0..<n] st = (Inr (), s1)" "healthy D (m + (m + 0)) s1 ys1" "entries_for (\<lambda>i. Some (test_value i)) [0..<n] ys1" by auto
  from put_test_keys_hold[OF D _ fit', of "m + 0" s1 ys1 B] 1(2) obtain s2 ys2 where
    2: "put_test_keys D B [0..<m] s1 = (Inr (), s2)" "healthy D (m + 0) s2 (ys1 @ ys2)" "entries_for (\<lambda>i. Some (test_value i)) [0..<m] ys2" by auto
  from del_test_keys_hold[OF D _ fit', of 0 s2 "ys1 @ ys2" B] 2(2) obtain s3 ys3 where
    3: "del_test_keys D B [0..<m] s2 = (Inr (), s3)" "healthy D 0 s3 ((ys1 @ ys2) @ ys3)" "entries_for (\<lambda>i. None) [0..<m] ys3" by auto
  note l = leaves_first[OF 1(3)] leaves_put[OF leaves_first[OF 1(3)] m(1) 2(3)]
    leaves_del[OF leaves_put[OF leaves_first[OF 1(3)] m(1) 2(3)] 3(3)]
  note len = 1(3)[THEN entries_for_length] 2(3)[THEN entries_for_length] 3(3)[THEN entries_for_length]
  have "stats_are B s1 (n - 0) 0" by (rule stats_are_healthy[OF D 1(2) l(1)]) (use len m in auto)
  moreover have "stats_are B s2 (n - 0) m" by (rule stats_are_healthy[OF D 2(2) l(2)]) (use len m in auto)
  moreover have "stats_are B s3 (n - m) (3 * m)" by (rule stats_are_healthy[OF D 3(2) l(3)]) (use len m in auto)
  ultimately show ?thesis using o(1) 1(1) 2(1) 3(1) by (simp add: bitcask_collect_statistics_def unwrap_some_def)
qed

end
