(* ===== verification/TestsProperties.thy ===== *)
theory TestsProperties
  imports TestsNet TestsStorage Demo
begin

section \<open>The tests of the repository hold\<close>

text \<open>
  What the tests of the engine and of the log files check, for every input they may draw and for
  any number of keys. The unit tests of src/net have fixed inputs; they are the lemmas of
  \<open>TestsNet\<close>.
\<close>

text \<open>C11: whatever the clock reads and whatever keys and values are drawn, and for any number \<open>n\<close> of keys of
  which \<open>m\<close> are overwritten and deleted, the tests of the engine pass: a put is read back, a deleted
  key is gone, a storage that was dropped and opened again has exactly the other keys, and the
  statistics, of the first storage and of the rebuilt one, add up to \<open>n - m\<close> live and \<open>3 * m\<close> dead entries.\<close>

theorem engine_tests_hold:
  assumes "deps_laws D" and "readings_ok readings" and "readings_ok readings'"
    and "m \<le> n" and "n < 2 ^ 60" and "list_all (key_fits D) [0..<n]"
    and "list_all (\<lambda>(k, v1, v2). fits D k (Some v1) \<and> fits D k None \<and> fits D k (Some v2)) draws" and "length draws < 2 ^ 60"
    and "list_all (\<lambda>(k, v). fits D k (Some v)) draws'" and "length draws' < 2 ^ 60"
  shows "bitcask_basic_operations D B cpus readings h draws \<and>
    bitcask_sequential_read_after_write D B cpus readings h draws' \<and>
    bitcask_rebuilt_keydir_correctly D B cpus readings readings' h n m \<and>
    bitcask_rebuilt_stats_correctly D B cpus readings readings' h n m \<and>
    bitcask_collect_statistics D B cpus readings h n m"
proof (intro conjI)
  have small: "3 * length draws + 1 < 2 ^ 63" "length draws' + 1 < 2 ^ 63" using assms(8,10) by simp_all
  from test_open_storage[OF assms(1,2) small(1), of B cpus h] basic_operations_hold[OF assms(1) _ assms(7)]
  show "bitcask_basic_operations D B cpus readings h draws" by (auto simp: bitcask_basic_operations_def unwrap_some_def)
  from test_open_storage[OF assms(1,2) small(2), of B cpus h] read_after_write_holds[OF assms(1) _ assms(9)]
  show "bitcask_sequential_read_after_write D B cpus readings h draws'"
    by (auto simp: bitcask_sequential_read_after_write_def unwrap_some_def)
qed (intro rebuilt_keydir[OF assms(1-6)] rebuilt_stats[OF assms(1-6)] collect_statistics[OF assms(1,2,4-6)])+

text \<open>The numbers of the tests, with the codec of \<open>Bincode\<close>.\<close>

lemma codec_fits: "length k + (case v of None \<Rightarrow> 0 | Some x \<Rightarrow> length x) < 2 ^ 61 \<Longrightarrow> fits codec k v"
  by (auto simp: fits_def bincode_lru_def put_data_def put_bytes_def put_u64_def split: option.splits)

lemma codec_key_fits: "n \<le> 10 ^ 5 \<Longrightarrow> list_all (key_fits codec) [0..<n]"
proof -
  assume n: "n \<le> 10 ^ 5"
  have "key_fits codec i" if "i < n" for i
    using length_dec_nat_le[of i 5] that n by (auto simp: key_fits_def test_key_def test_value_def intro!: codec_fits)
  then show ?thesis by (simp add: list_all_iff)
qed

theorem engine_tests_hold_witness:
  "bitcask_rebuilt_keydir_correctly codec dev_build 8 [Some 5] [Some 9] 0 (10000 :: nat) 5000 \<and>
   bitcask_rebuilt_stats_correctly codec dev_build 8 [Some 5] [Some 9] 0 (10000 :: nat) 5000 \<and>
   bitcask_collect_statistics codec dev_build 8 [Some 5] 0 (10000 :: nat) 5000"
proof -
  have r: "readings_ok [Some 5]" "readings_ok [Some 9]" by (simp_all add: readings_ok_def in_i64_def)
  have d: "list_all (\<lambda>(k, v1, v2). fits codec k (Some v1) \<and> fits codec k None \<and> fits codec k (Some v2)) [([1], [], [2])]"
    "list_all (\<lambda>(k, v). fits codec k (Some v)) [([1], [3 :: byte])]" by (simp_all add: codec_fits)
  show ?thesis
    using engine_tests_hold[OF bincode.deps_laws_axioms r, of 5000 10000, OF _ _ codec_key_fits d(1) _ d(2), of dev_build 8 0]
    by (simp del: upt_conv_Cons)
qed

text \<open>C12: whatever entries are drawn, the tests of the log files pass: the positions of appended entries
  follow each other, a reader reads them back, also those appended after it mapped the file, an
  iterator returns them all with their positions, and the ids of the data files in a directory with
  hint files between them are found in order.\<close>

theorem log_tests_hold:
  assumes "\<And>v rest. in_i64 (int (length v)) \<Longrightarrow> dec (enc v @ rest) = Inr (v, length (enc v))"
    and "in_i64 (int (length buf))" and "4 * length (enc buf) < 2 ^ 63"
    and "\<forall>v \<in> set entries. in_i64 (int (length v))" and "length (concat (map enc entries)) < 2 ^ 63" and "n < 2 ^ 62"
  shows "writer_position_updated_after_write B enc buf \<and> reader_reads_entry_written_by_writer B enc dec buf \<and>
    reader_should_remap_disk_when_file_changed B enc dec buf \<and>
    reader_iterates_entries_written_by_writer B enc dec entries \<and> fileids_sorted_correctly n coin"
proof -
  have codec: "vec_codec enc dec" using assms(1) by (rule vec_codec.intro)
  have "2 * length (enc buf) < 2 ^ 63" using assms(3) by simp
  with vec_codec.writer_test[OF codec assms(2)] vec_codec.reader_test[OF codec assms(2)]
    vec_codec.remap_test[OF codec assms(2,3)] vec_codec.iterate_test[OF codec assms(4,5)] fileids_sorted[OF assms(6)]
  show ?thesis by blast
qed

theorem log_tests_hold_witness:
  "reader_should_remap_disk_when_file_changed release_build put_bytes (decode_bytes (demand_vec Give)) [7, 8] \<and>
   reader_iterates_entries_written_by_writer release_build put_bytes (decode_bytes (demand_vec Give)) [[1], [], [2, 3]] \<and>
   fileids_sorted_correctly 10000 even"
proof -
  have l: "length (put_bytes v) = 8 + length v" for v by (simp add: put_bytes_def put_u64_def)
  have "in_i64 (int (length [7, 8 :: byte]))" "\<forall>v \<in> set [[1 :: byte], [], [2, 3]]. in_i64 (int (length v))"
    by (simp_all add: in_i64_def)
  from log_tests_hold[of "decode_bytes (demand_vec Give)" put_bytes, OF bincode_vec.dec_enc this(1) _ this(2), of 10000 release_build even]
  show ?thesis by (simp add: l)
qed

end
