(* ===== verification/Spec2Isabelle.thy ===== *)
theory Spec2Isabelle
  imports SystemProperties BufProperties TestsProperties
begin

text \<open>
  A model of a key-value server in Rust: a storage engine of append-only log files (Bitcask) below
  a server and a client that speak the Redis serialization protocol (RESP). The definitions follow
  the source function by function; the theorems are in \<open>NetProperties\<close>, \<open>StorageProperties\<close>,
  \<open>ConcurrentProperties\<close>, \<open>SystemProperties\<close>, \<open>BufProperties\<close> and \<open>TestsProperties\<close>.

  The program. \<open>src/net/server.rs\<close> accepts connections, at most \<open>max_connections\<close> at a time, and
  runs a handler for each. A handler reads frames (\<open>connection.rs\<close>, \<open>frame.rs\<close>), turns them into
  commands (\<open>command.rs\<close>), applies these to a \<open>KeyValueStorage\<close> (\<open>src/storage.rs\<close>) and writes the
  replies. The engine (\<open>src/storage/bitcask.rs\<close>) keeps in memory a keydir that leads each key to an
  entry in a data file. A writer behind a mutex (\<open>writer.rs\<close>) appends entries to the active file,
  changes the active file when it is full, counts live and dead entries of every file and merges
  files; a pool of readers (\<open>reader.rs\<close>, \<open>log.rs\<close>) reads through cached memory maps. Opening
  rebuilds the keydir from hint and data files, and two background tasks merge and sync. \<open>src/bin\<close>
  holds a daemon and a command line client.

  Common ground. \<open>Prelude\<close>: bytes; a result is a sum whose left side is an error or a panic, so that
  every error return, failing index, failed assertion and checked overflow is a value; \<open>and_then\<close>
  and \<open>try_op\<close> are the question mark, without and with a state. A \<open>build\<close> says whether overflow
  panics or wraps. \<open>Utf8\<close>, \<open>Decimal\<close>: UTF-8 validation, decimal text. \<open>F64\<close>: the few operations on
  doubles that the merge policy needs, as rounded rationals.

  The network layer. \<open>Frame\<close> (\<open>frame.rs\<close>): \<open>check\<close>, \<open>parse\<close>, \<open>get_integer\<close> and the readers below
  them on a buffer and an offset; \<open>FrameInteger\<close>, \<open>FrameFacts\<close>, \<open>FrameSafety\<close>, \<open>FrameEncode\<close>: the
  value of an integer line on every branch, bounds and prefixes, absence of panics, the wire
  encoding. \<open>Connection\<close>, \<open>ConnectionRead\<close> (\<open>connection.rs\<close>): reading and writing over a stream given
  by its operations, the locales \<open>buffered_stream\<close> and \<open>duplex_stream\<close>. \<open>Command\<close>, \<open>CommandFacts\<close>
  (\<open>command.rs\<close> and the files below it): parsing, conversion, application; the locale \<open>kv_store\<close>
  holds the promises of \<open>KeyValueStorage\<close> over an abstract store, which bind the operations that
  succeed, and \<open>reliable_store\<close> those of an engine that has room for a number of operations and
  carries them out. A \<open>kv_get\<close> that is \<open>None\<close> does not return: \<open>Handle::get\<close> spins while the pool of
  readers is empty, so a command, a handler and a whole server can hang in a GET. \<open>Server\<close> (\<open>server.rs\<close>,
  \<open>shutdown.rs\<close>), \<open>Serving\<close>: the accept loop, the handler and the permits as a step relation; the
  locale \<open>serving\<close> joins stream and engine; it gives what a handler that returns has done when the
  connection ends and when a shutdown signal comes; over a reliable engine (\<open>reliable_serving\<close>) the
  handler does return. \<open>Client\<close> (\<open>client.rs\<close>). \<open>MemStream\<close>: a stream and an engine
  in memory that discharge the locales. \<open>Sessions\<close>: the commands of several clients, whose
  operations on the engine interleave by a schedule; GET and SET are one operation each, DEL is
  one for each key. \<open>ManyClients\<close>: any number of handlers with their connections on one engine,
  each cut into reading, the operations of the command and replying, with shutdown signals; a
  handler that is alone is \<open>handler_run\<close>. \<open>ManyServed\<close>: the log of all operations, and that it
  explains what every connection is told. \<open>WholeServer\<close> (\<open>server.rs\<close>): the accept loop with its
  backoff and permits, the spawned handlers and their drop, the shutdown and the wait for the last
  handler, as one step relation \<open>whole_step\<close>; \<open>WholeServed\<close>: its invariant, what the connections of
  the whole server are told, and that from every state it reaches some run exits, or comes to a GET
  that hangs.

  The engine's data. \<open>FileSystem\<close>: one directory of files, where a list of faults decides which of
  the coming system calls fail and how much a failing write has written. \<open>Deps\<close>: log entries, and
  the crates bincode and lru as a record of functions, whose documented laws are the locale
  \<open>deps_laws\<close>; \<open>Bincode\<close> gives concrete ones and discharges it. Decoding can end in \<open>Oversized\<close>: the
  file claims a length that no buffer can have; the iterator then panics, as the decoder does when
  it makes its buffer that long. \<open>FileNames\<close> (\<open>utils.rs\<close>), \<open>Log\<close>
  (\<open>log.rs\<close>, \<open>bufio.rs\<close>), \<open>StoreConfig\<close> (\<open>config.rs\<close>), \<open>Writer\<close> (\<open>writer.rs\<close>, \<open>context.rs\<close>): the record
  \<open>storage\<close> is all of \<open>Context\<close>, \<open>Writer\<close>, the pool of readers and the world they act on. \<open>Bitcask\<close>
  (\<open>bitcask.rs\<close>, \<open>reader.rs\<close>): handles, recovery, opening and closing. \<open>Background\<close>: the periodic
  tasks next to the clients as a step relation.

  What is proved of the engine. \<open>StorageInv\<close> defines the store a storage stands for, \<open>abs_store\<close>, and
  the invariant \<open>storage_inv\<close> of keydir, files, writer and cached readers; \<open>StorageOps\<close> what log
  operations change; \<open>StorageRefine\<close> that put, delete and get refine the operations of a finite
  map, on failure too, which makes the engine an instance of \<open>kv_store\<close>. \<open>Statistics\<close>: the counters
  are exact, so they neither overflow nor underflow. \<open>Recovery\<close>: rebuilding replays the entries on
  disk. \<open>Durability\<close>, \<open>Reopen\<close>: a \<open>durable\<close> storage stays one, and opening its files again gives the
  same store, also after a write was cut off. A durable storage has no hint files and no rest of a
  failed write in its buffer: it was never merged, and all its writes succeeded. This is the scope
  of all properties about reopening, for a merge can lose data (below). \<open>logged\<close> names the entries its files hold. \<open>Progress\<close>:
  puts and deletes succeed when no system call fails. \<open>Healthy\<close>: storages on a system without
  failures, with room for \<open>n\<close> writes: any run of puts, deletes, gets and syncs on one succeeds and answers as a finite
  map does; what their statistics add up to. \<open>Rebuilding\<close>: opening ends on
  any bytes (locale \<open>consuming\<close>). \<open>MergeRefine\<close>, \<open>MergeStore\<close>: the loop invariant of a merge and that
  it keeps the store. \<open>MergePolicy\<close>: what is merged and when. \<open>Demo\<close>: concrete storages on which the
  witnesses run. The last section of \<open>StorageProperties\<close> shows by evaluation where the engine loses
  data: stale positions in hint files, tombstones dropped by a merge, an active file that could
  not be created, an ignored flush error, files left behind by a failed merge.

  Gets next to the writer. \<open>Handle::get\<close> does not take the writer's mutex. \<open>Concurrent\<close> cuts a get at
  every access to what is shared (\<open>get_at\<close>, \<open>get_step\<close>) and the writer between appending and
  indexing, and in a merge between copying, every keydir entry moved, every file removed and the
  new active file. \<open>SkipMap::insert\<close> removes the entry of a key that is there before it inserts the
  new one, so a replacement is two steps, \<open>PutUnlink\<close> or \<open>MergeUnlink\<close> and the insertion, and a lookup
  between them finds nothing. \<open>system_step\<close> interleaves any number of gets with one writer. \<open>ConcurrentGets\<close> has
  what a get relies on and what it can end with, \<open>ConcurrentWriter\<close> the invariant of the steps of
  the writer, in the middle of a merge too, \<open>ConcurrentPaths\<close> the induction over paths,
  \<open>ConcurrentRuns\<close> an executable system and the runs that are the whole operations. \<open>TornWrites\<close> cuts
  an append into two writes, as the \<open>BufWriter\<close> does with long entries. \<open>ConcurrentProperties\<close>: a get
  returns the value its key had at its lookup, except that it finds nothing while the entry of the
  key is being replaced, that it can lose a race with a merge, and except behind a torn append.

  Buffers. \<open>Log\<close> appends an entry in one piece. \<open>BufIo\<close> has the writer as it is (\<open>bufio.rs\<close> over the
  \<open>BufWriter\<close> of the standard library): the serializer hands over an entry in pieces, the buffer has a
  capacity, and a system call may write less than it was given, be interrupted or fail.
  \<open>BufRead\<close> has the reader: a decoder is a tree of demands for bytes, read through a \<open>BufReader\<close> from
  a file that may return less than was asked for; \<open>BufCodec\<close> the decoders of bincode in that form.
  \<open>BufProperties\<close>: append in pieces is append, the iterator reads what is in the file, and an append
  of a long entry that fails in the middle makes what is appended behind it unreadable.

  The tests of the repository. \<open>TestsNet\<close>: the unit tests of \<open>frame.rs\<close>, \<open>command.rs\<close> and \<open>connection.rs\<close>
  under their names, which hold of the model. \<open>TestsLog\<close> (\<open>log.rs\<close>, \<open>utils.rs\<close>; locale \<open>vec_codec\<close>) and
  \<open>TestsStorage\<close> (\<open>bitcask.rs\<close>): the property tests as predicates on what they draw;
  \<open>TestsProperties\<close>: they hold for every draw and any number of keys.

  The binaries. \<open>Binaries\<close> (\<open>src/bin/cli.rs\<close>, \<open>src/bin/svr.rs\<close>, \<open>src/conf.rs\<close>): \<open>cli_main\<close> and \<open>svr_main\<close> from
  the parsed arguments on. \<open>SystemProperties\<close> joins everything: the line the client prints is the
  one the abstract store gives; what the daemon served is there when it starts again; one
  order of operations explains the answers to all connections.

  Bounds and loops. Lengths and positions are \<open>nat\<close> with the range of \<open>u64\<close> or \<open>usize\<close> written
  out. Files and the number of inodes stay below \<open>2 ^ 63\<close>, as offsets do in the operating system.
  The loops over log entries and over frames from a stream are partial functions whose value
  \<open>None\<close> is a loop that does not end; that they return is proved. \<open>handle_get\<close> is \<open>None\<close> when it would
  spin on an empty pool: a reader is lost when a get panics. The round bound of the handler models a
  shutdown signal that arrives while it waits.

  What is not modelled. Parsing of arguments and of configuration files (clap, config, serde),
  logging and the benchmarks. The tokio runtime: tasks are steps. Next to gets, a lookup, a removal
  and the insertion of a key that is absent are atomic in the keydir, as a \<open>SkipMap\<close> promises; the steps of the writer there are those that succeed, and an
  append is one write except in \<open>TornWrites\<close>; what a get reads through its mapping after its last
  system call is one step. Outside of \<open>BufIo\<close> a \<open>BufWriter\<close> keeps everything until a flush or its
  drop, so a fault is met at the flush, and the rest of an entry that was not written stays in the
  buffer; that is what \<open>BufIo\<close> does with entries that fit into the 8 KiB of the buffer, and
  \<open>BufProperties\<close> shows what happens to longer ones. The implementations of \<open>Seek\<close> are never used. In
  the tests no background task runs. Commands of several
  clients interleave whole operations of the engine; for gets that overlap other operations the
  properties of overlapping gets say how far that is justified: not while the entry of
  their key is being replaced, and not when a merge takes their file. A \<open>HashMap\<close> is iterated in the order of an association list. The path of the data
  directory is fixed. Allocation fails only where the capacity comes from the peer.
\<close>

end
